(* ===== verification/Kernel_Prelude.thy ===== *)
theory Kernel_Prelude
  imports Main "HOL-Library.Word"
begin

text \<open>
  Shared ground of the development: the machine integers of the C sources, the
  error codes of \<^verbatim>\<open>include/errno.h\<close>, the capacity constants of
  \<^verbatim>\<open>include/mconst.h\<close>, C's truncating division, and the named
  collections and list facts that the component theories use.
\<close>

unbundle bit_operations_syntax

section \<open>Collections\<close>

named_theorems kern_simps \<open>effects of the primitive kernel operations on each field\<close>
named_theorems kern_defs \<open>definitions unfolded by the component proofs\<close>

section \<open>Machine integers\<close>

text \<open>
  Unsigned C objects are words.  Signed C objects are integers; the conversions
  to \<^verbatim>\<open>short\<close> and \<^verbatim>\<open>int\<close> that the compiler performs are written out
  (two's complement, as on the i386 target).
\<close>

type_synonym u8 = "8 word"
type_synonym u16 = "16 word"
type_synonym u32 = "32 word"

definition to_s16 :: "int \<Rightarrow> int" where
  "to_s16 i = (i + 2 ^ 15) mod 2 ^ 16 - 2 ^ 15"

definition to_s32 :: "int \<Rightarrow> int" where
  "to_s32 i = (i + 2 ^ 31) mod 2 ^ 32 - 2 ^ 31"

lemma to_s16_id: "- (2 ^ 15) \<le> i \<Longrightarrow> i < 2 ^ 15 \<Longrightarrow> to_s16 i = i"
  by (simp add: to_s16_def)

lemma to_s32_id: "- (2 ^ 31) \<le> i \<Longrightarrow> i < 2 ^ 31 \<Longrightarrow> to_s32 i = i"
  by (simp add: to_s32_def)

lemma to_s16_bounds: "- (2 ^ 15) \<le> to_s16 i \<and> to_s16 i < 2 ^ 15"
  by (simp add: to_s16_def)

lemma to_s32_bounds: "- (2 ^ 31) \<le> to_s32 i \<and> to_s32 i < 2 ^ 31"
  by (simp add: to_s32_def)

text \<open>C division of signed integers truncates towards zero.\<close>

definition c_div :: "int \<Rightarrow> int \<Rightarrow> int" where
  "c_div a b = sgn a * sgn b * (\<bar>a\<bar> div \<bar>b\<bar>)"

lemma c_div_nonneg [simp]: "0 \<le> a \<Longrightarrow> 0 < b \<Longrightarrow> c_div a b = a div b"
  by (cases "a = 0") (simp_all add: c_div_def)

section \<open>Error codes and capacities\<close>

text \<open>\<^verbatim>\<open>include/errno.h\<close>\<close>

abbreviation (input) ENOMEM :: int where "ENOMEM \<equiv> - 2"
abbreviation (input) EDISK_READ :: int where "EDISK_READ \<equiv> - 33"
abbreviation (input) EDIR_ENTRY_NOT_FOUND :: int where "EDIR_ENTRY_NOT_FOUND \<equiv> - 37"
abbreviation (input) EDIR_FULL :: int where "EDIR_FULL \<equiv> - 38"
abbreviation (input) EDIR_NOT_EMPTY :: int where "EDIR_NOT_EMPTY \<equiv> - 40"
abbreviation (input) ENO_DISK_SPACE :: int where "ENO_DISK_SPACE \<equiv> - 41"
abbreviation (input) ENOT_A_DIRECTORY :: int where "ENOT_A_DIRECTORY \<equiv> - 42"
abbreviation (input) EINVALID_ARGUMENT :: int where "EINVALID_ARGUMENT \<equiv> - 52"
abbreviation (input) ELOCK_SUCCESS :: int where "ELOCK_SUCCESS \<equiv> 0"
abbreviation (input) ELOCK_FAILURE :: int where "ELOCK_FAILURE \<equiv> - 62"
abbreviation (input) ELOCK_NOTOWNED :: int where "ELOCK_NOTOWNED \<equiv> - 63"
abbreviation (input) EMEMCOPY :: int where "EMEMCOPY \<equiv> - 78"
abbreviation (input) ETIMEDOUT :: int where "ETIMEDOUT \<equiv> - 95"
abbreviation (input) ESEMNOTFOUND :: int where "ESEMNOTFOUND \<equiv> - 96"
abbreviation (input) EINVALIDADDRESS :: int where "EINVALIDADDRESS \<equiv> - 97"
abbreviation (input) ERANGE :: int where "ERANGE \<equiv> - 107"
abbreviation (input) EINVALIDOFFSET :: int where "EINVALIDOFFSET \<equiv> - 112"

text \<open>\<^verbatim>\<open>include/mconst.h\<close>\<close>

abbreviation (input) MAXREADYQ :: int where "MAXREADYQ \<equiv> 32"
abbreviation (input) MAXSEM :: int where "MAXSEM \<equiv> 50"
abbreviation (input) TIME_QUANTUM :: int where "TIME_QUANTUM \<equiv> 100"

section \<open>Lists and maps\<close>

lemma distinct_split_unique:
  "distinct (as @ x # bs) \<Longrightarrow> x \<notin> set as \<and> x \<notin> set bs"
  by auto

lemma remove1_middle [simp]:
  "x \<notin> set as \<Longrightarrow> remove1 x (as @ x # bs) = as @ bs"
  by (simp add: remove1_append)

lemma last_snoc_option: "(if xs @ [x] = [] then None else Some (last (xs @ [x]))) = Some x"
  by simp

end
