(* ===== verification/Dlist_Heap.thy ===== *)
theory Dlist_Heap
  imports Kernel_Prelude
begin

text \<open>
  Doubly linked lists in a store.  The kernel threads every queue through pairs of
  pointer fields (\<^verbatim>\<open>kt_qnext\<close>/\<^verbatim>\<open>kt_qprev\<close> for ready and sleep queues,
  \<^verbatim>\<open>sl_next\<close>/\<^verbatim>\<open>sl_prev\<close> for owned synchronisation objects,
  \<^verbatim>\<open>free_list_next\<close>/\<^verbatim>\<open>free_list_prev\<close> for buffers,
  \<^verbatim>\<open>timer_next\<close>/\<^verbatim>\<open>timer_prev\<close> for timers).  This theory says when a pair
  of pointer functions represents a list, how the three pointer manipulations of
  the sources (append at the tail, insert at the head, unlink) act on the
  represented list, and gives the contract of a family of queues over shared links
  as a locale.
\<close>

section \<open>Segments and lists\<close>

text \<open>
  \<open>dls nx pv p h xs l n\<close>: starting from the pointer \<open>h\<close>, whose predecessor is
  \<open>p\<close>, the links run through \<open>xs\<close>, end in the last element \<open>l\<close> and
  continue with \<open>n\<close>.
\<close>

primrec dls :: "('a \<Rightarrow> 'a option) \<Rightarrow> ('a \<Rightarrow> 'a option) \<Rightarrow> 'a option \<Rightarrow> 'a option
    \<Rightarrow> 'a list \<Rightarrow> 'a option \<Rightarrow> 'a option \<Rightarrow> bool" where
  "dls nx pv p h [] l n \<longleftrightarrow> h = n \<and> l = p"
| "dls nx pv p h (x # xs) l n \<longleftrightarrow> h = Some x \<and> pv x = p \<and> dls nx pv (Some x) (nx x) xs l n"

definition dll :: "('a \<Rightarrow> 'a option) \<Rightarrow> ('a \<Rightarrow> 'a option) \<Rightarrow> 'a option \<Rightarrow> 'a list
    \<Rightarrow> 'a option \<Rightarrow> bool" where
  "dll nx pv h xs l \<longleftrightarrow> distinct xs \<and> dls nx pv None h xs l None"

lemma dls_append:
  "dls nx pv p h (xs @ ys) l n \<longleftrightarrow> (\<exists>m k. dls nx pv p h xs m k \<and> dls nx pv m k ys l n)"
  by (induction xs arbitrary: p h) auto

lemma dls_frame:
  "(\<And>x. x \<in> set xs \<Longrightarrow> nx' x = nx x \<and> pv' x = pv x) \<Longrightarrow>
   dls nx' pv' p h xs l n = dls nx pv p h xs l n"
  by (induction xs arbitrary: p h) auto

lemma dls_last:
  "dls nx pv p h xs l n \<Longrightarrow> l = (if xs = [] then p else Some (last xs))"
  by (induction xs arbitrary: p h) (auto split: if_splits)

lemma dls_head:
  "dls nx pv p h xs l n \<Longrightarrow> h = (if xs = [] then n else Some (hd xs))"
  by (cases xs) auto

text \<open>Redirecting the pointer behind the last element, or before the first.\<close>

lemma dls_set_next:
  assumes "dls nx pv p h (xs @ [x]) l n" "x \<notin> set xs"
  shows "dls (nx(x := n')) pv p h (xs @ [x]) l n'"
proof -
  from assms(1) obtain m k where a: "dls nx pv p h xs m k" and b: "dls nx pv m k [x] l n"
    by (auto simp: dls_append)
  from assms(2) a have "dls (nx(x := n')) pv p h xs m k"
    by (subst dls_frame[where nx = nx and pv = pv]) auto
  with b show ?thesis by (auto simp: dls_append)
qed

lemma dls_set_prev:
  assumes "dls nx pv p h (x # xs) l n" "x \<notin> set xs"
  shows "dls nx (pv(x := p')) p' h (x # xs) l n"
proof -
  from assms have "dls nx pv (Some x) (nx x) xs l n" and h: "h = Some x" by auto
  then have "dls nx (pv(x := p')) (Some x) (nx x) xs l n"
    using assms(2) by (subst dls_frame[where nx = nx and pv = pv]) auto
  with h show ?thesis by simp
qed

lemma dll_Nil [simp]: "dll nx pv h [] l \<longleftrightarrow> h = None \<and> l = None"
  by (auto simp: dll_def)

lemma dll_distinct: "dll nx pv h xs l \<Longrightarrow> distinct xs"
  by (simp add: dll_def)

lemma dll_head: "dll nx pv h xs l \<Longrightarrow> h = (if xs = [] then None else Some (hd xs))"
  by (auto simp: dll_def dest: dls_head)

lemma dll_tail: "dll nx pv h xs l \<Longrightarrow> l = (if xs = [] then None else Some (last xs))"
  by (auto simp: dll_def dest: dls_last)

lemma dll_frame:
  "(\<And>x. x \<in> set xs \<Longrightarrow> nx' x = nx x \<and> pv' x = pv x) \<Longrightarrow> dll nx' pv' h xs l = dll nx pv h xs l"
  unfolding dll_def by (subst dls_frame[where nx = nx and pv = pv]) auto

text \<open>The list a head pointer denotes is determined by the links.\<close>

lemma dls_unique:
  "dls nx pv p h xs l None \<Longrightarrow> dls nx pv p h ys m None \<Longrightarrow> xs = ys"
proof (induction xs arbitrary: p h ys)
  case Nil
  then show ?case by (cases ys) auto
next
  case (Cons x xs)
  from Cons.prems obtain zs where ys: "ys = x # zs"
    and "dls nx pv (Some x) (nx x) xs l None" "dls nx pv (Some x) (nx x) zs m None"
    by (cases ys) auto
  from this(2,3) have "xs = zs" by (rule Cons.IH)
  with ys show ?case by simp
qed

lemma dll_unique: "dll nx pv h xs l \<Longrightarrow> dll nx pv h ys m \<Longrightarrow> xs = ys"
  by (auto simp: dll_def intro: dls_unique)

section \<open>Pointer manipulations\<close>

text \<open>Appending behind the tail.\<close>

definition next_append :: "('a \<Rightarrow> 'a option) \<Rightarrow> 'a option \<Rightarrow> 'a \<Rightarrow> 'a \<Rightarrow> 'a option" where
  "next_append nx l t = (case l of None \<Rightarrow> nx(t := None) | Some u \<Rightarrow> (nx(t := None))(u := Some t))"

lemma dll_append:
  assumes q: "dll nx pv h xs l" and t: "t \<notin> set xs"
  shows "dll (next_append nx l t) (pv(t := l)) (if l = None then Some t else h) (xs @ [t]) (Some t)"
proof (cases xs rule: rev_cases)
  case Nil
  with q show ?thesis by (auto simp: dll_def next_append_def)
next
  case (snoc ys u)
  with q have l: "l = Some u" by (auto dest: dll_tail)
  let ?nx = "nx(t := None)" and ?pv = "pv(t := l)"
  have d: "distinct (ys @ [u])" "t \<noteq> u" "t \<notin> set ys" using q t snoc by (auto simp: dll_def)
  have "dls nx pv None h (ys @ [u]) l None" using q snoc by (simp add: dll_def)
  then have "dls ?nx ?pv None h (ys @ [u]) l None"
    using d by (subst dls_frame[where nx = nx and pv = pv]) auto
  then have "dls (?nx(u := Some t)) ?pv None h (ys @ [u]) l (Some t)"
    using d by (intro dls_set_next) auto
  then have "dls (?nx(u := Some t)) ?pv None h ((ys @ [u]) @ [t]) (Some t) None"
    using d unfolding dls_append[of _ _ _ _ "ys @ [u]"] by auto
  with l snoc d show ?thesis by (auto simp: dll_def next_append_def)
qed

text \<open>Inserting in front of the head.\<close>

definition prev_push :: "('a \<Rightarrow> 'a option) \<Rightarrow> 'a option \<Rightarrow> 'a \<Rightarrow> 'a \<Rightarrow> 'a option" where
  "prev_push pv h t = (case h of None \<Rightarrow> pv(t := None) | Some u \<Rightarrow> (pv(t := None))(u := Some t))"

lemma dll_push:
  assumes q: "dll nx pv h xs l" and t: "t \<notin> set xs"
  shows "dll (nx(t := h)) (prev_push pv h t) (Some t) (t # xs) (if h = None then Some t else l)"
proof (cases xs)
  case Nil
  with q show ?thesis by (auto simp: dll_def prev_push_def)
next
  case (Cons u ys)
  with q have h: "h = Some u" by (auto dest: dll_head)
  let ?nx = "nx(t := h)" and ?pv = "pv(t := None)"
  have d: "u \<notin> set ys" "distinct ys" "t \<noteq> u" "t \<notin> set ys" using q t Cons by (auto simp: dll_def)
  have "dls nx pv None h (u # ys) l None" using q Cons by (simp add: dll_def)
  then have "dls ?nx ?pv None h (u # ys) l None"
    using d by (subst dls_frame[where nx = nx and pv = pv]) auto
  then have "dls ?nx (?pv(u := Some t)) (Some t) h (u # ys) l None"
    using d by (intro dls_set_prev) auto
  with h Cons d show ?thesis by (auto simp: dll_def prev_push_def)
qed

text \<open>
  Unlinking an element \<open>t\<close>: the neighbours are joined, a missing neighbour is
  replaced by the head or the tail pointer.
\<close>

definition next_unlink :: "('a \<Rightarrow> 'a option) \<Rightarrow> ('a \<Rightarrow> 'a option) \<Rightarrow> 'a \<Rightarrow> 'a \<Rightarrow> 'a option" where
  "next_unlink nx pv t = (case pv t of None \<Rightarrow> nx | Some p \<Rightarrow> nx(p := nx t))"

definition prev_unlink :: "('a \<Rightarrow> 'a option) \<Rightarrow> ('a \<Rightarrow> 'a option) \<Rightarrow> 'a \<Rightarrow> 'a \<Rightarrow> 'a option" where
  "prev_unlink nx pv t = (case nx t of None \<Rightarrow> pv | Some n \<Rightarrow> pv(n := pv t))"

lemma dll_unlink:
  assumes q: "dll nx pv h xs l" and t: "t \<in> set xs"
    and nx': "\<And>x. x \<noteq> t \<Longrightarrow> nx' x = next_unlink nx pv t x"
    and pv': "\<And>x. x \<noteq> t \<Longrightarrow> pv' x = prev_unlink nx pv t x"
  shows "dll nx' pv' (if pv t = None then nx t else h) (remove1 t xs) (if nx t = None then pv t else l)"
proof -
  from t obtain as bs where xs: "xs = as @ t # bs" by (auto simp: in_set_conv_decomp)
  have d: "t \<notin> set as" "t \<notin> set bs" "distinct as" "distinct bs" "set as \<inter> set bs = {}"
    using q xs by (auto simp: dll_def)
  from q xs obtain m where A: "dls nx pv None h as m (Some t)" and pt: "pv t = m"
    and B: "dls nx pv (Some t) (nx t) bs l None"
    by (auto simp: dll_def dls_append)
  have m: "m = (if as = [] then None else Some (last as))" using dls_last[OF A] .
  have n: "nx t = (if bs = [] then None else Some (hd bs))" using dls_head[OF B] .
  have h: "h = (if as = [] then Some t else Some (hd as))" using dls_head[OF A] .
  have l: "l = (if bs = [] then Some t else Some (last bs))" using dls_last[OF B] .
  have A': "dls nx' pv' None (if as = [] then nx t else h) as m (nx t)"
  proof (cases as rule: rev_cases)
    case Nil
    with m show ?thesis by simp
  next
    case (snoc cs u)
    have "dls (nx(u := nx t)) pv None h (cs @ [u]) m (nx t)"
      using A snoc d by (intro dls_set_next) auto
    moreover have "nx' x = (nx(u := nx t)) x \<and> pv' x = pv x" if x: "x \<in> set (cs @ [u])" for x
    proof -
      have "x \<noteq> t" "x \<notin> set bs" using d snoc x by auto
      moreover have "nx t \<noteq> Some x" using n \<open>x \<notin> set bs\<close> by (auto split: if_splits)
      moreover have "pv t = Some u" using pt m snoc by simp
      ultimately show ?thesis
        by (auto simp: nx' pv' next_unlink_def prev_unlink_def split: option.splits)
    qed
    ultimately show ?thesis using snoc
      by (subst dls_frame[where nx = "nx(u := nx t)" and pv = pv]) auto
  qed
  have B': "dls nx' pv' m (nx t) bs (if bs = [] then m else l) None"
  proof (cases bs)
    case Nil
    with n show ?thesis by simp
  next
    case (Cons u cs)
    have "dls nx (pv(u := m)) m (nx t) (u # cs) l None"
      using B Cons d by (intro dls_set_prev) auto
    moreover have "nx' x = nx x \<and> pv' x = (pv(u := m)) x" if x: "x \<in> set (u # cs)" for x
    proof -
      have "x \<noteq> t" "x \<notin> set as" using d Cons x by auto
      moreover have "pv t \<noteq> Some x" using pt m \<open>x \<notin> set as\<close> by (auto split: if_splits)
      moreover have "nx t = Some u" using n Cons by simp
      ultimately show ?thesis
        by (auto simp: nx' pv' pt next_unlink_def prev_unlink_def split: option.splits)
    qed
    ultimately show ?thesis using Cons
      by (subst dls_frame[where nx = nx and pv = "pv(u := m)"]) auto
  qed
  have "dls nx' pv' None (if as = [] then nx t else h) (as @ bs) (if bs = [] then m else l) None"
    unfolding dls_append using A' B' by blast
  moreover have "(if as = [] then nx t else h) = (if pv t = None then nx t else h)"
    using pt m by auto
  moreover have "(if bs = [] then m else l) = (if nx t = None then pv t else l)"
    using pt n by auto
  ultimately show ?thesis using d xs by (simp add: dll_def)
qed

section \<open>Families of queues over shared links\<close>

text \<open>
  \<open>dl_queues nx pv hd tl Q\<close>: every queue \<open>q\<close> with head \<open>hd q\<close> and tail
  \<open>tl q\<close> represents the list \<open>Q q\<close>, and no element is on two queues.
\<close>

definition dl_queues :: "('a \<Rightarrow> 'a option) \<Rightarrow> ('a \<Rightarrow> 'a option) \<Rightarrow> ('q \<Rightarrow> 'a option)
    \<Rightarrow> ('q \<Rightarrow> 'a option) \<Rightarrow> ('q \<Rightarrow> 'a list) \<Rightarrow> bool" where
  "dl_queues nx pv qh qt Q \<longleftrightarrow>
     (\<forall>q. dll nx pv (qh q) (Q q) (qt q)) \<and>
     (\<forall>q r. q \<noteq> r \<longrightarrow> set (Q q) \<inter> set (Q r) = {})"

lemma dl_queuesD: "dl_queues nx pv qh qt Q \<Longrightarrow> dll nx pv (qh q) (Q q) (qt q)"
  by (simp add: dl_queues_def)

lemma dl_queues_disjoint:
  "dl_queues nx pv qh qt Q \<Longrightarrow> t \<in> set (Q q) \<Longrightarrow> t \<in> set (Q r) \<Longrightarrow> q = r"
  by (auto simp: dl_queues_def)

lemma dl_queues_unique: "dl_queues nx pv qh qt Q \<Longrightarrow> dl_queues nx pv qh qt R \<Longrightarrow> Q = R"
  by (rule ext) (auto intro: dll_unique simp: dl_queues_def)

lemma dl_queues_append:
  fixes Q :: "'q \<Rightarrow> 'a list"
  assumes Q: "dl_queues nx pv qh qt Q" and t: "\<And>r. t \<notin> set (Q r)"
  shows "dl_queues (next_append nx (qt q) t) (pv(t := qt q))
           (if qt q = None then qh(q := Some t) else qh) (qt(q := Some t)) (Q(q := Q q @ [t]))"
proof -
  have new: "dll (next_append nx (qt q) t) (pv(t := qt q)) (if qt q = None then Some t else qh q)
      (Q q @ [t]) (Some t)"
    using dll_append[OF dl_queuesD[OF Q] t] .
  have tl: "qt q = (if Q q = [] then None else Some (last (Q q)))"
    using dll_tail[OF dl_queuesD[OF Q]] .
  have other: "dll (next_append nx (qt q) t) (pv(t := qt q)) (qh r) (Q r) (qt r)" if r: "r \<noteq> q" for r
  proof -
    have "next_append nx (qt q) t x = nx x \<and> (pv(t := qt q)) x = pv x" if x: "x \<in> set (Q r)" for x
    proof -
      have "x \<noteq> t" using t x by auto
      moreover have "qt q \<noteq> Some x"
        using tl dl_queues_disjoint[OF Q, of x q r] r x by (auto split: if_splits)
      ultimately show ?thesis by (auto simp: next_append_def split: option.splits)
    qed
    then show ?thesis using dl_queuesD[OF Q, of r] by (subst dll_frame) auto
  qed
  show ?thesis
    unfolding dl_queues_def
  proof (intro conjI allI impI)
    fix r
    show "dll (next_append nx (qt q) t) (pv(t := qt q)) ((if qt q = None then qh(q := Some t) else qh) r)
        ((Q(q := Q q @ [t])) r) ((qt(q := Some t)) r)"
      using new other[of r] by (cases "r = q") auto
  next
    fix r u :: 'q
    assume "r \<noteq> u"
    then show "set ((Q(q := Q q @ [t])) r) \<inter> set ((Q(q := Q q @ [t])) u) = {}"
      using Q t by (auto simp: dl_queues_def)
  qed
qed

lemma dl_queues_push:
  fixes Q :: "'q \<Rightarrow> 'a list"
  assumes Q: "dl_queues nx pv qh qt Q" and t: "\<And>r. t \<notin> set (Q r)"
  shows "dl_queues (nx(t := qh q)) (prev_push pv (qh q) t) (qh(q := Some t))
           (if qh q = None then qt(q := Some t) else qt) (Q(q := t # Q q))"
proof -
  have new: "dll (nx(t := qh q)) (prev_push pv (qh q) t) (Some t) (t # Q q)
      (if qh q = None then Some t else qt q)"
    using dll_push[OF dl_queuesD[OF Q] t] .
  have hd: "qh q = (if Q q = [] then None else Some (hd (Q q)))"
    using dll_head[OF dl_queuesD[OF Q]] .
  have other: "dll (nx(t := qh q)) (prev_push pv (qh q) t) (qh r) (Q r) (qt r)" if r: "r \<noteq> q" for r
  proof -
    have "(nx(t := qh q)) x = nx x \<and> prev_push pv (qh q) t x = pv x" if x: "x \<in> set (Q r)" for x
    proof -
      have "x \<noteq> t" using t x by auto
      moreover have "qh q \<noteq> Some x"
        using hd dl_queues_disjoint[OF Q, of x q r] r x by (auto split: if_splits)
      ultimately show ?thesis by (auto simp: prev_push_def split: option.splits)
    qed
    then show ?thesis using dl_queuesD[OF Q, of r] by (subst dll_frame) auto
  qed
  show ?thesis
    unfolding dl_queues_def
  proof (intro conjI allI impI)
    fix r
    show "dll (nx(t := qh q)) (prev_push pv (qh q) t) ((qh(q := Some t)) r)
        ((Q(q := t # Q q)) r) ((if qh q = None then qt(q := Some t) else qt) r)"
      using new other[of r] by (cases "r = q") auto
  next
    fix r u :: 'q
    assume "r \<noteq> u"
    then show "set ((Q(q := t # Q q)) r) \<inter> set ((Q(q := t # Q q)) u) = {}"
      using Q t by (auto simp: dl_queues_def)
  qed
qed

text \<open>Links of elements that are on no queue do not matter.\<close>

lemma dl_queues_frame:
  assumes "dl_queues nx pv qh qt Q" "\<And>x q. x \<in> set (Q q) \<Longrightarrow> nx' x = nx x \<and> pv' x = pv x"
  shows "dl_queues nx' pv' qh qt Q"
proof -
  have "dll nx' pv' (qh q) (Q q) (qt q)" for q
    using dl_queuesD[OF assms(1), of q] assms(2)[of _ q] by (subst dll_frame) auto
  then show ?thesis using assms(1) by (simp add: dl_queues_def)
qed

lemma dl_queues_unlink:
  fixes Q :: "'q \<Rightarrow> 'a list"
  assumes Q: "dl_queues nx pv qh qt Q" and t: "t \<in> set (Q q)"
    and nx': "\<And>x. x \<noteq> t \<Longrightarrow> nx' x = next_unlink nx pv t x"
    and pv': "\<And>x. x \<noteq> t \<Longrightarrow> pv' x = prev_unlink nx pv t x"
    and qh': "qh' = (if pv t = None then qh(q := nx t) else qh)"
    and qt': "qt' = (if nx t = None then qt(q := pv t) else qt)"
  shows "dl_queues nx' pv' qh' qt' (Q(q := remove1 t (Q q)))"
proof -
  have D: "dll nx pv (qh q) (Q q) (qt q)" using Q by (rule dl_queuesD)
  have new: "dll nx' pv' (if pv t = None then nx t else qh q) (remove1 t (Q q))
      (if nx t = None then pv t else qt q)"
    using D t nx' pv' by (rule dll_unlink)
  from t obtain as bs where xs: "Q q = as @ t # bs" by (auto simp: in_set_conv_decomp)
  from D xs obtain m where A: "dls nx pv None (qh q) as m (Some t)" and pt: "pv t = m"
    and B: "dls nx pv (Some t) (nx t) bs (qt q) None"
    by (auto simp: dll_def dls_append)
  have nbs: "x \<in> set (Q q)" if "pv t = Some x \<or> nx t = Some x" for x
    using that dls_last[OF A] dls_head[OF B] pt xs by (auto split: if_splits)
  have other: "dll nx' pv' (qh r) (Q r) (qt r)" if r: "r \<noteq> q" for r
  proof -
    have "nx' x = nx x \<and> pv' x = pv x" if x: "x \<in> set (Q r)" for x
    proof -
      have "x \<notin> set (Q q)" using dl_queues_disjoint[OF Q _ x] r by blast
      then have "x \<noteq> t" "pv t \<noteq> Some x" "nx t \<noteq> Some x" using nbs[of x] t by auto
      then show ?thesis
        by (auto simp: nx' pv' next_unlink_def prev_unlink_def split: option.splits)
    qed
    then show ?thesis using dl_queuesD[OF Q, of r] by (subst dll_frame) auto
  qed
  show ?thesis
    unfolding dl_queues_def
  proof (intro conjI allI impI)
    fix r
    show "dll nx' pv' (qh' r) ((Q(q := remove1 t (Q q))) r) (qt' r)"
      using new other[of r] by (cases "r = q") (auto simp: qh' qt')
  next
    fix r u :: 'q
    assume "r \<noteq> u"
    then have "set (Q r) \<inter> set (Q u) = {}" using Q by (simp add: dl_queues_def)
    moreover have "set ((Q(q := remove1 t (Q q))) a) \<subseteq> set (Q a)" for a
      using set_remove1_subset[of t "Q q"] by simp
    ultimately show "set ((Q(q := remove1 t (Q q))) r) \<inter> set ((Q(q := remove1 t (Q q))) u) = {}"
      by blast
  qed
qed

text \<open>
  The contract of an implementation of such a family: what its two operations do to
  the links, and what they promise about the represented lists.
\<close>

locale dl_queue_store =
  fixes nxt prv :: "'s \<Rightarrow> 'a \<Rightarrow> 'a option"
    and qhd qtl :: "'s \<Rightarrow> 'q \<Rightarrow> 'a option"
    and enq unl :: "'q \<Rightarrow> 'a \<Rightarrow> 's \<Rightarrow> 's"
  assumes nxt_enq: "nxt (enq q t s) = next_append (nxt s) (qtl s q) t"
    and prv_enq: "prv (enq q t s) = (prv s)(t := qtl s q)"
    and qhd_enq: "qhd (enq q t s) = (if qtl s q = None then (qhd s)(q := Some t) else qhd s)"
    and qtl_enq: "qtl (enq q t s) = (qtl s)(q := Some t)"
    and nxt_unl: "x \<noteq> t \<Longrightarrow> prv s t \<noteq> Some t \<Longrightarrow> nxt s t \<noteq> Some t \<Longrightarrow>
      nxt (unl q t s) x = next_unlink (nxt s) (prv s) t x"
    and prv_unl: "x \<noteq> t \<Longrightarrow> prv s t \<noteq> Some t \<Longrightarrow> nxt s t \<noteq> Some t \<Longrightarrow>
      prv (unl q t s) x = prev_unlink (nxt s) (prv s) t x"
    and qhd_unl: "prv s t \<noteq> Some t \<Longrightarrow> nxt s t \<noteq> Some t \<Longrightarrow>
      qhd (unl q t s) = (if prv s t = None then (qhd s)(q := nxt s t) else qhd s)"
    and qtl_unl: "prv s t \<noteq> Some t \<Longrightarrow> nxt s t \<noteq> Some t \<Longrightarrow>
      qtl (unl q t s) = (if nxt s t = None then (qtl s)(q := prv s t) else qtl s)"
begin

abbreviation represents :: "'s \<Rightarrow> ('q \<Rightarrow> 'a list) \<Rightarrow> bool" where
  "represents s Q \<equiv> dl_queues (nxt s) (prv s) (qhd s) (qtl s) Q"

lemma represents_enq:
  "represents s Q \<Longrightarrow> (\<And>r. t \<notin> set (Q r)) \<Longrightarrow> represents (enq q t s) (Q(q := Q q @ [t]))"
  unfolding nxt_enq prv_enq qhd_enq qtl_enq by (rule dl_queues_append)

lemma neighbours_differ:
  assumes "represents s Q" "t \<in> set (Q q)"
  shows "prv s t \<noteq> Some t \<and> nxt s t \<noteq> Some t"
proof -
  from assms have D: "dll (nxt s) (prv s) (qhd s q) (Q q) (qtl s q)"
    by (simp add: dl_queuesD)
  from assms(2) obtain as bs where xs: "Q q = as @ t # bs" by (auto simp: in_set_conv_decomp)
  from D xs obtain m where A: "dls (nxt s) (prv s) None (qhd s q) as m (Some t)" and "prv s t = m"
    and B: "dls (nxt s) (prv s) (Some t) (nxt s t) bs (qtl s q) None"
    by (auto simp: dll_def dls_append)
  then have "prv s t = (if as = [] then None else Some (last as))"
    and "nxt s t = (if bs = [] then None else Some (hd bs))"
    using dls_last[OF A] dls_head[OF B] by auto
  moreover have "t \<notin> set as" "t \<notin> set bs" using D xs by (auto simp: dll_def)
  ultimately show ?thesis by (auto split: if_splits)
qed

lemma represents_unl:
  assumes "represents s Q" "t \<in> set (Q q)"
  shows "represents (unl q t s) (Q(q := remove1 t (Q q)))"
proof -
  from neighbours_differ[OF assms] have ne: "prv s t \<noteq> Some t" "nxt s t \<noteq> Some t" by simp_all
  show ?thesis
    by (rule dl_queues_unlink[OF assms])
      (simp_all add: nxt_unl[OF _ ne] prv_unl[OF _ ne] qhd_unl[OF ne] qtl_unl[OF ne])
qed

lemma represents_head:
  "represents s Q \<Longrightarrow> qhd s q = (case Q q of [] \<Rightarrow> None | x # _ \<Rightarrow> Some x)"
  by (drule dl_queuesD[where q = q], drule dll_head) (simp split: list.split)

lemma represents_unique: "represents s Q \<Longrightarrow> represents s R \<Longrightarrow> Q = R"
  by (rule dl_queues_unique)

end

section \<open>Inserting in the middle\<close>

text \<open>\<open>t2\<close> and \<open>t1\<close> point to the elements before and behind the new one.\<close>

definition next_insert :: "('a \<Rightarrow> 'a option) \<Rightarrow> 'a option \<Rightarrow> 'a \<Rightarrow> 'a option \<Rightarrow> 'a \<Rightarrow> 'a option" where
  "next_insert nx t2 x t1 = (case t2 of None \<Rightarrow> nx(x := t1) | Some u \<Rightarrow> (nx(x := t1))(u := Some x))"

definition prev_insert :: "('a \<Rightarrow> 'a option) \<Rightarrow> 'a option \<Rightarrow> 'a \<Rightarrow> 'a option \<Rightarrow> 'a \<Rightarrow> 'a option" where
  "prev_insert pv t2 x t1 = (case t1 of None \<Rightarrow> pv(x := t2) | Some v \<Rightarrow> (pv(x := t2))(v := Some x))"

lemma dls_insert_before:
  assumes A: "dls nx pv None h as t2 t1" and x: "x \<notin> set as" and d: "distinct as"
    and t1: "\<And>v. t1 = Some v \<Longrightarrow> v \<notin> set as"
  shows "dls (next_insert nx t2 x t1) (prev_insert pv t2 x t1) None (if as = [] then Some x else h) as t2 (Some x)"
proof (cases as rule: rev_cases)
  case Nil
  with A show ?thesis by simp
next
  case (snoc bs u)
  then have t2: "t2 = Some u" using dls_last[OF A] by simp
  from A snoc have "dls nx pv None h (bs @ [u]) t2 t1" by simp
  then have *: "dls (nx(u := Some x)) pv None h as t2 (Some x)"
    using dls_set_next[of nx pv None h bs u t2 t1 "Some x"] d snoc by simp
  have "dls (next_insert nx t2 x t1) (prev_insert pv t2 x t1) None h as t2 (Some x)"
    using * x t1 t2 by (subst dls_frame[where nx = "nx(u := Some x)" and pv = pv])
      (auto simp: next_insert_def prev_insert_def split: option.split)
  then show ?thesis using snoc by simp
qed

lemma dls_insert_behind:
  assumes B: "dls nx pv t2 t1 bs l None" and x: "x \<notin> set bs" and d: "distinct bs"
    and t2: "\<And>v. t2 = Some v \<Longrightarrow> v \<notin> set bs"
  shows "dls (next_insert nx t2 x t1) (prev_insert pv t2 x t1) (Some x) t1 bs (if bs = [] then Some x else l) None"
proof (cases bs)
  case Nil
  with B show ?thesis by simp
next
  case (Cons v cs)
  then have t1: "t1 = Some v" using B by simp
  have *: "dls nx (pv(v := Some x)) (Some x) t1 bs l None"
    using dls_set_prev[of nx pv t2 t1 v cs l None "Some x"] B Cons d by simp
  have "dls (next_insert nx t2 x t1) (prev_insert pv t2 x t1) (Some x) t1 bs l None"
    using * x t1 t2 by (subst dls_frame[where nx = nx and pv = "pv(v := Some x)"])
      (auto simp: next_insert_def prev_insert_def split: option.split)
  then show ?thesis using Cons t1 by simp
qed

lemma dll_insert:
  assumes q: "dll nx pv h (as @ bs) l" and x: "x \<notin> set (as @ bs)"
    and t2: "t2 = (if as = [] then None else Some (last as))"
    and t1: "t1 = (if bs = [] then None else Some (hd bs))"
  shows "dll (next_insert nx t2 x t1) (prev_insert pv t2 x t1) (if as = [] then Some x else h)
    (as @ x # bs) (if bs = [] then Some x else l)"
proof -
  from q have d: "distinct (as @ bs)" by (simp add: dll_def)
  from q obtain m k where A: "dls nx pv None h as m k" and B: "dls nx pv m k bs l None"
    by (auto simp: dll_def dls_append)
  have m: "m = t2" and k: "k = t1" using dls_last[OF A] dls_head[OF B] t1 t2 by auto
  have "v \<notin> set as" if "t1 = Some v" for v using that t1 d by (auto split: if_splits)
  then have A': "dls (next_insert nx t2 x t1) (prev_insert pv t2 x t1) None (if as = [] then Some x else h) as t2 (Some x)"
    using dls_insert_before[of nx pv h as t2 t1 x] A x d m k by simp
  have t2_in: "v \<in> set as" if "t2 = Some v" for v using that t2 by (auto split: if_splits)
  have t1_in: "v \<in> set bs" if "t1 = Some v" for v using that t1 by (auto split: if_splits)
  have "v \<notin> set bs" if "t2 = Some v" for v using t2_in[OF that] d by auto
  then have B': "dls (next_insert nx t2 x t1) (prev_insert pv t2 x t1) (Some x) t1 bs (if bs = [] then Some x else l) None"
    using dls_insert_behind[of nx pv t2 t1 bs l x] B x d m k by simp
  have "t2 \<noteq> Some x" "t1 \<noteq> Some x"
    using x t2_in t1_in by auto
  then have "next_insert nx t2 x t1 x = t1" "prev_insert pv t2 x t1 x = t2"
    by (auto simp: next_insert_def prev_insert_def split: option.split)
  with A' B' x d show ?thesis unfolding dll_def dls_append by auto
qed

end
