(* ===== verification/Kernel_State.thy ===== *)
theory Kernel_State
  imports Dlist_Heap
begin

text \<open>
  The data of the thread layer: \<^verbatim>\<open>struct kthread\<close> and \<^verbatim>\<open>struct sched_info\<close>
  (\<^verbatim>\<open>include/process.h\<close>), the synchronisation objects and the queue macros of
  \<^verbatim>\<open>include/lock.h\<close>, and the kernel globals that the scheduler, lock, event,
  semaphore and timer code share.  The macros work on pointers; the second half shows
  what they do to the lists the pointers represent.

  A thread is named by its slot in \<^verbatim>\<open>tss_table[MAXTHREADS]\<close>, \<^verbatim>\<open>MAXTHREADS\<close>
  being 256; \<open>None\<close> is the null pointer.  Every synchronisation object starts with a
  \<^verbatim>\<open>struct sleep_q\<close>; these are kept in one store, indexed by the object they
  belong to.  The spin locks (\<^verbatim>\<open>sl_bitval\<close>, \<^verbatim>\<open>kt_synchobjlock\<close>,
  \<^verbatim>\<open>ready_qlock\<close>) are not part of the state: \<^verbatim>\<open>SMP\<close> is not defined, so they
  are set and cleared inside interrupt-free sections and never read.
\<close>

section \<open>Threads and synchronisation objects\<close>

type_synonym tid = "8 word"

datatype thread_state =
    THREAD_STATE_UNUSED | THREAD_STATE_SLEEP | THREAD_STATE_READY | THREAD_STATE_CREATE
  | THREAD_STATE_TERMINATING | THREAD_STATE_TERMINATED | THREAD_STATE_RUNNING

datatype proc_status =
    PROC_STATE_UNUSED | PROC_STATE_SUSPENDED | PROC_STATE_READY | PROC_STATE_CREATE
  | PROC_STATE_TERMINATED

text \<open>The object a \<^verbatim>\<open>struct sleep_q\<close> pointer points into.\<close>

datatype chan = Lock_obj nat | Rlock_obj nat | Event_obj nat | Sem_obj nat

datatype synch_type = SYNCH_TYPE_LOCK | SYNCH_TYPE_RLOCK | SYNCH_TYPE_EVENT | SYNCH_TYPE_SEM

record sched_info =
  sc_cid :: int
  sc_usrpri :: int
  sc_cpupri :: int
  sc_inhpri :: int
  sc_reccpuusage :: int
  sc_state :: thread_state
  sc_tqleft :: int
  sc_totcpuusage :: u32
  sc_slpstart :: u32
  sc_thrreadystart :: u32

record kthread =
  kt_schedinf :: sched_info
  kt_synchobjlist :: "chan option"
  kt_slpchannel :: "chan option"
  kt_process :: nat
  kt_qnext :: "tid option"
  kt_qprev :: "tid option"

record sleep_q =
  sl_type :: synch_type
  sl_head :: "tid option"
  sl_tail :: "tid option"
  sl_next :: "chan option"
  sl_prev :: "chan option"

record lock_t =
  l_owner_thread :: "tid option"
  l_val :: u16

record rlock_t =
  rl_owner_thread :: "tid option"
  rl_val :: u16
  rl_level :: u16

record event_t =
  e_val :: u16

text \<open>
  \<^verbatim>\<open>struct timerobject\<close>: its handler is one of the functions the kernel arms timers
  with, together with its parameter.
\<close>

datatype tmo_handler =
    Tmo_wakeup
  | Tmo_event_wait_remove_thread nat tid
  | Tmo_removethread_fromsemwait nat tid
  | Tmo_other nat

record timerobject =
  timer_count :: u32
  timer_handler :: "tmo_handler option"
  timer_ownerthread :: "tid option"
  timer_next :: "nat option"
  timer_prev :: "nat option"

record kern =
  kt :: "tid \<Rightarrow> kthread"
  slq :: "chan \<Rightarrow> sleep_q"
  lockt :: "nat \<Rightarrow> lock_t"
  rlockt :: "nat \<Rightarrow> rlock_t"
  eventt :: "nat \<Rightarrow> event_t"
  ready_qhead :: "int \<Rightarrow> tid option"
  ready_qtail :: "int \<Rightarrow> tid option"
  current_thread :: tid
  current_process :: nat
  proc_state :: "nat \<Rightarrow> proc_status"
  runrun :: bool
  kprunrun :: bool
  priocompute :: bool
  timeoutflag :: bool
  secs :: u32
  millesecs :: u32
  timers :: "nat option"
  tobj :: "nat \<Rightarrow> timerobject"
  tmo_failed :: "nat \<Rightarrow> bool"

text \<open>Assignments through a thread pointer and through a sleep-queue pointer.\<close>

definition upd_kt :: "tid \<Rightarrow> (kthread \<Rightarrow> kthread) \<Rightarrow> kern \<Rightarrow> kern" where
  "upd_kt t f s = s\<lparr>kt := (kt s)(t := f (kt s t))\<rparr>"

definition upd_slq :: "chan \<Rightarrow> (sleep_q \<Rightarrow> sleep_q) \<Rightarrow> kern \<Rightarrow> kern" where
  "upd_slq c f s = s\<lparr>slq := (slq s)(c := f (slq s c))\<rparr>"

definition upd_sched :: "tid \<Rightarrow> (sched_info \<Rightarrow> sched_info) \<Rightarrow> kern \<Rightarrow> kern" where
  "upd_sched t f s = upd_kt t (\<lambda>k. k\<lparr>kt_schedinf := f (kt_schedinf k)\<rparr>) s"

abbreviation sched :: "kern \<Rightarrow> tid \<Rightarrow> sched_info" where
  "sched s t \<equiv> kt_schedinf (kt s t)"

section \<open>The queue macros\<close>

text \<open>\<^verbatim>\<open>ADD_SLQ\<close>: add a thread at the end of the sleep queue.\<close>

definition ADD_SLQ :: "chan \<Rightarrow> tid \<Rightarrow> kern \<Rightarrow> kern" where
  "ADD_SLQ c t s =
     (let s1 = upd_kt t (\<lambda>k. k\<lparr>kt_qnext := None, kt_qprev := sl_tail (slq s c)\<rparr>) s
      in case sl_tail (slq s1 c) of
           Some u \<Rightarrow> upd_slq c (\<lambda>q. q\<lparr>sl_tail := Some t\<rparr>)
                       (upd_kt u (\<lambda>k. k\<lparr>kt_qnext := Some t\<rparr>) s1)
         | None \<Rightarrow> upd_slq c (\<lambda>q. q\<lparr>sl_head := Some t, sl_tail := Some t\<rparr>) s1)"

text \<open>\<^verbatim>\<open>DEL_SLQ\<close>: take the thread at the head of the sleep queue.\<close>

definition DEL_SLQ :: "chan \<Rightarrow> kern \<Rightarrow> tid option \<times> kern" where
  "DEL_SLQ c s =
     (case sl_head (slq s c) of
        None \<Rightarrow> (None, s)
      | Some t \<Rightarrow>
          let s1 = upd_slq c (\<lambda>q. q\<lparr>sl_head := kt_qnext (kt s t)\<rparr>) s;
              s2 = (case sl_head (slq s1 c) of
                      None \<Rightarrow> upd_slq c (\<lambda>q. q\<lparr>sl_tail := None\<rparr>) s1
                    | Some u \<Rightarrow> upd_kt u (\<lambda>k. k\<lparr>kt_qprev := None\<rparr>) s1)
          in (Some t, upd_kt t (\<lambda>k. k\<lparr>kt_qnext := None, kt_qprev := None\<rparr>) s2))"

text \<open>
  \<^verbatim>\<open>ADD_SYNCHOBJ\<close> and \<^verbatim>\<open>DEL_SYNCHOBJ\<close>: the list of objects a thread owns,
  linked through the objects' own \<^verbatim>\<open>sl_next\<close> and \<^verbatim>\<open>sl_prev\<close>.
\<close>

definition ADD_SYNCHOBJ :: "chan \<Rightarrow> tid \<Rightarrow> kern \<Rightarrow> kern" where
  "ADD_SYNCHOBJ c t s =
     (let s1 = upd_slq c (\<lambda>q. q\<lparr>sl_next := kt_synchobjlist (kt s t), sl_prev := None\<rparr>) s;
          s2 = (case kt_synchobjlist (kt s1 t) of
                  None \<Rightarrow> s1
                | Some d \<Rightarrow> upd_slq d (\<lambda>q. q\<lparr>sl_prev := Some c\<rparr>) s1)
      in upd_kt t (\<lambda>k. k\<lparr>kt_synchobjlist := Some c\<rparr>) s2)"

definition DEL_SYNCHOBJ :: "chan \<Rightarrow> tid \<Rightarrow> kern \<Rightarrow> kern" where
  "DEL_SYNCHOBJ c t s =
     (let s1 = (case sl_next (slq s c) of
                  None \<Rightarrow> s
                | Some d \<Rightarrow> upd_slq d (\<lambda>q. q\<lparr>sl_prev := sl_prev (slq s c)\<rparr>) s);
          s2 = (case sl_prev (slq s1 c) of
                  Some d \<Rightarrow> upd_slq d (\<lambda>q. q\<lparr>sl_next := sl_next (slq s1 c)\<rparr>) s1
                | None \<Rightarrow> upd_kt t (\<lambda>k. k\<lparr>kt_synchobjlist := sl_next (slq s1 c)\<rparr>) s1)
      in upd_slq c (\<lambda>q. q\<lparr>sl_next := None, sl_prev := None\<rparr>) s2)"

text \<open>
  Removing a given thread from the middle of a sleep queue, as the time-out handlers
  (\<^verbatim>\<open>event_wait_remove_thread\<close>) and \<^verbatim>\<open>terminate_thread\<close> do.
\<close>

definition unlink_slq :: "chan \<Rightarrow> tid \<Rightarrow> kern \<Rightarrow> kern" where
  "unlink_slq c t s =
     (let s1 = (case kt_qnext (kt s t) of
                  Some n \<Rightarrow> upd_kt n (\<lambda>k. k\<lparr>kt_qprev := kt_qprev (kt s t)\<rparr>) s
                | None \<Rightarrow> upd_slq c (\<lambda>q. q\<lparr>sl_tail := kt_qprev (kt s t)\<rparr>) s)
      in case kt_qprev (kt s1 t) of
           Some p \<Rightarrow> upd_kt p (\<lambda>k. k\<lparr>kt_qnext := kt_qnext (kt s1 t)\<rparr>) s1
         | None \<Rightarrow> upd_slq c (\<lambda>q. q\<lparr>sl_head := kt_qnext (kt s1 t)\<rparr>) s1)"

text \<open>
  The same two pointer manipulations on \<^verbatim>\<open>ready_qhead[i]\<close>/\<^verbatim>\<open>ready_qtail[i]\<close>
  (inside \<^verbatim>\<open>add_readyq\<close>, \<^verbatim>\<open>del_readyq\<close>, \<^verbatim>\<open>scheduler\<close>, \<^verbatim>\<open>suspend\<close>
  and \<^verbatim>\<open>timerthread\<close>).
\<close>

definition append_readyq :: "int \<Rightarrow> tid \<Rightarrow> kern \<Rightarrow> kern" where
  "append_readyq i t s =
     (let s1 = upd_kt t (\<lambda>k. k\<lparr>kt_qnext := None, kt_qprev := ready_qtail s i\<rparr>) s
      in case ready_qtail s1 i of
           Some u \<Rightarrow> (upd_kt u (\<lambda>k. k\<lparr>kt_qnext := Some t\<rparr>) s1)
                        \<lparr>ready_qtail := (ready_qtail s1)(i := Some t)\<rparr>
         | None \<Rightarrow> s1\<lparr>ready_qhead := (ready_qhead s1)(i := Some t),
                       ready_qtail := (ready_qtail s1)(i := Some t)\<rparr>)"

definition unlink_readyq :: "int \<Rightarrow> tid \<Rightarrow> kern \<Rightarrow> kern" where
  "unlink_readyq i t s =
     (let s1 = (case kt_qnext (kt s t) of
                  Some n \<Rightarrow> upd_kt n (\<lambda>k. k\<lparr>kt_qprev := kt_qprev (kt s t)\<rparr>) s
                | None \<Rightarrow> s\<lparr>ready_qtail := (ready_qtail s)(i := kt_qprev (kt s t))\<rparr>)
      in case kt_qprev (kt s1 t) of
           Some p \<Rightarrow> upd_kt p (\<lambda>k. k\<lparr>kt_qnext := kt_qnext (kt s1 t)\<rparr>) s1
         | None \<Rightarrow> s1\<lparr>ready_qhead := (ready_qhead s1)(i := kt_qnext (kt s1 t))\<rparr>)"

section \<open>What the macros leave alone\<close>

lemmas field_defs = upd_kt_def upd_slq_def upd_sched_def Let_def

text \<open>The fields outside the queue links are the same before and after.\<close>

definition same_but_queues :: "kern \<Rightarrow> kern \<Rightarrow> bool" where
  "same_but_queues s s' \<longleftrightarrow>
     (\<forall>t. kt_schedinf (kt s' t) = kt_schedinf (kt s t) \<and> kt_slpchannel (kt s' t) = kt_slpchannel (kt s t) \<and>
          kt_process (kt s' t) = kt_process (kt s t) \<and> kt_synchobjlist (kt s' t) = kt_synchobjlist (kt s t)) \<and>
     (\<forall>c. sl_type (slq s' c) = sl_type (slq s c) \<and> sl_next (slq s' c) = sl_next (slq s c) \<and>
          sl_prev (slq s' c) = sl_prev (slq s c)) \<and>
     lockt s' = lockt s \<and> rlockt s' = rlockt s \<and> eventt s' = eventt s \<and>
     current_thread s' = current_thread s \<and> current_process s' = current_process s \<and> proc_state s' = proc_state s \<and>
     runrun s' = runrun s \<and> kprunrun s' = kprunrun s \<and> priocompute s' = priocompute s \<and>
     timeoutflag s' = timeoutflag s \<and> secs s' = secs s \<and> millesecs s' = millesecs s \<and>
     timers s' = timers s \<and> tobj s' = tobj s \<and> tmo_failed s' = tmo_failed s"

lemma same_but_queues_refl [simp]: "same_but_queues s s"
  by (simp add: same_but_queues_def)

lemma same_but_queues_trans: "same_but_queues s t \<Longrightarrow> same_but_queues t u \<Longrightarrow> same_but_queues s u"
  by (simp add: same_but_queues_def)

lemma ADD_SLQ_same: "same_but_queues s (ADD_SLQ c t s)"
  by (simp add: same_but_queues_def ADD_SLQ_def field_defs split: option.split)

lemma DEL_SLQ_same: "same_but_queues s (snd (DEL_SLQ c s))"
  by (simp add: same_but_queues_def DEL_SLQ_def field_defs split: option.split)

lemma unlink_slq_same: "same_but_queues s (unlink_slq c t s)"
  by (simp add: same_but_queues_def unlink_slq_def field_defs split: option.split)

lemma append_readyq_same: "same_but_queues s (append_readyq i t s)"
  by (simp add: same_but_queues_def append_readyq_def field_defs split: option.split)

lemma unlink_readyq_same: "same_but_queues s (unlink_readyq i t s)"
  by (simp add: same_but_queues_def unlink_readyq_def field_defs split: option.split)

lemmas queue_same = ADD_SLQ_same DEL_SLQ_same unlink_slq_same append_readyq_same unlink_readyq_same

section \<open>The represented queues\<close>

text \<open>All queues a thread can be on: the sleep queues and the 32 ready queues.\<close>

datatype qid = Wait chan | Ready int

definition knext :: "kern \<Rightarrow> tid \<Rightarrow> tid option" where
  "knext s t = kt_qnext (kt s t)"

definition kprev :: "kern \<Rightarrow> tid \<Rightarrow> tid option" where
  "kprev s t = kt_qprev (kt s t)"

primrec khead :: "kern \<Rightarrow> qid \<Rightarrow> tid option" where
  "khead s (Wait c) = sl_head (slq s c)"
| "khead s (Ready i) = ready_qhead s i"

primrec ktail :: "kern \<Rightarrow> qid \<Rightarrow> tid option" where
  "ktail s (Wait c) = sl_tail (slq s c)"
| "ktail s (Ready i) = ready_qtail s i"

primrec kenq :: "qid \<Rightarrow> tid \<Rightarrow> kern \<Rightarrow> kern" where
  "kenq (Wait c) t s = ADD_SLQ c t s"
| "kenq (Ready i) t s = append_readyq i t s"

primrec kunlink :: "qid \<Rightarrow> tid \<Rightarrow> kern \<Rightarrow> kern" where
  "kunlink (Wait c) t s = unlink_slq c t s"
| "kunlink (Ready i) t s = unlink_readyq i t s"

text \<open>\<open>kqueues s Q\<close>: the pointers of \<open>s\<close> represent the thread lists \<open>Q\<close>, and no
  thread is on two queues.\<close>

definition kqueues :: "kern \<Rightarrow> (qid \<Rightarrow> tid list) \<Rightarrow> bool" where
  "kqueues s Q \<longleftrightarrow> dl_queues (knext s) (kprev s) (khead s) (ktail s) Q"

lemma qid_fun_eqI:
  "(\<And>c. f (Wait c) = g (Wait c)) \<Longrightarrow> (\<And>i. f (Ready i) = g (Ready i)) \<Longrightarrow> f = g"
  by (rule ext, rename_tac q, case_tac q) auto

interpretation kq: dl_queue_store knext kprev khead ktail kenq kunlink
proof unfold_locales
  fix q t s
  show "knext (kenq q t s) = next_append (knext s) (ktail s q) t"
    by (cases q) (auto simp: knext_def next_append_def ADD_SLQ_def append_readyq_def field_defs
        fun_eq_iff split: option.split)
  show "kprev (kenq q t s) = (kprev s)(t := ktail s q)"
    by (cases q) (auto simp: kprev_def ADD_SLQ_def append_readyq_def field_defs
        fun_eq_iff split: option.split)
  show "khead (kenq q t s) = (if ktail s q = None then (khead s)(q := Some t) else khead s)"
    by (cases q; intro qid_fun_eqI) (auto simp: ADD_SLQ_def append_readyq_def field_defs split: option.split)
  show "ktail (kenq q t s) = (ktail s)(q := Some t)"
    by (cases q; intro qid_fun_eqI) (auto simp: ADD_SLQ_def append_readyq_def field_defs split: option.split)
next
  fix x t :: tid and q s
  assume ne: "x \<noteq> t" "kprev s t \<noteq> Some t" "knext s t \<noteq> Some t"
  show "knext (kunlink q t s) x = next_unlink (knext s) (kprev s) t x"
    using ne by (cases q) (auto simp: knext_def kprev_def next_unlink_def unlink_slq_def
        unlink_readyq_def field_defs split: option.split)
  show "kprev (kunlink q t s) x = prev_unlink (knext s) (kprev s) t x"
    using ne by (cases q) (auto simp: knext_def kprev_def prev_unlink_def unlink_slq_def
        unlink_readyq_def field_defs split: option.split)
next
  fix t :: tid and q s
  assume ne: "kprev s t \<noteq> Some t" "knext s t \<noteq> Some t"
  show "khead (kunlink q t s) = (if kprev s t = None then (khead s)(q := knext s t) else khead s)"
    using ne by (cases q; intro qid_fun_eqI) (auto simp: knext_def kprev_def unlink_slq_def
        unlink_readyq_def field_defs split: option.split)
  show "ktail (kunlink q t s) = (if knext s t = None then (ktail s)(q := kprev s t) else ktail s)"
    using ne by (cases q; intro qid_fun_eqI) (auto simp: knext_def kprev_def unlink_slq_def
        unlink_readyq_def field_defs split: option.split)
qed

lemma kqueues_ADD_SLQ:
  "kqueues s Q \<Longrightarrow> (\<And>r. t \<notin> set (Q r)) \<Longrightarrow>
   kqueues (ADD_SLQ c t s) (Q(Wait c := Q (Wait c) @ [t]))"
  using kq.represents_enq[of s Q t "Wait c"] by (simp add: kqueues_def)

lemma kqueues_append_readyq:
  "kqueues s Q \<Longrightarrow> (\<And>r. t \<notin> set (Q r)) \<Longrightarrow>
   kqueues (append_readyq i t s) (Q(Ready i := Q (Ready i) @ [t]))"
  using kq.represents_enq[of s Q t "Ready i"] by (simp add: kqueues_def)

lemma kqueues_unlink_slq:
  "kqueues s Q \<Longrightarrow> t \<in> set (Q (Wait c)) \<Longrightarrow>
   kqueues (unlink_slq c t s) (Q(Wait c := remove1 t (Q (Wait c))))"
  using kq.represents_unl[of s Q t "Wait c"] by (simp add: kqueues_def)

lemma kqueues_unlink_readyq:
  "kqueues s Q \<Longrightarrow> t \<in> set (Q (Ready i)) \<Longrightarrow>
   kqueues (unlink_readyq i t s) (Q(Ready i := remove1 t (Q (Ready i))))"
  using kq.represents_unl[of s Q t "Ready i"] by (simp add: kqueues_def)

lemma kqueues_head:
  "kqueues s Q \<Longrightarrow> khead s q = (case Q q of [] \<Rightarrow> None | x # _ \<Rightarrow> Some x)"
  using kq.represents_head[of s Q q] by (simp add: kqueues_def)

lemma kqueues_slq_head:
  "kqueues s Q \<Longrightarrow> sl_head (slq s c) = (case Q (Wait c) of [] \<Rightarrow> None | x # _ \<Rightarrow> Some x)"
  using kqueues_head[of s Q "Wait c"] by simp

lemma kqueues_ready_head:
  "kqueues s Q \<Longrightarrow> ready_qhead s i = (case Q (Ready i) of [] \<Rightarrow> None | x # _ \<Rightarrow> Some x)"
  using kqueues_head[of s Q "Ready i"] by simp

lemma kqueues_unique: "kqueues s Q \<Longrightarrow> kqueues s R \<Longrightarrow> Q = R"
  unfolding kqueues_def by (rule kq.represents_unique)

lemma kqueues_disjoint: "kqueues s Q \<Longrightarrow> t \<in> set (Q q) \<Longrightarrow> t \<in> set (Q r) \<Longrightarrow> q = r"
  unfolding kqueues_def by (rule dl_queues_disjoint)

lemma kqueues_distinct: "kqueues s Q \<Longrightarrow> distinct (Q q)"
  unfolding kqueues_def by (blast dest: dl_queuesD dll_distinct)

text \<open>Assignments to other fields keep the queues; so do the links of a thread on no queue.\<close>

lemma kqueues_cong:
  assumes "kqueues s Q"
    and "\<And>t q. t \<in> set (Q q) \<Longrightarrow> kt_qnext (kt s' t) = kt_qnext (kt s t) \<and> kt_qprev (kt s' t) = kt_qprev (kt s t)"
    and "\<And>c. sl_head (slq s' c) = sl_head (slq s c) \<and> sl_tail (slq s' c) = sl_tail (slq s c)"
    and "ready_qhead s' = ready_qhead s" "ready_qtail s' = ready_qtail s"
  shows "kqueues s' Q"
proof -
  have "khead s' = khead s" "ktail s' = ktail s"
    using assms(3-5) by (auto intro!: qid_fun_eqI)
  moreover have "dl_queues (knext s') (kprev s') (khead s) (ktail s) Q"
    using assms(1,2) unfolding kqueues_def
    by (auto intro!: dl_queues_frame[where nx = "knext s" and pv = "kprev s"] simp: knext_def kprev_def)
  ultimately show ?thesis by (simp add: kqueues_def)
qed

text \<open>Taking the head of a sleep queue is unlinking it.\<close>

lemma DEL_SLQ_empty: "kqueues s Q \<Longrightarrow> Q (Wait c) = [] \<Longrightarrow> DEL_SLQ c s = (None, s)"
  by (simp add: DEL_SLQ_def kqueues_slq_head)

lemma kqueues_head_links:
  assumes "kqueues s Q" "Q q = t # ts"
  shows "kt_qprev (kt s t) = None" "kt_qnext (kt s t) = (if ts = [] then None else Some (hd ts))"
    "ts = [] \<Longrightarrow> ktail s q = Some t" "t \<notin> set ts"
proof -
  from assms have D: "dll (knext s) (kprev s) (khead s q) (t # ts) (ktail s q)"
    unfolding kqueues_def by (metis dl_queuesD)
  then show "kt_qprev (kt s t) = None" "t \<notin> set ts" "ts = [] \<Longrightarrow> ktail s q = Some t"
    by (auto simp: dll_def kprev_def)
  from D have "dls (knext s) (kprev s) (Some t) (knext s t) ts (ktail s q) None"
    by (simp add: dll_def)
  from dls_head[OF this] show "kt_qnext (kt s t) = (if ts = [] then None else Some (hd ts))"
    by (simp add: knext_def)
qed

lemma DEL_SLQ_head:
  assumes Q: "kqueues s Q" and c: "Q (Wait c) = t # ts"
  shows "fst (DEL_SLQ c s) = Some t" "kqueues (snd (DEL_SLQ c s)) (Q(Wait c := ts))"
proof -
  note L = kqueues_head_links[OF Q c]
  have h: "sl_head (slq s c) = Some t" using kqueues_slq_head[OF Q, of c] c by simp
  then show "fst (DEL_SLQ c s) = Some t" by (simp add: DEL_SLQ_def field_defs)
  let ?u = "unlink_slq c t s" and ?clr = "upd_kt t (\<lambda>k. k\<lparr>kt_qnext := None, kt_qprev := None\<rparr>)"
  have "snd (DEL_SLQ c s) = ?clr ?u"
    using h L by (cases ts) (auto simp: DEL_SLQ_def unlink_slq_def field_defs fun_eq_iff)
  moreover have U: "kqueues ?u (Q(Wait c := ts))"
    using kqueues_unlink_slq[OF Q, of t c] c by simp
  moreover have "kqueues (?clr ?u) (Q(Wait c := ts))"
  proof (rule kqueues_cong[OF U])
    fix u q assume "u \<in> set ((Q(Wait c := ts)) q)"
    then have "u \<noteq> t" using L(4) kqueues_disjoint[OF Q, of t "Wait c" q] c by (auto split: if_splits)
    then show "kt_qnext (kt (?clr ?u) u) = kt_qnext (kt ?u u) \<and> kt_qprev (kt (?clr ?u) u) = kt_qprev (kt ?u u)"
      by (simp add: upd_kt_def)
  qed (simp_all add: upd_kt_def)
  ultimately show "kqueues (snd (DEL_SLQ c s)) (Q(Wait c := ts))" by simp
qed

section \<open>The objects a thread owns\<close>

definition snext :: "kern \<Rightarrow> chan \<Rightarrow> chan option" where
  "snext s c = sl_next (slq s c)"

definition sprev :: "kern \<Rightarrow> chan \<Rightarrow> chan option" where
  "sprev s c = sl_prev (slq s c)"

definition shead :: "kern \<Rightarrow> tid \<Rightarrow> chan option" where
  "shead s t = kt_synchobjlist (kt s t)"

definition last_of :: "('q \<Rightarrow> 'a list) \<Rightarrow> 'q \<Rightarrow> 'a option" where
  "last_of Q q = (if Q q = [] then None else Some (last (Q q)))"

text \<open>\<open>owned s Ow\<close>: the owned-object pointers of each thread represent the lists
  \<open>Ow\<close>; no object is owned twice, and the links of an object nobody owns are null.\<close>

definition owned :: "kern \<Rightarrow> (tid \<Rightarrow> chan list) \<Rightarrow> bool" where
  "owned s Ow \<longleftrightarrow> dl_queues (snext s) (sprev s) (shead s) (last_of Ow) Ow \<and>
     (\<forall>c. (\<forall>t. c \<notin> set (Ow t)) \<longrightarrow> snext s c = None \<and> sprev s c = None)"

lemma owned_ADD_SYNCHOBJ:
  assumes O: "owned s Ow" and c: "\<And>u. c \<notin> set (Ow u)"
  shows "owned (ADD_SYNCHOBJ c t s) (Ow(t := c # Ow t))"
proof -
  let ?s = "ADD_SYNCHOBJ c t s"
  have D: "dl_queues (snext s) (sprev s) (shead s) (last_of Ow) Ow" using O by (simp add: owned_def)
  have hd: "shead s t = (if Ow t = [] then None else Some (hd (Ow t)))"
    using dll_head[OF dl_queuesD[OF D]] .
  have nx: "snext ?s = (snext s)(c := shead s t)"
    by (auto simp: snext_def shead_def ADD_SYNCHOBJ_def field_defs fun_eq_iff split: option.split)
  have pv: "sprev ?s = prev_push (sprev s) (shead s t) c"
    by (auto simp: sprev_def shead_def prev_push_def ADD_SYNCHOBJ_def field_defs fun_eq_iff split: option.split)
  have sh: "shead ?s = (shead s)(t := Some c)"
    by (auto simp: shead_def ADD_SYNCHOBJ_def field_defs fun_eq_iff split: option.split)
  have lst: "(if shead s t = None then (last_of Ow)(t := Some c) else last_of Ow) = last_of (Ow(t := c # Ow t))"
    using hd by (auto simp: last_of_def fun_eq_iff split: if_splits)
  have "dl_queues (snext ?s) (sprev ?s) (shead ?s) (last_of (Ow(t := c # Ow t))) (Ow(t := c # Ow t))"
    using dl_queues_push[OF D c, of t] by (simp add: nx pv sh lst)
  moreover have "snext ?s d = None \<and> sprev ?s d = None"
    if "\<forall>u. d \<notin> set ((Ow(t := c # Ow t)) u)" for d
  proof -
    have "d \<noteq> c" using that[rule_format, of t] by simp
    moreover have no: "\<forall>u. d \<notin> set (Ow u)"
      using that by (auto split: if_splits)
    moreover have "shead s t \<noteq> Some d"
    proof (cases "Ow t")
      case (Cons a list)
      then show ?thesis using hd no[rule_format, of t] by auto
    qed (simp add: hd)
    ultimately show ?thesis using O
      by (auto simp: owned_def nx pv prev_push_def split: option.split)
  qed
  ultimately show ?thesis by (simp add: owned_def)
qed

text \<open>Giving an object back: it leaves its owner's list.\<close>

lemma owned_DEL_SYNCHOBJ:
  assumes O: "owned s Ow" and c: "c \<in> set (Ow t)"
  shows "owned (DEL_SYNCHOBJ c t s) (Ow(t := remove1 c (Ow t)))"
proof -
  let ?s = "DEL_SYNCHOBJ c t s"
  have D: "dl_queues (snext s) (sprev s) (shead s) (last_of Ow) Ow" using O by (simp add: owned_def)
  from c obtain as bs where xs: "Ow t = as @ c # bs" by (auto simp: in_set_conv_decomp)
  from dl_queuesD[OF D, of t] xs obtain m where A: "dls (snext s) (sprev s) None (shead s t) as m (Some c)"
    and pt: "sprev s c = m" and B: "dls (snext s) (sprev s) (Some c) (snext s c) bs (last_of Ow t) None"
    by (auto simp: dll_def dls_append)
  have m: "sprev s c = (if as = [] then None else Some (last as))" using dls_last[OF A] pt by simp
  have n: "snext s c = (if bs = [] then None else Some (hd bs))" using dls_head[OF B] .
  have d: "c \<notin> set as" "c \<notin> set bs" "set as \<inter> set bs = {}"
    using dl_queuesD[OF D, of t] xs by (auto simp: dll_def)
  have ne: "snext s c \<noteq> Some c" "sprev s c \<noteq> Some c" using m n d by (auto split: if_splits)
  have nx: "snext ?s x = (if x = c then None else next_unlink (snext s) (sprev s) c x)" for x
    using ne by (auto simp: snext_def sprev_def next_unlink_def DEL_SYNCHOBJ_def field_defs split: option.split)
  have pv: "sprev ?s x = (if x = c then None else prev_unlink (snext s) (sprev s) c x)" for x
    using ne by (auto simp: snext_def sprev_def prev_unlink_def DEL_SYNCHOBJ_def field_defs split: option.split)
  have sh: "shead ?s = (if sprev s c = None then (shead s)(t := snext s c) else shead s)"
    using ne by (auto simp: shead_def snext_def sprev_def DEL_SYNCHOBJ_def field_defs fun_eq_iff split: option.split)
  have lst: "last_of (Ow(t := remove1 c (Ow t))) =
      (if snext s c = None then (last_of Ow)(t := sprev s c) else last_of Ow)"
    using m n d xs by (auto simp: last_of_def fun_eq_iff split: if_splits)
  have "dl_queues (snext ?s) (sprev ?s) (shead ?s) (last_of (Ow(t := remove1 c (Ow t))))
      (Ow(t := remove1 c (Ow t)))"
    by (rule dl_queues_unlink[OF D c]) (simp_all add: nx pv sh lst)
  moreover have "snext ?s x = None \<and> sprev ?s x = None"
    if x: "\<forall>u. x \<notin> set ((Ow(t := remove1 c (Ow t))) u)" for x
  proof (cases "x = c")
    case False
    have "x \<notin> set (Ow u)" for u
    proof (cases "u = t")
      case True
      with x[rule_format, of t] False show ?thesis by simp
    next
      case ut: False
      with x[rule_format, of u] show ?thesis by simp
    qed
    then have "snext s x = None \<and> sprev s x = None" "snext s c \<noteq> Some x" "sprev s c \<noteq> Some x"
      using O m n xs by (auto simp: owned_def split: if_splits) (metis Un_iff last_in_set list.set_sel(1) set_ConsD set_append list.set_intros(2))+
    with False show ?thesis by (auto simp: nx pv next_unlink_def prev_unlink_def split: option.split)
  qed (simp add: nx pv)
  ultimately show ?thesis by (simp add: owned_def)
qed

end
