(* ===== verification/Scheduler.thy ===== *)
theory Scheduler
  imports Kernel_State
begin

text \<open>
  The ready queues and the scheduler: \<^verbatim>\<open>add_readyq\<close>, \<^verbatim>\<open>del_readyq\<close>,
  \<^verbatim>\<open>suspend\<close> and \<^verbatim>\<open>wakeup\<close> of \<^verbatim>\<open>base/process.c\<close>; the scheduling class
  functions \<^verbatim>\<open>rr_cl_*\<close>, \<^verbatim>\<open>scheduler\<close>, \<^verbatim>\<open>context_switch\<close> and the
  priority ageing of \<^verbatim>\<open>timerthread\<close> in \<^verbatim>\<open>base/timer.c\<close>.

  A loop that follows \<^verbatim>\<open>kt_qnext\<close> is a \<open>partial_function\<close> into \<open>option\<close>: on a
  cyclic queue the C loop does not end and the model is \<open>None\<close>.  The lemmas show that on
  represented queues every such loop returns.
\<close>

section \<open>Priorities\<close>

definition basepri :: "int list" where
  "basepri = [130, 100, 10, 0]"

definition maxpri :: "int list" where
  "maxpri = [159, 129, 99, 0]"

abbreviation SCHED_CLASS_IDLE :: int where "SCHED_CLASS_IDLE \<equiv> 4"

text \<open>The larger of the two priorities, and the ready queue it selects.\<close>

definition eff_pri :: "sched_info \<Rightarrow> int" where
  "eff_pri si = (if sc_cpupri si > sc_inhpri si then sc_cpupri si else sc_inhpri si)"

definition ready_index :: "sched_info \<Rightarrow> int" where
  "ready_index si = (if sc_cpupri si > sc_inhpri si then c_div (159 - sc_cpupri si) 5
                     else c_div (159 - sc_inhpri si) 5)"

text \<open>\<^verbatim>\<open>(secs & 0x000FFFFF) * 1000 + millesecs\<close>\<close>

definition sched_clock :: "kern \<Rightarrow> u32" where
  "sched_clock s = (secs s AND 0xFFFFF) * 1000 + millesecs s"

section \<open>The scheduling class functions\<close>

definition rr_cl_tick :: "tid \<Rightarrow> kern \<Rightarrow> kern" where
  "rr_cl_tick thr s =
     (let s1 = upd_sched thr (\<lambda>si. si\<lparr>sc_tqleft := to_s16 (sc_tqleft si - 20),
                 sc_totcpuusage := sc_totcpuusage si + 20,
                 sc_reccpuusage := to_s16 (sc_reccpuusage si + 20)\<rparr>) s
      in if sc_tqleft (sched s1 thr) \<le> 0
         then let s2 = upd_sched thr (\<lambda>si. si\<lparr>sc_cpupri := to_s16 (sc_cpupri si - 10)\<rparr>) s1;
                  i = nat (sc_cid (sched s2 thr) - 1)
              in if sc_cpupri (sched s2 thr) < basepri ! i
                 then upd_sched thr (\<lambda>si. si\<lparr>sc_cpupri := basepri ! i\<rparr>) s2
                 else s2
         else s1)"

definition rr_cl_sleep :: "tid \<Rightarrow> kern \<Rightarrow> kern" where
  "rr_cl_sleep thr s = upd_sched thr (\<lambda>si. si\<lparr>sc_slpstart := sched_clock s\<rparr>) s"

definition rr_cl_wakeup :: "tid \<Rightarrow> kern \<Rightarrow> kern" where
  "rr_cl_wakeup thr s =
     (let i = nat (sc_cid (sched s thr) - 1);
          s1 = upd_sched thr (\<lambda>si. si\<lparr>sc_cpupri := to_s16 (sc_cpupri si + 5)\<rparr>) s
      in if sc_cpupri (sched s1 thr) > maxpri ! i
         then upd_sched thr (\<lambda>si. si\<lparr>sc_cpupri := maxpri ! i\<rparr>) s1
         else s1)"

section \<open>The ready queues\<close>

definition add_readyq :: "tid \<Rightarrow> kern \<Rightarrow> kern" where
  "add_readyq thr s =
     (let s1 = upd_kt thr (\<lambda>k. k\<lparr>kt_qnext := None, kt_slpchannel := None\<rparr>) s;
          i = ready_index (sched s1 thr);
          s2 = upd_sched thr (\<lambda>si. si\<lparr>sc_state := THREAD_STATE_READY\<rparr>) s1;
          s3 = append_readyq i thr s2;
          cur = sched s3 (current_thread s3);
          new = sched s3 thr
      in if sc_cpupri cur < sc_cpupri new \<and> sc_inhpri cur < sc_cpupri new \<or>
            sc_cpupri cur < sc_inhpri new \<and> sc_inhpri cur < sc_inhpri new
         then s3\<lparr>runrun := True\<rparr> else s3)"

definition del_readyq :: "tid \<Rightarrow> kern \<Rightarrow> int \<times> kern" where
  "del_readyq thr s =
     (let i = ready_index (sched s thr)
      in if sc_state (sched s thr) = THREAD_STATE_READY
         then (1, upd_kt thr (\<lambda>k. k\<lparr>kt_qnext := None, kt_qprev := None\<rparr>) (unlink_readyq i thr s))
         else (0, s))"

definition wakeup :: "tid \<Rightarrow> kern \<Rightarrow> kern" where
  "wakeup t s =
     (let s1 = rr_cl_wakeup t s
      in if proc_state s1 (kt_process (kt s1 t)) = PROC_STATE_READY
         then add_readyq t (upd_sched t (\<lambda>si. si\<lparr>sc_state := THREAD_STATE_READY\<rparr>) s1)
         else s1)"

text \<open>
  \<^verbatim>\<open>suspend\<close>, between its locking calls: the loop over one ready queue and the loop
  over all of them.
\<close>

partial_function (option) suspend_queue :: "nat \<Rightarrow> int \<Rightarrow> tid option \<Rightarrow> kern \<Rightarrow> kern option" where
  "suspend_queue proc i t1 s =
     (case t1 of
        None \<Rightarrow> Some s
      | Some t \<Rightarrow>
          if kt_process (kt s t) = proc
          then suspend_queue proc i (kt_qnext (kt s t))
                 (upd_kt t (\<lambda>k. k\<lparr>kt_qnext := None, kt_qprev := None\<rparr>) (unlink_readyq i t s))
          else suspend_queue proc i (kt_qnext (kt s t)) s)"

function suspend_from :: "int \<Rightarrow> nat \<Rightarrow> kern \<Rightarrow> kern option" where
  "suspend_from i proc s =
     (if i < MAXREADYQ
      then Option.bind (suspend_queue proc i (ready_qhead s i) s) (suspend_from (i + 1) proc)
      else Some s)"
  by auto
termination by (relation "measure (\<lambda>(i, _). nat (MAXREADYQ - i))") auto

definition suspend_threads :: "nat \<Rightarrow> kern \<Rightarrow> kern option" where
  "suspend_threads proc s = suspend_from 0 proc (s\<lparr>proc_state := (proc_state s)(proc := PROC_STATE_SUSPENDED)\<rparr>)"

section \<open>Choosing the next thread\<close>

text \<open>The inner \<^verbatim>\<open>while\<close> of \<^verbatim>\<open>scheduler\<close>, over the rest of the chosen queue.\<close>

partial_function (option) scan_queue :: "kern \<Rightarrow> tid option \<Rightarrow> tid \<Rightarrow> int \<Rightarrow> tid option" where
  "scan_queue s t new_thread priority =
     (case t of
        None \<Rightarrow> Some new_thread
      | Some u \<Rightarrow>
          let p = sc_usrpri (sched s u) + eff_pri (sched s u)
          in if priority > p then scan_queue s (kt_qnext (kt s u)) u p
             else scan_queue s (kt_qnext (kt s u)) new_thread priority)"

text \<open>The outer \<^verbatim>\<open>for\<close>: \<open>Some None\<close> when every queue is empty.\<close>

function pick_thread :: "int \<Rightarrow> kern \<Rightarrow> tid option option" where
  "pick_thread i s =
     (if i < MAXREADYQ
      then case ready_qhead s i of
             None \<Rightarrow> pick_thread (i + 1) s
           | Some t \<Rightarrow> map_option Some (scan_queue s (kt_qnext (kt s t)) t
                         (sc_usrpri (sched s t) + eff_pri (sched s t)))
      else Some None)"
  by auto
termination by (relation "measure (\<lambda>(i, _). nat (MAXREADYQ - i))") auto

declare suspend_from.simps [simp del] pick_thread.simps [simp del]

text \<open>
  \<^verbatim>\<open>context_switch\<close> without its machine part (FPU state, TSS busy bit, \<^verbatim>\<open>cr0\<close>,
  \<^verbatim>\<open>cr3\<close>, the task gate jump): which thread and process are current.
\<close>

definition context_switch :: "tid \<Rightarrow> kern \<Rightarrow> kern" where
  "context_switch new_thread s =
     (let s1 = s\<lparr>current_process := kt_process (kt s new_thread)\<rparr>;
          s2 = upd_sched new_thread (\<lambda>si. si\<lparr>sc_state := THREAD_STATE_RUNNING\<rparr>) s1
      in s2\<lparr>current_thread := new_thread\<rparr>)"

definition requeue_current :: "kern \<Rightarrow> kern" where
  "requeue_current s =
     (let cur = current_thread s
      in if sc_state (sched s cur) = THREAD_STATE_RUNNING
         then let s1 = upd_sched cur (\<lambda>si. si\<lparr>sc_state := THREAD_STATE_READY\<rparr>) s
              in append_readyq (ready_index (sched s1 cur)) cur s1
         else s)"

definition scheduler :: "kern \<Rightarrow> kern option" where
  "scheduler s0 =
     (let s = s0\<lparr>runrun := False, kprunrun := False\<rparr>;
          cur = current_thread s;
          stay = upd_sched cur (\<lambda>si. si\<lparr>sc_thrreadystart := sched_clock s, sc_tqleft := TIME_QUANTUM\<rparr>) s
      in Option.bind (pick_thread 0 s) (\<lambda>choice.
         case choice of
           None \<Rightarrow> Some stay
         | Some new_thread \<Rightarrow>
             if sc_cid (sched s new_thread) = SCHED_CLASS_IDLE \<and>
                sc_state (sched s cur) = THREAD_STATE_RUNNING
             then Some stay
             else
               let s1 = requeue_current s;
                   s2 = unlink_readyq (ready_index (sched s1 new_thread)) new_thread s1;
                   s3 = upd_kt new_thread (\<lambda>k. k\<lparr>kt_qnext := None, kt_qprev := None\<rparr>) s2;
                   s4 = upd_sched new_thread (\<lambda>si. si\<lparr>sc_tqleft := TIME_QUANTUM,
                          sc_thrreadystart := sched_clock s3\<rparr>) s3
               in Some (context_switch new_thread s4)))"

section \<open>Priority ageing\<close>

text \<open>The body of the ageing loop of \<^verbatim>\<open>timerthread\<close> for one thread, one queue, all queues.\<close>

definition age_thread :: "u32 \<Rightarrow> tid \<Rightarrow> kern \<Rightarrow> kern" where
  "age_thread tmsec thr s =
     (let inc = (if tmsec - sc_thrreadystart (sched s thr) > 3000 then 4 else 2);
          s1 = upd_sched thr (\<lambda>si. si\<lparr>sc_cpupri := to_s16 (sc_cpupri si + inc)\<rparr>) s;
          cid = nat (sc_cid (sched s1 thr) - 1);
          s2 = (if sc_cpupri (sched s1 thr) > maxpri ! cid
                then upd_sched thr (\<lambda>si. si\<lparr>sc_cpupri := maxpri ! cid\<rparr>) s1 else s1)
      in append_readyq (ready_index (sched s2 thr)) thr s2)"

partial_function (option) age_queue :: "u32 \<Rightarrow> tid option \<Rightarrow> kern \<Rightarrow> kern option" where
  "age_queue tmsec thr s =
     (case thr of
        None \<Rightarrow> Some s
      | Some t \<Rightarrow> age_queue tmsec (kt_qnext (kt s t)) (age_thread tmsec t s))"

function age_from :: "int \<Rightarrow> u32 \<Rightarrow> kern \<Rightarrow> kern option" where
  "age_from i tmsec s =
     (if i < 31
      then Option.bind
             (age_queue tmsec (ready_qhead s i)
                (s\<lparr>ready_qhead := (ready_qhead s)(i := None), ready_qtail := (ready_qtail s)(i := None)\<rparr>))
             (age_from (i + 1) tmsec)
      else Some s)"
  by auto
termination by (relation "measure (\<lambda>(i, _). nat (31 - i))") auto

declare age_from.simps [simp del]

definition recompute_priorities :: "kern \<Rightarrow> kern option" where
  "recompute_priorities s =
     (if priocompute s then age_from 0 (sched_clock s) (s\<lparr>priocompute := False\<rparr>) else Some s)"

section \<open>The scheduling invariant\<close>

definition pri_ok :: "sched_info \<Rightarrow> bool" where
  "pri_ok si \<longleftrightarrow> 1 \<le> sc_cid si \<and> sc_cid si \<le> 4 \<and> 0 \<le> sc_cpupri si \<and> sc_cpupri si \<le> 159 \<and>
     0 \<le> sc_inhpri si \<and> sc_inhpri si \<le> 159 \<and> sc_cpupri si \<le> maxpri ! nat (sc_cid si - 1)"

text \<open>
  \<open>kinvx X s Q\<close>: the pointers represent the lists \<open>Q\<close>; a thread on ready queue \<open>i\<close> is
  in the ready state and has the priority of that queue; a thread on a sleep queue sleeps
  on that object; a ready thread is on the queue of its priority, except for the threads
  in \<open>X\<close>; priorities are within 0 and 159,
  the own one not above the maximum of its class.
\<close>

definition kinvx :: "tid set \<Rightarrow> kern \<Rightarrow> (qid \<Rightarrow> tid list) \<Rightarrow> bool" where
  "kinvx X s Q \<longleftrightarrow> kqueues s Q \<and>
     (\<forall>i t. t \<in> set (Q (Ready i)) \<longrightarrow> sc_state (sched s t) = THREAD_STATE_READY \<and> ready_index (sched s t) = i) \<and>
     (\<forall>c t. t \<in> set (Q (Wait c)) \<longrightarrow> sc_state (sched s t) = THREAD_STATE_SLEEP \<and> kt_slpchannel (kt s t) = Some c) \<and>
     (\<forall>t. sc_state (sched s t) = THREAD_STATE_READY \<longrightarrow> t \<notin> X \<longrightarrow> t \<in> set (Q (Ready (ready_index (sched s t))))) \<and>
     (\<forall>t. pri_ok (sched s t))"

abbreviation kinv :: "kern \<Rightarrow> (qid \<Rightarrow> tid list) \<Rightarrow> bool" where
  "kinv \<equiv> kinvx {}"

lemma kinvx_queues: "kinvx X s Q \<Longrightarrow> kqueues s Q"
  by (simp add: kinvx_def)

lemma kinvx_ready: "kinvx X s Q \<Longrightarrow> t \<in> set (Q (Ready i)) \<Longrightarrow>
    sc_state (sched s t) = THREAD_STATE_READY \<and> ready_index (sched s t) = i"
  by (simp add: kinvx_def)

lemma kinvx_wait: "kinvx X s Q \<Longrightarrow> t \<in> set (Q (Wait c)) \<Longrightarrow>
    sc_state (sched s t) = THREAD_STATE_SLEEP \<and> kt_slpchannel (kt s t) = Some c"
  by (simp add: kinvx_def)

lemma kinvx_on_queue: "kinvx X s Q \<Longrightarrow> sc_state (sched s t) = THREAD_STATE_READY \<Longrightarrow> t \<notin> X \<Longrightarrow>
    t \<in> set (Q (Ready (ready_index (sched s t))))"
  by (simp add: kinvx_def)

lemma kinvx_pri: "kinvx X s Q \<Longrightarrow> pri_ok (sched s t)"
  by (simp add: kinvx_def)

lemma kinvx_mono: "kinvx X s Q \<Longrightarrow> X \<subseteq> Y \<Longrightarrow> kinvx Y s Q"
  unfolding kinvx_def by blast

text \<open>A thread that neither sleeps nor is ready is on no queue.\<close>

lemma kinvx_off_queue:
  "kinvx X s Q \<Longrightarrow> sc_state (sched s t) \<noteq> THREAD_STATE_READY \<Longrightarrow>
   sc_state (sched s t) \<noteq> THREAD_STATE_SLEEP \<Longrightarrow> t \<notin> set (Q q)"
  by (cases q) (auto simp: kinvx_def)

lemma ready_index_range: "pri_ok si \<Longrightarrow> 0 \<le> ready_index si \<and> ready_index si < MAXREADYQ"
  unfolding pri_ok_def ready_index_def by auto

lemma ready_index_eff: "pri_ok si \<Longrightarrow> ready_index si = (159 - eff_pri si) div 5"
  by (auto simp: pri_ok_def ready_index_def eff_pri_def)

lemma ready_index_upd [simp]:
  "ready_index (si\<lparr>sc_state := a\<rparr>) = ready_index si"
  "ready_index (si\<lparr>sc_tqleft := b\<rparr>) = ready_index si"
  "ready_index (si\<lparr>sc_thrreadystart := c\<rparr>) = ready_index si"
  by (simp_all add: ready_index_def)

lemma pri_ok_upd [simp]:
  "pri_ok (si\<lparr>sc_state := a\<rparr>) = pri_ok si"
  "pri_ok (si\<lparr>sc_tqleft := b\<rparr>) = pri_ok si"
  "pri_ok (si\<lparr>sc_thrreadystart := c\<rparr>) = pri_ok si"
  by (simp_all add: pri_ok_def)

lemma pri_tables:
  "1 \<le> c \<Longrightarrow> c \<le> 4 \<Longrightarrow> 0 \<le> basepri ! nat (c - 1) \<and> basepri ! nat (c - 1) \<le> maxpri ! nat (c - 1) \<and>
     maxpri ! nat (c - 1) \<le> 159"
proof -
  assume "1 \<le> c" "c \<le> 4"
  then have "c = 1 \<or> c = 2 \<or> c = 3 \<or> c = 4" by linarith
  then show ?thesis by (auto simp: basepri_def maxpri_def eval_nat_numeral)
qed

text \<open>Changing a thread that is on no queue, and any global outside the queues.\<close>

definition only_thread :: "tid \<Rightarrow> kern \<Rightarrow> kern \<Rightarrow> bool" where
  "only_thread t s s' \<longleftrightarrow> (\<forall>u. u \<noteq> t \<longrightarrow> kt s' u = kt s u) \<and>
     (\<forall>c. sl_head (slq s' c) = sl_head (slq s c) \<and> sl_tail (slq s' c) = sl_tail (slq s c)) \<and>
     ready_qhead s' = ready_qhead s \<and> ready_qtail s' = ready_qtail s"

lemma only_thread_upd [simp]:
  "only_thread t s (upd_kt t f s)" "only_thread t s (upd_sched t g s)"
  by (simp_all add: only_thread_def field_defs)

lemma only_thread_refl [simp]: "only_thread t s s"
  by (simp add: only_thread_def)

lemma only_thread_trans: "only_thread t s s' \<Longrightarrow> only_thread t s' s'' \<Longrightarrow> only_thread t s s''"
  by (simp add: only_thread_def)

lemma kinvx_only_thread:
  assumes K: "kinvx X s Q" and off: "\<And>q. t \<notin> set (Q q)" and o: "only_thread t s s'"
    and pri: "pri_ok (sched s' t)" and X: "X - {t} \<subseteq> Y"
    and rdy: "sc_state (sched s' t) = THREAD_STATE_READY \<Longrightarrow> t \<in> Y"
  shows "kinvx Y s' Q"
proof -
  have same: "kt s' u = kt s u" if "u \<in> set (Q q)" for u q
    using that off o unfolding only_thread_def by metis
  have "kqueues s' Q"
    by (rule kqueues_cong[OF kinvx_queues[OF K]]) (use same o in \<open>auto simp: only_thread_def\<close>)
  moreover have "pri_ok (sched s' u)" for u
    using pri kinvx_pri[OF K, of u] o by (cases "u = t") (auto simp: only_thread_def)
  moreover have "u \<in> set (Q (Ready (ready_index (sched s' u))))"
    if "sc_state (sched s' u) = THREAD_STATE_READY" "u \<notin> Y" for u
  proof -
    from that rdy have "u \<noteq> t" by blast
    with that X kinvx_on_queue[OF K, of u] o show ?thesis by (auto simp: only_thread_def)
  qed
  ultimately show ?thesis
    using kinvx_ready[OF K] kinvx_wait[OF K] same by (auto simp: kinvx_def)
qed

text \<open>What \<open>same_but_queues\<close> gives to the clauses of the invariant.\<close>

lemma same_but_queuesD:
  assumes "same_but_queues s s'"
  shows "sched s' t = sched s t" "kt_slpchannel (kt s' t) = kt_slpchannel (kt s t)"
    "kt_process (kt s' t) = kt_process (kt s t)" "kt_synchobjlist (kt s' t) = kt_synchobjlist (kt s t)"
    "current_thread s' = current_thread s" "current_process s' = current_process s"
    "proc_state s' = proc_state s"
    "lockt s' = lockt s" "rlockt s' = rlockt s" "eventt s' = eventt s"
    "sl_type (slq s' c) = sl_type (slq s c)" "sl_next (slq s' c) = sl_next (slq s c)"
    "sl_prev (slq s' c) = sl_prev (slq s c)"
    "timers s' = timers s" "tobj s' = tobj s" "tmo_failed s' = tmo_failed s"
    "runrun s' = runrun s" "kprunrun s' = kprunrun s" "priocompute s' = priocompute s"
    "timeoutflag s' = timeoutflag s" "secs s' = secs s" "millesecs s' = millesecs s"
  using assms by (simp_all add: same_but_queues_def)

lemmas queue_fields = same_but_queuesD[OF append_readyq_same] same_but_queuesD[OF unlink_readyq_same]
  same_but_queuesD[OF ADD_SLQ_same] same_but_queuesD[OF DEL_SLQ_same] same_but_queuesD[OF unlink_slq_same]

lemma kinvxI:
  assumes "kqueues s Q"
    and "\<And>i t. t \<in> set (Q (Ready i)) \<Longrightarrow> sc_state (sched s t) = THREAD_STATE_READY \<and> ready_index (sched s t) = i"
    and "\<And>c t. t \<in> set (Q (Wait c)) \<Longrightarrow> sc_state (sched s t) = THREAD_STATE_SLEEP \<and> kt_slpchannel (kt s t) = Some c"
    and "\<And>t. sc_state (sched s t) = THREAD_STATE_READY \<Longrightarrow> t \<notin> X \<Longrightarrow> t \<in> set (Q (Ready (ready_index (sched s t))))"
    and "\<And>t. pri_ok (sched s t)"
  shows "kinvx X s Q"
  unfolding kinvx_def using assms by blast

lemma kinvx_append_readyq:
  assumes K: "kinvx X s Q" and off: "\<And>q. t \<notin> set (Q q)"
    and st: "sc_state (sched s t) = THREAD_STATE_READY" and i: "i = ready_index (sched s t)"
  shows "kinvx (X - {t}) (append_readyq i t s) (Q(Ready i := Q (Ready i) @ [t]))"
proof (rule kinvxI, goal_cases)
  case 1
  show ?case by (rule kqueues_append_readyq[OF kinvx_queues[OF K] off])
next
  case (2 j u)
  then show ?case using kinvx_ready[OF K, of u j] st i by (auto simp: queue_fields split: if_splits)
next
  case (3 c u)
  then show ?case using kinvx_wait[OF K, of u c] by (simp add: queue_fields)
next
  case (4 u)
  then show ?case using kinvx_on_queue[OF K, of u] i by (auto simp: queue_fields)
next
  case (5 u)
  show ?case using kinvx_pri[OF K, of u] by (simp add: queue_fields)
qed

lemma kinvx_unlink_readyq:
  assumes K: "kinvx X s Q" and t: "t \<in> set (Q (Ready i))"
  shows "kinvx (insert t X) (unlink_readyq i t s) (Q(Ready i := remove1 t (Q (Ready i))))"
proof (rule kinvxI, goal_cases)
  case 1
  show ?case by (rule kqueues_unlink_readyq[OF kinvx_queues[OF K] t])
next
  case (2 j u)
  then have "u \<in> set (Q (Ready j))"
    using set_remove1_subset[of t "Q (Ready i)"] by (auto split: if_splits)
  then show ?case using kinvx_ready[OF K, of u j] by (simp add: queue_fields)
next
  case (3 c u)
  then show ?case using kinvx_wait[OF K, of u c] by (simp add: queue_fields)
next
  case (4 u)
  then show ?case using kinvx_on_queue[OF K, of u] by (auto simp: queue_fields in_set_remove1)
next
  case (5 u)
  show ?case using kinvx_pri[OF K, of u] by (simp add: queue_fields)
qed

lemma off_after_remove:
  assumes "kqueues s Q" "t \<in> set (Q q)"
  shows "t \<notin> set ((Q(q := remove1 t (Q q))) r)"
proof (cases "r = q")
  case True
  then show ?thesis using kqueues_distinct[OF assms(1), of q] by simp
next
  case False
  then show ?thesis using kqueues_disjoint[OF assms(1,2), of r] by auto
qed

text \<open>The invariant does not depend on the other kernel globals.\<close>

lemma kinvx_cong:
  assumes "kt s' = kt s" "slq s' = slq s" "ready_qhead s' = ready_qhead s" "ready_qtail s' = ready_qtail s"
  shows "kinvx X s' Q = kinvx X s Q"
proof -
  have "khead s' = khead s" "ktail s' = ktail s"
    using assms by (auto intro!: qid_fun_eqI)
  moreover have "knext s' = knext s" "kprev s' = kprev s"
    using assms by (auto simp: knext_def kprev_def)
  ultimately show ?thesis using assms by (simp add: kinvx_def kqueues_def)
qed

lemma kinvx_globals [simp]:
  "kinvx X (s\<lparr>runrun := v0\<rparr>) Q = kinvx X s Q"
  "kinvx X (s\<lparr>kprunrun := v1\<rparr>) Q = kinvx X s Q"
  "kinvx X (s\<lparr>priocompute := v2\<rparr>) Q = kinvx X s Q"
  "kinvx X (s\<lparr>timeoutflag := v3\<rparr>) Q = kinvx X s Q"
  "kinvx X (s\<lparr>current_thread := v4\<rparr>) Q = kinvx X s Q"
  "kinvx X (s\<lparr>current_process := v5\<rparr>) Q = kinvx X s Q"
  "kinvx X (s\<lparr>proc_state := v6\<rparr>) Q = kinvx X s Q"
  "kinvx X (s\<lparr>lockt := v7\<rparr>) Q = kinvx X s Q"
  "kinvx X (s\<lparr>rlockt := v8\<rparr>) Q = kinvx X s Q"
  "kinvx X (s\<lparr>eventt := v9\<rparr>) Q = kinvx X s Q"
  "kinvx X (s\<lparr>secs := v10\<rparr>) Q = kinvx X s Q"
  "kinvx X (s\<lparr>millesecs := v11\<rparr>) Q = kinvx X s Q"
  "kinvx X (s\<lparr>timers := v12\<rparr>) Q = kinvx X s Q"
  "kinvx X (s\<lparr>tobj := v13\<rparr>) Q = kinvx X s Q"
  "kinvx X (s\<lparr>tmo_failed := v14\<rparr>) Q = kinvx X s Q"
  by (rule kinvx_cong; simp)+

section \<open>Ready-queue operations keep the invariant\<close>

lemma kinvx_add_readyq:
  assumes K: "kinvx X s Q" and off: "\<And>q. t \<notin> set (Q q)" and i: "i = ready_index (sched s t)"
  shows "kinvx (X - {t}) (add_readyq t s) (Q(Ready i := Q (Ready i) @ [t]))"
proof -
  let ?s1 = "upd_kt t (\<lambda>k. k\<lparr>kt_qnext := None, kt_slpchannel := None\<rparr>) s"
  let ?s2 = "upd_sched t (\<lambda>si. si\<lparr>sc_state := THREAD_STATE_READY\<rparr>) ?s1"
  have idx: "ready_index (sched ?s1 t) = i" "ready_index (sched ?s2 t) = i"
    using i by (simp_all add: field_defs)
  have "kinvx (insert t X) ?s2 Q"
    by (rule kinvx_only_thread[OF K off only_thread_trans[OF only_thread_upd(1) only_thread_upd(2)]])
      (use kinvx_pri[OF K, of t] in \<open>auto simp: field_defs pri_ok_def\<close>)
  then have "kinvx (insert t X - {t}) (append_readyq i t ?s2) (Q(Ready i := Q (Ready i) @ [t]))"
    by (rule kinvx_append_readyq[OF _ off]) (simp_all add: i field_defs)
  then show ?thesis by (simp add: add_readyq_def Let_def idx)
qed

lemma add_readyq_sched:
  "sched (add_readyq t s) u = (if u = t then (sched s t)\<lparr>sc_state := THREAD_STATE_READY\<rparr> else sched s u)"
  by (simp add: add_readyq_def Let_def queue_fields) (simp add: field_defs)

lemma add_readyq_fields [simp]:
  "current_thread (add_readyq t s) = current_thread s"
  "proc_state (add_readyq t s) = proc_state s"
  "lockt (add_readyq t s) = lockt s"
  "rlockt (add_readyq t s) = rlockt s"
  "eventt (add_readyq t s) = eventt s"
  "sl_type (slq (add_readyq t s) c) = sl_type (slq s c)"
  "sl_next (slq (add_readyq t s) c) = sl_next (slq s c)"
  "sl_prev (slq (add_readyq t s) c) = sl_prev (slq s c)"
  "kt_synchobjlist (kt (add_readyq t s) u) = kt_synchobjlist (kt s u)"
  "kt_process (kt (add_readyq t s) u) = kt_process (kt s u)"
  "timers (add_readyq t s) = timers s"
  "tobj (add_readyq t s) = tobj s"
  by (simp_all add: add_readyq_def Let_def queue_fields) (simp_all add: field_defs)

lemma add_readyq_slpchannel:
  "kt_slpchannel (kt (add_readyq t s) u) = (if u = t then None else kt_slpchannel (kt s u))"
  by (simp add: add_readyq_def Let_def queue_fields) (simp add: field_defs)

lemma kinvx_del_readyq:
  assumes K: "kinvx X s Q" and st: "sc_state (sched s t) = THREAD_STATE_READY" and t: "t \<notin> X"
    and i: "i = ready_index (sched s t)"
  shows "fst (del_readyq t s) = 1"
    "kinvx (insert t X) (snd (del_readyq t s)) (Q(Ready i := remove1 t (Q (Ready i))))"
    "sched (snd (del_readyq t s)) = sched s"
proof -
  let ?u = "unlink_readyq i t s" and ?clr = "upd_kt t (\<lambda>k. k\<lparr>kt_qnext := None, kt_qprev := None\<rparr>)"
  have in_q: "t \<in> set (Q (Ready i))" using kinvx_on_queue[OF K st t] i by simp
  have d: "del_readyq t s = (1, ?clr ?u)" using st i by (simp add: del_readyq_def Let_def)
  then show "fst (del_readyq t s) = 1" by simp
  show "sched (snd (del_readyq t s)) = sched s"
    by (auto simp: d upd_kt_def queue_fields fun_eq_iff)
  have U: "kinvx (insert t X) ?u (Q(Ready i := remove1 t (Q (Ready i))))"
    by (rule kinvx_unlink_readyq[OF K in_q])
  have "kinvx (insert t X) (?clr ?u) (Q(Ready i := remove1 t (Q (Ready i))))"
    by (rule kinvx_only_thread[OF U off_after_remove[OF kinvx_queues[OF K] in_q] only_thread_upd(1)])
      (use kinvx_pri[OF K, of t] in \<open>auto simp: upd_kt_def queue_fields\<close>)
  then show "kinvx (insert t X) (snd (del_readyq t s)) (Q(Ready i := remove1 t (Q (Ready i))))"
    by (simp add: d)
qed

lemma del_readyq_not_ready:
  "sc_state (sched s t) \<noteq> THREAD_STATE_READY \<Longrightarrow> del_readyq t s = (0, s)"
  by (simp add: del_readyq_def Let_def)

lemma del_readyq_fields [simp]:
  "current_thread (snd (del_readyq t s)) = current_thread s"
  "proc_state (snd (del_readyq t s)) = proc_state s"
  "lockt (snd (del_readyq t s)) = lockt s"
  "rlockt (snd (del_readyq t s)) = rlockt s"
  "eventt (snd (del_readyq t s)) = eventt s"
  "sl_type (slq (snd (del_readyq t s)) c) = sl_type (slq s c)"
  "sl_next (slq (snd (del_readyq t s)) c) = sl_next (slq s c)"
  "sl_prev (slq (snd (del_readyq t s)) c) = sl_prev (slq s c)"
  "kt_synchobjlist (kt (snd (del_readyq t s)) u) = kt_synchobjlist (kt s u)"
  "kt_slpchannel (kt (snd (del_readyq t s)) u) = kt_slpchannel (kt s u)"
  "kt_process (kt (snd (del_readyq t s)) u) = kt_process (kt s u)"
  "kt_schedinf (kt (snd (del_readyq t s)) u) = kt_schedinf (kt s u)"
  by (simp_all add: del_readyq_def Let_def upd_kt_def queue_fields)

lemma rr_cl_wakeup_eq:
  assumes "pri_ok (sched s t)"
  shows "rr_cl_wakeup t s = upd_sched t (\<lambda>si. si\<lparr>sc_cpupri := min (sc_cpupri si + 5) (maxpri ! nat (sc_cid si - 1))\<rparr>) s"
  using assms by (auto simp: rr_cl_wakeup_def field_defs pri_ok_def to_s16_id fun_eq_iff)

lemma pri_ok_wakeup:
  "pri_ok si \<Longrightarrow> pri_ok (si\<lparr>sc_cpupri := min (sc_cpupri si + 5) (maxpri ! nat (sc_cid si - 1))\<rparr>)"
  using pri_tables[of "sc_cid si"] by (auto simp: pri_ok_def)

lemma kinvx_wakeup:
  assumes K: "kinvx X s Q" and off: "\<And>q. t \<notin> set (Q q)"
    and p: "proc_state s (kt_process (kt s t)) = PROC_STATE_READY"
  defines "s1 \<equiv> rr_cl_wakeup t s"
  defines "i \<equiv> ready_index (sched s1 t)"
  shows "kinvx (X - {t}) (wakeup t s) (Q(Ready i := Q (Ready i) @ [t]))"
proof -
  let ?s2 = "upd_sched t (\<lambda>si. si\<lparr>sc_state := THREAD_STATE_READY\<rparr>) s1"
  note pri = kinvx_pri[OF K, of t]
  have s1: "s1 = upd_sched t (\<lambda>si. si\<lparr>sc_cpupri := min (sc_cpupri si + 5) (maxpri ! nat (sc_cid si - 1))\<rparr>) s"
    unfolding s1_def by (rule rr_cl_wakeup_eq[OF pri])
  have p2: "pri_ok (sched ?s2 t)"
    using pri_ok_wakeup[OF pri] by (simp add: s1 field_defs pri_ok_def)
  have "only_thread t s ?s2" unfolding s1 by (rule only_thread_trans[OF only_thread_upd(2) only_thread_upd(2)])
  then have "kinvx (insert t X) ?s2 Q"
    by (rule kinvx_only_thread[OF K off _ p2]) auto
  then have "kinvx (insert t X - {t}) (add_readyq t ?s2) (Q(Ready i := Q (Ready i) @ [t]))"
    by (rule kinvx_add_readyq[OF _ off]) (simp add: i_def field_defs)
  moreover have "wakeup t s = add_readyq t ?s2"
    using p by (simp add: wakeup_def s1_def[symmetric] Let_def) (simp add: s1 field_defs)
  ultimately show ?thesis by simp
qed

lemma wakeup_suspended:
  assumes "pri_ok (sched s t)" "proc_state s (kt_process (kt s t)) \<noteq> PROC_STATE_READY"
  shows "wakeup t s = rr_cl_wakeup t s"
  using assms by (simp add: wakeup_def Let_def rr_cl_wakeup_eq field_defs)

section \<open>The scheduler\<close>

text \<open>The ordering within a queue, and the choice on the represented lists.\<close>

definition sched_key :: "kern \<Rightarrow> tid \<Rightarrow> int" where
  "sched_key s t = sc_usrpri (sched s t) + eff_pri (sched s t)"

primrec least :: "('a \<Rightarrow> int) \<Rightarrow> 'a \<Rightarrow> 'a list \<Rightarrow> 'a" where
  "least f x [] = x"
| "least f x (y # ys) = (if f x > f y then least f y ys else least f x ys)"

definition pick_from :: "kern \<Rightarrow> (qid \<Rightarrow> tid list) \<Rightarrow> int \<Rightarrow> tid option" where
  "pick_from s Q i = map_option (\<lambda>j. least (sched_key s) (hd (Q (Ready j))) (tl (Q (Ready j))))
     (find (\<lambda>j. Q (Ready j) \<noteq> []) [i..31])"

lemma least_in: "least f x ys \<in> set (x # ys)"
  by (induction ys arbitrary: x) auto

lemma least_le: "f (least f x ys) \<le> f x \<and> (\<forall>u\<in>set ys. f (least f x ys) \<le> f u)"
proof (induction ys arbitrary: x)
  case (Cons y ys)
  show ?case using Cons.IH[of x] Cons.IH[of y] by auto
qed simp

lemma scan_queue_least:
  "dls (knext s) pv p t xs l None \<Longrightarrow>
   scan_queue s t n (sched_key s n) = Some (least (sched_key s) n xs)"
proof (induction xs arbitrary: t n p)
  case Nil
  then show ?case by (simp add: scan_queue.simps)
next
  case (Cons x xs)
  then have t: "t = Some x" and r: "dls (knext s) pv (Some x) (kt_qnext (kt s x)) xs l None"
    by (simp_all add: knext_def[of s x, symmetric])
  show ?case using Cons.IH[OF r]
    by (subst scan_queue.simps) (simp add: t sched_key_def[symmetric] Let_def)
qed

lemma kqueues_rest:
  assumes "kqueues s Q" "Q q = t # ts"
  shows "dls (knext s) (kprev s) (Some t) (kt_qnext (kt s t)) ts (ktail s q) None"
proof -
  have "dll (knext s) (kprev s) (khead s q) (t # ts) (ktail s q)"
    using dl_queuesD[OF assms(1)[unfolded kqueues_def], of q] assms(2) by simp
  then show ?thesis by (simp add: dll_def knext_def[of s t, symmetric])
qed

lemma pick_thread_refines:
  assumes Q: "kqueues s Q"
  shows "pick_thread i s = Some (pick_from s Q i)"
proof (induction "nat (MAXREADYQ - i)" arbitrary: i rule: less_induct)
  case less
  show ?case
  proof (cases "i < MAXREADYQ")
    case True
    then have l: "[i..31] = i # [i + 1..31]" by (simp add: upto_rec1)
    show ?thesis
    proof (cases "Q (Ready i)")
      case Nil
      then have "ready_qhead s i = None" using kqueues_ready_head[OF Q, of i] by simp
      then show ?thesis using less.hyps[of "i + 1"] True Nil
        by (subst pick_thread.simps) (simp add: pick_from_def l)
    next
      case (Cons t ts)
      then have "ready_qhead s i = Some t" using kqueues_ready_head[OF Q, of i] by simp
      with scan_queue_least[OF kqueues_rest[OF Q Cons], of t] True Cons show ?thesis
        by (subst pick_thread.simps) (simp add: pick_from_def l sched_key_def[symmetric])
    qed
  next
    case False
    then show ?thesis by (subst pick_thread.simps) (simp add: pick_from_def)
  qed
qed

text \<open>The chosen thread is on the first non-empty queue, where nobody has a smaller key.\<close>

lemma pick_from_None: "pick_from s Q i = None \<longleftrightarrow> (\<forall>j. i \<le> j \<and> j < MAXREADYQ \<longrightarrow> Q (Ready j) = [])"
proof -
  have "pick_from s Q i = None \<longleftrightarrow> (\<forall>j \<in> set [i..31]. Q (Ready j) = [])"
    unfolding pick_from_def by (auto simp: find_None_iff)
  also have "\<dots> \<longleftrightarrow> (\<forall>j. i \<le> j \<and> j < MAXREADYQ \<longrightarrow> Q (Ready j) = [])" by auto
  finally show ?thesis .
qed

lemma upto_nth_first:
  "find P [i..31] = Some j \<Longrightarrow> P j \<and> i \<le> j \<and> j < MAXREADYQ \<and> (\<forall>k. i \<le> k \<and> k < j \<longrightarrow> \<not> P k)"
  for i j :: int
proof (induction "nat (MAXREADYQ - i)" arbitrary: i rule: less_induct)
  case less
  then have i: "i < MAXREADYQ" by (cases "i < MAXREADYQ") auto
  then have l: "[i..31] = i # [i + 1..31]" by (simp add: upto_rec1)
  show ?case
  proof (cases "P i")
    case True
    with less.prems l i show ?thesis by auto
  next
    case False
    with less.prems l have "find P [i + 1..31] = Some j" by simp
    with less.hyps[of "i + 1"] i have "P j \<and> i + 1 \<le> j \<and> j < MAXREADYQ \<and> (\<forall>k. i + 1 \<le> k \<and> k < j \<longrightarrow> \<not> P k)"
      by auto
    moreover have "k = i \<or> i + 1 \<le> k" if "i \<le> k" for k using that by linarith
    ultimately show ?thesis using False by (metis add1_zle_eq less_le)
  qed
qed

lemma pick_from_Some:
  assumes "pick_from s Q i = Some t"
  obtains j where "i \<le> j" "j < MAXREADYQ" "t \<in> set (Q (Ready j))"
    "\<And>k. i \<le> k \<Longrightarrow> k < j \<Longrightarrow> Q (Ready k) = []"
    "\<And>u. u \<in> set (Q (Ready j)) \<Longrightarrow> sched_key s t \<le> sched_key s u"
proof -
  from assms obtain j where j: "find (\<lambda>j. Q (Ready j) \<noteq> []) [i..31] = Some j"
    and t: "t = least (sched_key s) (hd (Q (Ready j))) (tl (Q (Ready j)))"
    by (auto simp: pick_from_def)
  from upto_nth_first[OF j] obtain x xs where "Q (Ready j) = x # xs" by (cases "Q (Ready j)") auto
  with upto_nth_first[OF j] t least_in[of "sched_key s" x xs] least_le[of "sched_key s" x xs] show ?thesis
    by (intro that[of j]) auto
qed
text \<open>The represented queues after the running thread went back to its ready queue.\<close>

definition requeued :: "kern \<Rightarrow> (qid \<Rightarrow> tid list) \<Rightarrow> qid \<Rightarrow> tid list" where
  "requeued s Q =
     (let c = current_thread s; i = ready_index (sched s c)
      in if sc_state (sched s c) = THREAD_STATE_RUNNING then Q(Ready i := Q (Ready i) @ [c]) else Q)"

lemma kinvx_upd_sched:
  assumes "\<And>si. sc_state (f si) = sc_state si \<and> sc_cid (f si) = sc_cid si \<and>
    sc_cpupri (f si) = sc_cpupri si \<and> sc_inhpri (f si) = sc_inhpri si" and K: "kinvx X s Q"
  shows "kinvx X (upd_sched t f s) Q"
proof -
  let ?s = "upd_sched t f s"
  have pri: "pri_ok (f si) = pri_ok si" "ready_index (f si) = ready_index si" for si
    using assms(1) by (simp_all add: pri_ok_def ready_index_def)
  have *: "sc_state (sched ?s u) = sc_state (sched s u)" "pri_ok (sched ?s u) = pri_ok (sched s u)"
    "ready_index (sched ?s u) = ready_index (sched s u)" "kt_slpchannel (kt ?s u) = kt_slpchannel (kt s u)" for u
    using assms(1) pri by (simp_all add: field_defs)
  have "kqueues ?s Q"
    by (rule kqueues_cong[OF kinvx_queues[OF K]]) (auto simp: field_defs)
  with K show ?thesis unfolding kinvx_def * by simp
qed

lemma kinvx_requeue_current:
  assumes K: "kinvx X s Q"
  shows "kinvx X (requeue_current s) (requeued s Q)"
proof (cases "sc_state (sched s (current_thread s)) = THREAD_STATE_RUNNING")
  case True
  let ?c = "current_thread s"
  let ?s = "upd_sched ?c (\<lambda>si. si\<lparr>sc_state := THREAD_STATE_READY\<rparr>) s"
  have off: "?c \<notin> set (Q q)" for q using kinvx_off_queue[OF K, of ?c] True by simp
  have "kinvx (insert ?c X) ?s Q"
    by (rule kinvx_only_thread[OF K off only_thread_upd(2)])
      (use kinvx_pri[OF K, of ?c] in \<open>auto simp: field_defs\<close>)
  from kinvx_append_readyq[OF this off _ refl]
  have "kinvx (insert ?c X - {?c}) (requeue_current s) (requeued s Q)"
    using True by (simp add: requeue_current_def requeued_def Let_def) (simp add: field_defs)
  then show ?thesis by (rule kinvx_mono) auto
qed (use K in \<open>simp add: requeue_current_def requeued_def Let_def\<close>)

lemma requeue_current_fields [simp]:
  "current_thread (requeue_current s) = current_thread s"
  "runrun (requeue_current s) = runrun s"
  "kprunrun (requeue_current s) = kprunrun s"
  by (simp_all add: requeue_current_def Let_def queue_fields upd_sched_def upd_kt_def)

lemma requeue_current_sched:
  "sched (requeue_current s) u =
     (if u = current_thread s \<and> sc_state (sched s u) = THREAD_STATE_RUNNING
      then (sched s u)\<lparr>sc_state := THREAD_STATE_READY\<rparr> else sched s u)"
  by (auto simp: requeue_current_def Let_def queue_fields upd_sched_def upd_kt_def)

lemma sched_key_cong: "kt s' = kt s \<Longrightarrow> sched_key s' = sched_key s"
  by (simp add: sched_key_def fun_eq_iff)

lemma pick_from_flags [simp]: "pick_from (s\<lparr>runrun := a, kprunrun := b\<rparr>) Q i = pick_from s Q i"
  using sched_key_cong[of "s\<lparr>runrun := a, kprunrun := b\<rparr>" s] by (simp add: pick_from_def)

lemma requeued_flags [simp]: "requeued (s\<lparr>runrun := a, kprunrun := b\<rparr>) Q = requeued s Q"
  by (simp add: requeued_def)

text \<open>\<open>scheduler\<close> always returns; the two ways it does so.\<close>

definition stays :: "kern \<Rightarrow> (qid \<Rightarrow> tid list) \<Rightarrow> bool" where
  "stays s Q = (case pick_from s Q 0 of
       None \<Rightarrow> True
     | Some n \<Rightarrow> sc_cid (sched s n) = SCHED_CLASS_IDLE \<and>
                 sc_state (sched s (current_thread s)) = THREAD_STATE_RUNNING)"

lemma scheduler_stays:
  assumes K: "kinvx X s Q" and st: "stays s Q"
  shows "\<exists>s'. scheduler s = Some s' \<and> kinvx X s' Q \<and> current_thread s' = current_thread s \<and>
    (\<forall>u. sc_state (sched s' u) = sc_state (sched s u)) \<and>
    sc_tqleft (sched s' (current_thread s)) = TIME_QUANTUM \<and> \<not> runrun s' \<and> \<not> kprunrun s'"
proof -
  let ?s = "s\<lparr>runrun := False, kprunrun := False\<rparr>"
  let ?f = "\<lambda>si. si\<lparr>sc_thrreadystart := sched_clock ?s, sc_tqleft := TIME_QUANTUM\<rparr>"
  have K': "kinvx X ?s Q" using K by simp
  have "scheduler s = Some (upd_sched (current_thread s) ?f ?s)"
    using st pick_thread_refines[OF kinvx_queues[OF K'], of 0]
    by (auto simp: scheduler_def Let_def stays_def split: option.splits)
  moreover have "kinvx X (upd_sched (current_thread s) ?f ?s) Q"
    by (rule kinvx_upd_sched[OF _ K']) simp
  ultimately show ?thesis by (auto simp: field_defs)
qed

lemma context_switch_only [simp]: "only_thread n s (context_switch n s)"
  by (simp add: only_thread_def context_switch_def field_defs)

lemma context_switch_fields:
  "current_thread (context_switch n s) = n"
  "sched (context_switch n s) u = (if u = n then (sched s n)\<lparr>sc_state := THREAD_STATE_RUNNING\<rparr> else sched s u)"
  "current_process (context_switch n s) = kt_process (kt s n)"
  "kt_process (kt (context_switch n s) u) = kt_process (kt s u)"
  "runrun (context_switch n s) = runrun s" "kprunrun (context_switch n s) = kprunrun s"
  by (simp_all add: context_switch_def field_defs)

definition switched :: "kern \<Rightarrow> (qid \<Rightarrow> tid list) \<Rightarrow> tid \<Rightarrow> qid \<Rightarrow> tid list" where
  "switched s Q n = (let j = Ready (ready_index (sched s n)); R = requeued s Q in R(j := remove1 n (R j)))"

lemma kinvx_take_thread:
  assumes K: "kinvx X s R" and j: "j = ready_index (sched s n)" and n: "n \<in> set (R (Ready j))"
  defines "s2 \<equiv> upd_kt n (\<lambda>k. k\<lparr>kt_qnext := None, kt_qprev := None\<rparr>) (unlink_readyq j n s)"
  shows "kinvx (X - {n}) (context_switch n (upd_sched n (\<lambda>si. si\<lparr>sc_tqleft := TIME_QUANTUM,
      sc_thrreadystart := v\<rparr>) s2)) (R(Ready j := remove1 n (R (Ready j))))"
proof -
  let ?R = "R(Ready j := remove1 n (R (Ready j)))"
  let ?s4 = "upd_sched n (\<lambda>si. si\<lparr>sc_tqleft := TIME_QUANTUM, sc_thrreadystart := v\<rparr>) s2"
  have U: "kinvx (insert n X) (unlink_readyq j n s) ?R" by (rule kinvx_unlink_readyq[OF K n])
  have o: "only_thread n (unlink_readyq j n s) (context_switch n ?s4)"
    unfolding s2_def
    by (rule only_thread_trans[OF only_thread_trans[OF only_thread_upd(1) only_thread_upd(2)] context_switch_only])
  have sc: "sched (context_switch n ?s4) n = (sched s n)\<lparr>sc_tqleft := TIME_QUANTUM, sc_thrreadystart := v,
      sc_state := THREAD_STATE_RUNNING\<rparr>"
    by (simp add: context_switch_fields) (simp add: s2_def field_defs queue_fields)
  show ?thesis
    by (rule kinvx_only_thread[OF U off_after_remove[OF kinvx_queues[OF K] n] o])
      (use kinvx_pri[OF K, of n] in \<open>auto simp: sc\<close>)
qed

lemma scheduler_switches:
  assumes K: "kinvx X s Q" and pk: "pick_from s Q 0 = Some n" and st: "\<not> stays s Q"
  shows "\<exists>s'. scheduler s = Some s' \<and> kinvx (X - {n}) s' (switched s Q n) \<and> current_thread s' = n \<and>
    current_process s' = kt_process (kt s' n) \<and>
    sc_state (sched s' n) = THREAD_STATE_RUNNING \<and> sc_tqleft (sched s' n) = TIME_QUANTUM \<and>
    (\<forall>u. u \<noteq> n \<longrightarrow> sc_state (sched s' u) =
      (if u = current_thread s \<and> sc_state (sched s u) = THREAD_STATE_RUNNING
       then THREAD_STATE_READY else sc_state (sched s u))) \<and> \<not> runrun s' \<and> \<not> kprunrun s'"
proof -
  let ?s = "s\<lparr>runrun := False, kprunrun := False\<rparr>"
  let ?s1 = "requeue_current ?s" and ?j = "ready_index (sched s n)"
  let ?s3 = "upd_kt n (\<lambda>k. k\<lparr>kt_qnext := None, kt_qprev := None\<rparr>) (unlink_readyq ?j n ?s1)"
  let ?s4 = "upd_sched n (\<lambda>si. si\<lparr>sc_tqleft := TIME_QUANTUM, sc_thrreadystart := sched_clock ?s3\<rparr>) ?s3"
  have K': "kinvx X ?s Q" using K by simp
  from pk obtain j where j: "n \<in> set (Q (Ready j))" by (rule pick_from_Some)
  then have nj: "j = ?j" and nr: "sc_state (sched s n) = THREAD_STATE_READY" using kinvx_ready[OF K j] by auto
  have idx: "ready_index (sched ?s1 n) = ?j" by (simp add: requeue_current_sched)
  have K1: "kinvx X ?s1 (requeued s Q)" using kinvx_requeue_current[OF K'] by simp
  have n1: "n \<in> set (requeued s Q (Ready ?j))" using j nj by (auto simp: requeued_def Let_def)
  have "scheduler s = Some (context_switch n ?s4)"
    using st pk pick_thread_refines[OF kinvx_queues[OF K'], of 0]
    by (auto simp: scheduler_def Let_def stays_def idx split: option.splits)
  moreover have "kinvx (X - {n}) (context_switch n ?s4) (switched s Q n)"
    using kinvx_take_thread[OF K1 idx[symmetric] n1] by (simp add: switched_def Let_def)
  moreover have "sched ?s4 u = (if u = n then (sched s n)\<lparr>sc_tqleft := TIME_QUANTUM, sc_thrreadystart := sched_clock ?s3\<rparr>
      else sched ?s1 u)" for u
    using nr by (simp add: upd_sched_def upd_kt_def queue_fields requeue_current_sched)
  moreover have "runrun ?s4 = False" "kprunrun ?s4 = False"
    by (simp_all add: upd_sched_def upd_kt_def queue_fields)
  ultimately show ?thesis by (auto simp: context_switch_fields requeue_current_sched)
qed

section \<open>The clock tick\<close>

lemma rr_cl_tick_eq:
  assumes "pri_ok (sched s t)"
  shows "sched (rr_cl_tick t s) t = (sched s t)\<lparr>sc_tqleft := to_s16 (sc_tqleft (sched s t) - 20),
      sc_totcpuusage := sc_totcpuusage (sched s t) + 20,
      sc_reccpuusage := to_s16 (sc_reccpuusage (sched s t) + 20),
      sc_cpupri := (if to_s16 (sc_tqleft (sched s t) - 20) \<le> 0
        then max (sc_cpupri (sched s t) - 10) (basepri ! nat (sc_cid (sched s t) - 1))
        else sc_cpupri (sched s t))\<rparr>"
  using assms by (auto simp: rr_cl_tick_def field_defs pri_ok_def to_s16_id)

lemma rr_cl_tick_only [simp]: "only_thread t s (rr_cl_tick t s)"
  by (simp add: rr_cl_tick_def only_thread_def field_defs)

lemma kinvx_rr_cl_tick:
  assumes K: "kinvx X s Q" and off: "\<And>q. t \<notin> set (Q q)" and X: "sc_state (sched s t) = THREAD_STATE_READY \<Longrightarrow> t \<in> X"
  shows "kinvx X (rr_cl_tick t s) Q"
proof (rule kinvx_only_thread[OF K off rr_cl_tick_only])
  note p = kinvx_pri[OF K, of t]
  show "pri_ok (sched (rr_cl_tick t s) t)"
    using p pri_tables[of "sc_cid (sched s t)"] unfolding rr_cl_tick_eq[OF p] by (auto simp: pri_ok_def)
  show "sc_state (sched (rr_cl_tick t s) t) = THREAD_STATE_READY \<Longrightarrow> t \<in> X"
    using X unfolding rr_cl_tick_eq[OF p] by simp
qed auto

section \<open>Ageing\<close>

definition aged :: "u32 \<Rightarrow> sched_info \<Rightarrow> sched_info" where
  "aged tmsec si = si\<lparr>sc_cpupri := min (sc_cpupri si + (if tmsec - sc_thrreadystart si > 3000 then 4 else 2))
     (maxpri ! nat (sc_cid si - 1))\<rparr>"

lemma aged_fields [simp]: "sc_state (aged tm si) = sc_state si" "sc_inhpri (aged tm si) = sc_inhpri si"
  by (simp_all add: aged_def)

lemma pri_ok_aged: "pri_ok si \<Longrightarrow> pri_ok (aged tm si)"
  using pri_tables[of "sc_cid si"] by (auto simp: pri_ok_def aged_def)

lemma aged_ge: "pri_ok si \<Longrightarrow> sc_cpupri si \<le> sc_cpupri (aged tm si)"
  by (auto simp: pri_ok_def aged_def)

lemma aged_index: "pri_ok si \<Longrightarrow> ready_index (aged tm si) \<le> ready_index si"
  using aged_ge[of si tm] by (simp add: ready_index_eff pri_ok_aged eff_pri_def zdiv_mono1)

lemma age_thread_eq:
  assumes "pri_ok (sched s t)"
  shows "age_thread tm t s = append_readyq (ready_index (aged tm (sched s t))) t (upd_sched t (aged tm) s)"
proof -
  have *: "upd_sched t (\<lambda>si. si\<lparr>sc_cpupri := v\<rparr>) (upd_sched t (\<lambda>si. si\<lparr>sc_cpupri := w si\<rparr>) s) =
      upd_sched t (\<lambda>si. si\<lparr>sc_cpupri := v\<rparr>) s" for v w
    by (simp add: field_defs)
  have **: "upd_sched t f s = upd_sched t g s" if "f (sched s t) = g (sched s t)" for f g
    using that by (simp add: field_defs)
  let ?inc = "if tm - sc_thrreadystart (sched s t) > 3000 then 4 else (2::int)"
  let ?s1 = "upd_sched t (\<lambda>si. si\<lparr>sc_cpupri := to_s16 (sc_cpupri si + ?inc)\<rparr>) s"
  have s1: "sched ?s1 t = (sched s t)\<lparr>sc_cpupri := sc_cpupri (sched s t) + ?inc\<rparr>"
    using assms by (simp add: field_defs pri_ok_def to_s16_id)
  have "(if sc_cpupri (sched ?s1 t) > maxpri ! nat (sc_cid (sched ?s1 t) - 1)
      then upd_sched t (\<lambda>si. si\<lparr>sc_cpupri := maxpri ! nat (sc_cid (sched ?s1 t) - 1)\<rparr>) ?s1 else ?s1) =
      upd_sched t (aged tm) s"
    unfolding s1 * using assms by (auto intro!: ** simp: aged_def pri_ok_def to_s16_id)
  then show ?thesis
    by (simp add: age_thread_def Let_def) (simp add: field_defs)
qed

text \<open>A detached queue: the chain of \<^verbatim>\<open>kt_qnext\<close> pointers still to be walked.\<close>

primrec chain :: "('a \<Rightarrow> 'a option) \<Rightarrow> 'a option \<Rightarrow> 'a list \<Rightarrow> bool" where
  "chain nx p [] \<longleftrightarrow> p = None"
| "chain nx p (x # xs) \<longleftrightarrow> p = Some x \<and> chain nx (nx x) xs"

lemma dls_chain: "dls nx pv q p xs l None \<Longrightarrow> chain nx p xs"
  by (induction xs arbitrary: q p) auto

lemma chain_cong: "(\<And>x. x \<in> set xs \<Longrightarrow> nx' x = nx x) \<Longrightarrow> chain nx' p xs = chain nx p xs"
  by (induction xs arbitrary: p) auto

lemma append_readyq_next_other:
  "kqueues s Q \<Longrightarrow> (\<And>q. x \<notin> set (Q q)) \<Longrightarrow> x \<noteq> t \<Longrightarrow> kt_qnext (kt (append_readyq i t s) x) = kt_qnext (kt s x)"
proof -
  assume Q: "kqueues s Q" and x: "\<And>q. x \<notin> set (Q q)" "x \<noteq> t"
  have "ready_qtail s i \<noteq> Some x"
    using dll_tail[OF dl_queuesD[OF Q[unfolded kqueues_def], of "Ready i"]] x(1)[of "Ready i"]
    by (auto split: if_splits)
  then show ?thesis using x(2) by (auto simp: append_readyq_def field_defs split: option.split)
qed
text \<open>One thread of a detached queue goes to the queue of its new priority.\<close>

lemma kinvx_age_thread:
  assumes K: "kinvx X s Q" and off: "\<And>q. t \<notin> set (Q q)" and st: "sc_state (sched s t) = THREAD_STATE_READY"
  shows "kinvx (X - {t}) (age_thread tm t s)
    (Q(Ready (ready_index (aged tm (sched s t))) := Q (Ready (ready_index (aged tm (sched s t)))) @ [t]))"
proof -
  note p = kinvx_pri[OF K, of t]
  let ?s = "upd_sched t (aged tm) s"
  have sc: "sched ?s t = aged tm (sched s t)" by (simp add: field_defs)
  have "kinvx (insert t X) ?s Q"
    by (rule kinvx_only_thread[OF K off only_thread_upd(2)]) (auto simp: sc p pri_ok_aged)
  from kinvx_append_readyq[OF this off _ refl] st show ?thesis
    by (simp add: age_thread_eq[OF p] sc)
qed

lemma age_thread_sched:
  "pri_ok (sched s t) \<Longrightarrow> sched (age_thread tm t s) u = (if u = t then aged tm (sched s t) else sched s u)"
  by (simp add: age_thread_eq queue_fields) (simp add: field_defs)

lemma age_thread_next:
  assumes "kqueues s Q" "\<And>q. x \<notin> set (Q q)" "x \<noteq> t" "pri_ok (sched s t)" "\<And>q. t \<notin> set (Q q)"
  shows "knext (age_thread tm t s) x = knext s x"
proof -
  have "kqueues (upd_sched t (aged tm) s) Q"
    by (rule kqueues_cong[OF assms(1)]) (use assms(5) in \<open>auto simp: field_defs\<close>)
  from append_readyq_next_other[OF this assms(2,3)] assms(3) show ?thesis
    by (simp add: knext_def age_thread_eq[OF assms(4)]) (simp add: field_defs)
qed

lemma age_queue_spec:
  assumes "kinvx X s Q" "chain (knext s) thr xs" "distinct xs"
    and "\<And>x q. x \<in> set xs \<Longrightarrow> x \<notin> set (Q q)"
    and "\<And>x. x \<in> set xs \<Longrightarrow> sc_state (sched s x) = THREAD_STATE_READY"
  shows "\<exists>s' Q'. age_queue tm thr s = Some s' \<and> kinvx (X - set xs) s' Q' \<and>
    (\<forall>u. sched s' u = (if u \<in> set xs then aged tm (sched s u) else sched s u)) \<and>
    (\<forall>q. set (Q' q) = set (Q q) \<union> {x \<in> set xs. q = Ready (ready_index (aged tm (sched s x)))}) \<and>
    (\<forall>c. Q' (Wait c) = Q (Wait c))"
  using assms
proof (induction xs arbitrary: thr s Q X)
  case Nil
  then show ?case by (auto simp: age_queue.simps)
next
  case (Cons x xs)
  let ?s = "age_thread tm x s" and ?j = "ready_index (aged tm (sched s x))"
  let ?Q = "Q(Ready ?j := Q (Ready ?j) @ [x])"
  note K = Cons.prems(1)
  note p = kinvx_pri[OF K, of x]
  have off: "x \<notin> set (Q q)" for q using Cons.prems(4) by simp
  have xs: "y \<noteq> x" "y \<notin> set (Q q)" if "y \<in> set xs" for y q using that Cons.prems(3,4) by auto
  have thr: "thr = Some x" "chain (knext s) (kt_qnext (kt s x)) xs"
    using Cons.prems(2) by (simp_all add: knext_def[of s x, symmetric])
  have K1: "kinvx (X - {x}) ?s ?Q" by (rule kinvx_age_thread[OF K off]) (simp add: Cons.prems(5))
  have ch: "chain (knext ?s) (kt_qnext (kt s x)) xs"
    using thr(2) age_thread_next[OF kinvx_queues[OF K] xs(2) xs(1) p off] by (subst chain_cong) auto
  have off1: "y \<notin> set (?Q q)" if "y \<in> set xs" for y q using xs[OF that] by simp
  have st1: "sc_state (sched ?s y) = THREAD_STATE_READY" if "y \<in> set xs" for y
    using that Cons.prems(5) p by (simp add: age_thread_sched)
  from Cons.IH[OF K1 ch _ off1 st1] Cons.prems(3) obtain s' Q' where
    A: "age_queue tm (kt_qnext (kt s x)) ?s = Some s'" "kinvx (X - {x} - set xs) s' Q'"
    and S: "\<And>u. sched s' u = (if u \<in> set xs then aged tm (sched ?s u) else sched ?s u)"
    and Q': "\<And>q. set (Q' q) = set (?Q q) \<union> {y \<in> set xs. q = Ready (ready_index (aged tm (sched ?s y)))}"
    and W: "\<And>c. Q' (Wait c) = Q (Wait c)"
    by auto
  have "X - {x} - set xs = X - set (x # xs)" by auto
  with A have "kinvx (X - set (x # xs)) s' Q'" by simp
  moreover have "age_queue tm thr s = Some s'" using A(1) thr(1) by (subst age_queue.simps) simp
  moreover have "sched s' u = (if u \<in> set (x # xs) then aged tm (sched s u) else sched s u)" for u
    using S[of u] p xs(1) by (auto simp: age_thread_sched)
  moreover have "sched ?s y = sched s y" if "y \<in> set xs" for y
    using that xs(1) p by (simp add: age_thread_sched)
  then have "set (Q' q) = set (Q q) \<union> {y \<in> set (x # xs). q = Ready (ready_index (aged tm (sched s y)))}" for q
    unfolding Q' by (auto split: if_splits)
  ultimately show ?case using W by blast
qed

text \<open>Taking a whole ready queue out.\<close>

lemma kinvx_detach:
  fixes i :: int
  assumes K: "kinvx X s Q"
  defines "s' \<equiv> s\<lparr>ready_qhead := (ready_qhead s)(i := None), ready_qtail := (ready_qtail s)(i := None)\<rparr>"
  shows "kinvx (X \<union> set (Q (Ready i))) s' (Q(Ready i := []))" "chain (knext s') (ready_qhead s i) (Q (Ready i))"
proof -
  have D: "dl_queues (knext s) (kprev s) (khead s) (ktail s) Q"
    using kinvx_queues[OF K] by (simp add: kqueues_def)
  have n: "knext s' = knext s" "kprev s' = kprev s" by (simp_all add: s'_def knext_def kprev_def fun_eq_iff)
  have h: "khead s' = (khead s)(Ready i := None)" "ktail s' = (ktail s)(Ready i := None)"
    by (auto intro!: qid_fun_eqI simp: s'_def)
  show "chain (knext s') (ready_qhead s i) (Q (Ready i))"
    using dl_queuesD[OF D, of "Ready i"] unfolding n by (auto simp: dll_def intro: dls_chain)
  have "kqueues s' (Q(Ready i := []))"
    using D by (auto simp: kqueues_def n h dl_queues_def)
  with K show "kinvx (X \<union> set (Q (Ready i))) s' (Q(Ready i := []))"
    by (auto simp: kinvx_def s'_def)
qed

lemma age_from_spec:
  assumes "kinvx X s Q"
  shows "\<exists>s' Q'. age_from i tm s = Some s' \<and> kinvx X s' Q' \<and>
    (\<forall>u. sched s' u = (if \<exists>k. i \<le> k \<and> k < 31 \<and> u \<in> set (Q (Ready k)) then aged tm (sched s u) else sched s u)) \<and>
    (\<forall>c. Q' (Wait c) = Q (Wait c))"
  using assms
proof (induction "nat (31 - i)" arbitrary: i s Q rule: less_induct)
  case less
  note K = less.prems
  show ?case
  proof (cases "i < 31")
    case False
    then have "age_from i tm s = Some s" by (subst age_from.simps) simp
    moreover from False have "\<not> (\<exists>k. i \<le> k \<and> k < 31 \<and> u \<in> set (Q (Ready k)))" for u by auto
    ultimately show ?thesis using K by auto
  next
    case True
    let ?s = "s\<lparr>ready_qhead := (ready_qhead s)(i := None), ready_qtail := (ready_qtail s)(i := None)\<rparr>"
    let ?xs = "Q (Ready i)"
    have rdy: "sc_state (sched ?s x) = THREAD_STATE_READY \<and> ready_index (sched s x) = i" if "x \<in> set ?xs" for x
      using kinvx_ready[OF K that] by simp
    have off: "x \<notin> set ((Q(Ready i := [])) q)" if "x \<in> set ?xs" for x q
      using kqueues_disjoint[OF kinvx_queues[OF K] that, of q] by auto
    from age_queue_spec[OF kinvx_detach[OF K] kqueues_distinct[OF kinvx_queues[OF K]] off] rdy
    obtain s1 Q1 where A: "age_queue tm (ready_qhead s i) ?s = Some s1"
      "kinvx (X \<union> set ?xs - set ?xs) s1 Q1"
      and S: "\<And>u. sched s1 u = (if u \<in> set ?xs then aged tm (sched s u) else sched s u)"
      and Q1: "\<And>q. set (Q1 q) = set ((Q(Ready i := [])) q) \<union>
          {x \<in> set ?xs. q = Ready (ready_index (aged tm (sched s x)))}"
      and W1: "\<And>c. Q1 (Wait c) = Q (Wait c)"
      by fastforce
    have K1: "kinvx X s1 Q1" by (rule kinvx_mono[OF A(2)]) auto
    have later: "u \<in> set (Q1 (Ready k)) \<longleftrightarrow> u \<in> set (Q (Ready k))" if "i + 1 \<le> k" for k u
    proof -
      have "ready_index (aged tm (sched s x)) \<le> i" if "x \<in> set ?xs" for x
        using aged_index[OF kinvx_pri[OF K, of x], of tm] rdy[OF that] by simp
      then show ?thesis using that unfolding Q1 by fastforce
    qed
    from less.hyps[OF _ K1, of "i + 1"] True obtain s2 Q2 where
      B: "age_from (i + 1) tm s1 = Some s2" "kinvx X s2 Q2"
      and S2: "\<And>u. sched s2 u = (if \<exists>k. i + 1 \<le> k \<and> k < 31 \<and> u \<in> set (Q1 (Ready k)) then aged tm (sched s1 u) else sched s1 u)"
      and W2: "\<And>c. Q2 (Wait c) = Q1 (Wait c)"
      by auto
    have "age_from i tm s = Some s2" using True A(1) B(1) by (subst age_from.simps) simp
    moreover have "sched s2 u = (if \<exists>k. i \<le> k \<and> k < 31 \<and> u \<in> set (Q (Ready k)) then aged tm (sched s u) else sched s u)" for u
    proof (cases "u \<in> set ?xs")
      case ui: True
      then have "u \<notin> set (Q (Ready k))" if "i + 1 \<le> k" for k
        using kqueues_disjoint[OF kinvx_queues[OF K] ui, of "Ready k"] that by auto
      with ui True S[of u] S2[of u] later show ?thesis by auto
    next
      case ui: False
      then have "(\<exists>k. i \<le> k \<and> k < 31 \<and> u \<in> set (Q (Ready k))) \<longleftrightarrow> (\<exists>k. i + 1 \<le> k \<and> k < 31 \<and> u \<in> set (Q (Ready k)))"
        by (metis add1_zle_eq le_less order_less_imp_le zle_add1_eq_le zless_add1_eq)
      with ui S[of u] S2[of u] later show ?thesis by auto
    qed
    ultimately show ?thesis using B(2) W1 W2 by auto
  qed
qed

section \<open>Suspending a process\<close>

lemma dll_neighbour_in:
  assumes D: "dll nx pv h xs l" and t: "t \<in> set xs"
  shows "nx t = Some y \<Longrightarrow> y \<in> set xs" "pv t = Some y \<Longrightarrow> y \<in> set xs"
proof -
  from t obtain as bs where xs: "xs = as @ t # bs" by (auto simp: in_set_conv_decomp)
  from D xs obtain m where A: "dls nx pv None h as m (Some t)" and m: "pv t = m"
    and B: "dls nx pv (Some t) (nx t) bs l None"
    by (auto simp: dll_def dls_append)
  show "y \<in> set xs" if "nx t = Some y"
    using dls_head[OF B] that xs by (auto split: if_splits)
  show "y \<in> set xs" if "pv t = Some y"
    using dls_last[OF A] that m xs by (auto split: if_splits)
qed

lemma unlink_readyq_other:
  assumes Q: "kqueues s Q" and t: "t \<in> set (Q (Ready i))" and u: "u \<notin> set (Q (Ready i))"
  shows "kt (unlink_readyq i t s) u = kt s u"
proof -
  note N = dll_neighbour_in[OF dl_queuesD[OF Q[unfolded kqueues_def]] t]
  have "kt_qnext (kt s t) \<noteq> Some u" "kt_qprev (kt s t) \<noteq> Some u"
    using N u by (auto simp: knext_def kprev_def)
  moreover have "kt_qnext (kt s t) \<noteq> Some t"
    using kq.neighbours_differ(1) Q t by (metis kqueues_def knext_def)
  ultimately show ?thesis using t u
    by (auto simp: unlink_readyq_def field_defs split: option.split)
qed
lemma remove_step:
  assumes K: "kinvx X s Q" and q: "Q (Ready i) = pre @ t # ts"
  defines "s' \<equiv> upd_kt t (\<lambda>k. k\<lparr>kt_qnext := None, kt_qprev := None\<rparr>) (unlink_readyq i t s)"
  shows "kinvx (insert t X) s' (Q(Ready i := pre @ ts))"
    "\<And>u. sched s' u = sched s u \<and> kt_process (kt s' u) = kt_process (kt s u)"
    "\<And>u. u \<notin> set (Q (Ready i)) \<Longrightarrow> kt s' u = kt s u"
    "kt_qnext (kt s' t) = None" "kt_qprev (kt s' t) = None"
    "kt_qnext (kt s t) = (case ts of [] \<Rightarrow> None | x # _ \<Rightarrow> Some x)"
proof -
  have t: "t \<in> set (Q (Ready i))" using q by simp
  have d: "t \<notin> set pre" using kqueues_distinct[OF kinvx_queues[OF K], of "Ready i"] q by auto
  have U: "kinvx (insert t X) (unlink_readyq i t s) (Q(Ready i := remove1 t (Q (Ready i))))"
    by (rule kinvx_unlink_readyq[OF K t])
  have "kinvx (insert t X) s' (Q(Ready i := remove1 t (Q (Ready i))))" unfolding s'_def
    by (rule kinvx_only_thread[OF U off_after_remove[OF kinvx_queues[OF K] t] only_thread_upd(1)])
      (use kinvx_pri[OF K, of t] in \<open>auto simp: upd_kt_def queue_fields\<close>)
  then show "kinvx (insert t X) s' (Q(Ready i := pre @ ts))" using q d by (simp add: remove1_append)
  show "sched s' u = sched s u \<and> kt_process (kt s' u) = kt_process (kt s u)" for u
    by (simp add: s'_def upd_kt_def queue_fields)
  show "kt s' u = kt s u" if "u \<notin> set (Q (Ready i))" for u
    using unlink_readyq_other[OF kinvx_queues[OF K] t that] that t by (auto simp: s'_def upd_kt_def)
  show "kt_qnext (kt s' t) = None" "kt_qprev (kt s' t) = None" by (simp_all add: s'_def upd_kt_def)
  from dl_queuesD[OF kinvx_queues[OF K, unfolded kqueues_def], of "Ready i"] q
  have "dls (knext s) (kprev s) (Some t) (knext s t) ts (ktail s (Ready i)) None"
    by (auto simp: dll_def dls_append)
  from dls_head[OF this] show "kt_qnext (kt s t) = (case ts of [] \<Rightarrow> None | x # _ \<Rightarrow> Some x)"
    by (simp add: knext_def split: list.split)
qed

lemma skip_step:
  assumes "kinvx X s Q" "Q (Ready i) = pre @ t # ts"
  shows "kt_qnext (kt s t) = (case ts of [] \<Rightarrow> None | x # _ \<Rightarrow> Some x)"
  by (rule remove_step(6)[OF assms])

lemma suspend_queue_spec:
  assumes "kinvx X s Q" "Q (Ready i) = pre @ xs"
  shows "\<exists>s'. suspend_queue proc i (case xs of [] \<Rightarrow> None | x # _ \<Rightarrow> Some x) s = Some s' \<and>
    kinvx (X \<union> {x \<in> set xs. kt_process (kt s x) = proc}) s'
      (Q(Ready i := pre @ filter (\<lambda>x. kt_process (kt s x) \<noteq> proc) xs)) \<and>
    (\<forall>u. sched s' u = sched s u \<and> kt_process (kt s' u) = kt_process (kt s u)) \<and>
    (\<forall>u. u \<notin> set (Q (Ready i)) \<longrightarrow> kt s' u = kt s u) \<and>
    (\<forall>u \<in> set xs. kt_process (kt s u) = proc \<longrightarrow> kt_qnext (kt s' u) = None \<and> kt_qprev (kt s' u) = None)"
  using assms
proof (induction xs arbitrary: s Q X pre)
  case Nil
  have "Q(Ready i := pre) = Q" using Nil.prems(2) by auto
  with Nil.prems(1) show ?case by (simp add: suspend_queue.simps)
next
  case (Cons t ts)
  note K = Cons.prems(1) and q = Cons.prems(2)
  have d: "t \<notin> set pre" "t \<notin> set ts" "set pre \<inter> set ts = {}"
    using kqueues_distinct[OF kinvx_queues[OF K], of "Ready i"] q by auto
  show ?case
  proof (cases "kt_process (kt s t) = proc")
    case False
    have q': "Q (Ready i) = (pre @ [t]) @ ts" using q by simp
    from Cons.IH[OF K q'] obtain s' where
      A: "suspend_queue proc i (case ts of [] \<Rightarrow> None | x # _ \<Rightarrow> Some x) s = Some s'"
      and B: "kinvx (X \<union> {x \<in> set ts. kt_process (kt s x) = proc}) s'
         (Q(Ready i := (pre @ [t]) @ filter (\<lambda>x. kt_process (kt s x) \<noteq> proc) ts))"
      and C: "\<forall>u. sched s' u = sched s u \<and> kt_process (kt s' u) = kt_process (kt s u)"
        "\<forall>u. u \<notin> set (Q (Ready i)) \<longrightarrow> kt s' u = kt s u"
        "\<forall>u \<in> set ts. kt_process (kt s u) = proc \<longrightarrow> kt_qnext (kt s' u) = None \<and> kt_qprev (kt s' u) = None"
      by blast
    have e: "{x \<in> set (t # ts). kt_process (kt s x) = proc} = {x \<in> set ts. kt_process (kt s x) = proc}"
      using False by auto
    have "suspend_queue proc i (Some t) s = Some s'"
      using A False skip_step[OF K q] by (subst suspend_queue.simps) simp
    moreover have "filter (\<lambda>x. kt_process (kt s x) \<noteq> proc) (t # ts) = t # filter (\<lambda>x. kt_process (kt s x) \<noteq> proc) ts"
      using False by simp
    moreover have "\<forall>u \<in> set (t # ts). kt_process (kt s u) = proc \<longrightarrow> kt_qnext (kt s' u) = None \<and> kt_qprev (kt s' u) = None"
      using C(3) False by simp
    ultimately show ?thesis using B C(1,2) unfolding e by (simp only: append_assoc append.simps list.case) blast
  next
    case True
    let ?s = "upd_kt t (\<lambda>k. k\<lparr>kt_qnext := None, kt_qprev := None\<rparr>) (unlink_readyq i t s)"
    note R = remove_step[OF K q]
    have same: "kt_process (kt ?s u) = kt_process (kt s u)" "sched ?s u = sched s u" for u using R(2) by auto
    have q': "(Q(Ready i := pre @ ts)) (Ready i) = pre @ ts" by simp
    from Cons.IH[OF R(1) q'] obtain s' where
      A: "suspend_queue proc i (case ts of [] \<Rightarrow> None | x # _ \<Rightarrow> Some x) ?s = Some s'"
      and B: "kinvx (insert t X \<union> {x \<in> set ts. kt_process (kt s x) = proc}) s'
         (Q(Ready i := pre @ filter (\<lambda>x. kt_process (kt s x) \<noteq> proc) ts))"
      and C: "\<forall>u. sched s' u = sched s u \<and> kt_process (kt s' u) = kt_process (kt s u)"
        "\<forall>u. u \<notin> set (pre @ ts) \<longrightarrow> kt s' u = kt ?s u"
        "\<forall>u \<in> set ts. kt_process (kt s u) = proc \<longrightarrow> kt_qnext (kt s' u) = None \<and> kt_qprev (kt s' u) = None"
      unfolding same fun_upd_upd fun_upd_same by blast
    have e: "insert t X \<union> {x \<in> set ts. kt_process (kt s x) = proc} = X \<union> {x \<in> set (t # ts). kt_process (kt s x) = proc}"
      using True by auto
    have "kt s' t = kt ?s t" using C(2) d by simp
    then have "kt_qnext (kt s' t) = None" "kt_qprev (kt s' t) = None" using R(4,5) by simp_all
    moreover have "\<forall>u. u \<notin> set (Q (Ready i)) \<longrightarrow> kt s' u = kt s u" using C(2) R(3) q by auto
    moreover have "suspend_queue proc i (Some t) s = Some s'"
      using A True skip_step[OF K q] by (subst suspend_queue.simps) simp
    moreover have "filter (\<lambda>x. kt_process (kt s x) \<noteq> proc) (t # ts) = filter (\<lambda>x. kt_process (kt s x) \<noteq> proc) ts"
      using True by simp
    moreover have "\<forall>u \<in> set (t # ts). kt_process (kt s u) = proc \<longrightarrow> kt_qnext (kt s' u) = None \<and> kt_qprev (kt s' u) = None"
      using C(3) calculation(1,2) by simp
    ultimately show ?thesis using B C(1) unfolding e by (simp only: list.case) blast
  qed
qed

definition kept :: "kern \<Rightarrow> nat \<Rightarrow> int \<Rightarrow> (qid \<Rightarrow> tid list) \<Rightarrow> qid \<Rightarrow> tid list" where
  "kept s proc i Q q = (case q of
       Ready j \<Rightarrow> if i \<le> j \<and> j < MAXREADYQ then filter (\<lambda>x. kt_process (kt s x) \<noteq> proc) (Q q) else Q q
     | Wait c \<Rightarrow> Q q)"

definition taken :: "kern \<Rightarrow> nat \<Rightarrow> int \<Rightarrow> (qid \<Rightarrow> tid list) \<Rightarrow> tid set" where
  "taken s proc i Q = {x. kt_process (kt s x) = proc \<and> (\<exists>j. i \<le> j \<and> j < MAXREADYQ \<and> x \<in> set (Q (Ready j)))}"

lemma kept_step:
  assumes "i < MAXREADYQ" "\<And>u. kt_process (kt s' u) = kt_process (kt s u)"
  shows "kept s' proc (i + 1) (Q(Ready i := filter (\<lambda>x. kt_process (kt s x) \<noteq> proc) (Q (Ready i)))) = kept s proc i Q"
proof (rule qid_fun_eqI)
  fix j
  show "kept s' proc (i + 1) (Q(Ready i := filter (\<lambda>x. kt_process (kt s x) \<noteq> proc) (Q (Ready i)))) (Ready j) =
      kept s proc i Q (Ready j)"
    using assms by (cases "j = i") (auto simp: kept_def)
qed (simp add: kept_def)

lemma taken_step:
  assumes "i < MAXREADYQ" "\<And>u. kt_process (kt s' u) = kt_process (kt s u)"
  shows "{x \<in> set (Q (Ready i)). kt_process (kt s x) = proc} \<union>
      taken s' proc (i + 1) (Q(Ready i := ys)) = taken s proc i Q"
proof -
  have "(\<exists>j. i \<le> j \<and> j < MAXREADYQ \<and> x \<in> set (Q (Ready j))) \<longleftrightarrow>
      x \<in> set (Q (Ready i)) \<or> (\<exists>j. i + 1 \<le> j \<and> j < MAXREADYQ \<and> x \<in> set (Q (Ready j)))" for x
    using assms(1) by (metis add1_zle_eq order_le_less order_refl)
  moreover have "(\<exists>j. i + 1 \<le> j \<and> j < MAXREADYQ \<and> x \<in> set ((Q(Ready i := ys)) (Ready j))) \<longleftrightarrow>
      (\<exists>j. i + 1 \<le> j \<and> j < MAXREADYQ \<and> x \<in> set (Q (Ready j)))" for x
    by (rule ex_cong1) auto
  ultimately show ?thesis unfolding taken_def assms(2) by blast
qed

lemma suspend_from_spec:
  assumes "kinvx X s Q"
  shows "\<exists>s'. suspend_from i proc s = Some s' \<and> kinvx (X \<union> taken s proc i Q) s' (kept s proc i Q) \<and>
    (\<forall>u. sched s' u = sched s u \<and> kt_process (kt s' u) = kt_process (kt s u)) \<and>
    (\<forall>u. (\<forall>q. u \<notin> set (Q q)) \<longrightarrow> kt s' u = kt s u) \<and>
    (\<forall>u \<in> taken s proc i Q. kt_qnext (kt s' u) = None \<and> kt_qprev (kt s' u) = None)"
  using assms
proof (induction "nat (MAXREADYQ - i)" arbitrary: i s Q X rule: less_induct)
  case less
  note K = less.prems
  show ?case
  proof (cases "i < MAXREADYQ")
    case False
    then have "suspend_from i proc s = Some s" by (subst suspend_from.simps) simp
    moreover have "kept s proc i Q = Q" using False by (auto simp: kept_def fun_eq_iff split: qid.split)
    moreover have "taken s proc i Q = {}" using False by (auto simp: taken_def)
    ultimately show ?thesis using K by simp
  next
    case True
    let ?xs = "Q (Ready i)"
    let ?Q = "Q(Ready i := filter (\<lambda>x. kt_process (kt s x) \<noteq> proc) ?xs)"
    let ?T = "{x \<in> set ?xs. kt_process (kt s x) = proc}"
    have "?xs = [] @ ?xs" by simp
    from suspend_queue_spec[OF K this, of proc] kqueues_ready_head[OF kinvx_queues[OF K], of i] obtain s1 where
      A: "suspend_queue proc i (ready_qhead s i) s = Some s1" and K1: "kinvx (X \<union> ?T) s1 ?Q"
      and S: "\<forall>u. sched s1 u = sched s u \<and> kt_process (kt s1 u) = kt_process (kt s u)"
      and F: "\<forall>u. u \<notin> set ?xs \<longrightarrow> kt s1 u = kt s u"
      and N: "\<forall>u \<in> ?T. kt_qnext (kt s1 u) = None \<and> kt_qprev (kt s1 u) = None"
      by auto
    have pr: "kt_process (kt s1 u) = kt_process (kt s u)" for u using S by simp
    from less.hyps[OF _ K1, of "i + 1"] True obtain s2 where
      B: "suspend_from (i + 1) proc s1 = Some s2"
      and K2: "kinvx (X \<union> ?T \<union> taken s1 proc (i + 1) ?Q) s2 (kept s1 proc (i + 1) ?Q)"
      and S2: "\<forall>u. sched s2 u = sched s1 u \<and> kt_process (kt s2 u) = kt_process (kt s1 u)"
      and F2: "\<forall>u. (\<forall>q. u \<notin> set (?Q q)) \<longrightarrow> kt s2 u = kt s1 u"
      and N2: "\<forall>u \<in> taken s1 proc (i + 1) ?Q. kt_qnext (kt s2 u) = None \<and> kt_qprev (kt s2 u) = None"
      by auto
    note kt_step = kept_step[OF True pr, of proc Q] and tk_step = taken_step[OF True pr, of Q proc]
    have "kinvx (X \<union> taken s proc i Q) s2 (kept s proc i Q)"
      using K2 unfolding kt_step Un_assoc tk_step .
    moreover have "u \<notin> set (?Q q)" if "u \<in> ?T" for u q
    proof (cases "q = Ready i")
      case False
      with that kqueues_disjoint[OF kinvx_queues[OF K], of u "Ready i" q] show ?thesis by fastforce
    qed (use that in simp)
    then have "\<forall>u \<in> ?T. kt_qnext (kt s2 u) = None \<and> kt_qprev (kt s2 u) = None" using N F2 by auto
    then have "\<forall>u \<in> taken s proc i Q. kt_qnext (kt s2 u) = None \<and> kt_qprev (kt s2 u) = None"
      using N2 unfolding tk_step[of "filter (\<lambda>x. kt_process (kt s x) \<noteq> proc) ?xs", symmetric] by blast
    moreover have "\<forall>u. (\<forall>q. u \<notin> set (Q q)) \<longrightarrow> kt s2 u = kt s u"
    proof (intro allI impI)
      fix u assume u: "\<forall>q. u \<notin> set (Q q)"
      then have "\<forall>q. u \<notin> set (?Q q)" by auto
      with u F F2 show "kt s2 u = kt s u" by metis
    qed
    moreover have "suspend_from i proc s = Some s2" using True A B by (subst suspend_from.simps) simp
    ultimately show ?thesis using S S2 by auto
  qed
qed

lemma suspend_threads_spec:
  assumes K: "kinv s Q"
  shows "\<exists>s'. suspend_threads proc s = Some s' \<and>
    kinvx {t. sc_state (sched s t) = THREAD_STATE_READY \<and> kt_process (kt s t) = proc} s' (kept s proc 0 Q) \<and>
    (\<forall>u. sched s' u = sched s u \<and> kt_process (kt s' u) = kt_process (kt s u)) \<and>
    (\<forall>u. sc_state (sched s u) = THREAD_STATE_READY \<longrightarrow> kt_process (kt s u) = proc \<longrightarrow>
      kt_qnext (kt s' u) = None \<and> kt_qprev (kt s' u) = None)"
proof -
  let ?s = "s\<lparr>proc_state := (proc_state s)(proc := PROC_STATE_SUSPENDED)\<rparr>"
  have K': "kinv ?s Q" using K by simp
  have T: "taken ?s proc 0 Q = {t. sc_state (sched s t) = THREAD_STATE_READY \<and> kt_process (kt s t) = proc}"
    using kinvx_ready[OF K] kinvx_on_queue[OF K] ready_index_range[OF kinvx_pri[OF K]]
    unfolding taken_def by (simp, blast)
  have "kept ?s proc 0 Q = kept s proc 0 Q" by (auto simp: kept_def fun_eq_iff split: qid.split)
  with suspend_from_spec[OF K', of 0 proc] show ?thesis
    unfolding T suspend_threads_def by auto
qed

text \<open>On a thread whose links are null \<^verbatim>\<open>del_readyq\<close> empties the queue heads.\<close>

lemma del_readyq_unlinked:
  assumes "sc_state (sched s t) = THREAD_STATE_READY" "kt_qnext (kt s t) = None" "kt_qprev (kt s t) = None"
  shows "ready_qhead (snd (del_readyq t s)) (ready_index (sched s t)) = None"
    "ready_qtail (snd (del_readyq t s)) (ready_index (sched s t)) = None"
  using assms by (simp_all add: del_readyq_def unlink_readyq_def field_defs)

end
