(* ===== verification/Timer_Queue.thy ===== *)
theory Timer_Queue
  imports Kernel_State
begin

text \<open>
  The queue of running timers of \<^verbatim>\<open>base/timer.c\<close>: \<^verbatim>\<open>timerobj_init\<close>,
  \<^verbatim>\<open>insert_timerobj\<close> and \<^verbatim>\<open>remove_timerobj\<close>.  The queue is a delta list: the
  \<^verbatim>\<open>timer_count\<close> of an element is the number of milliseconds after the expiry of its
  predecessor.  The \<^verbatim>\<open>long\<close> counts are 32-bit words compared as signed numbers.
  The first part gives the pointer code, the second its meaning on a list of
  (timer, delta) pairs, the third the time at which each timer expires.
\<close>

section \<open>Pointer code\<close>

definition upd_tobj :: "nat \<Rightarrow> (timerobject \<Rightarrow> timerobject) \<Rightarrow> kern \<Rightarrow> kern" where
  "upd_tobj x f s = s\<lparr>tobj := (tobj s)(x := f (tobj s x))\<rparr>"

definition timerobj_init :: "nat \<Rightarrow> kern \<Rightarrow> kern" where
  "timerobj_init x s = upd_tobj x (\<lambda>_. \<lparr>timer_count = 0, timer_handler = None,
     timer_ownerthread = None, timer_next = None, timer_prev = None\<rparr>) s"

text \<open>The \<^verbatim>\<open>while\<close> loop of \<^verbatim>\<open>insert_timerobj\<close>; it leaves \<^verbatim>\<open>t1\<close> and \<^verbatim>\<open>t2\<close>.\<close>

partial_function (option) timer_seek ::
  "nat \<Rightarrow> nat option \<Rightarrow> nat option \<Rightarrow> kern \<Rightarrow> (nat option \<times> nat option \<times> kern) option" where
  "timer_seek x t1 t2 s =
     (case t1 of
        None \<Rightarrow> Some (t1, t2, s)
      | Some t \<Rightarrow>
          if sint (timer_count (tobj s t)) \<le> sint (timer_count (tobj s x))
          then let s1 = upd_tobj x (\<lambda>b. b\<lparr>timer_count := timer_count b - timer_count (tobj s t)\<rparr>) s
               in timer_seek x (timer_next (tobj s1 t)) t1 s1
          else Some (t1, t2, s))"

definition insert_timerobj :: "nat \<Rightarrow> kern \<Rightarrow> kern option" where
  "insert_timerobj x s =
     (case timers s of
        None \<Rightarrow> Some (s\<lparr>timers := Some x\<rparr>)
      | Some h \<Rightarrow>
          if sint (timer_count (tobj s h)) > sint (timer_count (tobj s x))
          then let s1 = upd_tobj x (\<lambda>b. b\<lparr>timer_next := timers s\<rparr>) s;
                   s2 = upd_tobj h (\<lambda>b. b\<lparr>timer_prev := Some x\<rparr>) s1;
                   s3 = upd_tobj h (\<lambda>b. b\<lparr>timer_count := timer_count b - timer_count (tobj s2 x)\<rparr>) s2
               in Some (s3\<lparr>timers := Some x\<rparr>)
          else Option.bind (timer_seek x (timers s) None s) (\<lambda>(t1, t2, s1).
            case t2 of
              None \<Rightarrow> None
            | Some u \<Rightarrow>
                let s2 = upd_tobj x (\<lambda>b. b\<lparr>timer_next := t1, timer_prev := t2\<rparr>) s1;
                    s3 = upd_tobj u (\<lambda>b. b\<lparr>timer_next := Some x\<rparr>) s2
                in case t1 of
                     None \<Rightarrow> Some s3
                   | Some v \<Rightarrow> Some (upd_tobj v (\<lambda>b. b\<lparr>timer_prev := Some x,
                                 timer_count := timer_count b - timer_count (tobj s3 x)\<rparr>) s3)))"

definition remove_timerobj :: "nat \<Rightarrow> kern \<Rightarrow> kern" where
  "remove_timerobj x s =
     (let s1 = (case timer_prev (tobj s x) of
                  Some p \<Rightarrow> upd_tobj p (\<lambda>b. b\<lparr>timer_next := timer_next (tobj s x)\<rparr>) s
                | None \<Rightarrow> s\<lparr>timers := timer_next (tobj s x)\<rparr>);
          s2 = (case timer_next (tobj s1 x) of
                  Some n \<Rightarrow> upd_tobj n (\<lambda>b. b\<lparr>timer_prev := timer_prev (tobj s1 x),
                              timer_count := timer_count b + timer_count (tobj s1 x)\<rparr>) s1
                | None \<Rightarrow> s1)
      in upd_tobj x (\<lambda>b. b\<lparr>timer_next := None, timer_prev := None\<rparr>) s2)"

section \<open>The delta list\<close>

type_synonym delta_list = "(nat \<times> u32) list"

fun delta_insert :: "nat \<Rightarrow> u32 \<Rightarrow> delta_list \<Rightarrow> delta_list" where
  "delta_insert x c [] = [(x, c)]"
| "delta_insert x c ((y, d) # r) =
     (if sint d \<le> sint c then (y, d) # delta_insert x (c - d) r else (x, c) # (y, d - c) # r)"

fun delta_remove :: "nat \<Rightarrow> delta_list \<Rightarrow> delta_list" where
  "delta_remove x [] = []"
| "delta_remove x ((y, d) # r) =
     (if y = x then (case r of [] \<Rightarrow> [] | (z, e) # r' \<Rightarrow> (z, e + d) # r') else (y, d) # delta_remove x r)"

text \<open>The milliseconds until timer \<open>x\<close> expires.\<close>

fun expiry :: "delta_list \<Rightarrow> nat \<Rightarrow> u32 option" where
  "expiry [] x = None"
| "expiry ((y, d) # r) x = (if y = x then Some d else map_option (\<lambda>e. d + e) (expiry r x))"

text \<open>Only the first delta may be negative: it is the one the clock counts down.\<close>

definition tail_nonneg :: "delta_list \<Rightarrow> bool" where
  "tail_nonneg L \<longleftrightarrow> (\<forall>p \<in> set (tl L). 0 \<le> sint (snd p))"

lemma expiry_None_iff: "expiry L x = None \<longleftrightarrow> x \<notin> fst ` set L"
  by (induction L x rule: expiry.induct) auto

lemma delta_insert_fst: "x \<notin> fst ` set L \<Longrightarrow> fst ` set (delta_insert x c L) = insert x (fst ` set L)"
  by (induction x c L rule: delta_insert.induct) auto

text \<open>Inserting gives the new timer its own time and leaves every other one's alone.\<close>

lemma expiry_insert:
  "x \<notin> fst ` set L \<Longrightarrow> expiry (delta_insert x c L) y = (if y = x then Some c else expiry L y)"
proof (induction x c L rule: delta_insert.induct)
  case (2 x c z d r)
  then show ?case by (cases "expiry r y") auto
qed simp

lemma expiry_remove:
  "distinct (map fst L) \<Longrightarrow> expiry (delta_remove x L) y = (if y = x then None else expiry L y)"
proof (induction x L rule: delta_remove.induct)
  case (2 x z d r)
  show ?case
  proof (cases "z = x")
    case True
    then show ?thesis
    proof (cases r)
      case (Cons p r')
      then have "expiry r' x = None" "x \<noteq> fst p" using 2 True by (auto simp: expiry_None_iff)
      then show ?thesis using Cons True by (cases p; cases "expiry r' y") auto
    qed simp
  qed (use 2 in auto)
qed simp

section \<open>The pointer code implements the delta list\<close>

definition tnext :: "kern \<Rightarrow> nat \<Rightarrow> nat option" where
  "tnext s x = timer_next (tobj s x)"

definition tprev :: "kern \<Rightarrow> nat \<Rightarrow> nat option" where
  "tprev s x = timer_prev (tobj s x)"

definition tqueue :: "kern \<Rightarrow> delta_list \<Rightarrow> bool" where
  "tqueue s L \<longleftrightarrow> (\<exists>l. dll (tnext s) (tprev s) (timers s) (map fst L) l) \<and>
     (\<forall>y d. (y, d) \<in> set L \<longrightarrow> timer_count (tobj s y) = d)"

fun delta_split :: "u32 \<Rightarrow> delta_list \<Rightarrow> delta_list \<times> u32 \<times> delta_list" where
  "delta_split c [] = ([], c, [])"
| "delta_split c ((y, d) # r) =
     (if sint d \<le> sint c then (case delta_split (c - d) r of (a, c', b) \<Rightarrow> ((y, d) # a, c', b))
      else ([], c, (y, d) # r))"

definition shift_head :: "u32 \<Rightarrow> delta_list \<Rightarrow> delta_list" where
  "shift_head c b = (case b of [] \<Rightarrow> [] | (y, d) # r \<Rightarrow> (y, d - c) # r)"

lemma delta_split_append: "delta_split c L = (a, c', b) \<Longrightarrow> L = a @ b"
  by (induction c L arbitrary: a c' b rule: delta_split.induct) (auto split: if_splits prod.splits)

lemma delta_insert_split:
  "delta_split c L = (a, c', b) \<Longrightarrow> delta_insert x c L = a @ (x, c') # shift_head c' b"
  by (induction c L arbitrary: a c' b rule: delta_split.induct)
    (auto simp: shift_head_def split: if_splits prod.splits)

lemma upd_tobj_count_id: "upd_tobj x (\<lambda>t. t\<lparr>timer_count := timer_count (tobj s x)\<rparr>) s = s"
  by (simp add: upd_tobj_def)

lemma upd_tobj_count: "timer_count (tobj s x) = c \<Longrightarrow> upd_tobj x (\<lambda>t. t\<lparr>timer_count := c\<rparr>) s = s"
  using upd_tobj_count_id by blast

lemma timer_seek_spec:
  assumes "dls (tnext s) pv t2 t1 (map fst L) l None" "\<forall>y d. (y, d) \<in> set L \<longrightarrow> timer_count (tobj s y) = d"
    and "x \<notin> fst ` set L" "delta_split (timer_count (tobj s x)) L = (a, c', b)"
  shows "timer_seek x t1 t2 s = Some (if b = [] then None else Some (fst (hd b)),
    if a = [] then t2 else Some (fst (last a)), upd_tobj x (\<lambda>t. t\<lparr>timer_count := c'\<rparr>) s)"
  using assms
proof (induction L arbitrary: t1 t2 s a)
  case Nil
  then have "t1 = None" "a = []" "b = []" "timer_count (tobj s x) = c'" by simp_all
  then show ?case by (subst timer_seek.simps) (simp add: upd_tobj_count)
next
  case (Cons p r)
  obtain y d where p: "p = (y, d)" by (cases p)
  have t1: "t1 = Some y" and yd: "timer_count (tobj s y) = d" and yx: "y \<noteq> x"
    using Cons.prems p by auto
  show ?case
  proof (cases "sint d \<le> sint (timer_count (tobj s x))")
    case False
    then have "a = []" "b = p # r" "timer_count (tobj s x) = c'" using Cons.prems(4) p by auto
    then show ?thesis using False t1 yd p by (subst timer_seek.simps) (simp add: upd_tobj_count)
  next
    case True
    let ?s = "upd_tobj x (\<lambda>t. t\<lparr>timer_count := timer_count t - d\<rparr>) s"
    from True Cons.prems(4) p obtain a' where a: "a = p # a'"
      and sp: "delta_split (timer_count (tobj s x) - d) r = (a', c', b)" by (auto split: prod.splits)
    have n: "tnext ?s = tnext s" by (auto simp: tnext_def upd_tobj_def fun_eq_iff)
    have r: "dls (tnext ?s) pv (Some y) (tnext s y) (map fst r) l None"
      using Cons.prems(1) p unfolding n by simp
    have cnt: "\<forall>z e. (z, e) \<in> set r \<longrightarrow> timer_count (tobj ?s z) = e"
      using Cons.prems(2,3) p by (force simp: upd_tobj_def)
    have "timer_seek x (tnext s y) (Some y) ?s = Some (if b = [] then None else Some (fst (hd b)),
        if a' = [] then Some y else Some (fst (last a')), upd_tobj x (\<lambda>t. t\<lparr>timer_count := c'\<rparr>) ?s)"
      by (rule Cons.IH[OF r cnt]) (use Cons.prems(3) p sp in \<open>auto simp: upd_tobj_def\<close>)
    moreover have "upd_tobj x (\<lambda>t. t\<lparr>timer_count := c'\<rparr>) ?s = upd_tobj x (\<lambda>t. t\<lparr>timer_count := c'\<rparr>) s"
      by (simp add: upd_tobj_def)
    ultimately show ?thesis using True t1 yd yx a p
      by (subst timer_seek.simps) (simp add: Let_def tnext_def upd_tobj_def)
  qed
qed

definition tq_only :: "kern \<Rightarrow> kern \<Rightarrow> bool" where
  "tq_only s s' \<longleftrightarrow> s' = s\<lparr>timers := timers s', tobj := tobj s'\<rparr>"

lemma insert_timerobj_eq:
  assumes T: "tqueue s L" and x: "x \<notin> fst ` set L" and nl: "timer_next (tobj s x) = None" "timer_prev (tobj s x) = None"
    and sp: "delta_split (timer_count (tobj s x)) L = (a, c', b)"
  defines "t1 \<equiv> if b = [] then None else Some (fst (hd b))"
    and "t2 \<equiv> if a = [] then None else Some (fst (last a))"
  shows "\<exists>s'. insert_timerobj x s = Some s' \<and> tq_only s s' \<and>
    tnext s' = next_insert (tnext s) t2 x t1 \<and> tprev s' = prev_insert (tprev s) t2 x t1 \<and>
    timers s' = (if a = [] then Some x else timers s) \<and>
    (\<forall>y. timer_count (tobj s' y) = (if y = x then c' else
       if t1 = Some y then timer_count (tobj s y) - c' else timer_count (tobj s y)))"
proof -
  from T obtain l where D: "dll (tnext s) (tprev s) (timers s) (map fst L) l"
    and C: "\<forall>y d. (y, d) \<in> set L \<longrightarrow> timer_count (tobj s y) = d" by (auto simp: tqueue_def)
  have L: "L = a @ b" by (rule delta_split_append[OF sp])
  show ?thesis
  proof (cases L)
    case Nil
    then have "timers s = None" "a = []" "b = []" "c' = timer_count (tobj s x)" using D sp by auto
    then show ?thesis using nl by (auto simp: insert_timerobj_def tq_only_def t1_def t2_def tnext_def
        tprev_def next_insert_def prev_insert_def fun_eq_iff)
  next
    case (Cons p r)
    obtain h d where p: "p = (h, d)" by (cases p)
    have h: "timers s = Some h" "timer_count (tobj s h) = d" "h \<noteq> x" using D C Cons p x by (auto simp: dll_def)
    show ?thesis
    proof (cases "sint d \<le> sint (timer_count (tobj s x))")
      case False
      then have ab: "a = []" "b = p # r" "c' = timer_count (tobj s x)" using sp Cons p by auto
      then have t: "t1 = Some h" "t2 = None" by (simp_all add: t1_def t2_def p)
      from False h nl show ?thesis unfolding t ab
        by (auto simp: insert_timerobj_def Let_def tq_only_def tnext_def tprev_def next_insert_def prev_insert_def
            upd_tobj_def fun_eq_iff)
    next
      case True
      then obtain a' where a: "a = p # a'" using sp Cons p by (auto split: prod.splits)
      have "dls (tnext s) (tprev s) None (timers s) (map fst L) l None" using D by (simp add: dll_def)
      from timer_seek_spec[OF this C x sp]
      have sk: "timer_seek x (timers s) None s = Some (t1, t2, upd_tobj x (\<lambda>t. t\<lparr>timer_count := c'\<rparr>) s)"
        by (simp add: t1_def t2_def)
      obtain u where u: "t2 = Some u" "u = fst (last a)" using a by (auto simp: t2_def)
      have "u \<in> fst ` set a" using u(2) a last_in_set[of a] by (metis image_eqI list.distinct(1))
      then have ux: "u \<noteq> x" and ua: "u \<in> fst ` set a" using x L by auto
      have "t1 \<noteq> Some x" using x L by (auto simp: t1_def)
      have "t1 \<noteq> Some u"
      proof
        assume "t1 = Some u"
        then have "u \<in> fst ` set b" using hd_in_set[of b] by (auto simp: t1_def split: if_splits)
        moreover have "distinct (map fst a @ map fst b)" using dll_distinct[OF D] L by simp
        ultimately show False using ua by auto
      qed
      let ?s3 = "upd_tobj u (\<lambda>b. b\<lparr>timer_next := Some x\<rparr>) (upd_tobj x (\<lambda>b. b\<lparr>timer_next := t1, timer_prev := t2\<rparr>)
          (upd_tobj x (\<lambda>t. t\<lparr>timer_count := c'\<rparr>) s))"
      let ?s4 = "case t1 of None \<Rightarrow> ?s3 | Some v \<Rightarrow> upd_tobj v (\<lambda>b. b\<lparr>timer_prev := Some x,
          timer_count := timer_count b - timer_count (tobj ?s3 x)\<rparr>) ?s3"
      have "insert_timerobj x s = Some ?s4"
        using True h sk u(1) by (simp add: insert_timerobj_def Let_def split: option.split)
      moreover have "tq_only s ?s4" by (simp add: tq_only_def upd_tobj_def split: option.split)
      moreover have "tnext ?s4 = next_insert (tnext s) t2 x t1" "tprev ?s4 = prev_insert (tprev s) t2 x t1"
        using ux u(1) \<open>t1 \<noteq> Some x\<close> \<open>t1 \<noteq> Some u\<close>
        by (auto simp: tnext_def tprev_def next_insert_def prev_insert_def upd_tobj_def fun_eq_iff split: option.split)
      moreover have "timers ?s4 = (if a = [] then Some x else timers s)"
        using a by (simp add: upd_tobj_def split: option.split)
      moreover have "timer_count (tobj ?s4 y) = (if y = x then c' else
          if t1 = Some y then timer_count (tobj s y) - c' else timer_count (tobj s y))" for y
        using ux \<open>t1 \<noteq> Some x\<close> \<open>t1 \<noteq> Some u\<close> by (auto simp: upd_tobj_def split: option.split)
      ultimately show ?thesis by blast
    qed
  qed
qed

lemma insert_timerobj_refines:
  assumes T: "tqueue s L" and x: "x \<notin> fst ` set L" and nl: "timer_next (tobj s x) = None" "timer_prev (tobj s x) = None"
  shows "\<exists>s'. insert_timerobj x s = Some s' \<and> tq_only s s' \<and> tqueue s' (delta_insert x (timer_count (tobj s x)) L)"
proof -
  obtain a c' b where sp: "delta_split (timer_count (tobj s x)) L = (a, c', b)" by (metis prod_cases3)
  have L: "L = a @ b" by (rule delta_split_append[OF sp])
  from insert_timerobj_eq[OF T x nl sp] obtain s' where s': "insert_timerobj x s = Some s'" "tq_only s s'"
    and nx: "tnext s' = next_insert (tnext s) (if a = [] then None else Some (fst (last a))) x (if b = [] then None else Some (fst (hd b)))"
      "tprev s' = prev_insert (tprev s) (if a = [] then None else Some (fst (last a))) x (if b = [] then None else Some (fst (hd b)))"
      "timers s' = (if a = [] then Some x else timers s)"
    and cnt: "\<And>y. timer_count (tobj s' y) = (if y = x then c' else
       if (if b = [] then None else Some (fst (hd b))) = Some y then timer_count (tobj s y) - c' else timer_count (tobj s y))"
    by auto
  from T obtain l where D: "dll (tnext s) (tprev s) (timers s) (map fst a @ map fst b) l"
    and C: "\<forall>y d. (y, d) \<in> set L \<longrightarrow> timer_count (tobj s y) = d" by (auto simp: tqueue_def L)
  have di: "distinct (map fst a @ map fst b)" using dll_distinct[OF D] .
  have e: "map fst (delta_insert x (timer_count (tobj s x)) L) = map fst a @ x # map fst b"
    unfolding delta_insert_split[OF sp] by (auto simp: shift_head_def split: list.split)
  have xn: "x \<notin> set (map fst a @ map fst b)" using x L by auto
  have "\<exists>l. dll (tnext s') (tprev s') (timers s') (map fst a @ x # map fst b) l"
    using dll_insert[OF D xn, of "if a = [] then None else Some (fst (last a))" "if b = [] then None else Some (fst (hd b))"]
    unfolding nx by (auto simp: last_map hd_map)
  moreover have "timer_count (tobj s' y) = d" if yd: "(y, d) \<in> set (delta_insert x (timer_count (tobj s x)) L)" for y d
  proof -
    from yd consider "(y, d) = (x, c')" | "(y, d) \<in> set a" | z e r where "b = (z, e) # r" "(y, d) = (z, e - c') \<or> (y, d) \<in> set r"
      unfolding delta_insert_split[OF sp] by (auto simp: shift_head_def split: list.splits)
    then show ?thesis
    proof cases
      case 2
      then have "y \<in> fst ` set a" by force
      then have "y \<noteq> x" "y \<notin> fst ` set b" using x L di by auto
      with 2 C L show ?thesis by (auto simp: cnt)
    next
      case (3 z e r)
      then show ?thesis
      proof (cases "y = z")
        case True
        then have "(y, d) \<notin> set r" using di 3(1) by force
        with 3 True C L x show ?thesis by (auto simp: cnt)
      next
        case False
        with 3 have "(y, d) \<in> set r" by auto
        moreover have "y \<noteq> x" using x L 3(1) calculation by force
        ultimately show ?thesis using False C L 3(1) by (auto simp: cnt)
      qed
    qed (simp add: cnt)
  qed
  ultimately show ?thesis using s' e by (auto simp: tqueue_def)
qed

lemma delta_remove_split:
  "x \<notin> fst ` set a \<Longrightarrow> delta_remove x (a @ (x, c) # b) = a @ shift_head (- c) b"
  by (induction a) (auto simp: shift_head_def split: list.split)

lemma remove_timerobj_eq:
  assumes "timer_next (tobj s x) \<noteq> Some x" "timer_prev (tobj s x) \<noteq> Some x"
  defines "s' \<equiv> remove_timerobj x s"
  shows "tq_only s s'" "timer_next (tobj s' x) = None" "timer_prev (tobj s' x) = None"
    "\<And>y. y \<noteq> x \<Longrightarrow> tnext s' y = next_unlink (tnext s) (tprev s) x y"
    "\<And>y. y \<noteq> x \<Longrightarrow> tprev s' y = prev_unlink (tnext s) (tprev s) x y"
    "timers s' = (if tprev s x = None then tnext s x else timers s)"
    "\<And>y. timer_count (tobj s' y) = (if timer_next (tobj s x) = Some y then timer_count (tobj s y) + timer_count (tobj s x)
       else timer_count (tobj s y))"
  using assms(1,2)
  by (auto simp: s'_def remove_timerobj_def Let_def tq_only_def upd_tobj_def tnext_def tprev_def
      next_unlink_def prev_unlink_def split: option.split)

lemma remove_timerobj_refines:
  assumes T: "tqueue s L" and x: "x \<in> fst ` set L"
  shows "tq_only s (remove_timerobj x s)" "tqueue (remove_timerobj x s) (delta_remove x L)"
    "timer_next (tobj (remove_timerobj x s) x) = None" "timer_prev (tobj (remove_timerobj x s) x) = None"
proof -
  let ?s = "remove_timerobj x s"
  from T obtain l where D: "dll (tnext s) (tprev s) (timers s) (map fst L) l"
    and C: "\<forall>y d. (y, d) \<in> set L \<longrightarrow> timer_count (tobj s y) = d" by (auto simp: tqueue_def)
  from x obtain c where "(x, c) \<in> set L" by auto
  then obtain a b where L: "L = a @ (x, c) # b" by (auto simp: in_set_conv_decomp)
  have di: "distinct (map fst a @ x # map fst b)" using dll_distinct[OF D] L by simp
  then have xa: "x \<notin> fst ` set a" "x \<notin> fst ` set b" by auto
  from D L obtain m where A: "dls (tnext s) (tprev s) None (timers s) (map fst a) m (Some x)" and m: "tprev s x = m"
    and B: "dls (tnext s) (tprev s) (Some x) (tnext s x) (map fst b) l None"
    by (auto simp: dll_def dls_append)
  have nx: "tnext s x = (if b = [] then None else Some (fst (hd b)))" using dls_head[OF B] by (simp add: hd_map)
  have pv: "tprev s x = (if a = [] then None else Some (fst (last a)))" using dls_last[OF A] m by (simp add: last_map)
  have ne: "timer_next (tobj s x) \<noteq> Some x" "timer_prev (tobj s x) \<noteq> Some x"
    using nx pv xa by (auto simp: tnext_def tprev_def split: if_splits)
  note R = remove_timerobj_eq[OF ne]
  show "tq_only s ?s" "timer_next (tobj ?s x) = None" "timer_prev (tobj ?s x) = None" using R(1-3) .
  have rm: "delta_remove x L = a @ shift_head (- c) b" unfolding L by (rule delta_remove_split[OF xa(1)])
  have e: "map fst (delta_remove x L) = remove1 x (map fst L)"
    unfolding rm using xa L by (auto simp: shift_head_def remove1_append split: list.split)
  have xin: "x \<in> set (map fst L)" using x by simp
  have "\<exists>l. dll (tnext ?s) (tprev ?s) (timers ?s) (map fst (delta_remove x L)) l"
    using dll_unlink[OF D xin R(4,5)] unfolding e R(6) by blast
  moreover have "timer_count (tobj ?s y) = d" if yd: "(y, d) \<in> set (delta_remove x L)" for y d
  proof -
    have xc: "timer_count (tobj s x) = c" using C L by simp
    from yd consider "(y, d) \<in> set a" | z e r where "b = (z, e) # r" "(y, d) = (z, e + c) \<or> (y, d) \<in> set r"
      unfolding rm by (auto simp: shift_head_def split: list.splits)
    then show ?thesis
    proof cases
      case 1
      then have "y \<in> fst ` set a" by force
      then have "y \<notin> fst ` set b" using di by auto
      then have "timer_next (tobj s x) \<noteq> Some y" using nx by (auto simp: tnext_def)
      then show ?thesis using R(7)[of y] C 1 L by auto
    next
      case (2 z e r)
      have tn: "timer_next (tobj s x) = Some z" using nx 2(1) by (simp add: tnext_def)
      have "z \<notin> fst ` set r" using di 2(1) by auto
      with 2 have "(y = z \<and> d = e + c) \<or> (y \<noteq> z \<and> (y, d) \<in> set r)" by force
      with tn R(7)[of y] C L 2(1) xc show ?thesis by auto
    qed
  qed
  ultimately show "tqueue ?s (delta_remove x L)" by (auto simp: tqueue_def)
qed

text \<open>Without overflow the deltas behind the first stay non-negative, so timers expire in queue order.\<close>

lemma sint_diff_bound:
  "0 \<le> sint (c :: u32) - sint d \<Longrightarrow> sint c - sint d < 2 ^ 31 \<Longrightarrow> sint (c - d) = sint c - sint d"
  by (simp add: sint_word_ariths(2) signed_take_bit_int_eq_self)

lemma delta_insert_nonneg:
  "\<forall>p \<in> set L. 0 \<le> sint (snd p) \<Longrightarrow> 0 \<le> sint c \<Longrightarrow> \<forall>p \<in> set (delta_insert x c L). 0 \<le> sint (snd p)"
proof (induction x c L rule: delta_insert.induct)
  case (2 x c y d r)
  have b: "sint c < 2 ^ 31" "sint d < 2 ^ 31" using sint_lt[of c] sint_lt[of d] by simp_all
  show ?case
  proof (cases "sint d \<le> sint c")
    case True
    then have "sint (c - d) = sint c - sint d" using 2(2) b by (intro sint_diff_bound) auto
    with True 2 show ?thesis by auto
  next
    case False
    then have "sint (d - c) = sint d - sint c" using 2(3) b by (intro sint_diff_bound) auto
    with False 2 show ?thesis by auto
  qed
qed simp

lemma tail_nonneg_insert:
  assumes L: "tail_nonneg L" "L \<noteq> [] \<Longrightarrow> - (2 ^ 30) \<le> sint (snd (hd L))" and c: "0 \<le> sint c" "sint c < 2 ^ 30"
  shows "tail_nonneg (delta_insert x c L)"
proof (cases L)
  case (Cons p r)
  obtain y d where p: "p = (y, d)" by (cases p)
  have r: "\<forall>p \<in> set r. 0 \<le> sint (snd p)" and d: "- (2 ^ 30) \<le> sint d" "sint d < 2 ^ 31"
    using L Cons p sint_lt[of d] by (auto simp: tail_nonneg_def)
  show ?thesis
  proof (cases "sint d \<le> sint c")
    case True
    then have "sint (c - d) = sint c - sint d" using c d by (intro sint_diff_bound) auto
    with True delta_insert_nonneg[OF r, of "c - d" x] Cons p show ?thesis by (auto simp: tail_nonneg_def)
  next
    case False
    then have "sint (d - c) = sint d - sint c" using c d by (intro sint_diff_bound) auto
    with False r Cons p show ?thesis by (auto simp: tail_nonneg_def)
  qed
qed (simp add: tail_nonneg_def)

end
