(* ===== verification/Locks.thy ===== *)
theory Locks
  imports Scheduler Timer_Queue
begin

text \<open>
  \<^verbatim>\<open>base/lock.c\<close>: locks, recursive locks and events, with priority inheritance.

  The kernel runs on one processor and these functions run with interrupts off, so
  the code between two calls of \<^verbatim>\<open>scheduler\<close> is one atomic operation.  A blocking call
  is split there: \<open>lock_attempt\<close> is one pass of \<^verbatim>\<open>_lock\<close> from the label
  \<^verbatim>\<open>_lock_1\<close>; when it puts the caller to sleep, the caller executes the same operation
  again once it is scheduled, as the \<^verbatim>\<open>goto\<close> says.  The result \<open>None\<close> means that the C
  code has no defined result: a loop that does not end, or a null pointer followed.
\<close>

section \<open>Objects\<close>

definition upd_lockt :: "nat \<Rightarrow> (lock_t \<Rightarrow> lock_t) \<Rightarrow> kern \<Rightarrow> kern" where
  "upd_lockt l f s = s\<lparr>lockt := (lockt s)(l := f (lockt s l))\<rparr>"

definition upd_rlockt :: "nat \<Rightarrow> (rlock_t \<Rightarrow> rlock_t) \<Rightarrow> kern \<Rightarrow> kern" where
  "upd_rlockt l f s = s\<lparr>rlockt := (rlockt s)(l := f (rlockt s l))\<rparr>"

definition upd_eventt :: "nat \<Rightarrow> (event_t \<Rightarrow> event_t) \<Rightarrow> kern \<Rightarrow> kern" where
  "upd_eventt e f s = s\<lparr>eventt := (eventt s)(e := f (eventt s e))\<rparr>"

definition empty_slq :: "synch_type \<Rightarrow> sleep_q" where
  "empty_slq ty = \<lparr>sl_type = ty, sl_head = None, sl_tail = None, sl_next = None, sl_prev = None\<rparr>"

definition lockobj_init :: "nat \<Rightarrow> kern \<Rightarrow> kern" where
  "lockobj_init l s = upd_slq (Lock_obj l) (\<lambda>_. empty_slq SYNCH_TYPE_LOCK)
     (upd_lockt l (\<lambda>_. \<lparr>l_owner_thread = None, l_val = 0\<rparr>) s)"

definition rlockobj_init :: "nat \<Rightarrow> kern \<Rightarrow> kern" where
  "rlockobj_init l s = upd_slq (Rlock_obj l) (\<lambda>_. empty_slq SYNCH_TYPE_RLOCK)
     (upd_rlockt l (\<lambda>_. \<lparr>rl_owner_thread = None, rl_val = 0, rl_level = 0\<rparr>) s)"

definition eventobj_init :: "nat \<Rightarrow> kern \<Rightarrow> kern" where
  "eventobj_init e s = upd_slq (Event_obj e) (\<lambda>_. empty_slq SYNCH_TYPE_EVENT)
     (upd_eventt e (\<lambda>_. \<lparr>e_val = 0\<rparr>) s)"

text \<open>\<^verbatim>\<open>test_and_set\<close> is \<^verbatim>\<open>lock bts\<close> of bit 0: the old bit and the new word.\<close>

definition test_and_set :: "u16 \<Rightarrow> bool \<times> u16" where
  "test_and_set v = (bit v 0, v OR 1)"

section \<open>Priority inheritance\<close>

text \<open>\<^verbatim>\<open>gl->owner_thread\<close>: both lock structures have the owner behind the sleep queue.\<close>

definition gl_owner :: "kern \<Rightarrow> chan \<Rightarrow> tid option" where
  "gl_owner s c = (case c of Lock_obj l \<Rightarrow> l_owner_thread (lockt s l)
                           | Rlock_obj l \<Rightarrow> rl_owner_thread (rlockt s l) | _ \<Rightarrow> None)"

partial_function (option) lend_priority :: "chan \<Rightarrow> kern \<Rightarrow> kern option" where
  "lend_priority gl s =
     (if sl_type (slq s gl) \<noteq> SYNCH_TYPE_LOCK \<and> sl_type (slq s gl) \<noteq> SYNCH_TYPE_RLOCK then Some s
      else case gl_owner s gl of
        None \<Rightarrow> None
      | Some thr \<Rightarrow>
          let pri = eff_pri (sched s (current_thread s))
          in if sc_cpupri (sched s thr) < pri \<and> sc_inhpri (sched s thr) < pri
             then let (ret, s1) = del_readyq thr s;
                      s2 = upd_sched thr (\<lambda>si. si\<lparr>sc_inhpri := pri\<rparr>) s1;
                      s3 = (if ret = 1 then add_readyq thr s2 else s2)
                  in if sc_state (sched s3 thr) = THREAD_STATE_SLEEP
                     then case kt_slpchannel (kt s3 thr) of
                            None \<Rightarrow> Some s3
                          | Some gl' \<Rightarrow> lend_priority gl' s3
                     else Some s3
             else Some s)"

section \<open>Locks\<close>

text \<open>The caller goes to sleep on an object: the common part of the blocking calls.\<close>

definition block_current :: "chan \<Rightarrow> kern \<Rightarrow> kern" where
  "block_current c s =
     (let cur = current_thread s;
          s1 = ADD_SLQ c cur s;
          s2 = upd_sched cur (\<lambda>si. si\<lparr>sc_state := THREAD_STATE_SLEEP\<rparr>) s1
      in upd_kt cur (\<lambda>k. k\<lparr>kt_slpchannel := Some c\<rparr>) s2)"

definition take_lock :: "nat \<Rightarrow> kern \<Rightarrow> kern" where
  "take_lock l s =
     (let cur = current_thread s;
          s1 = upd_lockt l (\<lambda>k. k\<lparr>l_owner_thread := Some cur\<rparr>) s;
          s2 = ADD_SYNCHOBJ (Lock_obj l) cur s1
      in upd_kt cur (\<lambda>k. k\<lparr>kt_slpchannel := None\<rparr>) s2)"

text \<open>\<open>Some (True, s)\<close>: the lock is taken; \<open>Some (False, s)\<close>: the caller sleeps and has to retry.\<close>

definition lock_attempt :: "nat \<Rightarrow> kern \<Rightarrow> (bool \<times> kern) option" where
  "lock_attempt l s =
     (let (was, v) = test_and_set (l_val (lockt s l));
          s1 = upd_lockt l (\<lambda>k. k\<lparr>l_val := v\<rparr>) s
      in if was
         then Option.bind (lend_priority (Lock_obj l) (block_current (Lock_obj l) s1)) (\<lambda>s2.
              map_option (Pair False) (scheduler s2))
         else Some (True, take_lock l s1))"

definition trylock :: "nat \<Rightarrow> kern \<Rightarrow> int \<times> kern" where
  "trylock l s =
     (let (was, v) = test_and_set (l_val (lockt s l));
          s1 = upd_lockt l (\<lambda>k. k\<lparr>l_val := v\<rparr>) s
      in if was then (ELOCK_FAILURE, s1) else (ELOCK_SUCCESS, take_lock l s1))"

text \<open>The wake-up loop; \<open>n\<close> counts the threads woken.\<close>

partial_function (option) wake_all :: "chan \<Rightarrow> int \<Rightarrow> kern \<Rightarrow> (int \<times> kern) option" where
  "wake_all c n s =
     (case DEL_SLQ c s of
        (None, s1) \<Rightarrow> Some (n, s1)
      | (Some t, s1) \<Rightarrow> wake_all c (n + 1) (add_readyq t s1))"

definition release_lock :: "nat \<Rightarrow> kern \<Rightarrow> (int \<times> kern) option" where
  "release_lock l s =
     map_option (\<lambda>(n, s1).
       let s2 = DEL_SYNCHOBJ (Lock_obj l) (current_thread s1) s1
       in (n, upd_lockt l (\<lambda>k. k\<lparr>l_owner_thread := None, l_val := 0\<rparr>) s2))
     (wake_all (Lock_obj l) 0 s)"

definition drop_inherited :: "kern \<Rightarrow> kern" where
  "drop_inherited s =
     (if kt_synchobjlist (kt s (current_thread s)) = None
      then upd_sched (current_thread s) (\<lambda>si. si\<lparr>sc_inhpri := 0\<rparr>) s else s)"

definition sys_unlock :: "nat \<Rightarrow> kern \<Rightarrow> (int \<times> kern) option" where
  "sys_unlock l s = map_option (\<lambda>(n, s1). (n, drop_inherited s1)) (release_lock l s)"

definition unlock :: "nat \<Rightarrow> kern \<Rightarrow> (int \<times> kern) option" where
  "unlock l s =
     (if l_owner_thread (lockt s l) = Some (current_thread s)
      then map_option (\<lambda>(_, s1). (ELOCK_SUCCESS, drop_inherited s1)) (release_lock l s)
      else Some (ELOCK_NOTOWNED, drop_inherited s))"

section \<open>Recursive locks\<close>

definition rlock_attempt :: "nat \<Rightarrow> kern \<Rightarrow> (bool \<times> kern) option" where
  "rlock_attempt l s =
     (let (was, v) = test_and_set (rl_val (rlockt s l));
          s1 = upd_rlockt l (\<lambda>k. k\<lparr>rl_val := v\<rparr>) s;
          cur = current_thread s1
      in if was
         then if rl_owner_thread (rlockt s1 l) = Some cur
              then Some (True, upd_rlockt l (\<lambda>k. k\<lparr>rl_level := rl_level k + 1\<rparr>) s1)
              else Option.bind (lend_priority (Rlock_obj l) (block_current (Rlock_obj l) s1)) (\<lambda>s2.
                   map_option (Pair False) (scheduler s2))
         else let s2 = upd_rlockt l (\<lambda>k. k\<lparr>rl_owner_thread := Some cur, rl_level := rl_level k + 1\<rparr>) s1;
                  s3 = ADD_SYNCHOBJ (Rlock_obj l) cur s2
              in Some (True, upd_kt cur (\<lambda>k. k\<lparr>kt_slpchannel := None\<rparr>) s3))"

definition runlock :: "nat \<Rightarrow> kern \<Rightarrow> (int \<times> kern) option" where
  "runlock l s =
     (if rl_owner_thread (rlockt s l) = Some (current_thread s)
      then let s1 = upd_rlockt l (\<lambda>k. k\<lparr>rl_level := rl_level k - 1\<rparr>) s
           in if rl_level (rlockt s1 l) = 0
              then map_option (\<lambda>(_, s2).
                     let s3 = DEL_SYNCHOBJ (Rlock_obj l) (current_thread s2) s2
                     in (ELOCK_SUCCESS, drop_inherited
                          (upd_rlockt l (\<lambda>k. k\<lparr>rl_owner_thread := None, rl_val := 0\<rparr>) s3)))
                   (wake_all (Rlock_obj l) 0 s1)
              else Some (ELOCK_SUCCESS, drop_inherited s1)
      else Some (ELOCK_NOTOWNED, drop_inherited s))"

section \<open>Events\<close>

text \<open>The loop of the event wake-ups, which clears the sleep channel a second time.\<close>

partial_function (option) wake_event :: "chan \<Rightarrow> int \<Rightarrow> kern \<Rightarrow> (int \<times> kern) option" where
  "wake_event c n s =
     (case DEL_SLQ c s of
        (None, s1) \<Rightarrow> Some (n, s1)
      | (Some t, s1) \<Rightarrow> wake_event c (n + 1) (upd_kt t (\<lambda>k. k\<lparr>kt_slpchannel := None\<rparr>) (add_readyq t s1)))"

definition sys_event_wakeup :: "nat \<Rightarrow> kern \<Rightarrow> (int \<times> kern) option" where
  "sys_event_wakeup e s =
     map_option (\<lambda>(n, s1). (n, upd_eventt e (\<lambda>k. k\<lparr>e_val := 0\<rparr>) s1)) (wake_event (Event_obj e) 0 s)"

definition event_wakeup :: "nat \<Rightarrow> kern \<Rightarrow> (int \<times> kern) option" where
  "event_wakeup e s =
     map_option (\<lambda>(n, s1). (n, upd_eventt e (\<lambda>k. k\<lparr>e_val := 0\<rparr>) s1)) (wake_event (Event_obj e) 0 s)"

definition wait_event :: "nat \<Rightarrow> kern \<Rightarrow> kern" where
  "wait_event e s = block_current (Event_obj e) (upd_eventt e (\<lambda>k. k\<lparr>e_val := e_val k + 1\<rparr>) s)"

text \<open>
  \<^verbatim>\<open>event_sleep\<close> up to its \<^verbatim>\<open>scheduler\<close> call.  \<open>Some (Some r, s)\<close>: it returned \<open>r\<close>;
  \<open>Some (None, s)\<close>: the caller sleeps; it goes on with \<open>lock_attempt\<close> when a lock was given.
\<close>

definition event_sleep :: "nat \<Rightarrow> nat option \<Rightarrow> kern \<Rightarrow> (int option \<times> kern) option" where
  "event_sleep e lck s =
     (case lck of
        None \<Rightarrow> map_option (Pair None) (scheduler (wait_event e s))
      | Some l \<Rightarrow>
          if l_owner_thread (lockt s l) = Some (current_thread s)
          then Option.bind (release_lock l s) (\<lambda>(_, s1).
               map_option (Pair None) (scheduler (wait_event e s1)))
          else Some (Some ELOCK_NOTOWNED, s))"

text \<open>The search loop of the time-out handler: is the thread still on the sleep queue?\<close>

partial_function (option) find_waiter :: "kern \<Rightarrow> tid option \<Rightarrow> tid \<Rightarrow> tid option option" where
  "find_waiter s t1 t =
     (case t1 of
        None \<Rightarrow> Some None
      | Some u \<Rightarrow> if u = t then Some (Some u) else find_waiter s (kt_qnext (kt s u)) t)"

text \<open>\<open>i\<close> is the timer object whose \<^verbatim>\<open>eventtimedsleep_arg\<close> is passed.\<close>

definition event_wait_remove_thread :: "nat \<Rightarrow> nat \<Rightarrow> tid \<Rightarrow> kern \<Rightarrow> kern option" where
  "event_wait_remove_thread i e t s =
     Option.bind (find_waiter s (sl_head (slq s (Event_obj e))) t) (\<lambda>t1.
       case t1 of
         None \<Rightarrow> Some s
       | Some _ \<Rightarrow>
           let s1 = unlink_slq (Event_obj e) t s;
               s2 = upd_eventt e (\<lambda>k. k\<lparr>e_val := e_val k - 1\<rparr>) s1;
               s3 = s2\<lparr>tmo_failed := (tmo_failed s2)(i := True)\<rparr>;
               s4 = upd_kt t (\<lambda>k. k\<lparr>kt_slpchannel := None\<rparr>) s3
           in Some (add_readyq t s4))"

text \<open>The kernel's static \<^verbatim>\<open>timerq_lock\<close>.\<close>

definition timerq_lock :: nat where
  "timerq_lock = 0"

text \<open>
  \<^verbatim>\<open>event_timed_sleep\<close> in three parts: the set-up before the first \<^verbatim>\<open>_lock\<close> call, the
  part with \<^verbatim>\<open>timerq_lock\<close> held up to \<^verbatim>\<open>scheduler\<close>, and the part after the caller holds
  \<^verbatim>\<open>timerq_lock\<close> again.  \<open>i\<close> names the timer object on the caller's stack.
\<close>

definition event_timed_sleep_init :: "nat \<Rightarrow> nat \<Rightarrow> u32 \<Rightarrow> kern \<Rightarrow> kern" where
  "event_timed_sleep_init i e msecs s =
     (let cur = current_thread s;
          s1 = s\<lparr>tmo_failed := (tmo_failed s)(i := False)\<rparr>
      in upd_tobj i (\<lambda>b. b\<lparr>timer_count := msecs, timer_handler := Some (Tmo_event_wait_remove_thread e cur),
           timer_ownerthread := Some cur, timer_next := None, timer_prev := None\<rparr>) (timerobj_init i s1))"

definition event_timed_sleep_enter :: "nat \<Rightarrow> nat \<Rightarrow> nat option \<Rightarrow> kern \<Rightarrow> (int option \<times> kern) option" where
  "event_timed_sleep_enter i e lck s =
     (let go = (\<lambda>s0. Option.bind (insert_timerobj i s0) (\<lambda>s1.
                Option.bind (case lck of None \<Rightarrow> Some s1 | Some l \<Rightarrow> map_option snd (release_lock l s1)) (\<lambda>s2.
                Option.bind (release_lock timerq_lock (wait_event e s2)) (\<lambda>(_, s3).
                map_option (Pair None) (scheduler s3)))))
      in case lck of
           None \<Rightarrow> go s
         | Some l \<Rightarrow> if l_owner_thread (lockt s l) = Some (current_thread s) then go s
                     else map_option (\<lambda>(_, s1). (Some ELOCK_NOTOWNED, s1)) (unlock timerq_lock s))"

definition event_timed_sleep_leave :: "nat \<Rightarrow> kern \<Rightarrow> (int \<times> kern) option" where
  "event_timed_sleep_leave i s =
     (let s1 = (if 0 \<le> sint (timer_count (tobj s i))
                then (remove_timerobj i s)\<lparr>tmo_failed := (tmo_failed s)(i := False)\<rparr> else s)
      in map_option (\<lambda>(_, s2). (if tmo_failed s2 i then ETIMEDOUT else 0, s2)) (unlock timerq_lock s1))"

definition releasesynch_object :: "chan \<Rightarrow> kern \<Rightarrow> kern option" where
  "releasesynch_object c s =
     (case c of
        Lock_obj l \<Rightarrow> if sl_type (slq s c) = SYNCH_TYPE_LOCK then map_option snd (sys_unlock l s) else Some s
      | _ \<Rightarrow> Some s)"

section \<open>What the operations leave alone\<close>

text \<open>The object state: everything the lock code owns besides the thread queues.\<close>

definition obj_same :: "kern \<Rightarrow> kern \<Rightarrow> bool" where
  "obj_same s s' \<longleftrightarrow> lockt s' = lockt s \<and> rlockt s' = rlockt s \<and> eventt s' = eventt s \<and>
     proc_state s' = proc_state s \<and> timers s' = timers s \<and> tobj s' = tobj s \<and> tmo_failed s' = tmo_failed s \<and>
     (\<forall>c. sl_type (slq s' c) = sl_type (slq s c) \<and> sl_next (slq s' c) = sl_next (slq s c) \<and>
          sl_prev (slq s' c) = sl_prev (slq s c)) \<and>
     (\<forall>t. kt_synchobjlist (kt s' t) = kt_synchobjlist (kt s t) \<and> kt_process (kt s' t) = kt_process (kt s t))"

lemma obj_same_refl [simp]: "obj_same s s"
  by (simp add: obj_same_def)

lemma obj_same_trans [trans]: "obj_same s t \<Longrightarrow> obj_same t u \<Longrightarrow> obj_same s u"
  by (simp add: obj_same_def)

lemma obj_same_queues: "same_but_queues s s' \<Longrightarrow> obj_same s s'"
  by (simp add: obj_same_def same_but_queues_def)

lemma obj_same_upd [simp]:
  "obj_same s (upd_sched t f s)"
  "obj_same s (upd_kt t (\<lambda>k. k\<lparr>kt_slpchannel := x\<rparr>) s)"
  "obj_same s (upd_kt t (\<lambda>k. k\<lparr>kt_qnext := y, kt_qprev := z\<rparr>) s)"
  by (simp_all add: obj_same_def field_defs)

lemma obj_same_add_readyq: "obj_same s (add_readyq t s)"
proof -
  have "tmo_failed (add_readyq t s) = tmo_failed s"
    by (simp add: add_readyq_def Let_def queue_fields) (simp add: field_defs)
  then show ?thesis by (simp add: obj_same_def)
qed

lemma obj_same_del_readyq: "obj_same s (snd (del_readyq t s))"
  unfolding del_readyq_def Let_def
  using obj_same_trans[OF obj_same_queues[OF unlink_readyq_same] obj_same_upd(3)] by simp

lemma obj_same_requeue: "obj_same s (requeue_current s)"
  unfolding requeue_current_def Let_def
  using obj_same_trans[OF obj_same_upd(1) obj_same_queues[OF append_readyq_same]] by simp

lemma obj_same_context_switch: "obj_same s (context_switch n s)"
  by (simp add: context_switch_def obj_same_def field_defs)

lemma obj_same_scheduler:
  assumes "scheduler s = Some s'"
  shows "obj_same s s'"
proof -
  let ?s = "s\<lparr>runrun := False, kprunrun := False\<rparr>"
  have 0: "obj_same s ?s" by (simp add: obj_same_def)
  note 1 = obj_same_trans[OF 0 obj_same_requeue]
  note 2 = obj_same_trans[OF 1 obj_same_queues[OF unlink_readyq_same]]
  note 3 = obj_same_trans[OF 2 obj_same_upd(3)]
  note 4 = obj_same_trans[OF obj_same_trans[OF 3 obj_same_upd(1)] obj_same_context_switch]
  from assms show ?thesis
    unfolding scheduler_def Let_def
    by (auto simp: bind_eq_Some_conv split: option.splits if_splits intro: 4 obj_same_trans[OF 0 obj_same_upd(1)])
qed

lemma slp_requeue: "kt_slpchannel (kt (requeue_current s) u) = kt_slpchannel (kt s u)"
  by (simp add: requeue_current_def Let_def queue_fields upd_sched_def upd_kt_def)

lemma slp_scheduler:
  assumes "scheduler s = Some s'"
  shows "kt_slpchannel (kt s' u) = kt_slpchannel (kt s u)"
  using assms unfolding scheduler_def Let_def
  by (auto simp: bind_eq_Some_conv context_switch_def upd_sched_def upd_kt_def queue_fields slp_requeue Let_def
      split: option.splits if_splits)

section \<open>The kernel invariant\<close>

definition is_lock :: "chan \<Rightarrow> bool" where
  "is_lock c = (case c of Lock_obj _ \<Rightarrow> True | Rlock_obj _ \<Rightarrow> True | _ \<Rightarrow> False)"

definition type_of :: "chan \<Rightarrow> synch_type" where
  "type_of c = (case c of Lock_obj _ \<Rightarrow> SYNCH_TYPE_LOCK | Rlock_obj _ \<Rightarrow> SYNCH_TYPE_RLOCK
      | Event_obj _ \<Rightarrow> SYNCH_TYPE_EVENT | Sem_obj _ \<Rightarrow> SYNCH_TYPE_SEM)"

text \<open>A thread asleep on a lock is on the queue of that lock.\<close>

definition sleep_inv :: "kern \<Rightarrow> (qid \<Rightarrow> tid list) \<Rightarrow> bool" where
  "sleep_inv s Q \<longleftrightarrow> (\<forall>t c. sc_state (sched s t) = THREAD_STATE_SLEEP \<longrightarrow> kt_slpchannel (kt s t) = Some c \<longrightarrow>
     is_lock c \<longrightarrow> t \<in> set (Q (Wait c)))"

text \<open>
  A lock value is 0 or 1 and 0 exactly when there is no owner; a lock without owner has
  no sleepers; an event counts its sleepers.
\<close>

definition value_inv :: "kern \<Rightarrow> (qid \<Rightarrow> tid list) \<Rightarrow> bool" where
  "value_inv s Q \<longleftrightarrow>
     (\<forall>l. l_val (lockt s l) = (if l_owner_thread (lockt s l) = None then 0 else 1)) \<and>
     (\<forall>l. rl_val (rlockt s l) = (if rl_owner_thread (rlockt s l) = None then 0 else 1)) \<and>
     (\<forall>c. is_lock c \<longrightarrow> gl_owner s c = None \<longrightarrow> Q (Wait c) = []) \<and>
     (\<forall>e. e_val (eventt s e) = of_nat (length (Q (Wait (Event_obj e)))))"

text \<open>The owned-object lists hold exactly the locks with that owner.\<close>

definition owner_inv :: "kern \<Rightarrow> (tid \<Rightarrow> chan list) \<Rightarrow> bool" where
  "owner_inv s Ow \<longleftrightarrow> owned s Ow \<and> (\<forall>c t. c \<in> set (Ow t) \<longleftrightarrow> gl_owner s c = Some t) \<and>
     (\<forall>c. sl_type (slq s c) = type_of c)"

lemma owner_inv_same:
  assumes "obj_same s s'" "owner_inv s Ow"
  shows "owner_inv s' Ow"
proof -
  have "snext s' = snext s" "sprev s' = sprev s" "shead s' = shead s" "gl_owner s' = gl_owner s"
    using assms(1) by (auto simp: snext_def sprev_def shead_def gl_owner_def obj_same_def fun_eq_iff split: chan.split)
  with assms show ?thesis by (simp add: owner_inv_def owned_def obj_same_def)
qed

lemma gl_owner_same: "obj_same s s' \<Longrightarrow> gl_owner s' = gl_owner s"
  by (auto simp: gl_owner_def obj_same_def fun_eq_iff split: chan.split)

lemma value_inv_same:
  assumes "obj_same s s'" "value_inv s Q" "\<And>c. Q' (Wait c) = Q (Wait c)"
  shows "value_inv s' Q'"
  using assms gl_owner_same[OF assms(1)] by (simp add: value_inv_def obj_same_def)

section \<open>Waking the sleepers of an object\<close>

lemma kinvx_DEL_SLQ:
  assumes K: "kinvx X s Q" and c: "Q (Wait c) = t # ts"
  shows "kinvx X (snd (DEL_SLQ c s)) (Q(Wait c := ts))" "\<And>q. t \<notin> set ((Q(Wait c := ts)) q)"
proof -
  note D = DEL_SLQ_head[OF kinvx_queues[OF K] c]
  show "kinvx X (snd (DEL_SLQ c s)) (Q(Wait c := ts))"
  proof (rule kinvxI[OF D(2)], goal_cases)
    case (1 i u)
    then show ?case using kinvx_ready[OF K, of u i] by (simp add: queue_fields)
  next
    case (2 d u)
    then have "u \<in> set (Q (Wait d))" using c by (auto split: if_splits)
    then show ?case using kinvx_wait[OF K, of u d] by (simp add: queue_fields)
  next
    case (3 u)
    then show ?case using kinvx_on_queue[OF K, of u] by (simp add: queue_fields)
  next
    case (4 u)
    show ?case using kinvx_pri[OF K, of u] by (simp add: queue_fields)
  qed
  show "t \<notin> set ((Q(Wait c := ts)) q)" for q
    using off_after_remove[OF kinvx_queues[OF K], of t "Wait c" q] c by simp
qed

text \<open>The part of the result the callers of the loops use.\<close>

definition woken :: "chan \<Rightarrow> kern \<Rightarrow> (qid \<Rightarrow> tid list) \<Rightarrow> kern \<Rightarrow> (qid \<Rightarrow> tid list) \<Rightarrow> bool" where
  "woken c s Q s' Q' \<longleftrightarrow> obj_same s s' \<and> current_thread s' = current_thread s \<and>
     (\<forall>d. Q' (Wait d) = (if d = c then [] else Q (Wait d))) \<and>
     (\<forall>u. sched s' u = (if u \<in> set (Q (Wait c)) then (sched s u)\<lparr>sc_state := THREAD_STATE_READY\<rparr> else sched s u)) \<and>
     (\<forall>u. kt_slpchannel (kt s' u) = (if u \<in> set (Q (Wait c)) then None else kt_slpchannel (kt s u)))"

lemma wake_all_spec:
  assumes "kinvx X s Q"
  shows "\<exists>s' Q'. wake_all c n s = Some (n + int (length (Q (Wait c))), s') \<and> kinvx X s' Q' \<and> woken c s Q s' Q'"
  using assms
proof (induction "Q (Wait c)" arbitrary: s Q n X)
  case Nil
  then have "DEL_SLQ c s = (None, s)" using DEL_SLQ_empty[OF kinvx_queues[OF Nil.prems]] by simp
  then have "wake_all c n s = Some (n + int (length (Q (Wait c))), s)"
    using Nil.hyps by (subst wake_all.simps) simp
  moreover have "woken c s Q s Q" using Nil.hyps by (auto simp: woken_def)
  ultimately show ?case using Nil.prems by blast
next
  case (Cons t ts)
  note K = Cons.prems and c = Cons.hyps(2)[symmetric]
  let ?s1 = "snd (DEL_SLQ c s)" and ?s2 = "add_readyq t (snd (DEL_SLQ c s))"
  let ?i = "Ready (ready_index (sched ?s1 t))" and ?Q1 = "Q(Wait c := ts)"
  let ?Q2 = "?Q1(?i := ?Q1 ?i @ [t])"
  note D = kinvx_DEL_SLQ[OF K c]
  have d: "DEL_SLQ c s = (Some t, ?s1)" using DEL_SLQ_head(1)[OF kinvx_queues[OF K] c] by (metis prod.collapse)
  have K2: "kinvx X ?s2 ?Q2" by (rule kinvx_mono[OF kinvx_add_readyq[OF D(1,2) refl]]) auto
  have ts: "ts = ?Q2 (Wait c)" by simp
  from Cons.hyps(1)[OF ts K2, of "n + 1"] obtain s' Q' where
    A: "wake_all c (n + 1) ?s2 = Some (n + 1 + int (length ts), s')" "kinvx X s' Q'" "woken c ?s2 ?Q2 s' Q'" by auto
  have "wake_all c n s = Some (n + int (length (Q (Wait c))), s')"
    using A(1) c by (subst wake_all.simps, subst d) simp
  moreover have "obj_same s ?s2"
    by (rule obj_same_trans[OF obj_same_queues[OF DEL_SLQ_same] obj_same_add_readyq])
  moreover have "t \<notin> set ts" using kqueues_distinct[OF kinvx_queues[OF K], of "Wait c"] c by simp
  ultimately show ?case using A c
    by (intro exI[of _ s'] exI[of _ Q']) (auto simp: woken_def add_readyq_sched add_readyq_slpchannel queue_fields
        intro: obj_same_trans)
qed

lemma clear_slpchannel_add_readyq:
  "upd_kt t (\<lambda>k. k\<lparr>kt_slpchannel := None\<rparr>) (add_readyq t s) = add_readyq t s"
proof -
  have "kt_slpchannel (kt (add_readyq t s) t) = None" by (simp add: add_readyq_slpchannel)
  then have "(kt (add_readyq t s) t)\<lparr>kt_slpchannel := None\<rparr> = kt (add_readyq t s) t"
    by (metis kthread.surjective kthread.update_convs(3))
  then show ?thesis by (simp add: upd_kt_def)
qed

lemma wake_event_eq:
  assumes "kinvx X s Q"
  shows "wake_event c n s = wake_all c n s"
  using assms
proof (induction "Q (Wait c)" arbitrary: s Q n X)
  case Nil
  then have "DEL_SLQ c s = (None, s)" using DEL_SLQ_empty[OF kinvx_queues[OF Nil.prems]] by simp
  then show ?case by (subst wake_all.simps, subst wake_event.simps) simp
next
  case (Cons t ts)
  note K = Cons.prems and c = Cons.hyps(2)[symmetric]
  note D = kinvx_DEL_SLQ[OF K c]
  obtain s1 where d: "DEL_SLQ c s = (Some t, s1)"
    using DEL_SLQ_head(1)[OF kinvx_queues[OF K] c] by (metis prod.collapse)
  from Cons.hyps(1)[OF _ kinvx_add_readyq[OF D(1,2) refl]] d
  have "wake_event c (n + 1) (add_readyq t s1) = wake_all c (n + 1) (add_readyq t s1)"
    by simp
  then show ?case
    by (subst wake_all.simps, subst wake_event.simps) (simp add: d clear_slpchannel_add_readyq)
qed

section \<open>Priority inheritance terminates and reaches the owners\<close>

lemma kinvx_upd_not_ready:
  assumes K: "kinvx X s Q" and nr: "sc_state (sched s t) \<noteq> THREAD_STATE_READY"
    and f: "sc_state (f (sched s t)) = sc_state (sched s t)" "pri_ok (f (sched s t))"
  shows "kinvx X (upd_sched t f s) Q"
proof (rule kinvxI, goal_cases)
  case 1
  show ?case by (rule kqueues_cong[OF kinvx_queues[OF K]]) (auto simp: field_defs)
next
  case (2 i u)
  then show ?case using kinvx_ready[OF K, of u i] nr by (auto simp: field_defs)
next
  case (3 c u)
  then show ?case using kinvx_wait[OF K, of u c] f by (auto simp: field_defs)
next
  case (4 u)
  then show ?case using kinvx_on_queue[OF K, of u] nr f by (auto simp: field_defs split: if_splits)
next
  case (5 u)
  show ?case using kinvx_pri[OF K, of u] f by (auto simp: field_defs)
qed

definition raise_thread :: "tid \<Rightarrow> int \<Rightarrow> kern \<Rightarrow> kern" where
  "raise_thread thr pri s =
     (let (ret, s1) = del_readyq thr s;
          s2 = upd_sched thr (\<lambda>si. si\<lparr>sc_inhpri := pri\<rparr>) s1
      in if ret = 1 then add_readyq thr s2 else s2)"

lemma raise_thread_spec:
  assumes K: "kinv s Q" and pri: "0 \<le> pri" "pri \<le> 159"
  shows "\<exists>Q'. kinv (raise_thread t pri s) Q' \<and> (\<forall>c. Q' (Wait c) = Q (Wait c)) \<and>
    obj_same s (raise_thread t pri s) \<and> current_thread (raise_thread t pri s) = current_thread s \<and>
    (\<forall>u. sched (raise_thread t pri s) u = (if u = t then (sched s t)\<lparr>sc_inhpri := pri\<rparr> else sched s u)) \<and>
    (\<forall>u. sc_state (sched s u) \<noteq> THREAD_STATE_READY \<longrightarrow>
       kt_slpchannel (kt (raise_thread t pri s) u) = kt_slpchannel (kt s u))"
proof (cases "sc_state (sched s t) = THREAD_STATE_READY")
  case True
  let ?i = "ready_index (sched s t)" and ?s1 = "snd (del_readyq t s)"
  let ?s2 = "upd_sched t (\<lambda>si. si\<lparr>sc_inhpri := pri\<rparr>) ?s1"
  let ?Q = "Q(Ready ?i := remove1 t (Q (Ready ?i)))"
  have tin: "t \<in> set (Q (Ready ?i))" using kinvx_on_queue[OF K True] by simp
  note D = kinvx_del_readyq[OF K True _ refl]
  have off: "t \<notin> set (?Q q)" for q by (rule off_after_remove[OF kinvx_queues[OF K] tin])
  have "kinvx {t} ?s2 ?Q"
    by (rule kinvx_only_thread[OF D(2) off only_thread_upd(2)])
      (use kinvx_pri[OF K, of t] pri in \<open>auto simp: field_defs pri_ok_def\<close>)
  note K3 = kinvx_mono[OF kinvx_add_readyq[OF this off refl], of "{}", simplified Diff_cancel, OF subset_refl]
  have K4: "\<exists>Q'. kinv (add_readyq t ?s2) Q' \<and> (\<forall>c. Q' (Wait c) = Q (Wait c))"
    by (rule exI, rule conjI, rule K3) simp
  have r: "raise_thread t pri s = add_readyq t ?s2"
    using D(1) by (simp add: raise_thread_def Let_def split_beta)
  have "obj_same s (add_readyq t ?s2)"
    by (rule obj_same_trans[OF obj_same_trans[OF obj_same_del_readyq obj_same_upd(1)] obj_same_add_readyq])
  moreover have "current_thread (add_readyq t ?s2) = current_thread s" by (simp add: upd_sched_def upd_kt_def)
  moreover have "(sched s t)\<lparr>sc_inhpri := pri, sc_state := THREAD_STATE_READY\<rparr> = (sched s t)\<lparr>sc_inhpri := pri\<rparr>"
    using True by (cases "sched s t") simp
  then have "sched (add_readyq t ?s2) u = (if u = t then (sched s t)\<lparr>sc_inhpri := pri\<rparr> else sched s u)" for u
    by (simp add: add_readyq_sched upd_sched_def upd_kt_def)
  moreover have "kt_slpchannel (kt (add_readyq t ?s2) u) = kt_slpchannel (kt s u)"
    if "sc_state (sched s u) \<noteq> THREAD_STATE_READY" for u
    using that True by (auto simp: add_readyq_slpchannel upd_sched_def upd_kt_def)
  ultimately show ?thesis unfolding r using K4 by blast
next
  case False
  have r: "raise_thread t pri s = upd_sched t (\<lambda>si. si\<lparr>sc_inhpri := pri\<rparr>) s"
    using del_readyq_not_ready[OF False] by (simp add: raise_thread_def Let_def)
  have "kinv (upd_sched t (\<lambda>si. si\<lparr>sc_inhpri := pri\<rparr>) s) Q"
    by (rule kinvx_upd_not_ready[OF K False]) (use kinvx_pri[OF K, of t] pri in \<open>auto simp: pri_ok_def\<close>)
  then show ?thesis unfolding r by (intro exI[of _ Q]) (auto simp: upd_sched_def upd_kt_def obj_same_def)
qed

lemma lend_priority_step:
  "lend_priority gl s =
     (if sl_type (slq s gl) \<noteq> SYNCH_TYPE_LOCK \<and> sl_type (slq s gl) \<noteq> SYNCH_TYPE_RLOCK then Some s
      else case gl_owner s gl of
        None \<Rightarrow> None
      | Some thr \<Rightarrow>
          let pri = eff_pri (sched s (current_thread s)); s3 = raise_thread thr pri s
          in if eff_pri (sched s thr) < pri
             then if sc_state (sched s3 thr) = THREAD_STATE_SLEEP
                  then case kt_slpchannel (kt s3 thr) of None \<Rightarrow> Some s3 | Some gl' \<Rightarrow> lend_priority gl' s3
                  else Some s3
             else Some s)"
  by (subst lend_priority.simps) (auto simp: raise_thread_def Let_def eff_pri_def split_beta split: option.split)

text \<open>Only threads below the priority change, and they get exactly it.\<close>

definition lent :: "int \<Rightarrow> kern \<Rightarrow> kern \<Rightarrow> bool" where
  "lent pri s s' \<longleftrightarrow> (\<forall>u. sched s' u = sched s u \<or>
     (eff_pri (sched s u) < pri \<and> sched s' u = (sched s u)\<lparr>sc_inhpri := pri\<rparr>))"

text \<open>Every thread that was raised and sleeps on a lock has its owner at that priority, too.\<close>

definition lent_closed :: "int \<Rightarrow> kern \<Rightarrow> kern \<Rightarrow> bool" where
  "lent_closed pri s s' \<longleftrightarrow> (\<forall>u d w. sched s' u \<noteq> sched s u \<longrightarrow> sc_state (sched s u) = THREAD_STATE_SLEEP \<longrightarrow>
     kt_slpchannel (kt s u) = Some d \<longrightarrow> gl_owner s d = Some w \<longrightarrow> pri \<le> eff_pri (sched s' w))"

lemma eff_pri_raised: "eff_pri si < pri \<Longrightarrow> eff_pri (si\<lparr>sc_inhpri := pri\<rparr>) = pri"
  by (auto simp: eff_pri_def split: if_splits)

lemma eff_pri_range: "pri_ok si \<Longrightarrow> 0 \<le> eff_pri si \<and> eff_pri si \<le> 159"
  by (auto simp: eff_pri_def pri_ok_def)

lemma gl_owner_is_lock: "gl_owner s c = Some w \<Longrightarrow> is_lock c"
  by (auto simp: gl_owner_def is_lock_def split: chan.splits)

lemma is_lock_type: "is_lock c \<longleftrightarrow> type_of c = SYNCH_TYPE_LOCK \<or> type_of c = SYNCH_TYPE_RLOCK"
  by (auto simp: is_lock_def type_of_def split: chan.splits)

lemma lent_trans: "lent pri s s' \<Longrightarrow> lent pri s' s'' \<Longrightarrow> lent pri s s''"
  unfolding lent_def by (metis eff_pri_raised less_irrefl)

definition lend_result :: "chan \<Rightarrow> int \<Rightarrow> kern \<Rightarrow> (qid \<Rightarrow> tid list) \<Rightarrow> kern \<Rightarrow> (qid \<Rightarrow> tid list) \<Rightarrow> bool" where
  "lend_result c pri s Q s' Q' \<longleftrightarrow> kinv s' Q' \<and> (\<forall>d. Q' (Wait d) = Q (Wait d)) \<and> obj_same s s' \<and>
     current_thread s' = current_thread s \<and> lent pri s s' \<and> lent_closed pri s s' \<and>
     (\<forall>u. sc_state (sched s u) \<noteq> THREAD_STATE_READY \<longrightarrow> kt_slpchannel (kt s' u) = kt_slpchannel (kt s u)) \<and>
     (\<forall>w. gl_owner s c = Some w \<longrightarrow> pri \<le> eff_pri (sched s' w))"

lemma lend_priority_spec:
  assumes "kinv s Q" "sleep_inv s Q" "\<And>d. is_lock d \<Longrightarrow> Q (Wait d) \<noteq> [] \<Longrightarrow> gl_owner s d \<noteq> None"
    and "\<And>d. sl_type (slq s d) = type_of d" "is_lock c \<Longrightarrow> Q (Wait c) \<noteq> []"
    and "pri = eff_pri (sched s (current_thread s))"
  shows "\<exists>s' Q'. lend_priority c s = Some s' \<and> lend_result c pri s Q s' Q'"
  using assms
proof (induction "card {u. eff_pri (sched s u) < pri}" arbitrary: s Q c rule: less_induct)
  case less
  note K = less.prems(1) and S = less.prems(2) and V = less.prems(3) and T = less.prems(4)
  show ?case
  proof (cases "is_lock c")
    case False
    then have "lend_priority c s = Some s" by (subst lend_priority_step) (simp add: T is_lock_type)
    moreover have "gl_owner s c = None" using False gl_owner_is_lock[of s c] by (cases "gl_owner s c") auto
    ultimately show ?thesis using K by (auto simp: lend_result_def lent_def lent_closed_def)
  next
    case True
    with V less.prems(5) obtain thr where thr: "gl_owner s c = Some thr" by blast
    have ty: "\<not> (sl_type (slq s c) \<noteq> SYNCH_TYPE_LOCK \<and> sl_type (slq s c) \<noteq> SYNCH_TYPE_RLOCK)"
      using True by (simp add: T is_lock_type)
    show ?thesis
    proof (cases "eff_pri (sched s thr) < pri")
      case False
      then have "lend_priority c s = Some s"
        using thr ty less.prems(6) by (subst lend_priority_step) (simp add: Let_def)
      then show ?thesis using K False thr by (auto simp: lend_result_def lent_def lent_closed_def)
    next
      case low: True
      let ?s = "raise_thread thr pri s"
      have pr: "0 \<le> pri" "pri \<le> 159" using eff_pri_range[OF kinvx_pri[OF K]] less.prems(6) by auto
      from raise_thread_spec[OF K pr, of thr] obtain Q1 where K1: "kinv ?s Q1"
        and Q1: "\<And>d. Q1 (Wait d) = Q (Wait d)" and o1: "obj_same s ?s" and c1: "current_thread ?s = current_thread s"
        and sc1: "\<And>u. sched ?s u = (if u = thr then (sched s thr)\<lparr>sc_inhpri := pri\<rparr> else sched s u)"
        and sl1: "\<And>u. sc_state (sched s u) \<noteq> THREAD_STATE_READY \<Longrightarrow> kt_slpchannel (kt ?s u) = kt_slpchannel (kt s u)"
        by auto
      have l1: "lent pri s ?s" using low by (simp add: lent_def sc1)
      have e1: "eff_pri (sched ?s thr) = pri" using eff_pri_raised[OF low] by (simp add: sc1)
      have go: "gl_owner ?s = gl_owner s" by (rule gl_owner_same[OF o1])
      have step: "lend_priority c s = (if sc_state (sched s thr) = THREAD_STATE_SLEEP
          then case kt_slpchannel (kt s thr) of None \<Rightarrow> Some ?s | Some gl' \<Rightarrow> lend_priority gl' ?s else Some ?s)"
      proof -
        have st: "sc_state (sched ?s thr) = sc_state (sched s thr)" by (simp add: sc1)
        show ?thesis unfolding lend_priority_step[of c] if_not_P[OF ty] thr option.case Let_def
            less.prems(6)[symmetric] if_P[OF low] st
          using sl1[of thr] by simp
      qed
      show ?thesis
      proof (cases "sc_state (sched s thr) = THREAD_STATE_SLEEP \<and> kt_slpchannel (kt s thr) \<noteq> None")
        case False
        then have "lend_priority c s = Some ?s" using step by (auto split: option.splits)
        moreover have "lent_closed pri s ?s" using False by (auto simp: lent_closed_def sc1)
        ultimately show ?thesis using K1 Q1 o1 c1 l1 sl1 e1 thr by (auto simp: lend_result_def)
      next
        case True
        then obtain gl' where gl': "kt_slpchannel (kt s thr) = Some gl'" "sc_state (sched s thr) = THREAD_STATE_SLEEP" by auto
        have sub: "{u. eff_pri (sched ?s u) < pri} \<subset> {u. eff_pri (sched s u) < pri}"
          using low e1 by (auto simp: sc1 split: if_splits)
        have S1: "sleep_inv ?s Q1"
          using S unfolding sleep_inv_def Q1 by (auto simp: sc1 sl1 split: if_splits)
        have "current_thread s \<noteq> thr" using low less.prems(6) by auto
        then have p1: "pri = eff_pri (sched ?s (current_thread ?s))" unfolding c1 sc1 by (simp add: less.prems(6)[symmetric])
        have w1: "Q1 (Wait gl') \<noteq> []" if "is_lock gl'" using S gl' that by (auto simp: sleep_inv_def Q1)
        have ty1: "sl_type (slq ?s d) = type_of d" for d using o1 T by (simp add: obj_same_def)
        from less.hyps[OF psubset_card_mono[OF finite sub] K1 S1 _ ty1 w1 p1] V
        obtain s' Q' where A: "lend_priority gl' ?s = Some s'" and R: "lend_result gl' pri ?s Q1 s' Q'"
          unfolding go Q1 by auto
        have l2: "lent pri ?s s'" using R by (simp add: lend_result_def)
        have thr': "sched s' thr = sched ?s thr" using l2 e1 unfolding lent_def by (metis less_irrefl)
        have "lent_closed pri s s'"
        proof (unfold lent_closed_def, intro allI impI)
          fix u d w
          assume u: "sched s' u \<noteq> sched s u" "sc_state (sched s u) = THREAD_STATE_SLEEP"
            "kt_slpchannel (kt s u) = Some d" "gl_owner s d = Some w"
          show "pri \<le> eff_pri (sched s' w)"
          proof (cases "u = thr")
            case True
            then show ?thesis using R u gl' by (simp add: lend_result_def go)
          next
            case False
            then have su: "sched ?s u = sched s u" by (simp add: sc1)
            have "lent_closed pri ?s s'" using R by (simp add: lend_result_def)
            from this[unfolded lent_closed_def go, rule_format, of u d w] show ?thesis
              using u sl1[of u] su by simp
          qed
        qed
        moreover have "sc_state (sched ?s u) = sc_state (sched s u)" for u by (simp add: sc1)
        ultimately have "lend_result c pri s Q s' Q'"
          using R lent_trans[OF l1 l2] thr thr' e1 sl1 Q1 c1 obj_same_trans[OF o1]
          unfolding lend_result_def by auto
        then show ?thesis using A step gl' by auto
      qed
    qed
  qed
qed

section \<open>Blocking and scheduling\<close>

text \<open>One thread runs, and an idle thread is always there to run instead.\<close>

definition others_stopped :: "kern \<Rightarrow> bool" where
  "others_stopped s \<longleftrightarrow> (\<forall>t. sc_state (sched s t) = THREAD_STATE_RUNNING \<longrightarrow> t = current_thread s)"

definition idle_available :: "kern \<Rightarrow> bool" where
  "idle_available s \<longleftrightarrow> (\<exists>t. sc_cid (sched s t) = SCHED_CLASS_IDLE \<and>
     (sc_state (sched s t) = THREAD_STATE_READY \<or>
      t = current_thread s \<and> sc_state (sched s t) = THREAD_STATE_RUNNING))"

definition running :: "kern \<Rightarrow> bool" where
  "running s \<longleftrightarrow> sc_state (sched s (current_thread s)) = THREAD_STATE_RUNNING \<and> others_stopped s \<and> idle_available s"

lemma cid_requeue: "sc_cid (sched (requeue_current s) u) = sc_cid (sched s u)"
  by (simp add: requeue_current_sched)

lemma cid_scheduler:
  assumes "scheduler s = Some s'"
  shows "sc_cid (sched s' u) = sc_cid (sched s u)"
  using assms unfolding scheduler_def Let_def
  by (auto simp: bind_eq_Some_conv context_switch_def upd_sched_def upd_kt_def queue_fields cid_requeue Let_def
      split: option.splits if_splits)

lemma sleep_inv_cong:
  assumes "sleep_inv s Q" "\<And>c. Q' (Wait c) = Q (Wait c)"
    and "\<And>u. sc_state (sched s' u) = THREAD_STATE_SLEEP \<Longrightarrow>
      sc_state (sched s u) = THREAD_STATE_SLEEP \<and> kt_slpchannel (kt s' u) = kt_slpchannel (kt s u)"
  shows "sleep_inv s' Q'"
  using assms unfolding sleep_inv_def by metis

lemma switched_Wait [simp]: "switched s Q n (Wait c) = Q (Wait c)"
  by (simp add: switched_def requeued_def Let_def)

lemma scheduler_runs:
  assumes K: "kinv s Q" and S: "sleep_inv s Q" and R: "others_stopped s" and I: "idle_available s"
  shows "\<exists>s' Q'. scheduler s = Some s' \<and> kinv s' Q' \<and> (\<forall>c. Q' (Wait c) = Q (Wait c)) \<and> sleep_inv s' Q' \<and>
    obj_same s s' \<and> running s'"
proof -
  let ?cur = "current_thread s"
  from I obtain idle where idle: "sc_cid (sched s idle) = SCHED_CLASS_IDLE"
    "sc_state (sched s idle) = THREAD_STATE_READY \<or> idle = ?cur \<and> sc_state (sched s idle) = THREAD_STATE_RUNNING"
    by (auto simp: idle_available_def)
  show ?thesis
  proof (cases "stays s Q")
    case True
    from scheduler_stays[OF K True] obtain s' where s': "scheduler s = Some s'" "kinv s' Q"
      "current_thread s' = ?cur" and st: "\<And>u. sc_state (sched s' u) = sc_state (sched s u)" by auto
    have "sc_state (sched s ?cur) = THREAD_STATE_RUNNING"
    proof (cases "pick_from s Q 0")
      case None
      have "sc_state (sched s idle) \<noteq> THREAD_STATE_READY"
      proof
        assume r: "sc_state (sched s idle) = THREAD_STATE_READY"
        from kinvx_on_queue[OF K r] ready_index_range[OF kinvx_pri[OF K, of idle]] None show False
          by (auto simp: pick_from_None)
      qed
      with idle(2) show ?thesis by auto
    next
      case (Some n)
      with True show ?thesis by (simp add: stays_def)
    qed
    moreover have "sleep_inv s' Q" by (rule sleep_inv_cong[OF S]) (simp_all add: st slp_scheduler[OF s'(1)])
    moreover have "others_stopped s'" using R s'(3) st by (simp add: others_stopped_def)
    moreover have "idle_available s'" unfolding idle_available_def
      using idle s'(3) st cid_scheduler[OF s'(1)] by (intro exI[of _ idle]) simp
    ultimately have "running s'" "sleep_inv s' Q" using s'(3) st by (simp_all add: running_def)
    then show ?thesis using s' obj_same_scheduler[OF s'(1)] by blast
  next
    case False
    then obtain n where n: "pick_from s Q 0 = Some n" by (auto simp: stays_def split: option.splits)
    from scheduler_switches[OF K n False] obtain s' where s': "scheduler s = Some s'" "kinv s' (switched s Q n)"
      "current_thread s' = n" "sc_state (sched s' n) = THREAD_STATE_RUNNING"
      and st: "\<And>u. u \<noteq> n \<Longrightarrow> sc_state (sched s' u) =
        (if u = ?cur \<and> sc_state (sched s u) = THREAD_STATE_RUNNING then THREAD_STATE_READY else sc_state (sched s u))"
      by auto
    have "others_stopped s'"
      unfolding others_stopped_def
    proof (intro allI impI)
      fix t assume t: "sc_state (sched s' t) = THREAD_STATE_RUNNING"
      show "t = current_thread s'"
      proof (rule ccontr)
        assume "t \<noteq> current_thread s'"
        with t st[of t] s'(3) have "sc_state (sched s t) = THREAD_STATE_RUNNING" "t \<noteq> ?cur" by (auto split: if_splits)
        with R show False by (simp add: others_stopped_def)
      qed
    qed
    moreover have "sc_state (sched s' idle) = THREAD_STATE_READY \<or> idle = n"
      using st[of idle] idle(2) by (cases "idle = n") auto
    then have "idle_available s'"
      using s'(3,4) idle(1) cid_scheduler[OF s'(1)] unfolding idle_available_def by metis
    moreover have "sleep_inv s' (switched s Q n)"
    proof (rule sleep_inv_cong[OF S])
      fix u assume u: "sc_state (sched s' u) = THREAD_STATE_SLEEP"
      then have "u \<noteq> n" using s'(4) by auto
      with st[of u] u slp_scheduler[OF s'(1), of u]
      show "sc_state (sched s u) = THREAD_STATE_SLEEP \<and> kt_slpchannel (kt s' u) = kt_slpchannel (kt s u)"
        by (auto split: if_splits)
    qed simp
    ultimately show ?thesis using s' obj_same_scheduler[OF s'(1)]
      by (intro exI[of _ s'] exI[of _ "switched s Q n"]) (simp add: running_def)
  qed
qed

lemma block_current_spec:
  fixes c :: chan
  assumes K: "kinv s Q" and S: "sleep_inv s Q" and r: "sc_state (sched s (current_thread s)) = THREAD_STATE_RUNNING"
  defines "cur \<equiv> current_thread s" and "s' \<equiv> block_current c s"
  defines "Q' \<equiv> Q(Wait c := Q (Wait c) @ [cur])"
  shows "kinv s' Q'" "sleep_inv s' Q'" "obj_same s s'" "current_thread s' = cur"
    "\<And>u. sched s' u = (if u = cur then (sched s u)\<lparr>sc_state := THREAD_STATE_SLEEP\<rparr> else sched s u)"
    "\<And>u. kt_slpchannel (kt s' u) = (if u = cur then Some c else kt_slpchannel (kt s u))"
proof -
  have off: "cur \<notin> set (Q q)" for q using kinvx_off_queue[OF K, of cur] r by (simp add: cur_def)
  note A = kqueues_ADD_SLQ[OF kinvx_queues[OF K] off, where c = c]
  show sc: "sched s' u = (if u = cur then (sched s u)\<lparr>sc_state := THREAD_STATE_SLEEP\<rparr> else sched s u)" for u
    by (simp add: s'_def block_current_def cur_def Let_def upd_sched_def upd_kt_def queue_fields)
  show sl: "kt_slpchannel (kt s' u) = (if u = cur then Some c else kt_slpchannel (kt s u))" for u
    by (simp add: s'_def block_current_def cur_def Let_def upd_sched_def upd_kt_def queue_fields)
  show "obj_same s s'"
    unfolding s'_def block_current_def Let_def
    by (rule obj_same_trans[OF obj_same_trans[OF obj_same_queues[OF ADD_SLQ_same] obj_same_upd(1)] obj_same_upd(2)])
  show "current_thread s' = cur"
    by (simp add: s'_def block_current_def cur_def Let_def upd_sched_def upd_kt_def queue_fields)
  show "kinv s' Q'"
  proof (rule kinvxI, goal_cases)
    case 1
    show ?case unfolding Q'_def
      by (rule kqueues_cong[OF A]) (auto simp: s'_def block_current_def cur_def Let_def upd_sched_def upd_kt_def)
  next
    case (2 i u)
    then have "u \<in> set (Q (Ready i))" by (simp add: Q'_def)
    then show ?case using kinvx_ready[OF K, of u i] off[of "Ready i"] sc by auto
  next
    case (3 d u)
    then show ?case using kinvx_wait[OF K, of u d] sc sl off[of "Wait d"] by (auto simp: Q'_def split: if_splits)
  next
    case (4 u)
    then show ?case using kinvx_on_queue[OF K, of u] sc by (auto simp: Q'_def split: if_splits)
  next
    case (5 u)
    show ?case using kinvx_pri[OF K, of u] unfolding sc by auto
  qed
  show "sleep_inv s' Q'"
    using S unfolding sleep_inv_def sc sl Q'_def by (auto split: if_splits)
qed

section \<open>Every operation keeps the kernel invariant\<close>

definition ginv :: "kern \<Rightarrow> (qid \<Rightarrow> tid list) \<Rightarrow> (tid \<Rightarrow> chan list) \<Rightarrow> bool" where
  "ginv s Q Ow \<longleftrightarrow> kinv s Q \<and> sleep_inv s Q \<and> value_inv s Q \<and> owner_inv s Ow"

lemma running_cong:
  assumes "running s" "current_thread s' = current_thread s"
    and "\<And>u. sc_cid (sched s' u) = sc_cid (sched s u)"
    and "sc_state (sched s' (current_thread s)) = THREAD_STATE_RUNNING"
    and "\<And>u. u \<noteq> current_thread s \<Longrightarrow> sc_state (sched s' u) = sc_state (sched s u) \<or>
           sc_state (sched s' u) = THREAD_STATE_READY"
  shows "running s'"
proof -
  have "others_stopped s'" using assms unfolding running_def others_stopped_def by (metis thread_state.distinct)
  moreover from assms(1) obtain t where "sc_cid (sched s t) = SCHED_CLASS_IDLE"
    "sc_state (sched s t) = THREAD_STATE_READY \<or> t = current_thread s" by (auto simp: running_def idle_available_def)
  then have "idle_available s'" unfolding idle_available_def using assms(2-5) by metis
  ultimately show ?thesis using assms(2,4) by (simp add: running_def)
qed

text \<open>The part of going to sleep on a lock that follows the test of the lock value.\<close>

lemma sleep_on_lock:
  assumes G: "ginv s Q Ow" and R: "running s" and ni: "sc_cid (sched s (current_thread s)) \<noteq> SCHED_CLASS_IDLE"
    and c: "is_lock c" "gl_owner s c \<noteq> None"
  shows "\<exists>s2 s' Q'. lend_priority c (block_current c s) = Some s2 \<and> scheduler s2 = Some s' \<and> ginv s' Q' Ow \<and>
    running s' \<and> (\<forall>d. Q' (Wait d) = (if d = c then Q (Wait c) @ [current_thread s] else Q (Wait d))) \<and>
    obj_same s s'"
proof -
  let ?cur = "current_thread s" and ?s1 = "block_current c s"
  let ?Q1 = "Q(Wait c := Q (Wait c) @ [?cur])"
  have K: "kinv s Q" and S: "sleep_inv s Q" and V: "value_inv s Q" and W: "owner_inv s Ow"
    using G by (simp_all add: ginv_def)
  have r: "sc_state (sched s ?cur) = THREAD_STATE_RUNNING" using R by (simp add: running_def)
  note B = block_current_spec[OF K S r, where c = c]
  have go: "gl_owner ?s1 = gl_owner s" by (rule gl_owner_same[OF B(3)])
  have V1: "gl_owner ?s1 d \<noteq> None" if "is_lock d" "?Q1 (Wait d) \<noteq> []" for d
    using that V c unfolding go value_inv_def by (cases "d = c") auto
  have T1: "sl_type (slq ?s1 d) = type_of d" for d using B(3) W by (simp add: obj_same_def owner_inv_def)
  from lend_priority_spec[OF B(1,2) V1 T1 _ refl, of c] obtain s2 Q2 where
    L: "lend_priority c ?s1 = Some s2" and LR: "lend_result c (eff_pri (sched ?s1 (current_thread ?s1))) ?s1 ?Q1 s2 Q2"
    by auto
  from LR have K2: "kinv s2 Q2" and Q2: "\<And>d. Q2 (Wait d) = ?Q1 (Wait d)" and o2: "obj_same ?s1 s2"
    and c2: "current_thread s2 = ?cur" using B(4) by (simp_all add: lend_result_def)
  have st2: "sc_state (sched s2 u) = sc_state (sched ?s1 u) \<and> sc_cid (sched s2 u) = sc_cid (sched ?s1 u)" for u
  proof -
    have "lent (eff_pri (sched ?s1 (current_thread ?s1))) ?s1 s2" using LR by (simp add: lend_result_def)
    then have "sched s2 u = sched ?s1 u \<or> (\<exists>p. sched s2 u = (sched ?s1 u)\<lparr>sc_inhpri := p\<rparr>)"
      unfolding lent_def by blast
    then show ?thesis by auto
  qed
  have S2: "sleep_inv s2 Q2"
    by (rule sleep_inv_cong[OF B(2)]) (use Q2 st2 LR in \<open>auto simp: lend_result_def\<close>)
  have st1: "sc_state (sched s2 u) = (if u = ?cur then THREAD_STATE_SLEEP else sc_state (sched s u))"
    "sc_cid (sched s2 u) = sc_cid (sched s u)" for u
    using st2[of u] B(5)[of u] by auto
  have "others_stopped s2" using R by (auto simp: others_stopped_def running_def st1 c2)
  moreover have "idle_available s2"
    using R ni unfolding running_def idle_available_def st1 c2 by metis
  ultimately obtain s' Q' where s': "scheduler s2 = Some s'" "kinv s' Q'" "sleep_inv s' Q'" "running s'"
    and Q': "\<And>d. Q' (Wait d) = Q2 (Wait d)" and o': "obj_same s2 s'"
    using scheduler_runs[OF K2 S2] by auto
  have o: "obj_same s s'" by (rule obj_same_trans[OF obj_same_trans[OF B(3) o2] o'])
  have "value_inv s ?Q1"
    using V c by (cases c) (auto simp: value_inv_def is_lock_def)
  then have "value_inv s' Q'" by (rule value_inv_same[OF o]) (simp add: Q' Q2)
  moreover have "owner_inv s' Ow" by (rule owner_inv_same[OF o W])
  ultimately show ?thesis using L s' Q' Q2 o by (intro exI[of _ s2] exI[of _ s'] exI[of _ Q']) (auto simp: ginv_def)
qed

text \<open>Owned-object lists: the macros touch only one thread record and the object links.\<close>

lemma ADD_SYNCHOBJ_only: "only_thread t s (ADD_SYNCHOBJ c t s)"
  by (auto simp: only_thread_def ADD_SYNCHOBJ_def field_defs split: option.split)

lemma DEL_SYNCHOBJ_only: "only_thread t s (DEL_SYNCHOBJ c t s)"
  by (auto simp: only_thread_def DEL_SYNCHOBJ_def field_defs split: option.split)

lemma SYNCHOBJ_fields:
  "lockt (ADD_SYNCHOBJ c t s) = lockt s" "rlockt (ADD_SYNCHOBJ c t s) = rlockt s"
  "eventt (ADD_SYNCHOBJ c t s) = eventt s" "current_thread (ADD_SYNCHOBJ c t s) = current_thread s"
  "sched (ADD_SYNCHOBJ c t s) u = sched s u" "kt_slpchannel (kt (ADD_SYNCHOBJ c t s) u) = kt_slpchannel (kt s u)"
  "sl_type (slq (ADD_SYNCHOBJ c t s) d) = sl_type (slq s d)"
  "lockt (DEL_SYNCHOBJ c t s) = lockt s" "rlockt (DEL_SYNCHOBJ c t s) = rlockt s"
  "eventt (DEL_SYNCHOBJ c t s) = eventt s" "current_thread (DEL_SYNCHOBJ c t s) = current_thread s"
  "sched (DEL_SYNCHOBJ c t s) u = sched s u" "kt_slpchannel (kt (DEL_SYNCHOBJ c t s) u) = kt_slpchannel (kt s u)"
  "sl_type (slq (DEL_SYNCHOBJ c t s) d) = sl_type (slq s d)"
  "timers (DEL_SYNCHOBJ c t s) = timers s" "tobj (DEL_SYNCHOBJ c t s) = tobj s"
  "tmo_failed (DEL_SYNCHOBJ c t s) = tmo_failed s"
  by (simp_all add: ADD_SYNCHOBJ_def DEL_SYNCHOBJ_def field_defs split: option.split)

text \<open>\<open>set_owner c w s\<close>: what assigning the owner and value fields of a lock amounts to.\<close>

definition owner_set :: "chan \<Rightarrow> tid option \<Rightarrow> kern \<Rightarrow> kern \<Rightarrow> bool" where
  "owner_set c w s s' \<longleftrightarrow> kt s' = kt s \<and> slq s' = slq s \<and> ready_qhead s' = ready_qhead s \<and>
     ready_qtail s' = ready_qtail s \<and> eventt s' = eventt s \<and> current_thread s' = current_thread s \<and>
     (\<forall>d. gl_owner s' d = (if d = c then w else gl_owner s d)) \<and>
     (\<forall>l. l_val (lockt s' l) = (if c = Lock_obj l then (if w = None then 0 else 1) else l_val (lockt s l))) \<and>
     (\<forall>l. rl_val (rlockt s' l) = (if c = Rlock_obj l then (if w = None then 0 else 1) else rl_val (rlockt s l)))"

lemma gl_owner_simps [simp]:
  "gl_owner s (Lock_obj l) = l_owner_thread (lockt s l)"
  "gl_owner s (Rlock_obj l) = rl_owner_thread (rlockt s l)"
  "gl_owner s (Event_obj e) = None" "gl_owner s (Sem_obj m) = None"
  by (simp_all add: gl_owner_def)

lemma is_lock_simps [simp]: "is_lock (Lock_obj l)" "is_lock (Rlock_obj l)" "\<not> is_lock (Event_obj e)" "\<not> is_lock (Sem_obj m)"
  by (simp_all add: is_lock_def)

lemma value_inv_fields:
  "lockt s' = lockt s \<Longrightarrow> rlockt s' = rlockt s \<Longrightarrow> eventt s' = eventt s \<Longrightarrow> value_inv s' Q = value_inv s Q"
  by (simp add: value_inv_def gl_owner_def cong: chan.case_cong)

lemma value_inv_owner_set:
  assumes V: "value_inv s Q" and o: "owner_set c w s s1" and w: "w = None \<Longrightarrow> Q (Wait c) = []"
  shows "value_inv s1 Q"
proof -
  have g: "gl_owner s1 d = (if d = c then w else gl_owner s d)" for d using o by (simp add: owner_set_def)
  have v: "l_val (lockt s l) = (if gl_owner s (Lock_obj l) = None then 0 else 1)"
    "rl_val (rlockt s l) = (if gl_owner s (Rlock_obj l) = None then 0 else 1)" for l
    using V by (simp_all add: value_inv_def)
  have v1: "l_val (lockt s1 l) = (if gl_owner s1 (Lock_obj l) = None then 0 else 1)" for l
    using o v(1)[of l] unfolding g owner_set_def by auto
  have v2: "rl_val (rlockt s1 l) = (if gl_owner s1 (Rlock_obj l) = None then 0 else 1)" for l
    using o v(2)[of l] unfolding g owner_set_def by auto
  have "Q (Wait d) = []" if "is_lock d" "gl_owner s1 d = None" for d
    using that V w unfolding g value_inv_def by (auto split: if_splits)
  moreover have "e_val (eventt s1 e) = of_nat (length (Q (Wait (Event_obj e))))" for e
    using V o by (simp add: value_inv_def owner_set_def)
  ultimately show ?thesis using v1 v2 unfolding value_inv_def gl_owner_simps by blast
qed

lemma owned_cong:
  assumes "\<And>c. sl_next (slq s' c) = sl_next (slq s c)" "\<And>c. sl_prev (slq s' c) = sl_prev (slq s c)"
    and "\<And>t. kt_synchobjlist (kt s' t) = kt_synchobjlist (kt s t)"
  shows "owned s' Ow = owned s Ow"
proof -
  have "snext s' = snext s" "sprev s' = sprev s" "shead s' = shead s"
    using assms by (auto simp: snext_def sprev_def shead_def fun_eq_iff)
  then show ?thesis by (simp add: owned_def)
qed

lemma owner_set_owned: "owner_set c w s s1 \<Longrightarrow> owned s1 Ow = owned s Ow"
  by (rule owned_cong) (simp_all add: owner_set_def)

lemma acquire_inv:
  assumes G: "ginv s Q Ow" and R: "running s" and c: "is_lock c" "gl_owner s c = None"
    and o: "owner_set c (Some (current_thread s)) s s1"
  defines "cur \<equiv> current_thread s"
  defines "s' \<equiv> upd_kt cur (\<lambda>k. k\<lparr>kt_slpchannel := None\<rparr>) (ADD_SYNCHOBJ c cur s1)"
  shows "ginv s' Q (Ow(cur := c # Ow cur))" "running s'"
proof -
  have K: "kinv s Q" and S: "sleep_inv s Q" and V: "value_inv s Q" and W: "owner_inv s Ow"
    using G by (simp_all add: ginv_def)
  have r: "sc_state (sched s cur) = THREAD_STATE_RUNNING" using R by (simp add: running_def cur_def)
  have off: "cur \<notin> set (Q q)" for q using kinvx_off_queue[OF K, of cur] r by simp
  have sc: "sched s' u = sched s u" for u using o by (simp add: s'_def upd_kt_def SYNCHOBJ_fields owner_set_def)
  have sl: "kt_slpchannel (kt s' u) = (if u = cur then None else kt_slpchannel (kt s u))" for u
    using o by (simp add: s'_def upd_kt_def SYNCHOBJ_fields owner_set_def)
  have K1: "kinv s1 Q" using K kinvx_cong[of s1 s] o by (simp add: owner_set_def)
  have "kinv s' Q" unfolding s'_def
    by (rule kinvx_only_thread[OF K1 off only_thread_trans[OF ADD_SYNCHOBJ_only only_thread_upd(1)]])
      (use kinvx_pri[OF K, of cur] r sc[of cur] in \<open>auto simp: s'_def\<close>)
  moreover have "sleep_inv s' Q" by (rule sleep_inv_cong[OF S]) (use sc sl r in \<open>auto split: if_splits\<close>)
  moreover have go: "gl_owner s' d = (if d = c then Some cur else gl_owner s d)" for d
    using o by (cases d) (auto simp: s'_def upd_kt_def SYNCHOBJ_fields owner_set_def cur_def split: if_splits)
  have "value_inv s1 Q" by (rule value_inv_owner_set[OF V o]) simp
  then have "value_inv s' Q" by (subst value_inv_fields[of s' s1]) (simp_all add: s'_def upd_kt_def SYNCHOBJ_fields)
  moreover have "owner_inv s' (Ow(cur := c # Ow cur))"
  proof -
    have free: "c \<notin> set (Ow u)" for u using W c by (simp add: owner_inv_def)
    have "owned s1 Ow" using W owner_set_owned[OF o] by (simp add: owner_inv_def)
    from owned_ADD_SYNCHOBJ[OF this free] have "owned (ADD_SYNCHOBJ c cur s1) (Ow(cur := c # Ow cur))" .
    then have "owned s' (Ow(cur := c # Ow cur))"
      by (subst owned_cong[of s' "ADD_SYNCHOBJ c cur s1"]) (simp_all add: s'_def upd_kt_def)
    moreover have "sl_type (slq s' d) = type_of d" for d
      using W o by (simp add: s'_def upd_kt_def SYNCHOBJ_fields owner_set_def owner_inv_def)
    ultimately show ?thesis using W c free unfolding owner_inv_def go by auto
  qed
  ultimately show "ginv s' Q (Ow(cur := c # Ow cur))" by (simp add: ginv_def)
  show "running s'" by (rule running_cong[OF R]) (use sc r o in \<open>auto simp: cur_def s'_def upd_kt_def SYNCHOBJ_fields owner_set_def\<close>)
qed

lemma kinvx_fields:
  assumes "\<And>u. sched s' u = sched s u \<and> kt_slpchannel (kt s' u) = kt_slpchannel (kt s u) \<and>
      kt_qnext (kt s' u) = kt_qnext (kt s u) \<and> kt_qprev (kt s' u) = kt_qprev (kt s u)"
    and "\<And>c. sl_head (slq s' c) = sl_head (slq s c) \<and> sl_tail (slq s' c) = sl_tail (slq s c)"
    and "ready_qhead s' = ready_qhead s" "ready_qtail s' = ready_qtail s" and K: "kinvx X s Q"
  shows "kinvx X s' Q"
proof (rule kinvxI, goal_cases)
  case 1
  show ?case by (rule kqueues_cong[OF kinvx_queues[OF K]]) (use assms in auto)
next
  case (2 i u)
  then show ?case using kinvx_ready[OF K, of u i] assms(1)[of u] by simp
next
  case (3 c u)
  then show ?case using kinvx_wait[OF K, of u c] assms(1)[of u] by simp
next
  case (4 u)
  then show ?case using kinvx_on_queue[OF K, of u] assms(1)[of u] by simp
next
  case (5 u)
  show ?case using kinvx_pri[OF K, of u] assms(1)[of u] by simp
qed

lemma kinvx_DEL_SYNCHOBJ: "kinvx X s Q \<Longrightarrow> kinvx X (DEL_SYNCHOBJ c t s) Q"
  by (rule kinvx_fields[of _ s]) (auto simp: DEL_SYNCHOBJ_def field_defs split: option.split)

text \<open>What giving up a lock does, for both kinds of lock.\<close>

definition released :: "chan \<Rightarrow> kern \<Rightarrow> (qid \<Rightarrow> tid list) \<Rightarrow> kern \<Rightarrow> (qid \<Rightarrow> tid list) \<Rightarrow> bool" where
  "released c s Q s' Q' \<longleftrightarrow> current_thread s' = current_thread s \<and>
     (\<forall>d. Q' (Wait d) = (if d = c then [] else Q (Wait d))) \<and>
     (\<forall>u. sched s' u = (if u \<in> set (Q (Wait c)) then (sched s u)\<lparr>sc_state := THREAD_STATE_READY\<rparr> else sched s u)) \<and>
     (\<forall>d. gl_owner s' d = (if d = c then None else gl_owner s d))"

lemma release_inv:
  assumes G: "ginv s Q Ow" and c: "gl_owner s c = Some (current_thread s)"
  defines "cur \<equiv> current_thread s"
  shows "\<exists>s1. wake_all c 0 s = Some (int (length (Q (Wait c))), s1) \<and> obj_same s s1 \<and> current_thread s1 = cur \<and>
    (\<forall>s2. owner_set c None (DEL_SYNCHOBJ c cur s1) s2 \<longrightarrow>
      (\<exists>Q2. ginv s2 Q2 (Ow(cur := remove1 c (Ow cur))) \<and> released c s Q s2 Q2))"
proof -
  have K: "kinv s Q" and S: "sleep_inv s Q" and V: "value_inv s Q" and W: "owner_inv s Ow"
    using G by (simp_all add: ginv_def)
  from wake_all_spec[OF K, of c 0] obtain s1 Q1 where A: "wake_all c 0 s = Some (int (length (Q (Wait c))), s1)"
    and K1: "kinv s1 Q1" and wk: "woken c s Q s1 Q1" by auto
  from wk have o1: "obj_same s s1" and cu: "current_thread s1 = cur"
    and Q1: "\<And>d. Q1 (Wait d) = (if d = c then [] else Q (Wait d))"
    and sc1: "\<And>u. sched s1 u = (if u \<in> set (Q (Wait c)) then (sched s u)\<lparr>sc_state := THREAD_STATE_READY\<rparr> else sched s u)"
    and sl1: "\<And>u. kt_slpchannel (kt s1 u) = (if u \<in> set (Q (Wait c)) then None else kt_slpchannel (kt s u))"
    by (auto simp: woken_def cur_def)
  have S1: "sleep_inv s1 Q1"
    using S unfolding sleep_inv_def Q1 sc1 sl1 by (auto split: if_splits)
  have il: "is_lock c" using gl_owner_is_lock[OF c] .
  have V1: "value_inv s1 Q1"
    using V o1 gl_owner_same[OF o1] il unfolding value_inv_def obj_same_def Q1 by auto
  have W1: "owner_inv s1 Ow" by (rule owner_inv_same[OF o1 W])
  have cin: "c \<in> set (Ow cur)" using W c by (simp add: owner_inv_def cur_def)
  have "\<exists>Q2. ginv s2 Q2 (Ow(cur := remove1 c (Ow cur))) \<and> released c s Q s2 Q2"
    if o2: "owner_set c None (DEL_SYNCHOBJ c cur s1) s2" for s2
  proof (intro exI[of _ Q1] conjI)
    let ?d = "DEL_SYNCHOBJ c cur s1"
    have "kinv s2 Q1" using kinvx_cong[of s2 ?d] kinvx_DEL_SYNCHOBJ[OF K1, of c cur] o2 by (simp add: owner_set_def)
    moreover have sc2: "sched s2 u = sched s1 u" "kt_slpchannel (kt s2 u) = kt_slpchannel (kt s1 u)" for u
      using o2 by (simp_all add: owner_set_def SYNCHOBJ_fields)
    then have "sleep_inv s2 Q1" by (intro sleep_inv_cong[OF S1]) auto
    moreover have "value_inv ?d Q1" using V1 by (subst value_inv_fields[of _ s1]) (simp_all add: SYNCHOBJ_fields)
    then have "value_inv s2 Q1" by (rule value_inv_owner_set[OF _ o2]) (simp add: Q1)
    moreover have go: "gl_owner s2 d = (if d = c then None else gl_owner s d)" for d
    proof -
      have "gl_owner s2 d = (if d = c then None else gl_owner ?d d)" using o2 by (simp add: owner_set_def)
      moreover have "gl_owner ?d d = gl_owner s1 d" by (simp add: gl_owner_def SYNCHOBJ_fields split: chan.split)
      ultimately show ?thesis using gl_owner_same[OF o1] by simp
    qed
    have "owner_inv s2 (Ow(cur := remove1 c (Ow cur)))"
    proof -
      have "owned ?d (Ow(cur := remove1 c (Ow cur)))"
        using owned_DEL_SYNCHOBJ[of s1 Ow c cur] W1 cin by (simp add: owner_inv_def)
      then have "owned s2 (Ow(cur := remove1 c (Ow cur)))" using owner_set_owned[OF o2] by simp
      moreover have "sl_type (slq s2 d) = type_of d" for d
        using o2 W1 by (simp add: owner_set_def SYNCHOBJ_fields owner_inv_def)
      moreover have "distinct (Ow cur)"
        using W dl_queuesD[of "snext s" "sprev s" "shead s" "last_of Ow" Ow cur] by (auto simp: owner_inv_def owned_def dll_def)
      then have "d \<in> set ((Ow(cur := remove1 c (Ow cur))) u) \<longleftrightarrow> gl_owner s2 d = Some u" for d u
        using W c unfolding go owner_inv_def by (auto simp: cur_def)
      ultimately show ?thesis by (simp add: owner_inv_def)
    qed
    ultimately show "ginv s2 Q1 (Ow(cur := remove1 c (Ow cur)))" by (simp add: ginv_def)
    show "released c s Q s2 Q1"
      using o2 cu sc2 sc1 Q1 go by (auto simp: released_def owner_set_def SYNCHOBJ_fields cur_def)
  qed
  with A o1 cu show ?thesis by blast
qed

lemma release_lock_spec:
  assumes G: "ginv s Q Ow" and c: "l_owner_thread (lockt s l) = Some (current_thread s)"
  shows "\<exists>s' Q'. release_lock l s = Some (int (length (Q (Wait (Lock_obj l)))), s') \<and>
    ginv s' Q' (Ow(current_thread s := remove1 (Lock_obj l) (Ow (current_thread s)))) \<and> released (Lock_obj l) s Q s' Q' \<and>
    timers s' = timers s \<and> tobj s' = tobj s \<and> tmo_failed s' = tmo_failed s"
proof -
  let ?cur = "current_thread s"
  from release_inv[OF G, of "Lock_obj l"] c obtain s1 where
    A: "wake_all (Lock_obj l) 0 s = Some (int (length (Q (Wait (Lock_obj l)))), s1)" "obj_same s s1" "current_thread s1 = ?cur"
    and B: "\<And>s2. owner_set (Lock_obj l) None (DEL_SYNCHOBJ (Lock_obj l) ?cur s1) s2 \<Longrightarrow>
      \<exists>Q2. ginv s2 Q2 (Ow(?cur := remove1 (Lock_obj l) (Ow ?cur))) \<and> released (Lock_obj l) s Q s2 Q2" by auto
  let ?s2 = "upd_lockt l (\<lambda>k. k\<lparr>l_owner_thread := None, l_val := 0\<rparr>) (DEL_SYNCHOBJ (Lock_obj l) ?cur s1)"
  have "owner_set (Lock_obj l) None (DEL_SYNCHOBJ (Lock_obj l) ?cur s1) ?s2"
    by (auto simp: owner_set_def upd_lockt_def gl_owner_def split: chan.split)
  from B[OF this] obtain Q2 where "ginv ?s2 Q2 (Ow(?cur := remove1 (Lock_obj l) (Ow ?cur)))" "released (Lock_obj l) s Q ?s2 Q2" by auto
  moreover have "release_lock l s = Some (int (length (Q (Wait (Lock_obj l)))), ?s2)"
    using A by (simp add: release_lock_def)
  moreover have "timers ?s2 = timers s" "tobj ?s2 = tobj s" "tmo_failed ?s2 = tmo_failed s"
    using A(2) by (simp_all add: upd_lockt_def SYNCHOBJ_fields obj_same_def)
  ultimately show ?thesis by blast
qed

lemma drop_inherited_inv:
  assumes G: "ginv s Q Ow" and nr: "sc_state (sched s (current_thread s)) \<noteq> THREAD_STATE_READY"
  shows "ginv (drop_inherited s) Q Ow" "obj_same s (drop_inherited s)" "current_thread (drop_inherited s) = current_thread s"
    "\<And>u. sc_state (sched (drop_inherited s) u) = sc_state (sched s u)"
    "\<And>u. sc_cid (sched (drop_inherited s) u) = sc_cid (sched s u)"
proof -
  have K: "kinv s Q" and S: "sleep_inv s Q" and V: "value_inv s Q" and W: "owner_inv s Ow"
    using G by (simp_all add: ginv_def)
  show o: "obj_same s (drop_inherited s)" by (simp add: drop_inherited_def)
  show "current_thread (drop_inherited s) = current_thread s" by (simp add: drop_inherited_def upd_sched_def upd_kt_def)
  show st: "sc_state (sched (drop_inherited s) u) = sc_state (sched s u)"
    "sc_cid (sched (drop_inherited s) u) = sc_cid (sched s u)" for u
    by (simp_all add: drop_inherited_def upd_sched_def upd_kt_def)
  have "kinv (upd_sched (current_thread s) (\<lambda>si. si\<lparr>sc_inhpri := 0\<rparr>) s) Q"
    by (rule kinvx_upd_not_ready[OF K nr]) (use kinvx_pri[OF K, of "current_thread s"] in \<open>auto simp: pri_ok_def\<close>)
  then have "kinv (drop_inherited s) Q" using K by (simp add: drop_inherited_def)
  moreover have "sleep_inv (drop_inherited s) Q"
    by (rule sleep_inv_cong[OF S]) (use st(1) in \<open>simp_all add: drop_inherited_def upd_sched_def upd_kt_def\<close>)
  moreover have "value_inv (drop_inherited s) Q" by (rule value_inv_same[OF o V refl])
  ultimately show "ginv (drop_inherited s) Q Ow" using owner_inv_same[OF o W] by (simp add: ginv_def)
qed

lemma test_and_set_01: "test_and_set 0 = (False, 1)" "test_and_set 1 = (True, 1)"
  by (simp_all add: test_and_set_def)

definition sys_inv :: "kern \<Rightarrow> bool" where
  "sys_inv s \<longleftrightarrow> (\<exists>Q Ow. ginv s Q Ow) \<and> running s"

abbreviation idle_thread :: "kern \<Rightarrow> tid \<Rightarrow> bool" where
  "idle_thread s t \<equiv> sc_cid (sched s t) = SCHED_CLASS_IDLE"

lemma lock_value:
  assumes "ginv s Q Ow"
  shows "l_owner_thread (lockt s l) = None \<Longrightarrow> l_val (lockt s l) = 0"
    "l_owner_thread (lockt s l) \<noteq> None \<Longrightarrow> l_val (lockt s l) = 1"
    "rl_owner_thread (rlockt s r) = None \<Longrightarrow> rl_val (rlockt s r) = 0"
    "rl_owner_thread (rlockt s r) \<noteq> None \<Longrightarrow> rl_val (rlockt s r) = 1"
  using assms by (simp_all add: ginv_def value_inv_def)

lemma take_lock_inv:
  assumes G: "ginv s Q Ow" and R: "running s" and free: "l_owner_thread (lockt s l) = None"
  defines "s' \<equiv> take_lock l (upd_lockt l (\<lambda>k. k\<lparr>l_val := 1\<rparr>) s)"
  shows "ginv s' Q (Ow(current_thread s := Lock_obj l # Ow (current_thread s)))" "running s'"
    "current_thread s' = current_thread s" "l_owner_thread (lockt s' l) = Some (current_thread s)"
proof -
  let ?cur = "current_thread s"
  let ?s1 = "upd_lockt l (\<lambda>k. k\<lparr>l_owner_thread := Some ?cur\<rparr>) (upd_lockt l (\<lambda>k. k\<lparr>l_val := 1\<rparr>) s)"
  have o: "owner_set (Lock_obj l) (Some ?cur) s ?s1"
    by (auto simp: owner_set_def upd_lockt_def gl_owner_def split: chan.split)
  have s': "s' = upd_kt ?cur (\<lambda>k. k\<lparr>kt_slpchannel := None\<rparr>) (ADD_SYNCHOBJ (Lock_obj l) ?cur ?s1)"
    by (simp add: s'_def take_lock_def Let_def) (simp add: upd_lockt_def)
  have fr: "gl_owner s (Lock_obj l) = None" using free by simp
  show "ginv s' Q (Ow(?cur := Lock_obj l # Ow ?cur))" "running s'"
    unfolding s' by (rule acquire_inv[OF G R is_lock_simps(1) fr o])+
  show "current_thread s' = ?cur" "l_owner_thread (lockt s' l) = Some ?cur"
    unfolding s' by (simp_all add: upd_kt_def SYNCHOBJ_fields) (simp_all add: upd_lockt_def)
qed

lemma lock_attempt_free:
  assumes G: "ginv s Q Ow" and R: "running s" and free: "l_owner_thread (lockt s l) = None"
  shows "\<exists>s'. lock_attempt l s = Some (True, s') \<and> ginv s' Q (Ow(current_thread s := Lock_obj l # Ow (current_thread s))) \<and>
    running s' \<and> current_thread s' = current_thread s \<and> l_owner_thread (lockt s' l) = Some (current_thread s)"
  using take_lock_inv[OF assms] lock_value(1)[OF G free]
  by (simp add: lock_attempt_def test_and_set_01)

lemma same_lock_value:
  "l_val (lockt s l) = v \<Longrightarrow> upd_lockt l (\<lambda>k. k\<lparr>l_val := v\<rparr>) s = s"
  "rl_val (rlockt s l) = v \<Longrightarrow> upd_rlockt l (\<lambda>k. k\<lparr>rl_val := v\<rparr>) s = s"
  by (auto simp: upd_lockt_def upd_rlockt_def)

lemma lock_attempt_held:
  assumes G: "ginv s Q Ow" and R: "running s" and ni: "\<not> idle_thread s (current_thread s)"
    and held: "l_owner_thread (lockt s l) \<noteq> None"
  shows "\<exists>s' Q'. lock_attempt l s = Some (False, s') \<and> ginv s' Q' Ow \<and> running s' \<and> obj_same s s' \<and>
    (\<forall>d. Q' (Wait d) = (if d = Lock_obj l then Q (Wait d) @ [current_thread s] else Q (Wait d)))"
proof -
  from held have h: "gl_owner s (Lock_obj l) \<noteq> None" by simp
  from sleep_on_lock[OF G R ni is_lock_simps(1) h] obtain s2 s' Q' where
    A: "lend_priority (Lock_obj l) (block_current (Lock_obj l) s) = Some s2" "scheduler s2 = Some s'"
    "ginv s' Q' Ow" "running s'" "obj_same s s'"
    "\<forall>d. Q' (Wait d) = (if d = Lock_obj l then Q (Wait (Lock_obj l)) @ [current_thread s] else Q (Wait d))"
    by blast
  have "lock_attempt l s = Some (False, s')"
    using A(1,2) lock_value(2)[OF G held] by (simp add: lock_attempt_def test_and_set_01 same_lock_value)
  with A show ?thesis by (intro exI[of _ s'] exI[of _ Q']) auto
qed

lemma trylock_spec:
  assumes G: "ginv s Q Ow" and R: "running s"
  shows "if l_owner_thread (lockt s l) = None
    then fst (trylock l s) = ELOCK_SUCCESS \<and> ginv (snd (trylock l s)) Q (Ow(current_thread s := Lock_obj l # Ow (current_thread s))) \<and>
      running (snd (trylock l s)) \<and> l_owner_thread (lockt (snd (trylock l s)) l) = Some (current_thread s)
    else trylock l s = (ELOCK_FAILURE, s)"
proof (cases "l_owner_thread (lockt s l) = None")
  case True
  then show ?thesis using take_lock_inv[OF G R True] lock_value(1)[OF G True] by (simp add: trylock_def test_and_set_01)
next
  case False
  then show ?thesis using lock_value(2)[OF G False] by (simp add: trylock_def test_and_set_01 same_lock_value)
qed

lemma running_released:
  assumes R: "running s" and rel: "released c s Q s' Q'" and K: "kinv s Q"
  shows "running s'"
proof (rule running_cong[OF R])
  have "sc_state (sched s (current_thread s)) = THREAD_STATE_RUNNING" using R by (simp add: running_def)
  then have "current_thread s \<notin> set (Q (Wait c))" using kinvx_off_queue[OF K] by simp
  with rel R show "sc_state (sched s' (current_thread s)) = THREAD_STATE_RUNNING" by (simp add: released_def running_def)
qed (use rel in \<open>auto simp: released_def\<close>)

lemma unlock_owner_spec:
  assumes G: "ginv s Q Ow" and own: "l_owner_thread (lockt s l) = Some (current_thread s)"
    and nr: "sc_state (sched s (current_thread s)) \<noteq> THREAD_STATE_READY"
      "current_thread s \<notin> set (Q (Wait (Lock_obj l)))"
  shows "\<exists>s1 s' Q'. unlock l s = Some (ELOCK_SUCCESS, s') \<and> s' = drop_inherited s1 \<and>
    ginv s' Q' (Ow(current_thread s := remove1 (Lock_obj l) (Ow (current_thread s)))) \<and> released (Lock_obj l) s Q s1 Q' \<and>
    gl_owner s' = gl_owner s1 \<and> current_thread s' = current_thread s"
proof -
  from release_lock_spec[OF G own] obtain n s1 Q' where A: "release_lock l s = Some (n, s1)"
    "ginv s1 Q' (Ow(current_thread s := remove1 (Lock_obj l) (Ow (current_thread s))))" "released (Lock_obj l) s Q s1 Q'" by blast
  have "sc_state (sched s1 (current_thread s1)) \<noteq> THREAD_STATE_READY" using A(3) nr by (simp add: released_def)
  note D = drop_inherited_inv[OF A(2) this]
  have "unlock l s = Some (ELOCK_SUCCESS, drop_inherited s1)" using A(1) own by (simp add: unlock_def)
  moreover have "current_thread s1 = current_thread s" using A(3) by (simp add: released_def)
  ultimately show ?thesis using A(3) D(1,3) gl_owner_same[OF D(2)] by metis
qed

lemma running_drop: "running s \<Longrightarrow> running (drop_inherited s)"
  by (rule running_cong[of s]) (auto simp: drop_inherited_def upd_sched_def upd_kt_def running_def)

lemma unlock_inv:
  assumes G: "ginv s Q Ow" and R: "running s"
  shows "\<exists>r s' Q' Ow'. unlock l s = Some (r, s') \<and> ginv s' Q' Ow' \<and> running s' \<and>
    r = (if l_owner_thread (lockt s l) = Some (current_thread s) then ELOCK_SUCCESS else ELOCK_NOTOWNED)"
proof -
  have K: "kinv s Q" using G by (simp add: ginv_def)
  have r: "sc_state (sched s (current_thread s)) = THREAD_STATE_RUNNING" using R by (simp add: running_def)
  show ?thesis
  proof (cases "l_owner_thread (lockt s l) = Some (current_thread s)")
    case True
    from unlock_owner_spec[OF G True] kinvx_off_queue[OF K, of "current_thread s"] r obtain s1 s' Q' where
      A: "unlock l s = Some (ELOCK_SUCCESS, s')" "s' = drop_inherited s1"
      "ginv s' Q' (Ow(current_thread s := remove1 (Lock_obj l) (Ow (current_thread s))))" "released (Lock_obj l) s Q s1 Q'" by auto
    have "running s'" unfolding A(2) by (rule running_drop[OF running_released[OF R A(4) K]])
    with A True show ?thesis by auto
  next
    case False
    note D = drop_inherited_inv[OF G]
    then show ?thesis using False D(1) r running_drop[OF R] by (auto simp: unlock_def)
  qed
qed

lemma sleep_inv_fields:
  "kt s' = kt s \<Longrightarrow> sleep_inv s' Q = sleep_inv s Q"
  by (simp add: sleep_inv_def)

lemma ginv_same_owner:
  assumes G: "ginv s Q Ow" and c: "is_lock c" and o: "owner_set c (gl_owner s c) s s'"
  shows "ginv s' Q Ow"
proof -
  have K: "kinv s Q" and S: "sleep_inv s Q" and V: "value_inv s Q" and W: "owner_inv s Ow"
    using G by (simp_all add: ginv_def)
  have "kinv s' Q" using K kinvx_cong[of s' s] o by (simp add: owner_set_def)
  moreover have "sleep_inv s' Q" using S o sleep_inv_fields[of s' s] by (simp add: owner_set_def)
  moreover have "value_inv s' Q" by (rule value_inv_owner_set[OF V o]) (use V c in \<open>simp add: value_inv_def\<close>)
  moreover have "owner_inv s' Ow"
  proof -
    have "gl_owner s' = gl_owner s" using o by (auto simp: owner_set_def fun_eq_iff)
    then show ?thesis using W owner_set_owned[OF o] o by (simp add: owner_inv_def owner_set_def)
  qed
  ultimately show ?thesis by (simp add: ginv_def)
qed

lemma owner_set_level:
  assumes "ginv s Q Ow"
  shows "owner_set (Rlock_obj l) (gl_owner s (Rlock_obj l)) s (upd_rlockt l (\<lambda>k. k\<lparr>rl_level := f k\<rparr>) s)"
  using lock_value(3,4)[OF assms, of l]
  by (auto simp: owner_set_def upd_rlockt_def gl_owner_def split: chan.split)

lemma running_fields:
  "kt s' = kt s \<Longrightarrow> current_thread s' = current_thread s \<Longrightarrow> running s' = running s"
  by (simp add: running_def others_stopped_def idle_available_def)

lemma rlock_attempt_inv:
  assumes G: "ginv s Q Ow" and R: "running s" and ni: "\<not> idle_thread s (current_thread s)"
  shows "\<exists>b s' Q' Ow'. rlock_attempt l s = Some (b, s') \<and> ginv s' Q' Ow' \<and> running s' \<and>
    b = (rl_owner_thread (rlockt s l) = None \<or> rl_owner_thread (rlockt s l) = Some (current_thread s)) \<and>
    (b \<longrightarrow> current_thread s' = current_thread s \<and> rl_owner_thread (rlockt s' l) = Some (current_thread s) \<and>
       rl_level (rlockt s' l) = rl_level (rlockt s l) + 1)"
proof -
  let ?cur = "current_thread s"
  consider "rl_owner_thread (rlockt s l) = None" | "rl_owner_thread (rlockt s l) = Some ?cur"
    | "rl_owner_thread (rlockt s l) \<noteq> None" "rl_owner_thread (rlockt s l) \<noteq> Some ?cur" by auto
  then show ?thesis
  proof cases
    case 1
    let ?s1 = "upd_rlockt l (\<lambda>k. k\<lparr>rl_owner_thread := Some ?cur, rl_level := rl_level k + 1\<rparr>)
        (upd_rlockt l (\<lambda>k. k\<lparr>rl_val := 1\<rparr>) s)"
    let ?s' = "upd_kt ?cur (\<lambda>k. k\<lparr>kt_slpchannel := None\<rparr>) (ADD_SYNCHOBJ (Rlock_obj l) ?cur ?s1)"
    have o: "owner_set (Rlock_obj l) (Some ?cur) s ?s1"
      by (auto simp: owner_set_def upd_rlockt_def gl_owner_def split: chan.split)
    have fr: "gl_owner s (Rlock_obj l) = None" using 1 by simp
    note A = acquire_inv[OF G R is_lock_simps(2) fr o]
    have "rlock_attempt l s = Some (True, ?s')"
      using lock_value(3)[OF G 1] by (simp add: rlock_attempt_def test_and_set_01 Let_def) (simp add: upd_rlockt_def)
    moreover have "current_thread ?s' = ?cur \<and> rl_owner_thread (rlockt ?s' l) = Some ?cur \<and>
        rl_level (rlockt ?s' l) = rl_level (rlockt s l) + 1"
      by (simp add: upd_kt_def SYNCHOBJ_fields) (simp add: upd_rlockt_def)
    ultimately show ?thesis using A 1 by blast
  next
    case 2
    let ?s' = "upd_rlockt l (\<lambda>k. k\<lparr>rl_level := rl_level k + 1\<rparr>) s"
    have "ginv ?s' Q Ow" by (rule ginv_same_owner[OF G is_lock_simps(2) owner_set_level[OF G]])
    moreover have "running ?s'" using R running_fields[of ?s' s] by (simp add: upd_rlockt_def)
    moreover have "rlock_attempt l s = Some (True, ?s')"
      using 2 lock_value(4)[OF G, of l] by (simp add: rlock_attempt_def test_and_set_01 same_lock_value Let_def)
    ultimately show ?thesis using 2
      by (intro exI[of _ True] exI[of _ ?s'] exI[of _ Q] exI[of _ Ow]) (simp add: upd_rlockt_def)
  next
    case 3
    then have h: "gl_owner s (Rlock_obj l) \<noteq> None" by simp
    from sleep_on_lock[OF G R ni is_lock_simps(2) h] obtain s2 s' Q' where
      A: "lend_priority (Rlock_obj l) (block_current (Rlock_obj l) s) = Some s2" "scheduler s2 = Some s'"
      "ginv s' Q' Ow" "running s'" by blast
    have "rlock_attempt l s = Some (False, s')"
      using A(1,2) 3 lock_value(4)[OF G 3(1)] by (simp add: rlock_attempt_def test_and_set_01 same_lock_value Let_def)
    with A 3 show ?thesis by (intro exI[of _ False] exI[of _ s'] exI[of _ Q'] exI[of _ Ow]) simp
  qed
qed

lemma runlock_inv:
  assumes G: "ginv s Q Ow" and R: "running s"
  shows "\<exists>r s' Q' Ow'. runlock l s = Some (r, s') \<and> ginv s' Q' Ow' \<and> running s' \<and>
    r = (if rl_owner_thread (rlockt s l) = Some (current_thread s) then ELOCK_SUCCESS else ELOCK_NOTOWNED) \<and>
    (rl_owner_thread (rlockt s l) = Some (current_thread s) \<longrightarrow> rl_level (rlockt s' l) = rl_level (rlockt s l) - 1 \<and>
       rl_owner_thread (rlockt s' l) = (if rl_level (rlockt s l) = 1 then None else Some (current_thread s)))"
proof -
  let ?cur = "current_thread s"
  have r: "sc_state (sched s ?cur) = THREAD_STATE_RUNNING" using R by (simp add: running_def)
  show ?thesis
  proof (cases "rl_owner_thread (rlockt s l) = Some ?cur")
    case False
    have "runlock l s = Some (ELOCK_NOTOWNED, drop_inherited s)" using False by (simp add: runlock_def)
    moreover have "ginv (drop_inherited s) Q Ow" using drop_inherited_inv(1)[OF G] r by simp
    ultimately show ?thesis using running_drop[OF R] False by auto
  next
    case True
    let ?s1 = "upd_rlockt l (\<lambda>k. k\<lparr>rl_level := rl_level k - 1\<rparr>) s"
    have G1: "ginv ?s1 Q Ow" by (rule ginv_same_owner[OF G is_lock_simps(2) owner_set_level[OF G]])
    have R1: "running ?s1" using R running_fields[of ?s1 s] by (simp add: upd_rlockt_def)
    have c1: "current_thread ?s1 = ?cur" "sched ?s1 = sched s" by (simp_all add: upd_rlockt_def)
    show ?thesis
    proof (cases "rl_level (rlockt s l) = 1")
      case one: True
      have own: "gl_owner ?s1 (Rlock_obj l) = Some (current_thread ?s1)" using True by (simp add: upd_rlockt_def)
      from release_inv[OF G1 own] obtain s2 where
        A: "wake_all (Rlock_obj l) 0 ?s1 = Some (int (length (Q (Wait (Rlock_obj l)))), s2)" "obj_same ?s1 s2"
          "current_thread s2 = ?cur"
        and B: "\<And>s3. owner_set (Rlock_obj l) None (DEL_SYNCHOBJ (Rlock_obj l) ?cur s2) s3 \<Longrightarrow>
          \<exists>Q2. ginv s3 Q2 (Ow(?cur := remove1 (Rlock_obj l) (Ow ?cur))) \<and> released (Rlock_obj l) ?s1 Q s3 Q2"
        unfolding c1 by auto
      let ?s3 = "upd_rlockt l (\<lambda>k. k\<lparr>rl_owner_thread := None, rl_val := 0\<rparr>) (DEL_SYNCHOBJ (Rlock_obj l) ?cur s2)"
      have "owner_set (Rlock_obj l) None (DEL_SYNCHOBJ (Rlock_obj l) ?cur s2) ?s3"
        by (auto simp: owner_set_def upd_rlockt_def gl_owner_def split: chan.split)
      from B[OF this] obtain Q2 where C: "ginv ?s3 Q2 (Ow(?cur := remove1 (Rlock_obj l) (Ow ?cur)))"
        "released (Rlock_obj l) ?s1 Q ?s3 Q2" by auto
      have K1: "kinv ?s1 Q" using G1 by (simp add: ginv_def)
      have R3: "running ?s3" by (rule running_released[OF R1 C(2) K1])
      then have "sc_state (sched ?s3 (current_thread ?s3)) \<noteq> THREAD_STATE_READY" by (simp add: running_def)
      note D = drop_inherited_inv[OF C(1) this]
      have "runlock l s = Some (ELOCK_SUCCESS, drop_inherited ?s3)"
        using A True one by (simp add: runlock_def Let_def) (simp add: upd_rlockt_def)
      moreover have "rlockt (drop_inherited ?s3) l = (rlockt s l)\<lparr>rl_level := 0, rl_owner_thread := None, rl_val := 0\<rparr>"
        using D(2) A(2) one by (simp add: obj_same_def SYNCHOBJ_fields) (simp add: upd_rlockt_def SYNCHOBJ_fields)
      ultimately show ?thesis using D(1) running_drop[OF R3] True one
        by (intro exI[of _ ELOCK_SUCCESS] exI[of _ "drop_inherited ?s3"] exI) simp
    next
      case False
      have "rl_level (rlockt s l) - 1 \<noteq> 0" using False by simp
      then have "runlock l s = Some (ELOCK_SUCCESS, drop_inherited ?s1)"
        using True False by (simp add: runlock_def Let_def upd_rlockt_def)
      moreover have "sc_state (sched ?s1 (current_thread ?s1)) \<noteq> THREAD_STATE_READY" using r by (simp add: upd_rlockt_def)
      note D = drop_inherited_inv[OF G1 this]
      have "rlockt (drop_inherited ?s1) l = (rlockt s l)\<lparr>rl_level := rl_level (rlockt s l) - 1\<rparr>"
        using D(2) by (simp add: obj_same_def) (simp add: upd_rlockt_def)
      ultimately show ?thesis using D(1) running_drop[OF R1] True False by auto
    qed
  qed
qed

section \<open>Events\<close>

lemma gl_owner_fields: "lockt s' = lockt s \<Longrightarrow> rlockt s' = rlockt s \<Longrightarrow> gl_owner s' = gl_owner s"
  by (simp add: gl_owner_def fun_eq_iff split: chan.split)

lemma ginv_event:
  assumes K: "kinv s1 Q1" and S: "sleep_inv s1 Q1" and V: "value_inv s Q" and W: "owner_inv s Ow"
    and o: "obj_same s s1" and Q1: "\<And>d. d \<noteq> Event_obj e \<Longrightarrow> Q1 (Wait d) = Q (Wait d)"
    and v: "v = of_nat (length (Q1 (Wait (Event_obj e))))"
  shows "ginv (upd_eventt e (\<lambda>k. k\<lparr>e_val := v\<rparr>) s1) Q1 Ow"
proof -
  let ?s = "upd_eventt e (\<lambda>k. k\<lparr>e_val := v\<rparr>) s1"
  have go: "gl_owner ?s = gl_owner s" using gl_owner_same[OF o] gl_owner_fields[of ?s s1]
    by (simp add: upd_eventt_def)
  have "kinv ?s Q1" using K kinvx_cong[of ?s s1] by (simp add: upd_eventt_def)
  moreover have "sleep_inv ?s Q1" using S sleep_inv_fields[of ?s s1] by (simp add: upd_eventt_def)
  moreover have "value_inv ?s Q1"
    unfolding value_inv_def go
  proof (intro conjI allI impI)
    fix d assume d: "is_lock d" "gl_owner s d = None"
    then have "d \<noteq> Event_obj e" by auto
    with d V Q1 show "Q1 (Wait d) = []" by (simp add: value_inv_def)
  qed (use V o Q1 v in \<open>auto simp: value_inv_def obj_same_def upd_eventt_def\<close>)
  moreover have "owner_inv ?s Ow"
    using owner_inv_same[OF o W] go gl_owner_same[OF o] owned_cong[of ?s s1 Ow]
    by (simp add: owner_inv_def upd_eventt_def)
  ultimately show ?thesis by (simp add: ginv_def)
qed

lemma event_wakeup_spec:
  assumes G: "ginv s Q Ow"
  shows "\<exists>s' Q'. event_wakeup e s = Some (int (length (Q (Wait (Event_obj e)))), s') \<and> ginv s' Q' Ow \<and>
    current_thread s' = current_thread s \<and> timers s' = timers s \<and> tobj s' = tobj s \<and>
    (\<forall>d. Q' (Wait d) = (if d = Event_obj e then [] else Q (Wait d))) \<and>
    (\<forall>u. sched s' u = (if u \<in> set (Q (Wait (Event_obj e))) then (sched s u)\<lparr>sc_state := THREAD_STATE_READY\<rparr> else sched s u))"
proof -
  have K: "kinv s Q" and S: "sleep_inv s Q" and V: "value_inv s Q" and W: "owner_inv s Ow"
    using G by (simp_all add: ginv_def)
  from wake_all_spec[OF K, of "Event_obj e" 0] obtain s1 Q1 where
    A: "wake_all (Event_obj e) 0 s = Some (int (length (Q (Wait (Event_obj e)))), s1)" "kinv s1 Q1" "woken (Event_obj e) s Q s1 Q1" by auto
  have S1: "sleep_inv s1 Q1"
    using S A(3) unfolding sleep_inv_def woken_def by (auto split: if_splits)
  have "ginv (upd_eventt e (\<lambda>k. k\<lparr>e_val := 0\<rparr>) s1) Q1 Ow"
    by (rule ginv_event[OF A(2) S1 V W]) (use A(3) in \<open>auto simp: woken_def\<close>)
  moreover have "event_wakeup e s = Some (int (length (Q (Wait (Event_obj e)))), upd_eventt e (\<lambda>k. k\<lparr>e_val := 0\<rparr>) s1)"
    using A(1) wake_event_eq[OF K] by (simp add: event_wakeup_def)
  ultimately show ?thesis using A(3) by (auto simp: woken_def upd_eventt_def obj_same_def)
qed

lemma running_event_wakeup:
  assumes "ginv s Q Ow" "running s" "event_wakeup e s = Some (n, s')"
  shows "running s'"
proof -
  have K: "kinv s Q" using assms(1) by (simp add: ginv_def)
  have "current_thread s \<notin> set (Q (Wait (Event_obj e)))"
    using kinvx_off_queue[OF K, of "current_thread s"] assms(2) by (simp add: running_def)
  with event_wakeup_spec[OF assms(1), of e] assms(2,3) show ?thesis
    by (intro running_cong[OF assms(2)]) (auto simp: running_def)
qed

text \<open>The caller of \<open>wait_event\<close> sleeps on the event; nobody runs.\<close>

lemma wait_event_inv:
  fixes e :: nat
  assumes G: "ginv s Q Ow" and R: "running s"
  defines "s' \<equiv> wait_event e s" and "cur \<equiv> current_thread s"
  shows "ginv s' (Q(Wait (Event_obj e) := Q (Wait (Event_obj e)) @ [cur])) Ow"
    "current_thread s' = cur" "\<And>u. sched s' u = (if u = cur then (sched s u)\<lparr>sc_state := THREAD_STATE_SLEEP\<rparr> else sched s u)"
    "timers s' = timers s" "tobj s' = tobj s" "lockt s' = lockt s" "rlockt s' = rlockt s" "tmo_failed s' = tmo_failed s"
proof -
  have K: "kinv s Q" and S: "sleep_inv s Q" and V: "value_inv s Q" and W: "owner_inv s Ow"
    using G by (simp_all add: ginv_def)
  have r: "sc_state (sched s (current_thread s)) = THREAD_STATE_RUNNING" using R by (simp add: running_def)
  let ?f = "upd_eventt e (\<lambda>k. k\<lparr>e_val := e_val k + 1\<rparr>)" and ?b = "block_current (Event_obj e) s"
  note B = block_current_spec[OF K S r, where c = "Event_obj e"]
  have comm: "s' = ?f ?b"
    by (simp add: s'_def wait_event_def block_current_def ADD_SLQ_def upd_eventt_def field_defs split: option.split)
  have ev: "e_val (eventt ?b e) = of_nat (length (Q (Wait (Event_obj e))))"
    using V B(3) by (simp add: value_inv_def obj_same_def)
  have "?f ?b = upd_eventt e (\<lambda>k. k\<lparr>e_val := e_val (eventt ?b e) + 1\<rparr>) ?b" by (simp add: upd_eventt_def)
  then have "s' = upd_eventt e (\<lambda>k. k\<lparr>e_val := of_nat (length (Q (Wait (Event_obj e)))) + 1\<rparr>) ?b"
    unfolding comm ev .
  moreover have "ginv (upd_eventt e (\<lambda>k. k\<lparr>e_val := of_nat (length (Q (Wait (Event_obj e)))) + 1\<rparr>) ?b)
      (Q(Wait (Event_obj e) := Q (Wait (Event_obj e)) @ [cur])) Ow"
    unfolding cur_def by (rule ginv_event[OF B(1,2) V W B(3)]) simp_all
  ultimately show "ginv s' (Q(Wait (Event_obj e) := Q (Wait (Event_obj e)) @ [cur])) Ow" by simp
  show "current_thread s' = cur" "timers s' = timers s" "tobj s' = tobj s" "lockt s' = lockt s" "rlockt s' = rlockt s"
    "tmo_failed s' = tmo_failed s" "\<And>u. sched s' u = (if u = cur then (sched s u)\<lparr>sc_state := THREAD_STATE_SLEEP\<rparr> else sched s u)"
    unfolding comm using B by (simp_all add: upd_eventt_def obj_same_def cur_def)
qed

lemma schedule_after_sleep:
  assumes G: "ginv s Q Ow" and o: "others_stopped s" "idle_available s"
  shows "\<exists>s' Q'. scheduler s = Some s' \<and> ginv s' Q' Ow \<and> running s' \<and> obj_same s s' \<and> (\<forall>c. Q' (Wait c) = Q (Wait c))"
proof -
  have K: "kinv s Q" and S: "sleep_inv s Q" and V: "value_inv s Q" and W: "owner_inv s Ow"
    using G by (simp_all add: ginv_def)
  from scheduler_runs[OF K S o] obtain s' Q' where A: "scheduler s = Some s'" "kinv s' Q'"
    "\<forall>c. Q' (Wait c) = Q (Wait c)" "sleep_inv s' Q'" "obj_same s s'" "running s'" by auto
  with value_inv_same[OF A(5) V] owner_inv_same[OF A(5) W] show ?thesis by (auto simp: ginv_def)
qed

lemma idle_others_after_wait:
  assumes R: "running s" and ni: "\<not> idle_thread s (current_thread s)" and c: "current_thread s' = current_thread s"
    and sc: "\<And>u. sc_cid (sched s' u) = sc_cid (sched s u)" "sc_state (sched s' (current_thread s)) = THREAD_STATE_SLEEP"
    "\<And>u. u \<noteq> current_thread s \<Longrightarrow> sc_state (sched s' u) = sc_state (sched s u) \<or> sc_state (sched s' u) = THREAD_STATE_READY"
  shows "others_stopped s'" "idle_available s'"
proof -
  show "others_stopped s'"
    using R sc unfolding running_def others_stopped_def c by (metis thread_state.distinct)
  from R ni obtain t where "idle_thread s t" "sc_state (sched s t) = THREAD_STATE_READY" "t \<noteq> current_thread s"
    unfolding running_def idle_available_def by metis
  with sc show "idle_available s'" unfolding idle_available_def by metis
qed

lemma event_sleep_inv:
  assumes G: "ginv s Q Ow" and R: "running s" and ni: "\<not> idle_thread s (current_thread s)"
  shows "\<exists>r s' Q' Ow'. event_sleep e lck s = Some (r, s') \<and> ginv s' Q' Ow' \<and> running s' \<and>
    timers s' = timers s \<and> tobj s' = tobj s \<and>
    r = (case lck of None \<Rightarrow> None | Some l \<Rightarrow>
       if l_owner_thread (lockt s l) = Some (current_thread s) then None else Some ELOCK_NOTOWNED) \<and>
    (r = None \<longrightarrow> current_thread s \<in> set (Q' (Wait (Event_obj e))))"
proof -
  have K: "kinv s Q" using G by (simp add: ginv_def)
  let ?cur = "current_thread s"
  have go: "\<exists>s' Q'. scheduler (wait_event e s0) = Some s' \<and> ginv s' Q' Ow0 \<and> running s' \<and>
      timers s' = timers s0 \<and> tobj s' = tobj s0 \<and> ?cur \<in> set (Q' (Wait (Event_obj e)))"
    if G0: "ginv s0 Q0 Ow0" and R0: "running s0" and c0: "current_thread s0 = ?cur" "\<not> idle_thread s0 ?cur" for s0 Q0 Ow0
  proof -
    note B = wait_event_inv[OF G0 R0, of e]
    have o: "others_stopped (wait_event e s0)" "idle_available (wait_event e s0)"
      by (rule idle_others_after_wait[OF R0]; use c0 B(2,3) in simp)+
    from schedule_after_sleep[OF B(1) o] obtain s' Q' where s': "scheduler (wait_event e s0) = Some s'"
      "ginv s' Q' Ow0" "running s'" "obj_same (wait_event e s0) s'"
      and Q': "\<forall>c. Q' (Wait c) = (Q0(Wait (Event_obj e) := Q0 (Wait (Event_obj e)) @ [current_thread s0])) (Wait c)"
      by blast
    have "?cur \<in> set (Q' (Wait (Event_obj e)))" unfolding Q'[rule_format] using c0 by simp
    then show ?thesis using s' B(4,5) by (intro exI[of _ s'] exI[of _ Q']) (simp add: obj_same_def)
  qed
  show ?thesis
  proof (cases lck)
    case None
    from go[OF G R refl ni] obtain s' Q' where "scheduler (wait_event e s) = Some s'" "ginv s' Q' Ow" "running s'"
      "timers s' = timers s" "tobj s' = tobj s" "?cur \<in> set (Q' (Wait (Event_obj e)))" by auto
    then show ?thesis using None
      by (intro exI[of _ None] exI[of _ s'] exI[of _ Q'] exI[of _ Ow]) (simp add: event_sleep_def)
  next
    case (Some l)
    show ?thesis
    proof (cases "l_owner_thread (lockt s l) = Some ?cur")
      case True
      from release_lock_spec[OF G True] obtain n s1 Q1 where
        A: "release_lock l s = Some (n, s1)" "ginv s1 Q1 (Ow(?cur := remove1 (Lock_obj l) (Ow ?cur)))"
        "released (Lock_obj l) s Q s1 Q1" "timers s1 = timers s" "tobj s1 = tobj s" by auto
      have c1: "current_thread s1 = ?cur" "\<not> idle_thread s1 ?cur" using A(3) ni by (auto simp: released_def)
      from go[OF A(2) running_released[OF R A(3) K] c1] obtain s' Q' where
        "scheduler (wait_event e s1) = Some s'" "ginv s' Q' (Ow(?cur := remove1 (Lock_obj l) (Ow ?cur)))" "running s'"
        "timers s' = timers s1" "tobj s' = tobj s1" "?cur \<in> set (Q' (Wait (Event_obj e)))" by auto
      then show ?thesis using Some True A
        by (intro exI[of _ None] exI[of _ s'] exI[of _ Q'] exI) (simp add: event_sleep_def)
    next
      case False
      then show ?thesis using Some G R
        by (intro exI[of _ "Some ELOCK_NOTOWNED"] exI[of _ s] exI[of _ Q] exI[of _ Ow]) (simp add: event_sleep_def)
    qed
  qed
qed

section \<open>Time-outs of event waits\<close>

lemma find_waiter_spec:
  "chain (knext s) p xs \<Longrightarrow> find_waiter s p t = Some (if t \<in> set xs then Some t else None)"
proof (induction xs arbitrary: p)
  case Nil
  then show ?case by (subst find_waiter.simps) simp
next
  case (Cons x xs)
  then have "find_waiter s (kt_qnext (kt s x)) t = Some (if t \<in> set xs then Some t else None)"
    by (simp add: knext_def[of s x, symmetric])
  with Cons.prems show ?case by (subst find_waiter.simps) simp
qed

lemma kqueues_chain: "kqueues s Q \<Longrightarrow> chain (knext s) (khead s q) (Q q)"
  using dl_queuesD[of "knext s" "kprev s" "khead s" "ktail s" Q q] by (auto simp: kqueues_def dll_def intro: dls_chain)

lemma kinvx_unlink_slq:
  assumes K: "kinvx X s Q" and t: "t \<in> set (Q (Wait c))"
  shows "kinvx X (unlink_slq c t s) (Q(Wait c := remove1 t (Q (Wait c))))"
proof (rule kinvxI, goal_cases)
  case 1
  show ?case by (rule kqueues_unlink_slq[OF kinvx_queues[OF K] t])
next
  case (2 j u)
  then show ?case using kinvx_ready[OF K, of u j] by (simp add: queue_fields)
next
  case (3 d u)
  then have "u \<in> set (Q (Wait d))"
    using set_remove1_subset[of t "Q (Wait c)"] by (auto split: if_splits)
  then show ?case using kinvx_wait[OF K, of u d] by (simp add: queue_fields)
next
  case (4 u)
  then show ?case using kinvx_on_queue[OF K, of u] by (simp add: queue_fields)
next
  case (5 u)
  show ?case using kinvx_pri[OF K, of u] by (simp add: queue_fields)
qed

lemma ginv_tmo_failed [simp]: "ginv (s\<lparr>tmo_failed := f\<rparr>) Q Ow = ginv s Q Ow"
proof -
  let ?s = "s\<lparr>tmo_failed := f\<rparr>"
  have "value_inv ?s Q = value_inv s Q" by (rule value_inv_fields) simp_all
  moreover have "owner_inv ?s Ow = owner_inv s Ow"
    using gl_owner_fields[of ?s s] owned_cong[of ?s s Ow] by (simp add: owner_inv_def)
  ultimately show ?thesis using sleep_inv_fields[of ?s s] by (simp add: ginv_def)
qed

lemma ginv_same:
  assumes "ginv s Q Ow" "obj_same s s'" "kinv s' Q'" "sleep_inv s' Q'" "\<And>c. Q' (Wait c) = Q (Wait c)"
  shows "ginv s' Q' Ow"
  using assms value_inv_same[OF assms(2), of Q Q'] owner_inv_same[OF assms(2)] by (simp add: ginv_def)

lemma event_wait_remove_thread_spec:
  assumes G: "ginv s Q Ow"
  shows "if t \<in> set (Q (Wait (Event_obj e)))
    then \<exists>s' Q'. event_wait_remove_thread i e t s = Some s' \<and> ginv s' Q' Ow \<and> tmo_failed s' i \<and>
      (\<forall>d. Q' (Wait d) = (if d = Event_obj e then remove1 t (Q (Wait d)) else Q (Wait d))) \<and>
      current_thread s' = current_thread s \<and> timers s' = timers s \<and> tobj s' = tobj s \<and>
      (\<forall>u. sched s' u = (if u = t then (sched s u)\<lparr>sc_state := THREAD_STATE_READY\<rparr> else sched s u))
    else event_wait_remove_thread i e t s = Some s"
proof -
  have K: "kinv s Q" and S: "sleep_inv s Q" and V: "value_inv s Q" and W: "owner_inv s Ow"
    using G by (simp_all add: ginv_def)
  let ?c = "Event_obj e"
  have fw: "find_waiter s (sl_head (slq s ?c)) t = Some (if t \<in> set (Q (Wait ?c)) then Some t else None)"
    using find_waiter_spec[OF kqueues_chain[OF kinvx_queues[OF K], of "Wait ?c"]] by simp
  show ?thesis
  proof (cases "t \<in> set (Q (Wait ?c))")
    case False
    then show ?thesis using fw by (simp add: event_wait_remove_thread_def)
  next
    case True
    let ?u = "unlink_slq ?c t s" and ?Q1 = "Q(Wait ?c := remove1 t (Q (Wait ?c)))"
    let ?s2 = "upd_eventt e (\<lambda>k. k\<lparr>e_val := e_val k - 1\<rparr>) ?u"
    let ?s4 = "upd_kt t (\<lambda>k. k\<lparr>kt_slpchannel := None\<rparr>) (?s2\<lparr>tmo_failed := (tmo_failed ?s2)(i := True)\<rparr>)"
    let ?s5 = "add_readyq t ?s4"
    have r: "event_wait_remove_thread i e t s = Some ?s5"
      using fw True by (simp add: event_wait_remove_thread_def Let_def)
    have K1: "kinv ?u ?Q1" by (rule kinvx_unlink_slq[OF K True])
    have off: "t \<notin> set (?Q1 q)" for q by (rule off_after_remove[OF kinvx_queues[OF K] True])
    have o1: "obj_same s ?u" by (rule obj_same_queues[OF unlink_slq_same])
    have ts: "sc_state (sched s t) = THREAD_STATE_SLEEP \<and> kt_slpchannel (kt s t) = Some ?c" using kinvx_wait[OF K True] .
    have S1: "sleep_inv ?u ?Q1" unfolding sleep_inv_def
    proof (intro allI impI)
      fix u c assume u: "sc_state (sched ?u u) = THREAD_STATE_SLEEP" "kt_slpchannel (kt ?u u) = Some c" "is_lock c"
      then have "u \<in> set (Q (Wait c))" using S by (simp add: sleep_inv_def queue_fields)
      moreover have "c \<noteq> ?c" using u(3) by auto
      ultimately show "u \<in> set (?Q1 (Wait c))" by simp
    qed
    have len: "of_nat (length (remove1 t (Q (Wait ?c)))) = e_val (eventt ?u e) - (1 :: u16)"
    proof -
      have "length (Q (Wait ?c)) \<noteq> 0" using True by auto
      moreover have "e_val (eventt ?u e) = of_nat (length (Q (Wait ?c)))" using V by (simp add: value_inv_def queue_fields)
      ultimately show ?thesis using True by (simp add: length_remove1 of_nat_diff Suc_leI)
    qed
    have "?s2 = upd_eventt e (\<lambda>k. k\<lparr>e_val := e_val (eventt ?u e) - 1\<rparr>) ?u" by (simp add: upd_eventt_def)
    moreover have "ginv (upd_eventt e (\<lambda>k. k\<lparr>e_val := e_val (eventt ?u e) - 1\<rparr>) ?u) ?Q1 Ow"
      by (rule ginv_event[OF K1 S1 V W o1]) (simp_all add: len)
    ultimately have G2: "ginv ?s2 ?Q1 Ow" by simp
    have K2: "kinv ?s2 ?Q1" and S2: "sleep_inv ?s2 ?Q1" and V2: "value_inv ?s2 ?Q1" and W2: "owner_inv ?s2 Ow"
      using G2 by (simp_all add: ginv_def)
    let ?i = "Ready (ready_index (sched ?s4 t))"
    have K4: "kinv ?s4 ?Q1"
      by (rule kinvx_only_thread[OF K2 off])
        (use kinvx_pri[OF K2, of t] ts in \<open>auto simp: only_thread_def upd_kt_def upd_eventt_def queue_fields\<close>)
    have K5: "kinv ?s5 (?Q1(?i := ?Q1 ?i @ [t]))"
      by (rule kinvx_mono[OF kinvx_add_readyq[OF K4 off refl]]) simp
    have sc: "sched ?s5 u = (if u = t then (sched s u)\<lparr>sc_state := THREAD_STATE_READY\<rparr> else sched s u)" for u
      by (simp add: add_readyq_sched upd_kt_def upd_eventt_def queue_fields)
    have sl: "kt_slpchannel (kt ?s5 u) = (if u = t then None else kt_slpchannel (kt s u))" for u
      by (simp add: add_readyq_slpchannel upd_kt_def upd_eventt_def queue_fields)
    have o5: "obj_same (?s2\<lparr>tmo_failed := (tmo_failed ?s2)(i := True)\<rparr>) ?s5"
      by (rule obj_same_trans[OF obj_same_upd(2) obj_same_add_readyq])
    have "sleep_inv ?s5 (?Q1(?i := ?Q1 ?i @ [t]))"
      by (rule sleep_inv_cong[OF S1]) (auto simp: sc sl queue_fields split: if_splits)
    moreover have "ginv (?s2\<lparr>tmo_failed := (tmo_failed ?s2)(i := True)\<rparr>) ?Q1 Ow" using G2 by simp
    ultimately have "ginv ?s5 (?Q1(?i := ?Q1 ?i @ [t])) Ow"
      by (intro ginv_same[OF _ o5 K5, where Q = ?Q1]) simp_all
    moreover have "current_thread ?s5 = current_thread s" "timers ?s5 = timers s" "tobj ?s5 = tobj s"
      by (simp_all add: upd_kt_def upd_eventt_def queue_fields)
    moreover have "tmo_failed ?s5 i" using obj_same_add_readyq[of ?s4 t] by (simp add: obj_same_def upd_kt_def)
    ultimately show ?thesis using True r sc by (auto intro!: exI[of _ "?Q1(?i := ?Q1 ?i @ [t])"])
  qed
qed

end
