(* ===== verification/Kernel_Steps.thy ===== *)
theory Kernel_Steps
  imports Locks
begin

text \<open>
  The threads as a transition relation: any sequence of operations on locks, recursive locks and events,
  of event time-outs, clock ticks, ageing passes and scheduler calls, by whichever thread the scheduler lets run.
  The kernel invariant of \<open>Locks\<close> holds in every reachable state, no operation gets stuck in one, and no step
  takes a lock from its owner.  Semaphore and timer calls are not steps of this relation: what they
  keep of the invariant is shown call by call in \<open>Semaphores\<close> and \<open>Timers\<close>, and a semaphore that several
  threads hold breaks the lists of owned objects.  Suspending a process is not a step either: it breaks the
  ready queues, as shown at the end.
\<close>

section \<open>Operations of the running thread\<close>

text \<open>
  What the current thread, or an interrupt in its context, can do in one atomic step to locks, events and
  the ready queues.
  The idle thread makes no blocking call (its loop in \<^verbatim>\<open>base/process.c\<close> only halts).
\<close>

inductive kstep :: "kern \<Rightarrow> kern \<Rightarrow> bool" where
  lock: "\<not> idle_thread s (current_thread s) \<Longrightarrow> lock_attempt l s = Some (b, s') \<Longrightarrow> kstep s s'"
| trylock: "trylock l s = (r, s') \<Longrightarrow> kstep s s'"
| unlock: "unlock l s = Some (r, s') \<Longrightarrow> kstep s s'"
| rlock: "\<not> idle_thread s (current_thread s) \<Longrightarrow> rlock_attempt l s = Some (b, s') \<Longrightarrow> kstep s s'"
| runlock: "runlock l s = Some (r, s') \<Longrightarrow> kstep s s'"
| event_wakeup: "event_wakeup e s = Some (r, s') \<Longrightarrow> kstep s s'"
| event_sleep: "\<not> idle_thread s (current_thread s) \<Longrightarrow> event_sleep e lck s = Some (q, s') \<Longrightarrow> kstep s s'"
| event_timeout: "event_wait_remove_thread i e t s = Some s' \<Longrightarrow> kstep s s'"
| tick: "rr_cl_tick (current_thread s) s = s' \<Longrightarrow> kstep s s'"
| ageing: "recompute_priorities s = Some s' \<Longrightarrow> kstep s s'"
| preempt: "scheduler s = Some s' \<Longrightarrow> kstep s s'"

section \<open>Invariance\<close>

lemma obj_same_rr_cl_tick: "obj_same s (rr_cl_tick t s)"
  by (simp add: rr_cl_tick_def obj_same_def Let_def upd_sched_def upd_kt_def)

lemma tick_inv:
  assumes G: "ginv s Q Ow" and R: "running s"
  shows "ginv (rr_cl_tick (current_thread s) s) Q Ow" "running (rr_cl_tick (current_thread s) s)"
proof -
  let ?t = "current_thread s"
  let ?s = "rr_cl_tick ?t s"
  have K: "kinv s Q" and S: "sleep_inv s Q" using G by (simp_all add: ginv_def)
  have r: "sc_state (sched s ?t) = THREAD_STATE_RUNNING" using R by (simp add: running_def)
  have off: "?t \<notin> set (Q q)" for q using kinvx_off_queue[OF K, of ?t] r by simp
  have st: "sc_state (sched ?s u) = sc_state (sched s u)" "sc_cid (sched ?s u) = sc_cid (sched s u)"
    "kt_slpchannel (kt ?s u) = kt_slpchannel (kt s u)" for u
    by (simp_all add: rr_cl_tick_def Let_def upd_sched_def upd_kt_def)
  have K1: "kinv ?s Q" by (rule kinvx_rr_cl_tick[OF K off]) (simp add: r)
  have "sleep_inv ?s Q" by (rule sleep_inv_cong[OF S]) (simp_all add: st)
  then show "ginv ?s Q Ow" by (intro ginv_same[OF G obj_same_rr_cl_tick K1]) simp_all
  have "current_thread ?s = ?t" by (simp add: rr_cl_tick_def Let_def upd_sched_def upd_kt_def)
  then show "running ?s" by (intro running_cong[OF R]) (simp_all add: st r)
qed

lemma preempt_inv:
  assumes G: "ginv s Q Ow" and R: "running s"
  shows "\<exists>s' Q'. scheduler s = Some s' \<and> ginv s' Q' Ow \<and> running s'"
  using schedule_after_sleep[OF G] R by (auto simp: running_def)

lemma obj_same_age_thread: "obj_same s (age_thread tm t s)"
proof -
  have *: "obj_same s (upd_sched t g (upd_sched t f s))" for f g
    by (rule obj_same_trans[OF obj_same_upd(1) obj_same_upd(1)])
  show ?thesis
    unfolding age_thread_def Let_def
    by (auto intro: obj_same_trans[OF * obj_same_queues[OF append_readyq_same]]
        obj_same_trans[OF obj_same_upd(1) obj_same_queues[OF append_readyq_same]])
qed
lemma age_thread_rest:
  "current_thread (age_thread tm t s) = current_thread s"
  "kt_slpchannel (kt (age_thread tm t s) u) = kt_slpchannel (kt s u)"
  by (simp_all add: age_thread_def Let_def queue_fields upd_sched_def upd_kt_def)

definition age_same :: "kern \<Rightarrow> kern \<Rightarrow> bool" where
  "age_same s s' \<longleftrightarrow> obj_same s s' \<and> current_thread s' = current_thread s \<and>
     (\<forall>u. kt_slpchannel (kt s' u) = kt_slpchannel (kt s u))"

lemma age_queue_same:
  assumes "age_queue tm thr s = Some s'"
  shows "age_same s s'"
proof (rule age_queue.raw_induct[where P = "\<lambda>tm thr s s'. age_same s s'", OF _ assms])
  fix f tmsec thr s y
  assume IH: "\<And>tm thr s y. f tm thr s = Some y \<Longrightarrow> age_same s y"
    and step: "(case thr of None \<Rightarrow> Some s | Some t \<Rightarrow> f tmsec (kt_qnext (kt s t)) (age_thread tmsec t s)) = Some y"
  show "age_same s y"
  proof (cases thr)
    case None
    then show ?thesis using step by (simp add: age_same_def)
  next
    case (Some t)
    then have "age_same (age_thread tmsec t s) y" using step IH by simp
    then show ?thesis using obj_same_trans[OF obj_same_age_thread[of s tmsec t]]
      by (simp add: age_same_def age_thread_rest)
  qed
qed

lemma age_from_same: "age_from i tm s = Some s' \<Longrightarrow> age_same s s'"
proof (induction "nat (31 - i)" arbitrary: i s rule: less_induct)
  case less
  show ?case
  proof (cases "i < 31")
    case False
    then have "s' = s" using less.prems by (subst (asm) age_from.simps) simp
    then show ?thesis by (simp add: age_same_def)
  next
    case True
    let ?s = "s\<lparr>ready_qhead := (ready_qhead s)(i := None), ready_qtail := (ready_qtail s)(i := None)\<rparr>"
    from less.prems True obtain s1 where "age_queue tm (ready_qhead s i) ?s = Some s1" "age_from (i + 1) tm s1 = Some s'"
      by (subst (asm) age_from.simps) (auto simp: bind_eq_Some_conv)
    with age_queue_same less.hyps[of "i + 1" s1] True have "age_same ?s s1" "age_same s1 s'" by auto
    then show ?thesis unfolding age_same_def using obj_same_trans[of ?s s1 s'] by (auto simp: obj_same_def)
  qed
qed

lemma ageing_inv:
  assumes G: "ginv s Q Ow" and R: "running s"
  shows "\<exists>s' Q'. recompute_priorities s = Some s' \<and> ginv s' Q' Ow \<and> running s'"
proof (cases "priocompute s")
  case False
  then show ?thesis using assms by (auto simp: recompute_priorities_def)
next
  case True
  let ?s = "s\<lparr>priocompute := False\<rparr>"
  have K: "kinv s Q" and S: "sleep_inv s Q" using G by (simp_all add: ginv_def)
  then have K': "kinv ?s Q" by simp
  from age_from_spec[OF K', of 0 "sched_clock s"] obtain s' Q' where A: "age_from 0 (sched_clock s) ?s = Some s'" "kinv s' Q'"
    and sc: "\<And>u. sched s' u = sched s u \<or> sched s' u = aged (sched_clock s) (sched s u)"
    and w: "\<And>c. Q' (Wait c) = Q (Wait c)" by fastforce
  from age_from_same[OF A(1)] have o: "obj_same s s'" and c: "current_thread s' = current_thread s"
    and sl: "\<And>u. kt_slpchannel (kt s' u) = kt_slpchannel (kt s u)" by (auto simp: age_same_def obj_same_def)
  have st: "sc_state (sched s' u) = sc_state (sched s u)" "sc_cid (sched s' u) = sc_cid (sched s u)" for u
    using sc[of u] by (auto simp: aged_def)
  have "sleep_inv s' Q'" by (rule sleep_inv_cong[OF S w]) (simp add: st sl)
  then have "ginv s' Q' Ow" by (rule ginv_same[OF G o A(2) _ w])
  moreover have "running s'" by (rule running_cong[OF R c]) (use R in \<open>simp_all add: st running_def\<close>)
  moreover have "recompute_priorities s = Some s'" using True A(1) by (simp add: recompute_priorities_def)
  ultimately show ?thesis by blast
qed

lemma event_timeout_inv:
  assumes G: "ginv s Q Ow" and R: "running s"
  shows "\<exists>s' Q'. event_wait_remove_thread i e t s = Some s' \<and> ginv s' Q' Ow \<and> running s'"
proof (cases "t \<in> set (Q (Wait (Event_obj e)))")
  case False
  then show ?thesis using event_wait_remove_thread_spec[OF G, of t e i] assms by auto
next
  case True
  then obtain s' Q' where A: "event_wait_remove_thread i e t s = Some s'" "ginv s' Q' Ow"
    "current_thread s' = current_thread s"
    "\<And>u. sched s' u = (if u = t then (sched s u)\<lparr>sc_state := THREAD_STATE_READY\<rparr> else sched s u)"
    using event_wait_remove_thread_spec[OF G, of t e i] by auto
  have K: "kinv s Q" using G by (simp add: ginv_def)
  have "t \<noteq> current_thread s" using kinvx_wait[OF K True] R by (auto simp: running_def)
  then have "running s'" by (intro running_cong[OF R A(3)]) (use A(4) R in \<open>auto simp: running_def\<close>)
  with A show ?thesis by blast
qed

text \<open>Every step is defined in a state that satisfies the invariant, and keeps it.\<close>

lemma kstep_inv: "kstep s s' \<Longrightarrow> sys_inv s \<Longrightarrow> sys_inv s'"
proof (induction rule: kstep.induct)
  case (lock s l b s')
  then obtain Q Ow where G: "ginv s Q Ow" "running s" by (auto simp: sys_inv_def)
  show ?case
  proof (cases "l_owner_thread (lockt s l) = None")
    case True
    from lock_attempt_free[OF G True] lock(2) show ?thesis by (auto simp: sys_inv_def)
  next
    case False
    from lock_attempt_held[OF G lock(1) False] lock(2) show ?thesis by (auto simp: sys_inv_def)
  qed
next
  case (trylock l s r s')
  then obtain Q Ow where G: "ginv s Q Ow" "running s" by (auto simp: sys_inv_def)
  then show ?case using trylock_spec[OF G, of l] trylock by (auto simp: sys_inv_def split: if_splits)
next
  case (unlock l s r s')
  then obtain Q Ow where G: "ginv s Q Ow" "running s" by (auto simp: sys_inv_def)
  then show ?case using unlock_inv[OF G, of l] unlock by (auto simp: sys_inv_def)
next
  case (rlock s l b s')
  then obtain Q Ow where G: "ginv s Q Ow" "running s" by (auto simp: sys_inv_def)
  then show ?case using rlock_attempt_inv[OF G rlock(1), of l] rlock(2) by (auto simp: sys_inv_def)
next
  case (runlock l s r s')
  then obtain Q Ow where G: "ginv s Q Ow" "running s" by (auto simp: sys_inv_def)
  then show ?case using runlock_inv[OF G, of l] runlock by (auto simp: sys_inv_def)
next
  case (event_wakeup e s r s')
  then obtain Q Ow where G: "ginv s Q Ow" "running s" by (auto simp: sys_inv_def)
  then show ?case using event_wakeup_spec[OF G(1), of e] running_event_wakeup[OF G] event_wakeup
    by (auto simp: sys_inv_def)
next
  case (event_sleep s e lck q s')
  then obtain Q Ow where G: "ginv s Q Ow" "running s" by (auto simp: sys_inv_def)
  then show ?case using event_sleep_inv[OF G event_sleep(1), of e lck] event_sleep(2) by (auto simp: sys_inv_def)
next
  case (event_timeout i e t s s')
  then obtain Q Ow where G: "ginv s Q Ow" "running s" by (auto simp: sys_inv_def)
  then show ?case using event_timeout_inv[OF G, of i e t] event_timeout by (auto simp: sys_inv_def)
next
  case (tick s s')
  then obtain Q Ow where G: "ginv s Q Ow" "running s" by (auto simp: sys_inv_def)
  then show ?case using tick_inv[OF G] tick by (auto simp: sys_inv_def)
next
  case (ageing s s')
  then obtain Q Ow where G: "ginv s Q Ow" "running s" by (auto simp: sys_inv_def)
  then show ?case using ageing_inv[OF G] ageing by (auto simp: sys_inv_def)
next
  case (preempt s s')
  then obtain Q Ow where G: "ginv s Q Ow" "running s" by (auto simp: sys_inv_def)
  then show ?case using preempt_inv[OF G] preempt by (auto simp: sys_inv_def)
qed

definition reachable :: "kern \<Rightarrow> kern \<Rightarrow> bool" where
  "reachable = kstep\<^sup>*\<^sup>*"

lemma reachable_inv: "reachable s s' \<Longrightarrow> sys_inv s \<Longrightarrow> sys_inv s'"
  unfolding reachable_def by (induction rule: rtranclp_induct) (auto intro: kstep_inv)

section \<open>Ownership\<close>

text \<open>What one step may do to the owners of the locks, simple or recursive: nothing; or the current thread takes a lock
  without owner; or the current thread gives up a lock of its own.\<close>

definition owner_step :: "kern \<Rightarrow> kern \<Rightarrow> bool" where
  "owner_step s s' \<longleftrightarrow> (\<forall>c. gl_owner s' c = gl_owner s c \<or>
     gl_owner s c = None \<and> gl_owner s' c = Some (current_thread s) \<or>
     gl_owner s c = Some (current_thread s) \<and> gl_owner s' c = None)"

definition own_same :: "kern \<Rightarrow> kern \<Rightarrow> bool" where
  "own_same s s' \<longleftrightarrow> lockt s' = lockt s \<and> rlockt s' = rlockt s"

lemma own_same_owner: "own_same s s' \<Longrightarrow> gl_owner s' = gl_owner s"
  unfolding own_same_def by (rule gl_owner_fields) simp_all

lemma own_same_obj: "obj_same s s' \<Longrightarrow> own_same s s'"
  by (simp add: own_same_def obj_same_def)

lemma own_same_trans [trans]: "own_same s t \<Longrightarrow> own_same t u \<Longrightarrow> own_same s u"
  by (simp add: own_same_def)

lemma owner_step_same: "own_same s s' \<Longrightarrow> owner_step s s'"
  by (simp add: owner_step_def own_same_owner)

lemma own_same_basic:
  "own_same s (ADD_SYNCHOBJ c t s)" "own_same s (DEL_SYNCHOBJ c t s)" "own_same s (upd_kt t f s)" "own_same s (upd_eventt e g s)"
  "own_same s (add_readyq t s)" "own_same s (snd (DEL_SLQ c s))" "own_same s (block_current c s)" "own_same s (drop_inherited s)"
  "own_same s (wait_event e s)"
proof -
  show b: "own_same s (block_current c s)" for c s unfolding block_current_def Let_def
    by (intro own_same_obj obj_same_trans[OF obj_same_trans[OF obj_same_queues[OF ADD_SLQ_same] obj_same_upd(1)] obj_same_upd(2)])
  show "own_same s (add_readyq t s)" "own_same s (snd (DEL_SLQ c s))"
    by (rule own_same_obj[OF obj_same_add_readyq] own_same_obj[OF obj_same_queues[OF DEL_SLQ_same]])+
  show u: "own_same s (upd_eventt e g s)" for e g by (simp add: own_same_def upd_eventt_def)
  show "own_same s (wait_event e s)" unfolding wait_event_def by (rule own_same_trans[OF u b])
qed (simp_all add: own_same_def SYNCHOBJ_fields upd_kt_def drop_inherited_def upd_sched_def)

lemma own_same_wake_all:
  assumes "wake_all c n s = Some r"
  shows "own_same s (snd r)"
proof (rule wake_all.raw_induct[where P = "\<lambda>c n s r. own_same s (snd r)", OF _ assms])
  fix f c n s y
  assume IH: "\<And>c n s y. f c n s = Some y \<Longrightarrow> own_same s (snd y)"
    and step: "(case DEL_SLQ c s of (None, s1) \<Rightarrow> Some (n, s1) | (Some t, s1) \<Rightarrow> f c (n + 1) (add_readyq t s1)) = Some y"
  obtain p s1 where d: "DEL_SLQ c s = (p, s1)" by (cases "DEL_SLQ c s")
  then have o: "own_same s s1" using own_same_basic(6)[of s c] by simp
  show "own_same s (snd y)"
  proof (cases p)
    case None
    then show ?thesis using step d o by auto
  next
    case (Some t)
    then have "own_same (add_readyq t s1) (snd y)" using step d IH by auto
    then show ?thesis using own_same_trans[OF own_same_trans[OF o own_same_basic(5)]] by blast
  qed
qed

lemma own_same_wake_event:
  assumes "wake_event c n s = Some r"
  shows "own_same s (snd r)"
proof (rule wake_event.raw_induct[where P = "\<lambda>c n s r. own_same s (snd r)", OF _ assms])
  fix f c n s y
  assume IH: "\<And>c n s y. f c n s = Some y \<Longrightarrow> own_same s (snd y)"
    and step: "(case DEL_SLQ c s of (None, s1) \<Rightarrow> Some (n, s1)
      | (Some t, s1) \<Rightarrow> f c (n + 1) (upd_kt t (\<lambda>k. k\<lparr>kt_slpchannel := None\<rparr>) (add_readyq t s1))) = Some y"
  obtain p s1 where d: "DEL_SLQ c s = (p, s1)" by (cases "DEL_SLQ c s")
  then have o: "own_same s s1" using own_same_basic(6)[of s c] by simp
  show "own_same s (snd y)"
  proof (cases p)
    case None
    then show ?thesis using step d o by auto
  next
    case (Some t)
    then have "own_same (upd_kt t (\<lambda>k. k\<lparr>kt_slpchannel := None\<rparr>) (add_readyq t s1)) (snd y)" using step d IH by auto
    then show ?thesis using own_same_trans[OF own_same_trans[OF own_same_trans[OF o own_same_basic(5)] own_same_basic(3)]] by blast
  qed
qed

lemma own_same_lend:
  assumes "lend_priority gl s = Some s'"
  shows "own_same s s'"
proof (rule lend_priority.raw_induct[where P = "\<lambda>gl s s'. own_same s s'", OF _ assms])
  fix f gl s y
  assume IH: "\<And>gl s y. f gl s = Some y \<Longrightarrow> own_same s y"
    and step: "(if sl_type (slq s gl) \<noteq> SYNCH_TYPE_LOCK \<and> sl_type (slq s gl) \<noteq> SYNCH_TYPE_RLOCK then Some s
      else case gl_owner s gl of
        None \<Rightarrow> None
      | Some thr \<Rightarrow>
          let pri = eff_pri (sched s (current_thread s))
          in if sc_cpupri (sched s thr) < pri \<and> sc_inhpri (sched s thr) < pri
             then let (ret, s1) = del_readyq thr s;
                      s2 = upd_sched thr (\<lambda>si. si\<lparr>sc_inhpri := pri\<rparr>) s1;
                      s3 = (if ret = 1 then add_readyq thr s2 else s2)
                  in if sc_state (sched s3 thr) = THREAD_STATE_SLEEP
                     then case kt_slpchannel (kt s3 thr) of
                            None \<Rightarrow> Some s3
                          | Some gl' \<Rightarrow> f gl' s3
                     else Some s3
             else Some s) = Some y"
  have r: "own_same s (if b then add_readyq t (upd_sched t g (snd (del_readyq t s))) else upd_sched t g (snd (del_readyq t s)))" for b t g
    using obj_same_trans[OF obj_same_trans[OF obj_same_del_readyq obj_same_upd(1)] obj_same_add_readyq]
      obj_same_trans[OF obj_same_del_readyq obj_same_upd(1)] own_same_obj by (cases b) auto
  show "own_same s y"
  proof (cases "own_same s y")
    case False
    then obtain thr where thr: "gl_owner s gl = Some thr" using step by (auto simp: own_same_def split: if_splits option.splits)
    define s3 where "s3 = (if fst (del_readyq thr s) = 1
      then add_readyq thr (upd_sched thr (\<lambda>si. si\<lparr>sc_inhpri := eff_pri (sched s (current_thread s))\<rparr>) (snd (del_readyq thr s)))
      else upd_sched thr (\<lambda>si. si\<lparr>sc_inhpri := eff_pri (sched s (current_thread s))\<rparr>) (snd (del_readyq thr s)))"
    have s3: "own_same s s3" unfolding s3_def by (rule r)
    have "y = s \<or> y = s3 \<or> (\<exists>gl'. f gl' s3 = Some y)"
      using step unfolding thr option.case Let_def split_beta s3_def[symmetric] by (auto split: if_splits option.splits)
    then show ?thesis using s3 IH own_same_trans by (auto simp: own_same_def)
  qed
qed

lemma own_same_sleep:
  "lend_priority c (block_current c s) = Some s2 \<Longrightarrow> scheduler s2 = Some s' \<Longrightarrow> own_same s s'"
  by (blast intro: own_same_trans own_same_basic own_same_lend own_same_obj[OF obj_same_scheduler])

text \<open>Taking and giving up.\<close>

lemma gl_owner_take:
  "gl_owner (take_lock l (upd_lockt l (\<lambda>k. k\<lparr>l_val := v\<rparr>) s)) = (gl_owner s)(Lock_obj l := Some (current_thread s))"
  by (rule ext, rename_tac c, case_tac c)
    (simp_all add: take_lock_def Let_def SYNCHOBJ_fields upd_kt_def upd_lockt_def)

lemma gl_owner_release:
  assumes "release_lock l s = Some (n, s')"
  shows "gl_owner s' = (gl_owner s)(Lock_obj l := None)"
proof -
  obtain n1 s1 where w: "wake_all (Lock_obj l) 0 s = Some (n1, s1)"
    and s': "s' = upd_lockt l (\<lambda>k. k\<lparr>l_owner_thread := None, l_val := 0\<rparr>) (DEL_SYNCHOBJ (Lock_obj l) (current_thread s1) s1)"
    using assms by (auto simp: release_lock_def)
  have "own_same s (DEL_SYNCHOBJ (Lock_obj l) (current_thread s1) s1)"
    using own_same_wake_all[OF w] own_same_basic(2) own_same_trans by fastforce
  then show ?thesis unfolding s' by (intro ext, rename_tac c, case_tac c) (simp_all add: own_same_def upd_lockt_def)
qed

lemma owner_step_taken: "gl_owner s c = None \<Longrightarrow> gl_owner s' = (gl_owner s)(c := Some (current_thread s)) \<Longrightarrow> owner_step s s'"
  by (simp add: owner_step_def)

lemma owner_step_given: "gl_owner s c = Some (current_thread s) \<Longrightarrow> gl_owner s' = (gl_owner s)(c := None) \<Longrightarrow> owner_step s s'"
  by (simp add: owner_step_def)

lemma owner_step_trans_same: "owner_step s s1 \<Longrightarrow> own_same s1 s' \<Longrightarrow> owner_step s s'"
  by (simp add: owner_step_def own_same_owner)

lemma owner_step_lock:
  assumes "ginv s Q Ow" "lock_attempt l s = Some (b, s')"
  shows "owner_step s s'"
proof (cases "l_owner_thread (lockt s l) = None")
  case True
  then show ?thesis using assms(2) lock_value(1)[OF assms(1) True]
    by (intro owner_step_taken[of s "Lock_obj l"]) (auto simp: lock_attempt_def test_and_set_01 gl_owner_take)
next
  case False
  then show ?thesis using assms(2) lock_value(2)[OF assms(1) False] own_same_sleep
    by (auto simp: lock_attempt_def test_and_set_01 same_lock_value bind_eq_Some_conv intro!: owner_step_same)
qed

lemma owner_step_trylock:
  assumes "ginv s Q Ow" "trylock l s = (r, s')"
  shows "owner_step s s'"
proof (cases "l_owner_thread (lockt s l) = None")
  case True
  then show ?thesis using assms(2) lock_value(1)[OF assms(1) True]
    by (intro owner_step_taken[of s "Lock_obj l"]) (auto simp: trylock_def test_and_set_01 gl_owner_take)
next
  case False
  then show ?thesis using assms(2) lock_value(2)[OF assms(1) False]
    by (auto simp: trylock_def test_and_set_01 same_lock_value own_same_def intro!: owner_step_same)
qed

lemma owner_step_release:
  assumes "l_owner_thread (lockt s l) = Some (current_thread s)" "release_lock l s = Some (n, s')"
  shows "owner_step s s'"
  by (rule owner_step_given[of s "Lock_obj l"]) (use assms gl_owner_release in auto)

lemma owner_step_unlock:
  assumes "unlock l s = Some (r, s')"
  shows "owner_step s s'"
  using assms unfolding unlock_def
  by (auto split: if_splits intro: owner_step_same[OF own_same_basic(8)] owner_step_trans_same[OF owner_step_release own_same_basic(8)])

lemma owner_step_rlock:
  assumes "ginv s Q Ow" "rlock_attempt l s = Some (b, s')"
  shows "owner_step s s'"
proof (cases "rl_owner_thread (rlockt s l) = None")
  case True
  have "gl_owner s' = (gl_owner s)(Rlock_obj l := Some (current_thread s))"
    using assms(2) lock_value(3)[OF assms(1) True]
    by (auto simp: rlock_attempt_def test_and_set_01 Let_def SYNCHOBJ_fields upd_kt_def upd_rlockt_def gl_owner_def fun_eq_iff split: chan.split)
  then show ?thesis using True by (intro owner_step_taken[of s "Rlock_obj l"]) auto
next
  case False
  note v = lock_value(4)[OF assms(1) False]
  show ?thesis
  proof (cases "rl_owner_thread (rlockt s l) = Some (current_thread s)")
    case True
    then have "s' = upd_rlockt l (\<lambda>k. k\<lparr>rl_level := rl_level k + 1\<rparr>) s"
      using assms(2) v by (simp add: rlock_attempt_def test_and_set_01 same_lock_value Let_def)
    then have "gl_owner s' = gl_owner s" by (auto simp: upd_rlockt_def gl_owner_def fun_eq_iff split: chan.split)
    then show ?thesis by (simp add: owner_step_def)
  next
    case False
    then show ?thesis using assms(2) v own_same_sleep
      by (auto simp: rlock_attempt_def test_and_set_01 same_lock_value Let_def bind_eq_Some_conv intro!: owner_step_same)
  qed
qed

lemma owner_step_runlock:
  assumes "runlock l s = Some (r, s')"
  shows "owner_step s s'"
proof -
  let ?s1 = "upd_rlockt l (\<lambda>k. k\<lparr>rl_level := rl_level k - 1\<rparr>) s"
  have g1: "gl_owner ?s1 = gl_owner s" by (auto simp: upd_rlockt_def gl_owner_def fun_eq_iff split: chan.split)
  consider "s' = drop_inherited s" | "s' = drop_inherited ?s1"
    | n s2 where "rl_owner_thread (rlockt s l) = Some (current_thread s)" "wake_all (Rlock_obj l) 0 ?s1 = Some (n, s2)"
      "s' = drop_inherited (upd_rlockt l (\<lambda>k. k\<lparr>rl_owner_thread := None, rl_val := 0\<rparr>) (DEL_SYNCHOBJ (Rlock_obj l) (current_thread s2) s2))"
    using assms by (auto simp: runlock_def Let_def split: if_splits)
  then show ?thesis
  proof cases
    case 1
    then show ?thesis using own_same_basic(8) owner_step_same by blast
  next
    case 2
    then have "gl_owner s' = gl_owner s" using own_same_owner[OF own_same_basic(8)] g1 by simp
    then show ?thesis by (simp add: owner_step_def)
  next
    case (3 n s2)
    have o: "own_same ?s1 (DEL_SYNCHOBJ (Rlock_obj l) (current_thread s2) s2)"
      using own_same_wake_all[OF 3(2)] own_same_basic(2) own_same_trans by fastforce
    have "gl_owner s' = (gl_owner ?s1)(Rlock_obj l := None)" unfolding 3(3) own_same_owner[OF own_same_basic(8)]
      using o by (intro ext, rename_tac c, case_tac c) (simp_all add: own_same_def upd_rlockt_def)
    then show ?thesis using 3(1) g1 by (intro owner_step_given[of s "Rlock_obj l"]) simp_all
  qed
qed

lemma owner_step_event_sleep:
  assumes "event_sleep e lck s = Some (q, s')"
  shows "owner_step s s'"
proof (cases lck)
  case None
  then show ?thesis using assms own_same_trans[OF own_same_basic(9) own_same_obj[OF obj_same_scheduler]]
    by (auto simp: event_sleep_def intro!: owner_step_same)
next
  case (Some l)
  have w: "owner_step s u" if "release_lock l s = Some (n, s1)" "l_owner_thread (lockt s l) = Some (current_thread s)"
    "scheduler (wait_event e s1) = Some u" for n s1 u
    using owner_step_trans_same[OF owner_step_release[OF that(2,1)] own_same_trans[OF own_same_basic(9) own_same_obj[OF obj_same_scheduler[OF that(3)]]]] .
  have "owner_step s s" by (simp add: owner_step_def)
  then show ?thesis using assms Some w by (auto simp: event_sleep_def bind_eq_Some_conv split: if_splits)
qed

lemma owner_step_timeout:
  assumes "event_wait_remove_thread i e t s = Some s'"
  shows "owner_step s s'"
proof (rule owner_step_same)
  have "own_same s (add_readyq t (upd_kt t f (u\<lparr>tmo_failed := g\<rparr>)))" if "u = upd_eventt e h (unlink_slq c t s)" for f u g h c
  proof -
    have "own_same s (unlink_slq c t s)" by (rule own_same_obj[OF obj_same_queues[OF unlink_slq_same]])
    then have "own_same s u" using that own_same_trans own_same_basic(4) by blast
    then have "own_same s (u\<lparr>tmo_failed := g\<rparr>)" by (simp add: own_same_def)
    then show ?thesis using own_same_trans own_same_basic(3,5) by blast
  qed
  then show "own_same s s'" using assms
    by (auto simp: event_wait_remove_thread_def bind_eq_Some_conv Let_def split: option.splits) (simp_all add: own_same_def)
qed

lemma kstep_owner: "kstep s s' \<Longrightarrow> ginv s Q Ow \<Longrightarrow> owner_step s s'"
proof (induction rule: kstep.induct)
  case (event_wakeup e s r s')
  then obtain n s1 where "wake_event (Event_obj e) 0 s = Some (n, s1)" "s' = upd_eventt e (\<lambda>k. k\<lparr>e_val := 0\<rparr>) s1" by (auto simp: event_wakeup_def)
  then show ?case using own_same_wake_event own_same_basic(4) own_same_trans by (fastforce intro: owner_step_same)
next
  case (ageing s s')
  then have "s' = s \<or> age_from 0 (sched_clock s) (s\<lparr>priocompute := False\<rparr>) = Some s'" by (auto simp: recompute_priorities_def split: if_splits)
  then show ?case using age_from_same by (fastforce simp: own_same_def age_same_def obj_same_def intro!: owner_step_same)
next
  case (preempt s s')
  then show ?case by (blast intro: owner_step_same own_same_obj[OF obj_same_scheduler])
next
  case (tick s s')
  then show ?case by (blast intro: owner_step_same own_same_obj[OF obj_same_rr_cl_tick])
qed (fast intro: owner_step_lock owner_step_trylock owner_step_unlock owner_step_rlock owner_step_runlock owner_step_event_sleep owner_step_timeout)+

section \<open>The state after start-up\<close>

text \<open>
  Thread 0 runs, thread 1 is the idle thread on the last ready queue, every other thread
  slot is unused, no lock is taken and no timer runs.
\<close>

definition boot_sched :: "tid \<Rightarrow> sched_info" where
  "boot_sched t = \<lparr>sc_cid = (if t = 0 then 2 else if t = 1 then 4 else 3), sc_usrpri = 0,
     sc_cpupri = (if t = 0 then 129 else if t = 1 then 0 else 10), sc_inhpri = 0, sc_reccpuusage = 0,
     sc_state = (if t = 0 then THREAD_STATE_RUNNING else if t = 1 then THREAD_STATE_READY else THREAD_STATE_UNUSED),
     sc_tqleft = TIME_QUANTUM, sc_totcpuusage = 0, sc_slpstart = 0, sc_thrreadystart = 0\<rparr>"

definition boot_kern :: kern where
  "boot_kern = \<lparr>kt = (\<lambda>t. \<lparr>kt_schedinf = boot_sched t, kt_synchobjlist = None, kt_slpchannel = None,
       kt_process = 0, kt_qnext = None, kt_qprev = None\<rparr>),
     slq = (\<lambda>c. empty_slq (type_of c)),
     lockt = (\<lambda>_. \<lparr>l_owner_thread = None, l_val = 0\<rparr>),
     rlockt = (\<lambda>_. \<lparr>rl_owner_thread = None, rl_val = 0, rl_level = 0\<rparr>),
     eventt = (\<lambda>_. \<lparr>e_val = 0\<rparr>),
     ready_qhead = (\<lambda>_. None)(31 := Some 1), ready_qtail = (\<lambda>_. None)(31 := Some 1),
     current_thread = 0, current_process = 0, proc_state = (\<lambda>_. PROC_STATE_READY),
     runrun = False, kprunrun = False, priocompute = True, timeoutflag = False, secs = 0, millesecs = 0,
     timers = None,
     tobj = (\<lambda>_. \<lparr>timer_count = 0, timer_handler = None, timer_ownerthread = None, timer_next = None, timer_prev = None\<rparr>),
     tmo_failed = (\<lambda>_. False)\<rparr>"

definition boot_queues :: "qid \<Rightarrow> tid list" where
  "boot_queues = (\<lambda>_. [])(Ready 31 := [1])"

lemma boot_kern_sched [simp]: "sched boot_kern t = boot_sched t"
  by (simp add: boot_kern_def)

lemma boot_kinv: "kinv boot_kern boot_queues"
proof (rule kinvxI, goal_cases)
  case 1
  show ?case
    by (auto simp: kqueues_def dl_queues_def boot_queues_def dll_def knext_def kprev_def boot_kern_def empty_slq_def
        split: qid.split) (case_tac q; simp add: boot_kern_def empty_slq_def)+
next
  case (2 i t)
  then show ?case by (auto simp: boot_queues_def boot_sched_def ready_index_def split: if_splits)
next
  case (3 c t)
  then show ?case by (simp add: boot_queues_def)
next
  case (4 t)
  then show ?case by (auto simp: boot_queues_def boot_sched_def ready_index_def split: if_splits)
next
  case (5 t)
  show ?case by (auto simp: boot_sched_def pri_ok_def maxpri_def)
qed

lemma boot_ginv: "ginv boot_kern boot_queues (\<lambda>_. [])"
proof -
  have "sleep_inv boot_kern boot_queues" by (auto simp: sleep_inv_def boot_sched_def split: if_splits)
  moreover have "value_inv boot_kern boot_queues" by (simp add: value_inv_def boot_kern_def boot_queues_def)
  moreover have "owner_inv boot_kern (\<lambda>_. [])"
    by (auto simp: owner_inv_def owned_def dl_queues_def dll_def last_of_def snext_def sprev_def shead_def gl_owner_def
        boot_kern_def empty_slq_def split: chan.split)
  ultimately show ?thesis using boot_kinv by (simp add: ginv_def)
qed

lemma boot_running: "running boot_kern"
proof -
  have c: "current_thread boot_kern = 0" by (simp add: boot_kern_def)
  have "others_stopped boot_kern" by (auto simp: others_stopped_def c boot_sched_def split: if_splits)
  moreover have "idle_available boot_kern" unfolding idle_available_def by (rule exI[of _ 1]) (simp add: boot_sched_def)
  ultimately show ?thesis by (simp add: running_def c boot_sched_def)
qed

lemma boot_sys_inv: "sys_inv boot_kern"
  using boot_ginv boot_running by (auto simp: sys_inv_def)

text \<open>A state for the priority-inheritance witness: thread 0 of priority 129 sleeps on lock 5,
  which the ready thread 2 of priority 10 owns.\<close>

definition inherit_kern :: kern where
  "inherit_kern = boot_kern\<lparr>
     kt := (kt boot_kern)(
       0 := (kt boot_kern 0)\<lparr>kt_schedinf := (boot_sched 0)\<lparr>sc_state := THREAD_STATE_SLEEP\<rparr>,
              kt_slpchannel := Some (Lock_obj 5)\<rparr>,
       2 := (kt boot_kern 2)\<lparr>kt_schedinf := (boot_sched 2)\<lparr>sc_state := THREAD_STATE_READY\<rparr>,
              kt_synchobjlist := Some (Lock_obj 5)\<rparr>),
     slq := (slq boot_kern)(Lock_obj 5 := (empty_slq SYNCH_TYPE_LOCK)\<lparr>sl_head := Some 0, sl_tail := Some 0\<rparr>),
     lockt := (lockt boot_kern)(5 := \<lparr>l_owner_thread = Some 2, l_val = 1\<rparr>),
     ready_qhead := (ready_qhead boot_kern)(29 := Some 2), ready_qtail := (ready_qtail boot_kern)(29 := Some 2)\<rparr>"

definition inherit_queues :: "qid \<Rightarrow> tid list" where
  "inherit_queues = boot_queues(Ready 29 := [2], Wait (Lock_obj 5) := [0])"

lemma inherit_kinv: "kinv inherit_kern inherit_queues"
proof (rule kinvxI, goal_cases)
  case 1
  have "dll (knext inherit_kern) (kprev inherit_kern) (khead inherit_kern q) (inherit_queues q) (ktail inherit_kern q)" for q
    by (cases q) (auto simp: inherit_kern_def inherit_queues_def boot_queues_def boot_kern_def dll_def knext_def kprev_def
        empty_slq_def)
  moreover have "set (inherit_queues q) \<inter> set (inherit_queues r) = {}" if "q \<noteq> r" for q r
    using that by (auto simp: inherit_queues_def boot_queues_def)
  ultimately show ?case by (simp add: kqueues_def dl_queues_def)
next
  case (2 i t)
  then show ?case
    by (auto simp: inherit_queues_def boot_queues_def inherit_kern_def boot_kern_def boot_sched_def ready_index_def split: if_splits)
next
  case (3 c t)
  then show ?case
    by (auto simp: inherit_queues_def boot_queues_def inherit_kern_def boot_kern_def split: if_splits)
next
  case (4 t)
  then show ?case
    by (auto simp: inherit_queues_def boot_queues_def inherit_kern_def boot_kern_def boot_sched_def ready_index_def split: if_splits)
next
  case (5 t)
  show ?case by (auto simp: inherit_kern_def boot_kern_def boot_sched_def pri_ok_def maxpri_def)
qed

lemma inherit_invs: "sleep_inv inherit_kern inherit_queues" "value_inv inherit_kern inherit_queues"
  "owner_inv inherit_kern ((\<lambda>_. [])(2 := [Lock_obj 5]))"
proof -
  show "sleep_inv inherit_kern inherit_queues"
    by (auto simp: sleep_inv_def inherit_kern_def inherit_queues_def boot_queues_def boot_kern_def boot_sched_def split: if_splits)
  show "value_inv inherit_kern inherit_queues"
    by (auto simp: value_inv_def inherit_kern_def inherit_queues_def boot_queues_def boot_kern_def gl_owner_def
        split: chan.splits if_splits)
  have "dl_queues (snext inherit_kern) (sprev inherit_kern) (shead inherit_kern) (last_of ((\<lambda>_. [])(2 := [Lock_obj 5])))
      ((\<lambda>_. [])(2 := [Lock_obj 5]))"
    by (auto simp: dl_queues_def dll_def last_of_def snext_def sprev_def shead_def inherit_kern_def boot_kern_def empty_slq_def)
  then show "owner_inv inherit_kern ((\<lambda>_. [])(2 := [Lock_obj 5]))"
    by (auto simp: owner_inv_def owned_def snext_def sprev_def gl_owner_def inherit_kern_def boot_kern_def empty_slq_def type_of_def
        split: chan.splits if_splits)
qed





section \<open>Properties\<close>

text \<open>C1: In every state that locks, recursive locks, events, event time-outs, ticks, ageing and scheduling can
  reach: the sleep queues and ready queues are disjoint, properly linked lists, a thread is on a ready queue exactly when it is
  ready, and on the one of its priority; a thread on a sleep queue sleeps on that object and a thread that sleeps on a
  lock is on its queue; a lock without owner has no sleeper (no wake-up is lost), the value of a lock is 1 exactly when it has an
  owner, an event counts its sleepers, the list of objects of a thread holds exactly the locks it owns, and exactly the
  current thread is in the running state. Mutual exclusion: in one further step a lock with an owner keeps it, or its
  owner, being the current thread, gives it up; only a lock without owner is taken, by the current thread.\<close>

theorem reachable_lock_safety:
  assumes "sys_inv s0" "reachable s0 s"
  shows "(\<exists>Q Ow. kqueues s Q \<and>
      (\<forall>t i. t \<in> set (Q (Ready i)) \<longleftrightarrow> sc_state (sched s t) = THREAD_STATE_READY \<and> ready_index (sched s t) = i) \<and>
      (\<forall>t c. t \<in> set (Q (Wait c)) \<longrightarrow> sc_state (sched s t) = THREAD_STATE_SLEEP \<and> kt_slpchannel (kt s t) = Some c) \<and>
      (\<forall>t c. is_lock c \<and> sc_state (sched s t) = THREAD_STATE_SLEEP \<and> kt_slpchannel (kt s t) = Some c \<longrightarrow> t \<in> set (Q (Wait c))) \<and>
      (\<forall>c. is_lock c \<and> gl_owner s c = None \<longrightarrow> Q (Wait c) = []) \<and>
      (\<forall>e. e_val (eventt s e) = of_nat (length (Q (Wait (Event_obj e))))) \<and>
      owned s Ow \<and> (\<forall>c t. c \<in> set (Ow t) \<longleftrightarrow> gl_owner s c = Some t)) \<and>
    (\<forall>l. l_val (lockt s l) = (if l_owner_thread (lockt s l) = None then 0 else 1)) \<and>
    (\<forall>l. rl_val (rlockt s l) = (if rl_owner_thread (rlockt s l) = None then 0 else 1)) \<and>
    (\<forall>t. sc_state (sched s t) = THREAD_STATE_RUNNING \<longleftrightarrow> t = current_thread s) \<and>
    (\<forall>s' c. kstep s s' \<longrightarrow> gl_owner s' c = gl_owner s c \<or>
       gl_owner s c = None \<and> gl_owner s' c = Some (current_thread s) \<or>
       gl_owner s c = Some (current_thread s) \<and> gl_owner s' c = None)"
proof -
  from reachable_inv[OF assms(2,1)] obtain Q Ow where G: "ginv s Q Ow" and R: "running s" by (auto simp: sys_inv_def)
  have K: "kinv s Q" and S: "sleep_inv s Q" and V: "value_inv s Q" and O: "owner_inv s Ow" using G by (simp_all add: ginv_def)
  have "t \<in> set (Q (Ready i)) \<longleftrightarrow> sc_state (sched s t) = THREAD_STATE_READY \<and> ready_index (sched s t) = i" for t i
    using kinvx_ready[OF K, of t i] kinvx_on_queue[OF K, of t] by blast
  moreover have "sc_state (sched s t) = THREAD_STATE_RUNNING \<longleftrightarrow> t = current_thread s" for t
    using R by (auto simp: running_def others_stopped_def)
  moreover note kinvx_queues[OF K] kinvx_wait[OF K]
  moreover have "\<forall>s' c. kstep s s' \<longrightarrow> gl_owner s' c = gl_owner s c \<or>
       gl_owner s c = None \<and> gl_owner s' c = Some (current_thread s) \<or> gl_owner s c = Some (current_thread s) \<and> gl_owner s' c = None"
    using kstep_owner[OF _ G] unfolding owner_step_def by blast
  ultimately show ?thesis using S V O unfolding sleep_inv_def value_inv_def owner_inv_def
    by (intro conjI exI[of _ Q] exI[of _ Ow]) blast+
qed

theorem reachable_lock_safety_witness:
  "\<exists>s. sys_inv boot_kern \<and> kstep boot_kern s \<and> l_owner_thread (lockt s 5) = Some 0 \<and> l_val (lockt s 5) = 1 \<and>
     (\<forall>s'. kstep s s' \<longrightarrow> l_owner_thread (lockt s' 5) = Some 0 \<or> current_thread s = 0 \<and> l_owner_thread (lockt s' 5) = None)"
proof -
  have b: "l_owner_thread (lockt boot_kern 5) = None" "current_thread boot_kern = 0" "\<not> idle_thread boot_kern (current_thread boot_kern)"
    by (simp_all add: boot_kern_def boot_sched_def)
  from lock_attempt_free[OF boot_ginv boot_running b(1)] b(2) obtain s where
    s: "lock_attempt 5 boot_kern = Some (True, s)" "l_owner_thread (lockt s 5) = Some 0" by auto
  have st: "kstep boot_kern s" by (rule kstep.lock[OF b(3) s(1)])
  then have "reachable boot_kern s" by (simp add: reachable_def r_into_rtranclp)
  note safe = reachable_lock_safety[OF boot_sys_inv this]
  have "l_val (lockt s 5) = 1" using safe s(2) by simp
  moreover have "\<forall>s'. kstep s s' \<longrightarrow> gl_owner s' (Lock_obj 5) = gl_owner s (Lock_obj 5) \<or>
    gl_owner s (Lock_obj 5) = None \<and> gl_owner s' (Lock_obj 5) = Some (current_thread s) \<or>
    gl_owner s (Lock_obj 5) = Some (current_thread s) \<and> gl_owner s' (Lock_obj 5) = None" using safe by blast
  ultimately show ?thesis using boot_sys_inv st s(2) by auto
qed

text \<open>C2: In every reachable state every kernel operation returns: no queue walk runs forever
  and no null pointer is followed, neither in the wake-up and search loops nor in the
  priority-inheritance chain nor in the scheduler.\<close>

theorem kernel_operations_return:
  assumes "sys_inv s0" "reachable s0 s" "\<not> idle_thread s (current_thread s)"
  shows "lock_attempt l s \<noteq> None \<and> unlock l s \<noteq> None \<and> rlock_attempt l s \<noteq> None \<and> runlock l s \<noteq> None \<and>
    event_wakeup e s \<noteq> None \<and> event_sleep e lck s \<noteq> None \<and> event_wait_remove_thread i e t s \<noteq> None \<and>
    recompute_priorities s \<noteq> None \<and> scheduler s \<noteq> None"
proof -
  from reachable_inv[OF assms(2,1)] obtain Q Ow where G: "ginv s Q Ow" and R: "running s" by (auto simp: sys_inv_def)
  have "lock_attempt l s \<noteq> None"
    using lock_attempt_free[OF G R, of l] lock_attempt_held[OF G R assms(3), of l]
    by (cases "l_owner_thread (lockt s l)") auto
  moreover have "unlock l s \<noteq> None" "rlock_attempt l s \<noteq> None" "runlock l s \<noteq> None" "event_wakeup e s \<noteq> None"
    "event_sleep e lck s \<noteq> None" "event_wait_remove_thread i e t s \<noteq> None" "recompute_priorities s \<noteq> None" "scheduler s \<noteq> None"
    using unlock_inv[OF G R, of l] rlock_attempt_inv[OF G R assms(3), of l] runlock_inv[OF G R, of l]
      event_wakeup_spec[OF G, of e] event_sleep_inv[OF G R assms(3), of e lck] event_timeout_inv[OF G R, of i e t]
      ageing_inv[OF G R] preempt_inv[OF G R] by auto
  ultimately show ?thesis by blast
qed

theorem kernel_operations_return_witness:
  "sys_inv boot_kern \<and> reachable boot_kern boot_kern \<and> lock_attempt 5 boot_kern \<noteq> None \<and>
   event_sleep 2 (Some 5) boot_kern \<noteq> None \<and> scheduler boot_kern \<noteq> None"
proof -
  have "reachable boot_kern boot_kern" "\<not> idle_thread boot_kern (current_thread boot_kern)"
    by (simp_all add: reachable_def boot_sched_def) (simp add: boot_kern_def)
  with kernel_operations_return[OF boot_sys_inv this, of 5 2 "Some 5"] boot_sys_inv show ?thesis by simp
qed

text \<open>C3: One pass of \<^verbatim>\<open>_lock\<close>.  On a free lock the caller becomes the owner and goes on; on a
  held lock the caller goes to the end of the sleep queue of the lock, nobody's ownership
  changes, and another thread runs.  Both outcomes keep the kernel invariant.\<close>

theorem lock_attempt_correct:
  assumes "ginv s Q Ow" "running s" "\<not> idle_thread s (current_thread s)"
  shows "\<exists>b s' Q' Ow'. lock_attempt l s = Some (b, s') \<and> ginv s' Q' Ow' \<and> running s' \<and>
    b = (l_owner_thread (lockt s l) = None) \<and>
    (if b then l_owner_thread (lockt s' l) = Some (current_thread s) \<and> current_thread s' = current_thread s \<and> Q' = Q
     else lockt s' = lockt s \<and> Q' (Wait (Lock_obj l)) = Q (Wait (Lock_obj l)) @ [current_thread s] \<and>
       current_thread s' \<noteq> current_thread s)"
proof (cases "l_owner_thread (lockt s l) = None")
  case True
  from lock_attempt_free[OF assms(1,2) True] True show ?thesis by auto
next
  case False
  from lock_attempt_held[OF assms False] obtain s' Q' where A: "lock_attempt l s = Some (False, s')" "ginv s' Q' Ow" "running s'"
    "obj_same s s'" "Q' (Wait (Lock_obj l)) = Q (Wait (Lock_obj l)) @ [current_thread s]" by auto
  have "kinv s' Q'" using A(2) by (simp add: ginv_def)
  then have "current_thread s' \<notin> set (Q' (Wait (Lock_obj l)))"
    using kinvx_off_queue[of "{}" s' Q' "current_thread s'"] A(3) by (simp add: running_def)
  then have "current_thread s' \<noteq> current_thread s" using A(5) by auto
  moreover have "lockt s' = lockt s" using A(4) by (simp add: obj_same_def)
  ultimately show ?thesis using A False by (intro exI[of _ False] exI[of _ s'] exI[of _ Q'] exI[of _ Ow]) simp
qed

theorem lock_attempt_correct_witness:
  "\<exists>s'. lock_attempt 5 boot_kern = Some (True, s') \<and> l_owner_thread (lockt s' 5) = Some 0"
proof -
  have "\<not> idle_thread boot_kern (current_thread boot_kern)" "current_thread boot_kern = 0"
    "l_owner_thread (lockt boot_kern 5) = None"
    by (simp_all add: boot_sched_def) (simp_all add: boot_kern_def)
  with lock_attempt_correct[OF boot_ginv boot_running, of 5] show ?thesis by auto
qed



text \<open>C5: Priority inheritance.  With the caller asleep on a lock, \<^verbatim>\<open>lend_priority\<close> returns; only
  threads below the caller's priority change and they get exactly that priority; the
  owner of the lock, and transitively the owner of every lock a raised thread sleeps on,
  ends with at least the caller's priority; ready threads move to the ready queue of
  their new priority.\<close>

theorem lend_priority_correct:
  assumes "kinv s Q" "sleep_inv s Q" "value_inv s Q" "owner_inv s Ow" "is_lock c" "Q (Wait c) \<noteq> []"
  defines "pri \<equiv> eff_pri (sched s (current_thread s))"
  shows "\<exists>s' Q'. lend_priority c s = Some s' \<and> kinv s' Q' \<and> (\<forall>d. Q' (Wait d) = Q (Wait d)) \<and>
    lent pri s s' \<and> lent_closed pri s s' \<and> (\<forall>w. gl_owner s c = Some w \<longrightarrow> pri \<le> eff_pri (sched s' w))"
proof -
  have "gl_owner s d \<noteq> None" if "is_lock d" "Q (Wait d) \<noteq> []" for d using assms(3) that by (auto simp: value_inv_def)
  moreover have "sl_type (slq s d) = type_of d" for d using assms(4) by (simp add: owner_inv_def)
  ultimately show ?thesis
    using lend_priority_spec[of s Q c pri, OF assms(1,2)] assms(6) by (auto simp: pri_def lend_result_def)
qed

theorem lend_priority_correct_witness:
  "eff_pri (sched inherit_kern 2) = 10 \<and> (\<exists>s'. lend_priority (Lock_obj 5) inherit_kern = Some s' \<and> 129 \<le> eff_pri (sched s' 2))"
proof -
  have "inherit_queues (Wait (Lock_obj 5)) \<noteq> []" by (simp add: inherit_queues_def)
  from lend_priority_correct[OF inherit_kinv inherit_invs is_lock_simps(1) this] show ?thesis
    by (auto simp: inherit_kern_def boot_kern_def eff_pri_def boot_sched_def)
qed

text \<open>C6: The scheduler.  It returns; afterwards exactly the current thread runs, with a full
  time quantum.  When it switches, the new thread was the one with the least sum of nice
  value and priority on the first non-empty ready queue, so no ready thread has a queue
  of higher priority; it leaves that queue and a caller that could still run is appended
  to the queue of its priority.  It stays with the caller only when no thread is ready or
  only an idle thread could replace a running one.\<close>

theorem scheduler_correct:
  assumes "kinv s Q" "sleep_inv s Q" "others_stopped s" "idle_available s"
  shows "\<exists>s' Q'. scheduler s = Some s' \<and> kinv s' Q' \<and> running s' \<and>
    (if stays s Q then current_thread s' = current_thread s \<and> Q' = Q
     else \<exists>n j. pick_from s Q 0 = Some n \<and> current_thread s' = n \<and> n \<in> set (Q (Ready j)) \<and>
       (\<forall>t. sc_state (sched s t) = THREAD_STATE_READY \<longrightarrow> j \<le> ready_index (sched s t)) \<and>
       (\<forall>t \<in> set (Q (Ready j)). sched_key s n \<le> sched_key s t) \<and>
       sc_tqleft (sched s' n) = TIME_QUANTUM \<and> Q' = switched s Q n)"
proof -
  from scheduler_runs[OF assms] obtain s' where s': "scheduler s = Some s'" "running s'" by auto
  show ?thesis
  proof (cases "stays s Q")
    case True
    from scheduler_stays[OF assms(1) True] s' True show ?thesis by auto
  next
    case False
    then obtain n where n: "pick_from s Q 0 = Some n" by (auto simp: stays_def split: option.splits)
    from n obtain j where j: "0 \<le> j" "n \<in> set (Q (Ready j))" "\<And>k. 0 \<le> k \<Longrightarrow> k < j \<Longrightarrow> Q (Ready k) = []"
      "\<And>t. t \<in> set (Q (Ready j)) \<Longrightarrow> sched_key s n \<le> sched_key s t" by (rule pick_from_Some) auto
    have "j \<le> ready_index (sched s t)" if r: "sc_state (sched s t) = THREAD_STATE_READY" for t
    proof (rule ccontr)
      assume "\<not> j \<le> ready_index (sched s t)"
      with j(3)[of "ready_index (sched s t)"] ready_index_range[OF kinvx_pri[OF assms(1), of t]]
        kinvx_on_queue[OF assms(1) r] show False by auto
    qed
    with scheduler_switches[OF assms(1) n False] s' j False n show ?thesis by auto
  qed
qed

theorem scheduler_correct_witness:
  "\<exists>s'. scheduler inherit_kern = Some s' \<and> running s' \<and> current_thread s' = 2"
proof -
  have c: "current_thread inherit_kern = 0" by (simp add: inherit_kern_def boot_kern_def)
  have sc: "sched inherit_kern t = (if t = 0 then (boot_sched 0)\<lparr>sc_state := THREAD_STATE_SLEEP\<rparr>
      else if t = 2 then (boot_sched 2)\<lparr>sc_state := THREAD_STATE_READY\<rparr> else boot_sched t)" for t
    by (simp add: inherit_kern_def boot_kern_def)
  have o: "others_stopped inherit_kern" by (auto simp: others_stopped_def sc boot_sched_def split: if_splits)
  have i: "idle_available inherit_kern"
    unfolding idle_available_def by (rule exI[of _ 1]) (simp add: sc boot_sched_def)
  have f: "find (\<lambda>j. inherit_queues (Ready j) \<noteq> []) [0..31] = Some 29"
    by (simp add: inherit_queues_def boot_queues_def upto_rec1)
  then have p: "pick_from inherit_kern inherit_queues 0 = Some 2"
    unfolding pick_from_def by (simp add: inherit_queues_def)
  then have "\<not> stays inherit_kern inherit_queues" by (simp add: stays_def sc c boot_sched_def)
  with scheduler_correct[OF inherit_kinv inherit_invs(1) o i] p show ?thesis by auto
qed

text \<open>C21: Priority ageing.  The once-a-second pass over the ready queues returns and keeps the
  queue invariant; every thread on one of the first 31 queues is aged exactly once: its
  own priority rises by 2, or by 4 after more than three seconds of waiting, up to the
  maximum of its class; nobody else changes, nobody becomes less urgent.\<close>

theorem ageing_correct:
  assumes "kinv s Q" "priocompute s"
  shows "\<exists>s' Q'. recompute_priorities s = Some s' \<and> kinv s' Q' \<and> (\<forall>c. Q' (Wait c) = Q (Wait c)) \<and>
    (\<forall>t. sched s' t = (if sc_state (sched s t) = THREAD_STATE_READY \<and> ready_index (sched s t) < 31
       then aged (sched_clock s) (sched s t) else sched s t) \<and>
       ready_index (sched s' t) \<le> ready_index (sched s t))"
proof -
  have K: "kinv (s\<lparr>priocompute := False\<rparr>) Q" using assms(1) by simp
  have on: "(\<exists>k. 0 \<le> k \<and> k < 31 \<and> t \<in> set (Q (Ready k))) \<longleftrightarrow>
      sc_state (sched s t) = THREAD_STATE_READY \<and> ready_index (sched s t) < 31" for t
    using kinvx_ready[OF assms(1), of t] kinvx_on_queue[OF assms(1), of t] ready_index_range[OF kinvx_pri[OF assms(1), of t]]
    by auto
  from age_from_spec[OF K, of 0 "sched_clock s"] obtain s' Q' where A: "age_from 0 (sched_clock s) (s\<lparr>priocompute := False\<rparr>) = Some s'"
    "kinv s' Q'" "\<forall>c. Q' (Wait c) = Q (Wait c)"
    and sc: "\<And>t. sched s' t = (if sc_state (sched s t) = THREAD_STATE_READY \<and> ready_index (sched s t) < 31
       then aged (sched_clock s) (sched s t) else sched s t)"
    unfolding on by auto
  have "ready_index (sched s' t) \<le> ready_index (sched s t)" for t
    unfolding sc using aged_index[OF kinvx_pri[OF assms(1), of t]] by simp
  with A sc assms(2) show ?thesis by (auto simp: recompute_priorities_def)
qed

theorem ageing_correct_witness: "\<exists>s' Q'. recompute_priorities inherit_kern = Some s' \<and> kinv s' Q' \<and>
  sc_cpupri (sched s' 2) = 12 \<and> sc_cpupri (sched s' 1) = 0"
proof -
  have sc: "sched inherit_kern 2 = (boot_sched 2)\<lparr>sc_state := THREAD_STATE_READY\<rparr>" "sched inherit_kern 1 = boot_sched 1"
    "sched_clock inherit_kern = 0" "priocompute inherit_kern"
    by (simp_all add: inherit_kern_def boot_kern_def sched_clock_def)
  from ageing_correct[OF inherit_kinv sc(4)] obtain s' Q' where A: "recompute_priorities inherit_kern = Some s'" "kinv s' Q'"
    and B: "\<And>t. sched s' t = (if sc_state (sched inherit_kern t) = THREAD_STATE_READY \<and> ready_index (sched inherit_kern t) < 31
       then aged (sched_clock inherit_kern) (sched inherit_kern t) else sched inherit_kern t)" by blast
  have "sc_cpupri (sched s' 2) = 12" "sc_cpupri (sched s' 1) = 0"
    unfolding B sc by (simp_all add: boot_sched_def ready_index_def aged_def maxpri_def)
  with A show ?thesis by blast
qed

text \<open>Suspending a process takes its ready threads off the ready queues but leaves them in
  the ready state, so a later \<^verbatim>\<open>del_readyq\<close> of such a thread (by \<^verbatim>\<open>lend_priority\<close>, when it
  owns a lock somebody needs) empties the ready queue of that priority: every other
  thread queued there is lost.\<close>

theorem suspend_then_del_readyq_drops_queue:
  assumes "kinv s Q" "sc_state (sched s t) = THREAD_STATE_READY" "kt_process (kt s t) = proc"
  shows "\<exists>s'. suspend_threads proc s = Some s' \<and> sc_state (sched s' t) = THREAD_STATE_READY \<and>
    ready_qhead (snd (del_readyq t s')) (ready_index (sched s t)) = None \<and>
    ready_qtail (snd (del_readyq t s')) (ready_index (sched s t)) = None"
proof -
  from suspend_threads_spec[OF assms(1), of proc] obtain s' where s': "suspend_threads proc s = Some s'"
    "\<And>u. sched s' u = sched s u" "kt_qnext (kt s' t) = None" "kt_qprev (kt s' t) = None" using assms by auto
  with del_readyq_unlinked[of s' t] assms show ?thesis by auto
qed

theorem suspend_then_del_readyq_drops_queue_witness:
  "\<exists>s'. suspend_threads 0 inherit_kern = Some s' \<and> ready_qhead (snd (del_readyq 2 s')) 29 = None"
proof -
  have "sc_state (sched inherit_kern 2) = THREAD_STATE_READY" "kt_process (kt inherit_kern 2) = 0"
    "ready_index (sched inherit_kern 2) = 29"
    by (simp_all add: inherit_kern_def boot_kern_def boot_sched_def ready_index_def)
  with suspend_then_del_readyq_drops_queue[OF inherit_kinv, of 2 0] show ?thesis by auto
qed

text \<open>Recursive locks.  \<^verbatim>\<open>rlock\<close> by the owner, or on a free lock, returns with the level one
  higher and the caller as owner; \<^verbatim>\<open>runlock\<close> lowers the level and gives the lock up exactly
  when it was 1, so nested pairs restore the lock.\<close>

theorem rlock_runlock_nested:
  assumes "ginv s Q Ow" "running s" "\<not> idle_thread s (current_thread s)"
    "rl_owner_thread (rlockt s l) = Some (current_thread s)" "rl_level (rlockt s l) = n" "n \<noteq> 0"
  shows "\<exists>s1 s2. rlock_attempt l s = Some (True, s1) \<and> runlock l s1 = Some (ELOCK_SUCCESS, s2) \<and> sys_inv s2 \<and>
    rl_owner_thread (rlockt s2 l) = Some (current_thread s) \<and> rl_level (rlockt s2 l) = n"
proof -
  from rlock_attempt_inv[OF assms(1-3), of l] assms(4,5) obtain s1 Q1 Ow1 where A: "rlock_attempt l s = Some (True, s1)"
    "ginv s1 Q1 Ow1" "running s1" "current_thread s1 = current_thread s" "rl_owner_thread (rlockt s1 l) = Some (current_thread s)"
    "rl_level (rlockt s1 l) = n + 1" by auto
  have ne: "n + 1 \<noteq> 1" using assms(6) by simp
  from runlock_inv[OF A(2,3), of l] A ne obtain s2 Q2 Ow2 where B: "runlock l s1 = Some (ELOCK_SUCCESS, s2)"
    "ginv s2 Q2 Ow2" "running s2" "rl_level (rlockt s2 l) = n" "rl_owner_thread (rlockt s2 l) = Some (current_thread s)" by auto
  with A show ?thesis by (auto simp: sys_inv_def)
qed

theorem rlock_runlock_nested_witness:
  "\<exists>s s1 s2. rlock_attempt 4 boot_kern = Some (True, s) \<and> rlock_attempt 4 s = Some (True, s1) \<and>
     runlock 4 s1 = Some (ELOCK_SUCCESS, s2) \<and> rl_level (rlockt s2 4) = 1"
proof -
  have ni: "\<not> idle_thread boot_kern (current_thread boot_kern)"
    and b: "rl_owner_thread (rlockt boot_kern 4) = None" "rl_level (rlockt boot_kern 4) = 0" "current_thread boot_kern = 0"
    by (simp_all add: boot_kern_def boot_sched_def)
  from rlock_attempt_inv[OF boot_ginv boot_running ni, of 4] b obtain s Q Ow where
    A: "rlock_attempt 4 boot_kern = Some (True, s)" "ginv s Q Ow" "running s" "current_thread s = 0"
      "rl_owner_thread (rlockt s 4) = Some 0" "rl_level (rlockt s 4) = 1" by auto
  have s: "sc_cid (sched s 0) = 2"
    using A(1) by (auto simp: rlock_attempt_def boot_kern_def boot_sched_def test_and_set_def Let_def SYNCHOBJ_fields
        upd_kt_def upd_rlockt_def split: if_splits)
  have "\<not> idle_thread s (current_thread s)" using s A(4) by simp
  from rlock_runlock_nested[OF A(2,3) this, of 4 1] A show ?thesis by auto
qed

text \<open>Waking an event.  Every thread sleeping on the event, and no other, becomes ready;
  the returned count is their number; the event has no waiters left and the waiters of
  every other object stay as they were.\<close>

theorem event_wakeup_correct:
  assumes "ginv s Q Ow"
  shows "\<exists>s' Q'. event_wakeup e s = Some (int (length (Q (Wait (Event_obj e)))), s') \<and> ginv s' Q' Ow \<and>
    (\<forall>d. Q' (Wait d) = (if d = Event_obj e then [] else Q (Wait d))) \<and>
    (\<forall>u. sc_state (sched s' u) = (if u \<in> set (Q (Wait (Event_obj e))) then THREAD_STATE_READY else sc_state (sched s u)))"
  using event_wakeup_spec[OF assms, of e] by (elim exE conjE, intro exI conjI) (assumption | simp)+

theorem event_wakeup_correct_witness:
  "\<exists>s s'. event_sleep 3 None boot_kern = Some (None, s) \<and> (\<exists>n. event_wakeup 3 s = Some (n, s') \<and> 1 \<le> n) \<and>
     sc_state (sched s' 0) = THREAD_STATE_READY"
proof -
  have ni: "\<not> idle_thread boot_kern (current_thread boot_kern)" "current_thread boot_kern = 0"
    by (simp_all add: boot_kern_def boot_sched_def)
  from event_sleep_inv[OF boot_ginv boot_running ni(1), of 3 None] ni(2) obtain s Q Ow where
    A: "event_sleep 3 None boot_kern = Some (None, s)" "ginv s Q Ow" "0 \<in> set (Q (Wait (Event_obj 3)))" by auto
  from event_wakeup_correct[OF A(2), of 3] obtain s' where
    B: "event_wakeup 3 s = Some (int (length (Q (Wait (Event_obj 3)))), s')"
      "\<forall>u. sc_state (sched s' u) = (if u \<in> set (Q (Wait (Event_obj 3))) then THREAD_STATE_READY else sc_state (sched s u))"
    by blast
  have "1 \<le> int (length (Q (Wait (Event_obj 3))))" using A(3) by (cases "Q (Wait (Event_obj 3))") auto
  with A(1,3) B show ?thesis by auto
qed

text \<open>Timeout of a timed event sleep.  If the thread still sleeps on the event it alone is
  removed from the waiters, made ready and told that the wait failed; if it was woken
  before, the handler changes nothing.\<close>

theorem event_timeout_correct:
  assumes "ginv s Q Ow"
  shows "if t \<in> set (Q (Wait (Event_obj e)))
    then \<exists>s' Q'. event_wait_remove_thread i e t s = Some s' \<and> ginv s' Q' Ow \<and> tmo_failed s' i \<and>
      Q' (Wait (Event_obj e)) = remove1 t (Q (Wait (Event_obj e))) \<and>
      (\<forall>u. sc_state (sched s' u) = (if u = t then THREAD_STATE_READY else sc_state (sched s u)))
    else event_wait_remove_thread i e t s = Some s"
  using event_wait_remove_thread_spec[OF assms, of t e i]
  by (cases "t \<in> set (Q (Wait (Event_obj e)))"; simp) (elim exE conjE, intro exI conjI, assumption+, simp+)

theorem event_timeout_correct_witness:
  "\<exists>s s'. event_sleep 3 None boot_kern = Some (None, s) \<and> event_wait_remove_thread 7 3 0 s = Some s' \<and> tmo_failed s' 7 \<and>
     sc_state (sched s' 0) = THREAD_STATE_READY"
proof -
  have ni: "\<not> idle_thread boot_kern (current_thread boot_kern)" "current_thread boot_kern = 0"
    by (simp_all add: boot_kern_def boot_sched_def)
  from event_sleep_inv[OF boot_ginv boot_running ni(1), of 3 None] ni(2) obtain s Q Ow where
    A: "event_sleep 3 None boot_kern = Some (None, s)" "ginv s Q Ow" "0 \<in> set (Q (Wait (Event_obj 3)))" by auto
  from event_timeout_correct[OF A(2), of 0 3 7] A(1,3) show ?thesis by auto
qed

end
