(* ===== verification/Semaphores.thy ===== *)
theory Semaphores
  imports Kernel_Steps
begin

text \<open>
  The semaphores of \<^verbatim>\<open>base/semaphore.c\<close>.  The sleep queue of table entry \<open>i\<close> is the queue
  of the object \<open>Sem_obj i\<close> of the kernel state.  \<open>None\<close> as the result of an operation means
  that the C code has no defined result: it indexes past the end of \<^verbatim>\<open>semtable\<close>, writes past
  the end of a name or follows a null pointer.  A call that takes \<^verbatim>\<open>semtable_lock\<close> or
  \<^verbatim>\<open>timerq_lock\<close> is modelled from the point where \<^verbatim>\<open>_lock\<close> has returned, and a blocking call
  in two parts, before and after its call of \<^verbatim>\<open>scheduler\<close>.
\<close>

unbundle bit_operations_syntax

section \<open>The semaphore table\<close>

record semtable_entry =
  sement_type :: int
  sement_no :: int
  sement_refcount :: int
  sement_destroyflag :: int
  sement_ownerproc :: "nat option"
  sement_val :: int
  sement_name :: "u8 list"

record seminternal_t =
  sem_ind :: int
  sem_no :: int

record semsys =
  skern :: kern
  semtable :: "nat \<Rightarrow> semtable_entry"
  next_semno :: int

definition semtable_lock :: nat where
  "semtable_lock = 1"

definition upd_sem :: "nat \<Rightarrow> (semtable_entry \<Rightarrow> semtable_entry) \<Rightarrow> semsys \<Rightarrow> semsys" where
  "upd_sem i f s = s\<lparr>semtable := (semtable s)(i := f (semtable s i))\<rparr>"

definition semobj_init :: "nat \<Rightarrow> int \<Rightarrow> int \<Rightarrow> semsys \<Rightarrow> semsys" where
  "semobj_init i pshared val s =
     upd_sem i (\<lambda>e. e\<lparr>sement_type := (if pshared = 0 then 0 else 1), sement_refcount := 1, sement_destroyflag := 0,
         sement_ownerproc := Some (current_process (skern s)), sement_val := val, sement_name := []\<rparr>)
       (s\<lparr>skern := upd_slq (Sem_obj i) (\<lambda>_. empty_slq SYNCH_TYPE_SEM) (skern s)\<rparr>)"

text \<open>The first entry of the table with a property; \<open>None\<close> when the index reaches \<^verbatim>\<open>MAXSEM\<close>.\<close>

definition find_entry :: "(semtable_entry \<Rightarrow> bool) \<Rightarrow> semsys \<Rightarrow> nat option" where
  "find_entry P s = find (\<lambda>i. P (semtable s i)) [0..<nat MAXSEM]"

text \<open>\<^verbatim>\<open>s_ent->sement_no = next_semno++\<close>\<close>

definition number_entry :: "nat \<Rightarrow> semsys \<Rightarrow> semsys" where
  "number_entry i s =
     (upd_sem i (\<lambda>e. e\<lparr>sement_no := next_semno s\<rparr>) s)\<lparr>next_semno := to_s32 (next_semno s + 1)\<rparr>"

definition sem_unlock :: "nat \<Rightarrow> semsys \<Rightarrow> semsys option" where
  "sem_unlock l s = map_option (\<lambda>(_, k). s\<lparr>skern := k\<rparr>) (unlock l (skern s))"

definition syscall_sem_init :: "int \<Rightarrow> u32 \<Rightarrow> semsys \<Rightarrow> (int \<times> seminternal_t option \<times> semsys) option" where
  "syscall_sem_init pshared val s =
     (case find_entry (\<lambda>e. sement_no e = 0) s of
        None \<Rightarrow> map_option (\<lambda>s1. (- 1, None, s1)) (sem_unlock semtable_lock s)
      | Some i \<Rightarrow>
          map_option (\<lambda>s1. (0, Some \<lparr>sem_ind = int i, sem_no = sement_no (semtable s1 i)\<rparr>,
              semobj_init i pshared (sint val) s1))
            (sem_unlock semtable_lock (number_entry i s)))"

text \<open>The loop of \<^verbatim>\<open>syscall_sem_destroy\<close> that wakes every sleeper.\<close>

partial_function (option) sem_wake_all :: "chan \<Rightarrow> kern \<Rightarrow> kern option" where
  "sem_wake_all c s =
     (case DEL_SLQ c s of
        (None, s1) \<Rightarrow> Some s1
      | (Some t, s1) \<Rightarrow> sem_wake_all c (wakeup t s1))"

text \<open>
  The common start of the operations: \<^verbatim>\<open>sem_ind\<close> must be between 0 and \<^verbatim>\<open>MAXSEM\<close>, where
  \<^verbatim>\<open>MAXSEM\<close> itself is accepted although the table ends before it.
\<close>

definition sem_slot :: "seminternal_t \<Rightarrow> (nat \<Rightarrow> (int \<times> 'a) option) \<Rightarrow> 'a \<Rightarrow> (int \<times> 'a) option" where
  "sem_slot sem f r =
     (if sem_ind sem < 0 \<or> MAXSEM < sem_ind sem then Some (EINVALID_ARGUMENT, r)
      else if sem_ind sem = MAXSEM then None
      else f (nat (sem_ind sem)))"

definition syscall_sem_destroy :: "seminternal_t \<Rightarrow> semsys \<Rightarrow> (int \<times> semsys) option" where
  "syscall_sem_destroy sem s =
     sem_slot sem (\<lambda>i.
       let e = semtable s i
       in if sem_no sem \<noteq> sement_no e \<or>
             sement_type e = 0 \<and> sement_ownerproc e \<noteq> Some (current_process (skern s))
          then Some (EINVALID_ARGUMENT, s)
          else map_option (\<lambda>k.
                 (0, upd_sem i (\<lambda>e. e\<lparr>sement_type := 0, sement_no := 0, sement_refcount := 0, sement_ownerproc := None,
                        sement_val := 0, sement_name := [], sement_destroyflag := 0\<rparr>)
                      (s\<lparr>skern := upd_slq (Sem_obj i) (\<lambda>q. q\<lparr>sl_type := SYNCH_TYPE_SEM, sl_head := None, sl_tail := None,
                         sl_next := None, sl_prev := None\<rparr>) k\<rparr>)))
               (sem_wake_all (Sem_obj i) (skern s))) s"

section \<open>Named semaphores\<close>

abbreviation (input) O_CREAT :: u32 where "O_CREAT \<equiv> 0x20"
abbreviation (input) O_EXCL :: u32 where "O_EXCL \<equiv> 0x40"
abbreviation (input) SYNCHNAMEMAX :: nat where "SYNCHNAMEMAX \<equiv> 32"

definition syscall_sem_open :: "u8 list \<Rightarrow> u32 \<Rightarrow> u32 \<Rightarrow> semsys \<Rightarrow> (seminternal_t option \<times> semsys) option" where
  "syscall_sem_open name oflag value s =
     (case find_entry (\<lambda>e. sement_name e = name) s of
        None \<Rightarrow>
          if oflag AND O_CREAT = 0 then map_option (Pair None) (sem_unlock semtable_lock s)
          else (case find_entry (\<lambda>e. sement_no e = 0) s of
                  None \<Rightarrow> map_option (Pair None) (sem_unlock semtable_lock s)
                | Some i \<Rightarrow>
                    let s1 = semobj_init i 1 (sint value) (number_entry i s);
                        sem = \<lparr>sem_ind = int i, sem_no = sement_no (semtable s1 i)\<rparr>
                    in if SYNCHNAMEMAX \<le> length name then None
                       else map_option (Pair (Some sem))
                              (sem_unlock semtable_lock (upd_sem i (\<lambda>e. e\<lparr>sement_name := name\<rparr>) s1)))
      | Some i \<Rightarrow>
          if oflag AND O_EXCL \<noteq> 0 then Some (None, s)
          else map_option (Pair (Some \<lparr>sem_ind = int i, sem_no = sement_no (semtable s i)\<rparr>))
                 (sem_unlock semtable_lock
                   (upd_sem i (\<lambda>e. e\<lparr>sement_refcount := to_s32 (sement_refcount e + 1)\<rparr>) s)))"

definition clear_entry :: "semtable_entry \<Rightarrow> semtable_entry" where
  "clear_entry e = e\<lparr>sement_type := 0, sement_no := 0, sement_ownerproc := None, sement_val := 0, sement_name := [],
     sement_refcount := 0, sement_destroyflag := 0\<rparr>"

definition syscall_sem_close :: "seminternal_t \<Rightarrow> semsys \<Rightarrow> (int \<times> semsys) option" where
  "syscall_sem_close sem s =
     sem_slot sem (\<lambda>i.
       let e = semtable s i
       in if sem_no sem \<noteq> sement_no e \<or> sement_type e \<noteq> 1
          then map_option (Pair EINVALID_ARGUMENT) (sem_unlock semtable_lock s)
          else let e1 = e\<lparr>sement_refcount := to_s32 (sement_refcount e - 1)\<rparr>;
                   e2 = (if sement_refcount e1 \<le> 0 \<and> sement_destroyflag e1 = 1 then clear_entry e1 else e1)
               in map_option (Pair 0) (sem_unlock semtable_lock (upd_sem i (\<lambda>_. e2) s))) s"

definition syscall_sem_unlink :: "u8 list \<Rightarrow> semsys \<Rightarrow> (int \<times> semsys) option" where
  "syscall_sem_unlink name s =
     (case find_entry (\<lambda>e. sement_name e = name) s of
        None \<Rightarrow> map_option (Pair ESEMNOTFOUND) (sem_unlock semtable_lock s)
      | Some i \<Rightarrow>
          let e1 = (semtable s i)\<lparr>sement_destroyflag := 1, sement_name := []\<rparr>;
              e2 = (if sement_refcount e1 \<le> 0 then clear_entry e1 else e1)
          in map_option (Pair 0) (sem_unlock semtable_lock (upd_sem i (\<lambda>_. e2) s)))"

section \<open>Waiting and posting\<close>

text \<open>The check of the operations below: the slot must still carry the number of the handle.\<close>

definition sem_checked :: "seminternal_t \<Rightarrow> semsys \<Rightarrow> (nat \<Rightarrow> (int \<times> 'a) option) \<Rightarrow> 'a \<Rightarrow> (int \<times> 'a) option" where
  "sem_checked sem s f r =
     sem_slot sem (\<lambda>i. if sem_no sem \<noteq> sement_no (semtable s i) then Some (EINVALID_ARGUMENT, r) else f i) r"

definition sem_add :: "nat \<Rightarrow> int \<Rightarrow> semsys \<Rightarrow> semsys" where
  "sem_add i d s = upd_sem i (\<lambda>e. e\<lparr>sement_val := to_s32 (sement_val e + d)\<rparr>) s"

definition own_sem :: "nat \<Rightarrow> semsys \<Rightarrow> semsys" where
  "own_sem i s = s\<lparr>skern := ADD_SYNCHOBJ (Sem_obj i) (current_thread (skern s)) (skern s)\<rparr>"

text \<open>
  \<^verbatim>\<open>syscall_sem_wait\<close>.  The first part gives the return value and whether the caller sleeps,
  in which case the second part runs when it is scheduled again.
\<close>

definition syscall_sem_wait :: "seminternal_t \<Rightarrow> semsys \<Rightarrow> (int \<times> bool \<times> semsys) option" where
  "syscall_sem_wait sem s =
     sem_checked sem s (\<lambda>i.
       let s1 = sem_add i (- 1) s
       in if sement_val (semtable s1 i) < 0
          then map_option (\<lambda>k. (0, True, s1\<lparr>skern := k\<rparr>)) (scheduler (block_current (Sem_obj i) (skern s1)))
          else Some (0, False, own_sem i s1)) (False, s)"

definition sem_wait_resumed :: "seminternal_t \<Rightarrow> nat \<Rightarrow> semsys \<Rightarrow> int \<times> semsys" where
  "sem_wait_resumed sem i s =
     (if sem_no sem \<noteq> sement_no (semtable s i) then (- 1, s) else (0, own_sem i s))"

definition syscall_sem_trywait :: "seminternal_t \<Rightarrow> semsys \<Rightarrow> (int \<times> semsys) option" where
  "syscall_sem_trywait sem s =
     sem_checked sem s (\<lambda>i.
       let s1 = sem_add i (- 1) s
       in if sement_val (semtable s1 i) < 0 then Some (- 1, sem_add i 1 s1) else Some (0, own_sem i s1)) s"

definition syscall_sem_post :: "seminternal_t \<Rightarrow> semsys \<Rightarrow> (int \<times> semsys) option" where
  "syscall_sem_post sem s =
     sem_checked sem s (\<lambda>i.
       let s1 = sem_add i 1 (s\<lparr>skern := DEL_SYNCHOBJ (Sem_obj i) (current_thread (skern s)) (skern s)\<rparr>)
       in if sement_val (semtable s1 i) \<le> 0
          then case DEL_SLQ (Sem_obj i) (skern s1) of
                 (None, _) \<Rightarrow> None
               | (Some thr, k) \<Rightarrow> Some (0, s1\<lparr>skern := wakeup thr k\<rparr>)
          else Some (0, s1)) s"

definition syscall_sem_getvalue :: "seminternal_t \<Rightarrow> semsys \<Rightarrow> (int \<times> int option) option" where
  "syscall_sem_getvalue sem s =
     sem_checked sem s (\<lambda>i. Some (0, Some (sement_val (semtable s i)))) None"

section \<open>Waiting with a time limit\<close>

text \<open>The unlinking of \<^verbatim>\<open>th1\<close> in \<^verbatim>\<open>removethread_fromsemwait\<close>.\<close>

definition unlink_sem :: "chan \<Rightarrow> tid \<Rightarrow> kern \<Rightarrow> kern" where
  "unlink_sem c t s =
     (let s1 = (case kt_qnext (kt s t) of
                  Some n \<Rightarrow> upd_kt n (\<lambda>k. k\<lparr>kt_qprev := kt_qprev (kt s t)\<rparr>) s | None \<Rightarrow> s);
          s2 = (case kt_qprev (kt s1 t) of
                  Some p \<Rightarrow> upd_kt p (\<lambda>k. k\<lparr>kt_qnext := kt_qnext (kt s1 t)\<rparr>) s1 | None \<Rightarrow> s1);
          s3 = (if sl_head (slq s2 c) = Some t then upd_slq c (\<lambda>q. q\<lparr>sl_head := kt_qnext (kt s2 t)\<rparr>) s2 else s2);
          s4 = (if sl_tail (slq s3 c) = Some t then upd_slq c (\<lambda>q. q\<lparr>sl_tail := kt_qprev (kt s3 t)\<rparr>) s3 else s3)
      in upd_kt t (\<lambda>k. k\<lparr>kt_qnext := None, kt_qprev := None\<rparr>) s4)"

text \<open>The time-out handler; \<open>x\<close> is the timer whose argument block is passed.\<close>

definition removethread_fromsemwait :: "nat \<Rightarrow> nat \<Rightarrow> tid \<Rightarrow> kern \<Rightarrow> kern option" where
  "removethread_fromsemwait x i th1 s =
     Option.bind (find_waiter s (sl_head (slq s (Sem_obj i))) th1) (\<lambda>th2.
       case th2 of
         None \<Rightarrow> Some s
       | Some _ \<Rightarrow>
           let s1 = unlink_sem (Sem_obj i) th1 s
           in Some (wakeup th1 (s1\<lparr>tmo_failed := (tmo_failed s1)(x := True)\<rparr>)))"

text \<open>\<^verbatim>\<open>syscall_sem_timedwait\<close> before its first \<^verbatim>\<open>_lock\<close>: the timer object on the caller's stack.\<close>

definition sem_timer_init :: "nat \<Rightarrow> nat \<Rightarrow> kern \<Rightarrow> kern" where
  "sem_timer_init x i s =
     upd_tobj x (\<lambda>b. b\<lparr>timer_handler := Some (Tmo_removethread_fromsemwait i (current_thread s)),
         timer_ownerthread := Some (current_thread s), timer_next := None, timer_prev := None\<rparr>)
       (timerobj_init x s)"

text \<open>The inlined unlocking of \<^verbatim>\<open>timerq_lock\<close>.\<close>

definition drop_timerq_lock :: "kern \<Rightarrow> kern option" where
  "drop_timerq_lock s =
     (let s1 = DEL_SYNCHOBJ (Lock_obj timerq_lock) (current_thread s) s;
          s2 = upd_lockt timerq_lock (\<lambda>k. k\<lparr>l_owner_thread := None\<rparr>) s1
      in map_option (\<lambda>(_, s3). upd_lockt timerq_lock (\<lambda>k. k\<lparr>l_val := 0\<rparr>) s3) (wake_all (Lock_obj timerq_lock) 0 s2))"

definition time_delay :: "int \<Rightarrow> int \<Rightarrow> u32 \<Rightarrow> u32" where
  "time_delay tv_sec tv_nsec now = (word_of_int tv_sec - now) * 1000 + word_of_int (c_div tv_nsec 1000000)"

text \<open>The part between the first return of \<^verbatim>\<open>_lock\<close> and the call of \<^verbatim>\<open>scheduler\<close>.\<close>

definition syscall_sem_timedwait :: "nat \<Rightarrow> seminternal_t \<Rightarrow> int \<Rightarrow> int \<Rightarrow> semsys \<Rightarrow> (int \<times> bool \<times> semsys) option" where
  "syscall_sem_timedwait x sem tv_sec tv_nsec s =
     sem_checked sem s (\<lambda>i.
       let s1 = sem_add i (- 1) s
       in if sement_val (semtable s1 i) < 0
          then let msec = time_delay tv_sec tv_nsec (secs (skern s1))
               in if uint msec < 0
                  then map_option (\<lambda>s2. (ETIMEDOUT, False, s2)) (sem_unlock timerq_lock (sem_add i 1 s1))
                  else let k1 = upd_tobj x (\<lambda>b. b\<lparr>timer_count := msec\<rparr>)
                                  ((skern s1)\<lparr>tmo_failed := (tmo_failed (skern s1))(x := False)\<rparr>)
                       in Option.bind (insert_timerobj x k1) (\<lambda>k2.
                          Option.bind (drop_timerq_lock (block_current (Sem_obj i) k2)) (\<lambda>k3.
                          map_option (\<lambda>k4. (0, True, s1\<lparr>skern := k4\<rparr>)) (scheduler k3)))
          else map_option (\<lambda>s2. (0, False, s2)) (sem_unlock timerq_lock (own_sem i s1))) (False, s)"

text \<open>The part after the caller holds \<^verbatim>\<open>timerq_lock\<close> again.\<close>

definition sem_timedwait_resumed :: "nat \<Rightarrow> seminternal_t \<Rightarrow> nat \<Rightarrow> semsys \<Rightarrow> (int \<times> semsys) option" where
  "sem_timedwait_resumed x sem i s =
     (let k = skern s;
          k1 = (if 0 \<le> sint (timer_count (tobj k x))
                then (remove_timerobj x k)\<lparr>tmo_failed := (tmo_failed k)(x := False)\<rparr> else k)
      in map_option (\<lambda>s2.
           if sem_no sem \<noteq> sement_no (semtable s2 i) then (- 1, s2)
           else if tmo_failed (skern s2) x then (ETIMEDOUT, s2) else (0, own_sem i s2))
         (sem_unlock timerq_lock (s\<lparr>skern := k1\<rparr>)))"

section \<open>The invariant\<close>

text \<open>A negative value counts the sleepers; a semaphore with a non-negative value has none.  Values are 32-bit integers.\<close>

definition sem_inv :: "semsys \<Rightarrow> (qid \<Rightarrow> tid list) \<Rightarrow> bool" where
  "sem_inv s Q \<longleftrightarrow> kinv (skern s) Q \<and> sleep_inv (skern s) Q \<and>
     (\<forall>i < nat MAXSEM. int (length (Q (Wait (Sem_obj i)))) = max 0 (- sement_val (semtable s i)) \<and>
        sement_val (semtable s i) < 2 ^ 31)"

definition sem_valid :: "seminternal_t \<Rightarrow> semsys \<Rightarrow> nat \<Rightarrow> bool" where
  "sem_valid sem s i \<longleftrightarrow> sem_ind sem = int i \<and> i < nat MAXSEM \<and> sem_no sem = sement_no (semtable s i)"

lemma sem_checked_valid: "sem_valid sem s i \<Longrightarrow> sem_checked sem s f r = f i"
  by (simp add: sem_valid_def sem_checked_def sem_slot_def)

lemma sem_add_fields [simp]:
  "skern (sem_add i d s) = skern s"
  "sement_val (semtable (sem_add i d s) j) = (if j = i then to_s32 (sement_val (semtable s i) + d) else sement_val (semtable s j))"
  "sement_no (semtable (sem_add i d s) j) = sement_no (semtable s j)"
  by (simp_all add: sem_add_def upd_sem_def)

lemma own_sem_fields [simp]:
  "skern (own_sem i s) = ADD_SYNCHOBJ (Sem_obj i) (current_thread (skern s)) (skern s)" "semtable (own_sem i s) = semtable s"
  by (simp_all add: own_sem_def)

lemma kinvx_ADD_SYNCHOBJ: "kinvx X s Q \<Longrightarrow> kinvx X (ADD_SYNCHOBJ c t s) Q"
  by (rule kinvx_fields[of _ s]) (auto simp: ADD_SYNCHOBJ_def field_defs split: option.split)

lemma sleep_inv_SYNCHOBJ: "sleep_inv s Q \<Longrightarrow> sleep_inv (ADD_SYNCHOBJ c t s) Q" "sleep_inv s Q \<Longrightarrow> sleep_inv (DEL_SYNCHOBJ c t s) Q"
  by (auto simp: sleep_inv_def SYNCHOBJ_fields)

lemma running_SYNCHOBJ: "running s \<Longrightarrow> running (ADD_SYNCHOBJ c t s)" "running s \<Longrightarrow> running (DEL_SYNCHOBJ c t s)"
  by (simp_all add: running_def others_stopped_def idle_available_def SYNCHOBJ_fields)

text \<open>A sleep on a semaphore and the switch to the next thread.\<close>

lemma block_on_sem:
  assumes K: "kinv s Q" "sleep_inv s Q" and R: "running s" and ni: "\<not> idle_thread s (current_thread s)"
  shows "\<exists>s' Q'. scheduler (block_current c s) = Some s' \<and> kinv s' Q' \<and> sleep_inv s' Q' \<and> running s' \<and>
    (\<forall>d. Q' (Wait d) = (Q(Wait c := Q (Wait c) @ [current_thread s])) (Wait d))"
proof -
  have r: "sc_state (sched s (current_thread s)) = THREAD_STATE_RUNNING" using R by (simp add: running_def)
  note B = block_current_spec[OF K r, where c = c]
  have "others_stopped (block_current c s)" "idle_available (block_current c s)"
    by (rule idle_others_after_wait[OF R ni B(4)]; simp add: B(5))+
  from scheduler_runs[OF B(1,2) this] show ?thesis by blast
qed

lemma length_wait: "kinv s Q \<Longrightarrow> length (Q q) \<le> 256"
proof -
  assume "kinv s Q"
  then have "distinct (Q q)" using kqueues_distinct[OF kinvx_queues] by blast
  then have "length (Q q) = card (set (Q q))" by (simp add: distinct_card)
  also have "\<dots> \<le> card (UNIV :: tid set)" by (rule card_mono) simp_all
  finally show ?thesis by (simp add: card_word)
qed

lemma sem_invD:
  assumes "sem_inv s Q"
  shows "kinv (skern s) Q" "sleep_inv (skern s) Q"
    "i < nat MAXSEM \<Longrightarrow> int (length (Q (Wait (Sem_obj i)))) = max 0 (- sement_val (semtable s i))"
    "i < nat MAXSEM \<Longrightarrow> sement_val (semtable s i) < 2 ^ 31"
  using assms unfolding sem_inv_def by blast+

lemma sem_invI:
  assumes "kinv (skern s) Q" "sleep_inv (skern s) Q"
    "\<And>i. i < nat MAXSEM \<Longrightarrow> int (length (Q (Wait (Sem_obj i)))) = max 0 (- sement_val (semtable s i))"
    "\<And>i. i < nat MAXSEM \<Longrightarrow> sement_val (semtable s i) < 2 ^ 31"
  shows "sem_inv s Q"
  using assms unfolding sem_inv_def by blast

lemma sem_inv_bound:
  assumes "sem_inv s Q" "i < nat MAXSEM"
  shows "- 256 \<le> sement_val (semtable s i)"
  using length_wait[OF sem_invD(1)[OF assms(1)], of "Wait (Sem_obj i)"] sem_invD(3)[OF assms] by linarith

lemma sem_add_val:
  assumes "sem_inv s Q" "i < nat MAXSEM" "- 1 \<le> d" "sement_val (semtable s i) + d < 2 ^ 31"
  shows "sement_val (semtable (sem_add i d s) i) = sement_val (semtable s i) + d"
  using sem_inv_bound[OF assms(1,2)] assms(3,4) by (simp add: to_s32_id)

section \<open>Waiting and posting: properties\<close>

lemma sem_wait_spec:
  assumes I: "sem_inv s Q" and R: "running (skern s)" and ni: "\<not> idle_thread (skern s) (current_thread (skern s))"
    and v: "sem_valid sem s i"
  shows "\<exists>b s' Q'. syscall_sem_wait sem s = Some (0, b, s') \<and> sem_inv s' Q' \<and> running (skern s') \<and>
    b = (sement_val (semtable s i) \<le> 0) \<and> sement_val (semtable s' i) = sement_val (semtable s i) - 1 \<and>
    (b \<longrightarrow> Q' (Wait (Sem_obj i)) = Q (Wait (Sem_obj i)) @ [current_thread (skern s)]) \<and>
    (\<not> b \<longrightarrow> current_thread (skern s') = current_thread (skern s) \<and> Q' = Q)"
proof -
  note D = sem_invD[OF I]
  have i: "i < nat MAXSEM" using v by (simp add: sem_valid_def)
  let ?s1 = "sem_add i (- 1) s" and ?v = "sement_val (semtable s i)"
  have v1: "sement_val (semtable ?s1 j) = (if j = i then ?v - 1 else sement_val (semtable s j))" for j
    using sem_add_val[OF I i, of "- 1"] D(4)[OF i] by (cases "j = i") (simp_all del: sem_add_fields(2), simp)
  show ?thesis
  proof (cases "?v \<le> 0")
    case True
    from block_on_sem[OF D(1,2) R ni, of "Sem_obj i"] obtain k Q' where
      A: "scheduler (block_current (Sem_obj i) (skern s)) = Some k" "kinv k Q'" "sleep_inv k Q'" "running k"
      and q: "\<And>d. Q' (Wait d) = (Q(Wait (Sem_obj i) := Q (Wait (Sem_obj i)) @ [current_thread (skern s)])) (Wait d)" by blast
    have "sem_inv (?s1\<lparr>skern := k\<rparr>) Q'"
      by (rule sem_invI) (use A D(3,4) True in \<open>auto simp: q v1 simp del: sem_add_fields(2)\<close>)
    moreover have "syscall_sem_wait sem s = Some (0, True, ?s1\<lparr>skern := k\<rparr>)"
      using A(1) v1[of i] True by (simp add: syscall_sem_wait_def sem_checked_valid[OF v] Let_def del: sem_add_fields(2))
    ultimately show ?thesis using A(4) q[of "Sem_obj i"] v1[of i] True
      by (intro exI[of _ True] exI[of _ "?s1\<lparr>skern := k\<rparr>"] exI[of _ Q']) (simp del: sem_add_fields(2))
  next
    case False
    have "sem_inv (own_sem i ?s1) Q"
      by (rule sem_invI) (use D D(4)[OF i] False in \<open>auto simp: v1 kinvx_ADD_SYNCHOBJ sleep_inv_SYNCHOBJ simp del: sem_add_fields(2)\<close>)
    moreover have "syscall_sem_wait sem s = Some (0, False, own_sem i ?s1)"
      using v1[of i] False by (simp add: syscall_sem_wait_def sem_checked_valid[OF v] Let_def del: sem_add_fields(2))
    ultimately show ?thesis using R v1[of i] False
      by (intro exI[of _ False] exI[of _ "own_sem i ?s1"] exI[of _ Q])
        (simp add: running_SYNCHOBJ SYNCHOBJ_fields del: sem_add_fields(2))
  qed
qed


text \<open>C12: Waiting on a semaphore decrements its value.  The caller goes on at once exactly when the value was
  positive; otherwise it becomes the last sleeper of the semaphore and another thread
  runs.  The negative value always counts the sleepers.\<close>

theorem sem_wait_correct:
  assumes I: "sem_inv s Q" and R: "running (skern s)" and ni: "\<not> idle_thread (skern s) (current_thread (skern s))"
    and v: "sem_valid sem s i"
  shows "\<exists>b s' Q'. syscall_sem_wait sem s = Some (0, b, s') \<and> sem_inv s' Q' \<and> running (skern s') \<and>
    b = (sement_val (semtable s i) \<le> 0) \<and> sement_val (semtable s' i) = sement_val (semtable s i) - 1 \<and>
    (b \<longrightarrow> Q' (Wait (Sem_obj i)) = Q (Wait (Sem_obj i)) @ [current_thread (skern s)]) \<and>
    (\<not> b \<longrightarrow> current_thread (skern s') = current_thread (skern s) \<and> Q' = Q)"
  using assms by (rule sem_wait_spec)

lemma wakeup_fields:
  assumes "pri_ok (sched s t)" "proc_state s (kt_process (kt s t)) = PROC_STATE_READY"
  shows "sc_state (sched (wakeup t s) u) = (if u = t then THREAD_STATE_READY else sc_state (sched s u))"
    "u \<noteq> t \<Longrightarrow> kt_slpchannel (kt (wakeup t s) u) = kt_slpchannel (kt s u)" "kt_slpchannel (kt (wakeup t s) t) = None"
    "current_thread (wakeup t s) = current_thread s"
  using assms(2)
  by (simp_all add: wakeup_def rr_cl_wakeup_eq[OF assms(1)] add_readyq_def Let_def field_defs queue_fields)

lemma sleep_inv_wakeup:
  assumes S: "sleep_inv s Q" and t: "pri_ok (sched s t)" "proc_state s (kt_process (kt s t)) = PROC_STATE_READY"
    and q: "\<And>c. Q' (Wait c) = Q (Wait c)"
  shows "sleep_inv (wakeup t s) Q'"
  using S unfolding sleep_inv_def q wakeup_fields(1)[OF t] by (metis wakeup_fields(2)[OF t] thread_state.distinct(1) thread_state.distinct(3) thread_state.simps)

lemma SYNCHOBJ_proc:
  "kt_process (kt (DEL_SYNCHOBJ c t s) u) = kt_process (kt s u)" "proc_state (DEL_SYNCHOBJ c t s) = proc_state s"
  by (auto simp: DEL_SYNCHOBJ_def field_defs split: option.split)

text \<open>C13: Posting a semaphore returns 0 and increments its value.  When threads sleep on it, the one that has
  slept longest, and no other, becomes ready and leaves the queue.\<close>

theorem sem_post_correct:
  assumes I: "sem_inv s Q" and v: "sem_valid sem s i" and m: "sement_val (semtable s i) < 2 ^ 31 - 1"
    and p: "Q (Wait (Sem_obj i)) \<noteq> [] \<longrightarrow>
      proc_state (skern s) (kt_process (kt (skern s) (hd (Q (Wait (Sem_obj i)))))) = PROC_STATE_READY"
  shows "\<exists>s' Q'. syscall_sem_post sem s = Some (0, s') \<and> sem_inv s' Q' \<and>
    sement_val (semtable s' i) = sement_val (semtable s i) + 1 \<and>
    (\<forall>d. Q' (Wait d) = (if d = Sem_obj i then tl (Q (Wait d)) else Q (Wait d))) \<and>
    (\<forall>u. sc_state (sched (skern s') u) = (if Q (Wait (Sem_obj i)) \<noteq> [] \<and> u = hd (Q (Wait (Sem_obj i)))
       then THREAD_STATE_READY else sc_state (sched (skern s) u)))"
proof -
  note D = sem_invD[OF I]
  have i: "i < nat MAXSEM" using v by (simp add: sem_valid_def)
  let ?c = "Sem_obj i" and ?v = "sement_val (semtable s i)"
  let ?k = "DEL_SYNCHOBJ (Sem_obj i) (current_thread (skern s)) (skern s)"
  let ?s1 = "sem_add i 1 (s\<lparr>skern := ?k\<rparr>)"
  have v1: "sement_val (semtable ?s1 j) = (if j = i then ?v + 1 else sement_val (semtable s j))" for j
    using sem_inv_bound[OF I i] m by (simp add: to_s32_id)
  have K: "kinv ?k Q" "sleep_inv ?k Q" using kinvx_DEL_SYNCHOBJ[OF D(1)] sleep_inv_SYNCHOBJ(2)[OF D(2)] by blast+
  note f2 = sem_add_fields(2)
  show ?thesis
  proof (cases "Q (Wait ?c)")
    case Nil
    then have nv: "0 \<le> ?v" using D(3)[OF i] by auto
    have "syscall_sem_post sem s = Some (0, ?s1)"
      using v1[of i] nv by (simp add: syscall_sem_post_def sem_checked_valid[OF v] Let_def del: f2)
    moreover have "sem_inv ?s1 Q"
      by (rule sem_invI) (use K D(3,4) m nv Nil in \<open>auto simp: v1 simp del: f2\<close>)
    ultimately show ?thesis using v1[of i] Nil
      by (intro exI[of _ ?s1] exI[of _ Q]) (simp add: SYNCHOBJ_fields del: f2)
  next
    case (Cons t ts)
    then have nv: "?v < 0" using D(3)[OF i] by auto
    let ?Q2 = "Q(Wait ?c := ts)"
    obtain k2 where h: "DEL_SLQ ?c ?k = (Some t, k2)"
      using DEL_SLQ_head(1)[OF kinvx_queues[OF K(1)] Cons] by (cases "DEL_SLQ ?c ?k") simp
    then have e: "k2 = snd (DEL_SLQ ?c ?k)" by simp
    note L = kinvx_DEL_SLQ[OF K(1) Cons, folded e]
    have pr: "proc_state k2 (kt_process (kt k2 t)) = PROC_STATE_READY"
      using p Cons by (simp add: e queue_fields SYNCHOBJ_proc)
    have po: "pri_ok (sched k2 t)" by (rule kinvx_pri[OF L(1)])
    have sl: "sleep_inv k2 ?Q2"
      using K(2) Cons unfolding sleep_inv_def by (auto simp: e queue_fields)
    let ?s' = "?s1\<lparr>skern := wakeup t k2\<rparr>"
    from kinvx_wakeup[OF L(1) L(2) pr] obtain Q' where W: "kinv (wakeup t k2) Q'" and q: "\<And>d. Q' (Wait d) = ?Q2 (Wait d)"
      by (auto simp: Cons)
    have "syscall_sem_post sem s = Some (0, ?s')"
      using v1[of i] nv h by (simp add: syscall_sem_post_def sem_checked_valid[OF v] Let_def del: f2)
    moreover have "sem_inv ?s' Q'"
    proof (rule sem_invI)
      show "kinv (skern ?s') Q'" using W by simp
      show "sleep_inv (skern ?s') Q'" using sleep_inv_wakeup[OF sl po pr q] by simp
    qed (use D(3,4) D(3)[OF i] nv Cons in \<open>auto simp: q v1 simp del: f2\<close>)
    moreover have "sc_state (sched (skern ?s') u) = (if u = t then THREAD_STATE_READY else sc_state (sched (skern s) u))" for u
      using wakeup_fields(1)[OF po pr, of u] by (simp add: e queue_fields SYNCHOBJ_fields)
    ultimately show ?thesis using v1[of i] Cons q
      by (intro exI[of _ ?s'] exI[of _ Q']) (simp del: f2)
  qed
qed

text \<open>The state at boot: every semaphore slot is free.\<close>

definition boot_sems :: semsys where
  "boot_sems = \<lparr>skern = boot_kern, semtable = (\<lambda>_. \<lparr>sement_type = 0, sement_no = 0, sement_refcount = 0,
     sement_destroyflag = 0, sement_ownerproc = None, sement_val = 0, sement_name = []\<rparr>), next_semno = 1\<rparr>"

text \<open>Slot 3 in use with number 7 and value \<open>v\<close>.\<close>

definition one_sem :: "int \<Rightarrow> semsys" where
  "one_sem v = upd_sem 3 (\<lambda>e. e\<lparr>sement_no := 7, sement_val := v\<rparr>) boot_sems"

lemma one_sem_inv: "0 \<le> v \<Longrightarrow> v < 2 ^ 31 \<Longrightarrow> sem_inv (one_sem v) boot_queues"
  using boot_ginv
  by (intro sem_invI) (auto simp: one_sem_def boot_sems_def upd_sem_def ginv_def boot_queues_def)

lemma one_sem_fields [simp]:
  "skern (one_sem v) = boot_kern" "sement_val (semtable (one_sem v) 3) = v"
  "sem_valid \<lparr>sem_ind = 3, sem_no = 7\<rparr> (one_sem v) 3"
  by (simp_all add: one_sem_def boot_sems_def upd_sem_def sem_valid_def)

theorem sem_wait_correct_witness:
  "\<exists>s'. syscall_sem_wait \<lparr>sem_ind = 3, sem_no = 7\<rparr> (one_sem 0) = Some (0, True, s') \<and> sement_val (semtable s' 3) = - 1"
proof -
  have "\<not> idle_thread (skern (one_sem 0)) (current_thread (skern (one_sem 0)))" by (simp add: boot_kern_def boot_sched_def)
  from sem_wait_correct[OF one_sem_inv _ this one_sem_fields(3)] boot_running show ?thesis by auto
qed

theorem sem_post_correct_witness:
  "\<exists>s'. syscall_sem_post \<lparr>sem_ind = 3, sem_no = 7\<rparr> (one_sem 0) = Some (0, s') \<and> sement_val (semtable s' 3) = 1"
  using sem_post_correct[OF one_sem_inv one_sem_fields(3)] by (fastforce simp: boot_queues_def)

lemma slq_readyq [simp]: "slq (add_readyq t s) = slq s" "slq (rr_cl_wakeup t s) = slq s"
  by (simp_all add: add_readyq_def append_readyq_def rr_cl_wakeup_def field_defs split: option.split)

lemma slq_wakeup: "slq (wakeup t s) = slq s"
  by (simp add: wakeup_def Let_def upd_sched_def upd_kt_def)

lemma sem_post_null:
  assumes v: "sem_valid sem s i" and "sement_val (semtable s i) = - 1" "sl_head (slq (skern s) (Sem_obj i)) = None"
  shows "syscall_sem_post sem s = None"
proof -
  let ?k = "DEL_SYNCHOBJ (Sem_obj i) (current_thread (skern s)) (skern s)"
  have "sl_head (slq ?k (Sem_obj i)) = None" using assms(3) by (auto simp: DEL_SYNCHOBJ_def field_defs split: option.split)
  then have "fst (DEL_SLQ (Sem_obj i) ?k) = None" by (simp add: DEL_SLQ_def)
  then show ?thesis
    using assms(2) by (cases "DEL_SLQ (Sem_obj i) ?k") (simp add: syscall_sem_post_def sem_checked_valid[OF v] Let_def to_s32_def)
qed

text \<open>A time-out takes the sleeper off the queue but leaves the value negative, so the next post finds no
  thread to wake and calls \<^verbatim>\<open>wakeup\<close> with a null pointer.\<close>

theorem sem_timeout_then_post_null:
  assumes I: "sem_inv s Q" and v: "sem_valid sem s i" and q: "Q (Wait (Sem_obj i)) = [t]"
    and p: "proc_state (skern s) (kt_process (kt (skern s) t)) = PROC_STATE_READY"
  shows "\<exists>k. removethread_fromsemwait x i t (skern s) = Some k \<and> syscall_sem_post sem (s\<lparr>skern := k\<rparr>) = None"
proof -
  note D = sem_invD[OF I]
  have i: "i < nat MAXSEM" using v by (simp add: sem_valid_def)
  have val: "sement_val (semtable s i) = - 1" using D(3)[OF i] q by auto
  let ?c = "Sem_obj i" and ?k = "skern s"
  have KQ: "kqueues ?k Q" by (rule kinvx_queues[OF D(1)])
  have ht: "sl_head (slq ?k ?c) = Some t" using kqueues_slq_head[OF KQ, of ?c] q by simp
  have ln: "kt_qnext (kt ?k t) = None" "kt_qprev (kt ?k t) = None"
    using kqueues_head_links[OF KQ q] by (simp_all add: knext_def kprev_def)
  have fw: "find_waiter ?k (sl_head (slq ?k ?c)) t = Some (Some t)"
    using find_waiter_spec[OF kqueues_chain[OF KQ, of "Wait ?c"], of t] q by simp
  let ?u = "unlink_sem ?c t ?k"
  have u: "sl_head (slq ?u ?c) = None" using ln ht by (simp add: unlink_sem_def field_defs)
  let ?w = "?u\<lparr>tmo_failed := (tmo_failed ?u)(x := True)\<rparr>"
  have w: "slq (wakeup t ?w) = slq ?u"
    by (simp add: slq_wakeup)
  have "syscall_sem_post sem (s\<lparr>skern := wakeup t ?w\<rparr>) = None"
    by (rule sem_post_null) (use v val u w in \<open>simp_all add: sem_valid_def\<close>)
  moreover have "removethread_fromsemwait x i t ?k = Some (wakeup t ?w)"
    using fw by (simp add: removethread_fromsemwait_def Let_def)
  ultimately show ?thesis by blast
qed

theorem sem_timeout_then_post_null_witness:
  "\<exists>s k. syscall_sem_wait \<lparr>sem_ind = 3, sem_no = 7\<rparr> (one_sem 0) = Some (0, True, s) \<and>
     removethread_fromsemwait 9 3 0 (skern s) = Some k \<and>
     syscall_sem_post \<lparr>sem_ind = 3, sem_no = 7\<rparr> (s\<lparr>skern := k\<rparr>) = None"
proof -
  let ?sem = "\<lparr>sem_ind = 3, sem_no = 7\<rparr>"
  have c: "current_thread boot_kern = 0" "\<not> idle_thread boot_kern 0" "boot_queues (Wait (Sem_obj 3)) = []"
    by (simp_all add: boot_kern_def boot_sched_def boot_queues_def)
  have n: "running (skern (one_sem 0))" "\<not> idle_thread (skern (one_sem 0)) (current_thread (skern (one_sem 0)))"
    using boot_running c by simp_all
  have I: "sem_inv (one_sem 0) boot_queues" by (rule one_sem_inv) simp_all
  from sem_wait_spec[OF I n one_sem_fields(3)] obtain b s Q where
    A0: "syscall_sem_wait ?sem (one_sem 0) = Some (0, b, s)" "sem_inv s Q" "b = (sement_val (semtable (one_sem 0) 3) \<le> 0)"
      "b \<longrightarrow> Q (Wait (Sem_obj 3)) = boot_queues (Wait (Sem_obj 3)) @ [current_thread (skern (one_sem 0))]" by blast
  then have A: "syscall_sem_wait ?sem (one_sem 0) = Some (0, True, s)" "sem_inv s Q" "Q (Wait (Sem_obj 3)) = [0]"
    using c by simp_all
  have "syscall_sem_wait ?sem (one_sem 0) = map_option (\<lambda>k. (0, True, (sem_add 3 (- 1) (one_sem 0))\<lparr>skern := k\<rparr>))
      (scheduler (block_current (Sem_obj 3) boot_kern))"
    by (simp add: syscall_sem_wait_def sem_checked_valid[OF one_sem_fields(3)] to_s32_def)
  with A(1) obtain k where k: "s = (sem_add 3 (- 1) (one_sem 0))\<lparr>skern := k\<rparr>"
    "scheduler (block_current (Sem_obj 3) boot_kern) = Some k" by auto
  have v: "sem_valid ?sem s 3" using one_sem_fields(3)[of 0] by (simp add: k(1) sem_valid_def)
  have "obj_same boot_kern (block_current (Sem_obj 3) boot_kern)"
    by (rule block_current_spec(3)[of _ boot_queues]) (use boot_ginv boot_running in \<open>simp_all add: ginv_def running_def\<close>)
  from obj_same_trans[OF this obj_same_scheduler[OF k(2)]]
  have "proc_state (skern s) (kt_process (kt (skern s) 0)) = PROC_STATE_READY"
    by (simp add: k(1) obj_same_def boot_kern_def)
  from sem_timeout_then_post_null[OF A(2) v A(3) this, of 9] A(1) show ?thesis by blast
qed

text \<open>Every operation accepts the index \<^verbatim>\<open>MAXSEM\<close>, one past the last entry of the table, and then works on
  memory behind the table.\<close>

theorem sem_index_past_end:
  assumes "sem_ind sem = MAXSEM"
  shows "syscall_sem_wait sem s = None \<and> syscall_sem_trywait sem s = None \<and> syscall_sem_post sem s = None \<and>
    syscall_sem_timedwait x sem a b s = None \<and> syscall_sem_getvalue sem s = None \<and>
    syscall_sem_destroy sem s = None \<and> syscall_sem_close sem s = None"
  using assms
  by (simp add: syscall_sem_wait_def syscall_sem_trywait_def syscall_sem_post_def syscall_sem_timedwait_def
      syscall_sem_getvalue_def syscall_sem_destroy_def syscall_sem_close_def sem_checked_def sem_slot_def)

theorem sem_index_past_end_witness: "syscall_sem_wait \<lparr>sem_ind = 50, sem_no = 0\<rparr> boot_sems = None"
  using sem_index_past_end[of "\<lparr>sem_ind = 50, sem_no = 0\<rparr>" boot_sems] by simp

text \<open>Opening an existing named semaphore with \<^verbatim>\<open>O_EXCL\<close> fails without giving \<^verbatim>\<open>semtable_lock\<close> back: the
  caller still owns it when the call returns.\<close>

theorem sem_open_excl_keeps_lock:
  assumes "find_entry (\<lambda>e. sement_name e = name) s = Some i" "oflag AND O_EXCL \<noteq> 0"
    "l_owner_thread (lockt (skern s) semtable_lock) = Some t"
  shows "\<exists>s'. syscall_sem_open name oflag value s = Some (None, s') \<and>
    l_owner_thread (lockt (skern s') semtable_lock) = Some t"
  using assms by (simp add: syscall_sem_open_def)

theorem sem_open_excl_keeps_lock_witness:
  "\<exists>s'. syscall_sem_open [] 0x40 1 (boot_sems\<lparr>skern := take_lock 1 boot_kern\<rparr>) = Some (None, s') \<and>
     l_owner_thread (lockt (skern s') 1) = Some 0"
proof -
  let ?s = "boot_sems\<lparr>skern := take_lock 1 boot_kern\<rparr>"
  have "find_entry (\<lambda>e. sement_name e = []) ?s = Some 0"
    by (simp add: find_entry_def boot_sems_def upt_rec)
  moreover have "l_owner_thread (lockt (skern ?s) semtable_lock) = Some 0"
    by (simp add: take_lock_def upd_lockt_def Let_def SYNCHOBJ_fields semtable_lock_def upd_kt_def boot_kern_def)
  ultimately show ?thesis using sem_open_excl_keeps_lock[of "[]" ?s 0 "0x40" 0 1] by (simp add: semtable_lock_def)
qed

text \<open>A semaphore has one pair of links for the lists of owned objects, so when two threads take it, both lists
  start with it and continue with the objects of the second thread.\<close>

theorem sem_on_two_lists:
  assumes "sem_valid sem s i" "0 < sement_val (semtable s i)" "sement_val (semtable s i) < 2 ^ 31" "t \<noteq> current_thread (skern s)"
    "kt_synchobjlist (kt (skern s) t) = Some (Sem_obj i)"
    "kt_synchobjlist (kt (skern s) (current_thread (skern s))) = Some c" "c \<noteq> Sem_obj i"
  shows "\<exists>s'. syscall_sem_trywait sem s = Some (0, s') \<and>
    kt_synchobjlist (kt (skern s') t) = Some (Sem_obj i) \<and>
    kt_synchobjlist (kt (skern s') (current_thread (skern s))) = Some (Sem_obj i) \<and>
    sl_next (slq (skern s') (Sem_obj i)) = Some c"
proof -
  have "\<not> to_s32 (sement_val (semtable s i) - 1) < 0" using assms(2,3) by (simp add: to_s32_id)
  then show ?thesis
    using assms(4-) by (auto simp: syscall_sem_trywait_def sem_checked_valid[OF assms(1)] Let_def ADD_SYNCHOBJ_def field_defs)
qed

definition shared_sem :: semsys where
  "shared_sem = (one_sem 1)\<lparr>skern := ADD_SYNCHOBJ (Sem_obj 3) 2 (take_lock 5 boot_kern)\<rparr>"

theorem sem_on_two_lists_witness:
  "\<exists>s'. syscall_sem_trywait \<lparr>sem_ind = 3, sem_no = 7\<rparr> shared_sem = Some (0, s') \<and>
     kt_synchobjlist (kt (skern s') 2) = Some (Sem_obj 3) \<and> sl_next (slq (skern s') (Sem_obj 3)) = Some (Lock_obj 5)"
proof -
  have c: "current_thread (skern shared_sem) = 0"
    by (simp add: shared_sem_def SYNCHOBJ_fields take_lock_def Let_def upd_kt_def upd_lockt_def boot_kern_def)
  have l: "kt_synchobjlist (kt (skern shared_sem) 2) = Some (Sem_obj 3)"
    "kt_synchobjlist (kt (skern shared_sem) 0) = Some (Lock_obj 5)"
    by (simp_all add: shared_sem_def take_lock_def boot_kern_def ADD_SYNCHOBJ_def field_defs upd_lockt_def)
  have v: "sem_valid \<lparr>sem_ind = 3, sem_no = 7\<rparr> shared_sem 3" "sement_val (semtable shared_sem 3) = 1"
    using one_sem_fields(3)[of 1] one_sem_fields(2)[of 1] by (simp_all add: shared_sem_def sem_valid_def)
  from sem_on_two_lists[OF v(1), of 2 "Lock_obj 5"] v(2) c l show ?thesis by auto
qed

text \<open>The numbers in use are below the next one, which is positive; 0 marks a free slot. A slot that is given up goes back
  to 0, so the numbers of handles to it stay below the next number as well.\<close>

definition sems_numbered :: "semsys \<Rightarrow> bool" where
  "sems_numbered s \<longleftrightarrow> 0 < next_semno s \<and> (\<forall>i < nat MAXSEM. sement_no (semtable s i) < next_semno s)"

lemma number_entry_fresh:
  assumes "sems_numbered s" "next_semno s < 2 ^ 31 - 1" "i < nat MAXSEM"
  defines "s' \<equiv> number_entry i s"
  shows "sems_numbered s'" "next_semno s' = next_semno s + 1" "j < nat MAXSEM \<Longrightarrow> j \<noteq> i \<Longrightarrow> sement_no (semtable s' j) \<noteq> next_semno s"
proof -
  have n: "next_semno s' = next_semno s + 1" using assms(1,2) by (simp add: s'_def number_entry_def sems_numbered_def to_s32_id)
  then show "sems_numbered s'" using assms(1) by (force simp: s'_def sems_numbered_def number_entry_def upd_sem_def)
  show "next_semno s' = next_semno s + 1" by (rule n)
  show "sement_no (semtable s' j) \<noteq> next_semno s" if "j < nat MAXSEM" "j \<noteq> i"
    using assms(1) that by (auto simp: s'_def number_entry_def upd_sem_def sems_numbered_def)
qed

text \<open>C24: A new semaphore, as long as the numbers do not wrap around.  \<^verbatim>\<open>sem_init\<close> takes the first free slot and gives it a
  number that is not 0, that no other slot has and that is above all numbers given before, so that no older handle is taken
  for the new semaphore; the next call gets a larger one. The handle it returns is accepted by the other operations
  and reads back the requested value, handles to other semaphores stay valid, and nobody sleeps on the new one.  Without a
  free slot it returns -1 and leaves the table as it is.\<close>

theorem sem_init_correct:
  assumes "ginv (skern s) Q Ow" "running (skern s)" "sems_numbered s" "next_semno s < 2 ^ 31 - 1"
  shows "case find_entry (\<lambda>e. sement_no e = 0) s of
     None \<Rightarrow> \<exists>s'. syscall_sem_init pshared val s = Some (- 1, None, s') \<and> semtable s' = semtable s \<and> next_semno s' = next_semno s
   | Some i \<Rightarrow> \<exists>sem s'. syscall_sem_init pshared val s = Some (0, Some sem, s') \<and> sem_valid sem s' i \<and>
       sem_no sem = next_semno s \<and> syscall_sem_getvalue sem s' = Some (0, Some (sint val)) \<and>
       sl_head (slq (skern s') (Sem_obj i)) = None \<and>
       0 < sem_no sem \<and> (\<forall>j < nat MAXSEM. j \<noteq> i \<longrightarrow> sement_no (semtable s' j) \<noteq> sem_no sem) \<and>
       (\<forall>h. sem_no h < next_semno s \<longrightarrow> \<not> sem_valid h s' i) \<and> (\<forall>h j. sem_valid h s j \<and> j \<noteq> i \<longrightarrow> sem_valid h s' j) \<and>
       sems_numbered s' \<and> sem_no sem < next_semno s'"
proof -
  from unlock_inv[OF assms(1,2), of semtable_lock] obtain r k where u: "unlock semtable_lock (skern s) = Some (r, k)" by auto
  show ?thesis
  proof (cases "find_entry (\<lambda>e. sement_no e = 0) s")
    case None
    then show ?thesis using u by (simp add: syscall_sem_init_def sem_unlock_def)
  next
    case (Some i)
    have i: "i < nat MAXSEM" using Some by (auto simp: find_entry_def find_Some_iff)
    note fresh = number_entry_fresh[OF assms(3,4) i]
    let ?s1 = "(number_entry i s)\<lparr>skern := k\<rparr>"
    let ?s2 = "semobj_init i pshared (sint val) ?s1" and ?sem = "\<lparr>sem_ind = int i, sem_no = next_semno s\<rparr>"
    have n: "skern (number_entry i s) = skern s" "sement_no (semtable (number_entry i s) i) = next_semno s"
      "j \<noteq> i \<Longrightarrow> semtable (number_entry i s) j = semtable s j" for j
      by (simp_all add: number_entry_def upd_sem_def)
    have no: "sement_no (semtable ?s2 j) = sement_no (semtable (number_entry i s) j)" "next_semno ?s2 = next_semno (number_entry i s)" for j
      by (simp_all add: semobj_init_def upd_sem_def)
    have "syscall_sem_init pshared val s = Some (0, Some ?sem, ?s2)"
      using u Some n by (simp add: syscall_sem_init_def sem_unlock_def)
    moreover have v: "sem_valid ?sem ?s2 i" using i n(2) by (simp add: sem_valid_def no)
    moreover from v have "syscall_sem_getvalue ?sem ?s2 = Some (0, Some (sint val))"
      unfolding syscall_sem_getvalue_def by (simp add: sem_checked_valid) (simp add: semobj_init_def upd_sem_def)
    moreover have "sl_head (slq (skern ?s2) (Sem_obj i)) = None"
      by (simp add: semobj_init_def upd_sem_def upd_slq_def empty_slq_def)
    moreover have "sems_numbered ?s2" using fresh(1) by (simp add: sems_numbered_def no)
    moreover have "\<forall>h. sem_no h < next_semno s \<longrightarrow> \<not> sem_valid h ?s2 i" by (simp add: sem_valid_def no n(2))
    moreover have "\<forall>h j. sem_valid h s j \<and> j \<noteq> i \<longrightarrow> sem_valid h ?s2 j" by (simp add: sem_valid_def no n(3))
    moreover have "\<forall>j < nat MAXSEM. j \<noteq> i \<longrightarrow> sement_no (semtable ?s2 j) \<noteq> next_semno s" using fresh(3) by (simp add: no)
    moreover have "0 < next_semno s" "next_semno s < next_semno ?s2" using assms(3) fresh(2) by (simp_all add: sems_numbered_def no)
    ultimately show ?thesis unfolding Some option.case by (intro exI[of _ ?sem] exI[of _ ?s2]) simp
  qed
qed

text \<open>A table in which the first slot is taken.\<close>

definition one_taken :: semsys where
  "one_taken = number_entry 0 boot_sems"

theorem sem_init_correct_witness:
  "\<exists>sem s'. syscall_sem_init 0 5 one_taken = Some (0, Some sem, s') \<and> syscall_sem_getvalue sem s' = Some (0, Some 5) \<and>
     sem_no sem \<noteq> sement_no (semtable s' 0) \<and> sem_no sem < next_semno s'"
proof -
  have t: "semtable one_taken j = (semtable boot_sems j)\<lparr>sement_no := (if j = 0 then 1 else 0)\<rparr>" "next_semno one_taken = 2" "skern one_taken = boot_kern" for j
    by (simp_all add: one_taken_def number_entry_def upd_sem_def boot_sems_def to_s32_id)
  have "find_entry (\<lambda>e. sement_no e = 0) one_taken = Some 1" by (simp add: find_entry_def t upt_rec)
  moreover have "sems_numbered one_taken" "next_semno one_taken < 2 ^ 31 - 1" by (simp_all add: sems_numbered_def t)
  ultimately show ?thesis using sem_init_correct[of one_taken boot_queues "\<lambda>_. []" 0 5] boot_ginv boot_running t(3) by fastforce
qed

end
