(* ===== verification/Timers.thy ===== *)
theory Timers
  imports Semaphores
begin

text \<open>
  The timer interrupt, the timer system calls and the timer thread of \<^verbatim>\<open>base/timer.c\<close>, on top of
  the timer queue of \<open>Timer_Queue\<close>.  As in \<open>Locks\<close>, a call that takes \<^verbatim>\<open>timerq_lock\<close> is
  modelled from the point where \<^verbatim>\<open>_lock\<close> has returned.
\<close>

section \<open>The clock interrupt\<close>

text \<open>\<^verbatim>\<open>timer_handler\<close>, every 20 milliseconds.\<close>

definition clock_tick :: "kern \<Rightarrow> kern" where
  "clock_tick s =
     (let s1 = s\<lparr>millesecs := millesecs s + 20\<rparr>
      in if 1000 \<le> millesecs s1
         then s1\<lparr>secs := secs s1 + 1, millesecs := millesecs s1 - 1000, priocompute := True\<rparr> else s1)"

definition timers_tick :: "kern \<Rightarrow> kern" where
  "timers_tick s =
     (case timers s of
        None \<Rightarrow> s
      | Some x \<Rightarrow>
          let s1 = upd_tobj x (\<lambda>b. b\<lparr>timer_count := timer_count b - 20\<rparr>) s
          in if sint (timer_count (tobj s1 x)) \<le> 0 then s1\<lparr>timeoutflag := True\<rparr> else s1)"

definition timer_handler_irq :: "kern \<Rightarrow> kern option" where
  "timer_handler_irq s =
     (let s1 = timers_tick (clock_tick s);
          s2 = rr_cl_tick (current_thread s1) s1
      in if sc_tqleft (sched s2 (current_thread s2)) \<le> 0 \<or> runrun s2 \<or> kprunrun s2 then scheduler s2 else Some s2)"

text \<open>The event the timer thread sleeps on.\<close>

definition timerthr_sleep :: nat where
  "timerthr_sleep = 0"

text \<open>
  \<open>tet\<close> is the global \<^verbatim>\<open>timed_event_thread\<close>.  The test of its state is followed by a
  semicolon, so the wake-up does not depend on it.
\<close>

definition check_urgent_flags :: "tid option \<Rightarrow> kern \<Rightarrow> kern option" where
  "check_urgent_flags tet s =
     Option.bind
       (if (timeoutflag s \<or> priocompute s) \<and> tet \<noteq> None \<and> Some (current_thread s) \<noteq> tet
        then map_option snd (event_wakeup timerthr_sleep s) else Some s)
       (\<lambda>s1. if runrun s1 \<or> kprunrun s1 then scheduler s1 else Some s1)"

definition initialize_clock :: "kern \<Rightarrow> kern" where
  "initialize_clock s = eventobj_init timerthr_sleep (lockobj_init timerq_lock s)"

definition syscall_time :: "kern \<Rightarrow> u32" where
  "syscall_time s = secs s"

text \<open>\<open>h\<close> and \<open>l\<close> are the words \<^verbatim>\<open>mark_tsc\<close> reads from the processor.\<close>

definition syscall_gettsc :: "u32 \<Rightarrow> u32 \<Rightarrow> kern \<Rightarrow> u32 \<times> u32 \<times> u32" where
  "syscall_gettsc h l s = (h, l, (secs s - 1220000000) * 1000 + millesecs s)"

section \<open>Starting and stopping timers\<close>

text \<open>The search \<^verbatim>\<open>while (t1 != NULL && t1 != tobj) t1 = t1->timer_next\<close>, for any test.\<close>

partial_function (option) timer_find :: "(nat \<Rightarrow> bool) \<Rightarrow> kern \<Rightarrow> nat option \<Rightarrow> nat option option" where
  "timer_find P s t1 =
     (case t1 of
        None \<Rightarrow> Some None
      | Some x \<Rightarrow> if P x then Some (Some x) else timer_find P s (timer_next (tobj s x)))"

text \<open>\<^verbatim>\<open>starttimer\<close> before and after its \<^verbatim>\<open>_lock\<close>; the check for a timer that already runs is
  compiled in (\<^verbatim>\<open>DEBUG\<close> is defined).\<close>

definition starttimer_init :: "nat \<Rightarrow> u32 \<Rightarrow> tmo_handler option \<Rightarrow> kern \<Rightarrow> kern" where
  "starttimer_init x msec h s =
     upd_tobj x (\<lambda>b. b\<lparr>timer_count := msec, timer_handler := h, timer_ownerthread := Some (current_thread s),
       timer_next := None, timer_prev := None\<rparr>) s"

definition starttimer :: "nat \<Rightarrow> kern \<Rightarrow> (int \<times> kern) option" where
  "starttimer x s =
     Option.bind (timer_find (\<lambda>y. y = x) s (timers s)) (\<lambda>t1.
       if t1 = Some x then map_option (\<lambda>(_, s1). (- 1, s1)) (unlock timerq_lock s)
       else Option.bind (insert_timerobj x s) (\<lambda>s1. map_option (\<lambda>(_, s2). (0, s2)) (unlock timerq_lock s1)))"

definition stoptimer :: "nat \<Rightarrow> kern \<Rightarrow> (int \<times> kern) option" where
  "stoptimer x s =
     Option.bind (timer_find (\<lambda>y. y = x) s (timers s)) (\<lambda>t1.
       let (ret, s1) = (if t1 \<noteq> Some x then (- 1, s) else (0, remove_timerobj x s))
       in map_option (\<lambda>(_, s2). (ret, upd_tobj x (\<lambda>b. b\<lparr>timer_next := None, timer_prev := None, timer_count := - 1\<rparr>) s2))
            (unlock timerq_lock s1))"

text \<open>\<^verbatim>\<open>syscall_tsleep\<close> before and after its \<^verbatim>\<open>_lock\<close>.\<close>

definition tsleep_init :: "nat \<Rightarrow> u32 \<Rightarrow> kern \<Rightarrow> kern" where
  "tsleep_init x msec s =
     upd_tobj x (\<lambda>b. b\<lparr>timer_count := msec, timer_handler := Some Tmo_wakeup,
       timer_ownerthread := Some (current_thread s), timer_next := None, timer_prev := None\<rparr>) s"

definition syscall_tsleep :: "nat \<Rightarrow> kern \<Rightarrow> kern option" where
  "syscall_tsleep x s =
     Option.bind (insert_timerobj x s) (\<lambda>s1.
       let s2 = upd_sched (current_thread s1) (\<lambda>si. si\<lparr>sc_state := THREAD_STATE_SLEEP\<rparr>) s1
       in Option.bind (unlock timerq_lock s2) (\<lambda>(_, s3). scheduler s3))"

definition syscall_twakeup :: "tid \<Rightarrow> kern \<Rightarrow> (int \<times> kern) option" where
  "syscall_twakeup thr s =
     Option.bind (timer_find (\<lambda>y. timer_ownerthread (tobj s y) = Some thr) s (timers s)) (\<lambda>t1.
       let (ret, s1) = (case t1 of
              None \<Rightarrow> (- 1, s)
            | Some x \<Rightarrow>
                let s1 = upd_tobj x (\<lambda>b. b\<lparr>timer_count := - 1\<rparr>) (remove_timerobj x s)
                in (0, add_readyq thr s1))
       in map_option (\<lambda>(_, s2). (ret, s2)) (unlock timerq_lock s1))"

section \<open>The timer thread\<close>

text \<open>
  The handler of an expired timer: \<open>remove_pkt\<close> stands for the one of the network code,
  which frees a packet.
\<close>

definition run_handler :: "(nat \<Rightarrow> kern \<Rightarrow> kern option) \<Rightarrow> nat \<Rightarrow> kern \<Rightarrow> kern option" where
  "run_handler remove_pkt x s =
     (case timer_handler (tobj s x) of
        None \<Rightarrow> Some s
      | Some Tmo_wakeup \<Rightarrow>
          (case timer_ownerthread (tobj s x) of
             None \<Rightarrow> None
           | Some t \<Rightarrow> if sc_state (sched s t) = THREAD_STATE_SLEEP then Some (wakeup t s) else Some s)
      | Some (Tmo_event_wait_remove_thread e t) \<Rightarrow> event_wait_remove_thread x e t s
      | Some (Tmo_removethread_fromsemwait i t) \<Rightarrow> removethread_fromsemwait x i t s
      | Some (Tmo_other n) \<Rightarrow> remove_pkt n s)"

definition unlink_expired :: "nat \<Rightarrow> kern \<Rightarrow> kern" where
  "unlink_expired x s =
     (let s1 = (case timer_next (tobj s x) of
                  None \<Rightarrow> s
                | Some y \<Rightarrow> upd_tobj y (\<lambda>b. b\<lparr>timer_count := timer_count b + timer_count (tobj s x), timer_prev := None\<rparr>) s)
      in upd_tobj x (\<lambda>b. b\<lparr>timer_prev := None, timer_next := None, timer_count := - 1\<rparr>) s1)"

text \<open>The loop over the expired timers; it ends with \<^verbatim>\<open>timers = t1\<close>.\<close>

partial_function (option) expire_timers :: "(nat \<Rightarrow> kern \<Rightarrow> kern option) \<Rightarrow> nat option \<Rightarrow> kern \<Rightarrow> kern option" where
  "expire_timers run t1 s =
     (case t1 of
        None \<Rightarrow> Some (s\<lparr>timers := None\<rparr>)
      | Some x \<Rightarrow>
          if sint (timer_count (tobj s x)) \<le> 0
          then let t2 = timer_next (tobj s x)
               in Option.bind (run x (unlink_expired x s)) (\<lambda>s2. expire_timers run t2 s2)
          else Some (s\<lparr>timers := Some x\<rparr>))"

text \<open>The timer part of one round of \<^verbatim>\<open>timerthread\<close>, once it holds \<^verbatim>\<open>timerq_lock\<close>.\<close>

definition process_timers :: "(nat \<Rightarrow> kern \<Rightarrow> kern option) \<Rightarrow> kern \<Rightarrow> kern option" where
  "process_timers remove_pkt s =
     (let s1 = s\<lparr>timeoutflag := False\<rparr>
      in Option.bind (if timers s1 \<noteq> None then expire_timers (run_handler remove_pkt) (timers s1) s1 else Some s1)
           (\<lambda>s2. map_option snd (unlock timerq_lock s2)))"

section \<open>Expiry on delta lists\<close>

function delta_expire :: "delta_list \<Rightarrow> delta_list" where
  "delta_expire [] = []"
| "delta_expire ((x, d) # r) = (if sint d \<le> 0 then delta_expire (shift_head (- d) r) else (x, d) # r)"
  by pat_completeness auto
termination by (relation "measure length") (auto simp: shift_head_def split: list.split)

text \<open>The timers that the loop takes off, in order, and the timers whose remaining time is not positive.\<close>

function delta_due :: "delta_list \<Rightarrow> nat list" where
  "delta_due [] = []"
| "delta_due ((x, d) # r) = (if sint d \<le> 0 then x # delta_due (shift_head (- d) r) else [])"
  by pat_completeness auto
termination by (relation "measure length") (auto simp: shift_head_def split: list.split)

definition due :: "delta_list \<Rightarrow> nat set" where
  "due L = {y. \<exists>e. expiry L y = Some e \<and> sint e \<le> 0}"

text \<open>No sum of deltas overflows.\<close>

definition deltas_small :: "delta_list \<Rightarrow> bool" where
  "deltas_small L \<longleftrightarrow> (\<Sum>p \<leftarrow> L. \<bar>sint (snd p)\<bar>) < 2 ^ 31"

lemma sint_add_small: "\<bar>sint a\<bar> + \<bar>sint b\<bar> < 2 ^ 31 \<Longrightarrow> sint (a + b :: u32) = sint a + sint b"
  by (simp add: sint_word_ariths(1) signed_take_bit_int_eq_self)

lemma deltas_small_Cons:
  "deltas_small ((x, d) # r) \<Longrightarrow> deltas_small r \<and> deltas_small (shift_head (- d) r)"
proof (cases r)
  case Nil
  then show "deltas_small ((x, d) # r) \<Longrightarrow> deltas_small r \<and> deltas_small (shift_head (- d) r)"
    by (simp add: deltas_small_def shift_head_def)
next
  case (Cons p r')
  assume a: "deltas_small ((x, d) # r)"
  have p: "0 \<le> (\<Sum>p \<leftarrow> r'. \<bar>sint (snd p)\<bar>)" by (induction r') auto
  obtain y e where "p = (y, e)" by force
  moreover have "\<bar>sint e\<bar> + \<bar>sint d\<bar> < 2 ^ 31" using a Cons p \<open>p = (y, e)\<close> by (simp add: deltas_small_def)
  ultimately show ?thesis using a Cons p sint_add_small[of e d] by (simp add: deltas_small_def shift_head_def) linarith
qed

lemma expiry_shift': "expiry (shift_head (- d) r) y = map_option (\<lambda>e. d + e) (expiry r y)"
proof (cases r)
  case (Cons p r')
  then show ?thesis by (cases p; cases "expiry r' y") (auto simp: shift_head_def)
qed (simp add: shift_head_def)

lemma expiry_nonneg:
  "\<forall>p \<in> set r. 0 \<le> sint (snd p) \<Longrightarrow> deltas_small r \<Longrightarrow> expiry r y = Some e \<Longrightarrow>
   0 \<le> sint e \<and> sint e \<le> (\<Sum>p \<leftarrow> r. \<bar>sint (snd p)\<bar>)"
proof (induction r arbitrary: e)
  case (Cons p r)
  obtain x d where p: "p = (x, d)" by force
  have n: "0 \<le> (\<Sum>p \<leftarrow> r. \<bar>sint (snd p)\<bar>)" by (induction r) auto
  show ?case
  proof (cases "x = y")
    case True
    then show ?thesis using Cons.prems p n by simp
  next
    case False
    then obtain e' where e': "expiry r y = Some e'" "e = d + e'" using Cons.prems(3) p by auto
    have "deltas_small r" using Cons.prems(2) p deltas_small_Cons by blast
    from Cons.IH[OF _ this e'(1)] Cons.prems have i: "0 \<le> sint e'" "sint e' \<le> (\<Sum>p \<leftarrow> r. \<bar>sint (snd p)\<bar>)" by auto
    have "\<bar>sint d\<bar> + \<bar>sint e'\<bar> < 2 ^ 31" using Cons.prems(2) i p by (simp add: deltas_small_def)
    with sint_add_small[OF this] i Cons.prems(1) e' p show ?thesis by simp
  qed
qed simp

lemma delta_expire_correct:
  "deltas_small L \<Longrightarrow> tail_nonneg L \<Longrightarrow> distinct (map fst L) \<Longrightarrow>
   expiry (delta_expire L) y = (case expiry L y of None \<Rightarrow> None | Some e \<Rightarrow> if sint e \<le> 0 then None else Some e)"
proof (induction L rule: delta_expire.induct)
  case (2 x d r)
  show ?case
  proof (cases "sint d \<le> 0")
    case True
    have "map fst (shift_head (- d) r) = map fst r"
      by (auto simp: shift_head_def split: list.split)
    moreover have "tail_nonneg (shift_head (- d) r)"
      using 2(3) by (auto simp: tail_nonneg_def shift_head_def split: list.split)
    moreover have "deltas_small (shift_head (- d) r)" using deltas_small_Cons[OF 2(2)] by blast
    ultimately have IH: "expiry (delta_expire (shift_head (- d) r)) y =
      (case expiry (shift_head (- d) r) y of None \<Rightarrow> None | Some e \<Rightarrow> if sint e \<le> 0 then None else Some e)"
      using 2(1)[OF True] 2(4) by auto
    show ?thesis
    proof (cases "x = y")
      case y: True
      then have "expiry r y = None" using 2(4) by (auto simp: expiry_None_iff)
      then show ?thesis using IH True y by (simp add: expiry_shift')
    next
      case False
      then show ?thesis using IH True by (simp add: expiry_shift')
    qed
  next
    case False
    have "0 < sint e" if e: "expiry ((x, d) # r) y = Some e" for e
    proof (cases "x = y")
      case True
      then show ?thesis using e False by simp
    next
      case ne: False
      then obtain e' where e': "expiry r y = Some e'" "e = d + e'" using e by auto
      have r: "\<forall>p \<in> set r. 0 \<le> sint (snd p)" using 2(3) by (simp add: tail_nonneg_def)
      have "deltas_small r" using deltas_small_Cons[OF 2(2)] by blast
      from expiry_nonneg[OF r this e'(1)] have i: "0 \<le> sint e'" "sint e' \<le> (\<Sum>p \<leftarrow> r. \<bar>sint (snd p)\<bar>)" by auto
      have "\<bar>sint d\<bar> + \<bar>sint e'\<bar> < 2 ^ 31" using 2(2) i by (simp add: deltas_small_def)
      with sint_add_small[OF this] i False e' show ?thesis by simp
    qed
    then show ?thesis using False
      by (cases "expiry ((x, d) # r) y") (fastforce simp del: expiry.simps simp: not_le)+
  qed
qed simp

lemma map_fst_shift_head: "map fst (shift_head d r) = map fst r"
  by (auto simp: shift_head_def split: list.split)

lemma delta_due_expire: "map fst L = delta_due L @ map fst (delta_expire L)"
  by (induction L rule: delta_due.induct) (simp_all add: map_fst_shift_head)

lemma due_delta_due:
  assumes "deltas_small L" "tail_nonneg L" "distinct (map fst L)"
  shows "due L = set (delta_due L)"
proof -
  have e: "expiry (delta_expire L) y = None \<longleftrightarrow> y \<notin> set (map fst (delta_expire L))" "expiry L y = None \<longleftrightarrow> y \<notin> set (map fst L)" for y
    by (auto simp: expiry_None_iff)
  have "y \<in> due L \<longleftrightarrow> expiry L y \<noteq> None \<and> expiry (delta_expire L) y = None" for y
    using delta_expire_correct[OF assms, of y] by (auto simp: due_def split: option.splits if_splits)
  then have y: "y \<in> due L \<longleftrightarrow> y \<in> set (map fst L) \<and> y \<notin> set (map fst (delta_expire L))" for y unfolding e by blast
  have "set (map fst L) = set (delta_due L) \<union> set (map fst (delta_expire L))" "set (delta_due L) \<inter> set (map fst (delta_expire L)) = {}"
    using assms(3) delta_due_expire[of L] by (metis set_append, metis distinct_append)
  then show ?thesis using y by blast
qed

section \<open>The expiry loop\<close>

lemma tobj_unlink_expired:
  assumes "timer_prev (tobj s x) = None" "timer_next (tobj s x) \<noteq> Some x"
  shows "tobj (unlink_expired x s) = (tobj (remove_timerobj x (s\<lparr>timers := Some x\<rparr>)))
      (x := (tobj s x)\<lparr>timer_prev := None, timer_next := None, timer_count := - 1\<rparr>)"
    "timers (remove_timerobj x (s\<lparr>timers := Some x\<rparr>)) = timer_next (tobj s x)"
  using assms
  by (auto simp: unlink_expired_def remove_timerobj_def Let_def upd_tobj_def fun_eq_iff split: option.split)

lemma tqueue_fields:
  "timers s' = timers s \<Longrightarrow> (\<And>y. y \<in> fst ` set L \<Longrightarrow> timer_next (tobj s' y) = timer_next (tobj s y) \<and>
     timer_prev (tobj s' y) = timer_prev (tobj s y) \<and> timer_count (tobj s' y) = timer_count (tobj s y)) \<Longrightarrow>
   tqueue s L \<Longrightarrow> tqueue s' L"
proof -
  assume t: "timers s' = timers s" and f: "\<And>y. y \<in> fst ` set L \<Longrightarrow> timer_next (tobj s' y) = timer_next (tobj s y) \<and>
     timer_prev (tobj s' y) = timer_prev (tobj s y) \<and> timer_count (tobj s' y) = timer_count (tobj s y)" and T: "tqueue s L"
  from T obtain l where D: "dll (tnext s) (tprev s) (timers s) (map fst L) l"
    and C: "\<forall>y d. (y, d) \<in> set L \<longrightarrow> timer_count (tobj s y) = d" by (auto simp: tqueue_def)
  have "dll (tnext s') (tprev s') (timers s) (map fst L) l"
    using D dll_frame[of "map fst L" "tnext s'" "tnext s" "tprev s'" "tprev s"] f by (force simp: tnext_def tprev_def)
  moreover have "timer_count (tobj s' y) = d" if "(y, d) \<in> set L" for y d
    using that C f[of y] by force
  ultimately show "tqueue s' L" unfolding tqueue_def t by blast
qed

lemma tqueue_expired:
  assumes T: "tqueue (s\<lparr>timers := Some x\<rparr>) ((x, d) # r)"
  shows "tqueue ((unlink_expired x s)\<lparr>timers := timer_next (tobj s x)\<rparr>) (shift_head (- d) r)"
    "timer_count (tobj s x) = d"
proof -
  let ?s = "s\<lparr>timers := Some x\<rparr>"
  from T obtain l where D: "dll (tnext ?s) (tprev ?s) (Some x) (x # map fst r) l" and d: "timer_count (tobj s x) = d"
    by (auto simp: tqueue_def)
  have dist: "distinct (x # map fst r)" by (rule dll_distinct[OF D])
  have p: "timer_prev (tobj s x) = None" and B: "dls (tnext ?s) (tprev ?s) (Some x) (tnext ?s x) (map fst r) l None"
    using D by (auto simp: dll_def tprev_def)
  have n: "timer_next (tobj s x) \<noteq> Some x" using dls_head[OF B] dist by (cases r) (auto simp: tnext_def)
  have "delta_remove x ((x, d) # r) = shift_head (- d) r"
    using delta_remove_split[of x "[]" d r] by simp
  then have R: "tqueue (remove_timerobj x ?s) (shift_head (- d) r)" using remove_timerobj_refines(2)[OF T, of x] by simp
  have nx: "x \<notin> fst ` set (shift_head (- d) r)"
    using dist by (auto simp: shift_head_def split: list.splits)
  show "tqueue ((unlink_expired x s)\<lparr>timers := timer_next (tobj s x)\<rparr>) (shift_head (- d) r)"
    by (rule tqueue_fields[OF _ _ R]) (use nx in \<open>auto simp: tobj_unlink_expired[OF p n]\<close>)
  show "timer_count (tobj s x) = d" by (rule d)
qed

text \<open>
  What the loop needs of the handlers: in a state in which the timers of a set have been handled they return, handle one more and
  leave the timers alone; what is said of the handled timers does not depend on the timer links.
\<close>

locale timeout_client =
  fixes run :: "nat \<Rightarrow> kern \<Rightarrow> kern option" and I :: "nat set \<Rightarrow> kern \<Rightarrow> bool"
  assumes run_ok: "I D s \<Longrightarrow> \<exists>s'. run x s = Some s' \<and> I (insert x D) s' \<and> timers s' = timers s \<and> tobj s' = tobj s"
    and I_unlink: "I D s \<Longrightarrow> I D (unlink_expired x s)"
    and I_timers: "I D s \<Longrightarrow> I D (s\<lparr>timers := h\<rparr>)"
begin

lemma expire_timers_refines:
  assumes "I D s" "tqueue (s\<lparr>timers := h\<rparr>) L"
  shows "\<exists>s'. expire_timers run h s = Some s' \<and> I (D \<union> set (delta_due L)) s' \<and> tqueue s' (delta_expire L)"
  using assms
proof (induction L arbitrary: s h D rule: delta_expire.induct)
  case 1
  then have "h = None" by (auto simp: tqueue_def)
  then show ?case using 1 I_timers by (subst expire_timers.simps) simp
next
  case (2 x d r)
  have h: "h = Some x" using 2(3) by (auto simp: tqueue_def dll_def)
  note E = tqueue_expired[OF 2(3)[unfolded h]]
  show ?case
  proof (cases "sint d \<le> 0")
    case True
    from run_ok[OF I_unlink[OF 2(2), of x], of x] obtain s2 where s2: "run x (unlink_expired x s) = Some s2" "I (insert x D) s2"
      "tobj s2 = tobj (unlink_expired x s)" by auto
    have "tqueue (s2\<lparr>timers := timer_next (tobj s x)\<rparr>) (shift_head (- d) r)"
      by (rule tqueue_fields[OF _ _ E(1)]) (simp_all add: s2(3))
    from 2(1)[OF True s2(2) this] True s2(1) E(2) show ?thesis unfolding h by (subst expire_timers.simps) simp
  next
    case False
    then show ?thesis using 2(2,3) I_timers E(2) unfolding h by (subst expire_timers.simps) simp
  qed
qed

end

section \<open>The handlers keep the kernel invariant\<close>

text \<open>
  A timer armed by \<^verbatim>\<open>tsleep\<close> belongs to a thread that sleeps on no object.
\<close>

definition tmo_ok :: "kern \<Rightarrow> bool" where
  "tmo_ok s \<longleftrightarrow> (\<forall>x. timer_handler (tobj s x) = Some Tmo_wakeup \<longrightarrow>
     (\<exists>t. timer_ownerthread (tobj s x) = Some t \<and>
        (sc_state (sched s t) = THREAD_STATE_SLEEP \<longrightarrow> kt_slpchannel (kt s t) = None)))"

text \<open>
  What is relied on of the packet handler \<^verbatim>\<open>remove_pkt\<close> of \<^verbatim>\<open>base/socket.c\<close>, which frees the memory of a packet: it returns
  with the threads, locks and timers as they were. That is the case when the lock of the memory allocator is free;
  the network code and its packets are not modelled.
\<close>

definition packet_handler_ok :: "(nat \<Rightarrow> kern \<Rightarrow> kern option) \<Rightarrow> bool" where
  "packet_handler_ok rp \<longleftrightarrow> (\<forall>n s. rp n s = Some s)"

text \<open>
  The thread that a timer is to wake: the owner that sleeps in \<^verbatim>\<open>tsleep\<close>, or the waiter of the event or semaphore if it is
  still on the sleep queue.
\<close>

definition wakes :: "kern \<Rightarrow> (qid \<Rightarrow> tid list) \<Rightarrow> nat \<Rightarrow> tid \<Rightarrow> bool" where
  "wakes s Q y t \<longleftrightarrow>
     (case timer_handler (tobj s y) of
        Some Tmo_wakeup \<Rightarrow> timer_ownerthread (tobj s y) = Some t \<and> sc_state (sched s t) = THREAD_STATE_SLEEP
      | Some (Tmo_event_wait_remove_thread e t') \<Rightarrow> t' = t \<and> t \<in> set (Q (Wait (Event_obj e)))
      | Some (Tmo_removethread_fromsemwait i t') \<Rightarrow> t' = t \<and> t \<in> set (Q (Wait (Sem_obj i)))
      | _ \<Rightarrow> False)"

abbreviation woken_by :: "kern \<Rightarrow> (qid \<Rightarrow> tid list) \<Rightarrow> nat set \<Rightarrow> tid \<Rightarrow> bool" where
  "woken_by s Q D t \<equiv> \<exists>y \<in> D. wakes s Q y t"

text \<open>
  The state a woken thread has: ready; but \<^verbatim>\<open>wakeup\<close>, unlike the event handler, leaves a thread of a process that is not ready
  asleep.
\<close>

definition woken_state :: "kern \<Rightarrow> tid \<Rightarrow> thread_state" where
  "woken_state s t =
     (if (\<exists>e. kt_slpchannel (kt s t) = Some (Event_obj e)) \<or> proc_state s (kt_process (kt s t)) = PROC_STATE_READY
      then THREAD_STATE_READY else THREAD_STATE_SLEEP)"

text \<open>
  The state \<open>s'\<close>, with the queues \<open>Q'\<close>, after the timers of \<open>D\<close> have been handled in \<open>s\<close>: exactly the threads they are to wake have
  left the sleep queues, which are otherwise in order; these threads are in their new state and no other thread has changed; a waiter that
  was taken off a queue is told that its time is over, and nobody else is.
\<close>

definition timers_handled :: "kern \<Rightarrow> (qid \<Rightarrow> tid list) \<Rightarrow> nat set \<Rightarrow> kern \<Rightarrow> (qid \<Rightarrow> tid list) \<Rightarrow> bool" where
  "timers_handled s Q D s' Q' \<longleftrightarrow>
     (\<forall>c. Q' (Wait c) = filter (\<lambda>t. \<not> woken_by s Q D t) (Q (Wait c))) \<and>
     (\<forall>t. woken_by s Q D t \<longrightarrow> sc_state (sched s' t) = woken_state s t) \<and>
     (\<forall>t. \<not> woken_by s Q D t \<longrightarrow> sched s' t = sched s t) \<and>
     (\<forall>t. woken_by s Q D t \<and> kt_slpchannel (kt s t) \<noteq> None \<longrightarrow> (\<exists>y \<in> D. wakes s Q y t \<and> tmo_failed s' y)) \<and>
     (\<forall>y. tmo_failed s' y \<longrightarrow> tmo_failed s y \<or> y \<in> D \<and> (\<exists>t. wakes s Q y t))"

lemma tmo_ok_frame:
  assumes "tmo_ok s" "tobj s' = tobj s"
    "\<And>u. sc_state (sched s' u) = THREAD_STATE_SLEEP \<Longrightarrow> sc_state (sched s u) = THREAD_STATE_SLEEP \<and>
       (kt_slpchannel (kt s' u) = None \<or> kt_slpchannel (kt s' u) = kt_slpchannel (kt s u))"
  shows "tmo_ok s'"
  using assms unfolding tmo_ok_def by metis

lemma sched_wakeup:
  "kt_slpchannel (kt (wakeup t s) u) = kt_slpchannel (kt s u) \<or> kt_slpchannel (kt (wakeup t s) u) = None"
  "sc_state (sched (wakeup t s) u) = sc_state (sched s u) \<or> sc_state (sched (wakeup t s) u) = THREAD_STATE_READY"
proof -
  have "kt_slpchannel (kt (rr_cl_wakeup t s) u) = kt_slpchannel (kt s u)"
    "sc_state (sched (rr_cl_wakeup t s) u) = sc_state (sched s u)"
    by (simp_all add: rr_cl_wakeup_def Let_def upd_sched_def upd_kt_def)
  then show "kt_slpchannel (kt (wakeup t s) u) = kt_slpchannel (kt s u) \<or> kt_slpchannel (kt (wakeup t s) u) = None"
    "sc_state (sched (wakeup t s) u) = sc_state (sched s u) \<or> sc_state (sched (wakeup t s) u) = THREAD_STATE_READY"
    unfolding wakeup_def Let_def
    by (simp_all add: add_readyq_sched add_readyq_slpchannel upd_sched_def upd_kt_def)
qed

lemma obj_same_wakeup: "obj_same s (wakeup t s)"
proof -
  have "obj_same s (rr_cl_wakeup t s)" by (simp add: rr_cl_wakeup_def Let_def obj_same_trans[OF obj_same_upd(1) obj_same_upd(1)])
  then show ?thesis unfolding wakeup_def Let_def
    by (auto intro: obj_same_trans[OF _ obj_same_add_readyq] obj_same_trans[OF _ obj_same_upd(1)])
qed

lemma ginv_wakeup:
  assumes G: "kinv s Q" "sleep_inv s Q" "value_inv s Q" "owner_inv s Ow" and off: "\<And>q. t \<notin> set (Q q)"
    and nr: "sc_state (sched s t) \<noteq> THREAD_STATE_READY"
  shows "\<exists>Q'. ginv (wakeup t s) Q' Ow \<and> (\<forall>c. Q' (Wait c) = Q (Wait c))"
proof -
  note o = obj_same_wakeup[of s t]
  have W: "owner_inv (wakeup t s) Ow" by (rule owner_inv_same[OF o G(4)])
  have p: "pri_ok (sched s t)" by (rule kinvx_pri[OF G(1)])
  show ?thesis
  proof (cases "proc_state s (kt_process (kt s t)) = PROC_STATE_READY")
    case True
    from kinvx_wakeup[OF G(1) off True] obtain Q' where K: "kinv (wakeup t s) Q'" "\<And>c. Q' (Wait c) = Q (Wait c)"
      by auto
    from sleep_inv_wakeup[OF G(2) p True K(2)] value_inv_same[OF o G(3) K(2)] K(1,2) W show ?thesis by (auto simp: ginv_def)
  next
    case False
    then have w: "wakeup t s = upd_sched t (\<lambda>si. si\<lparr>sc_cpupri := min (sc_cpupri si + 5) (maxpri ! nat (sc_cid si - 1))\<rparr>) s"
      using wakeup_suspended[OF p] rr_cl_wakeup_eq[OF p] by simp
    have "kinv (wakeup t s) Q" unfolding w by (rule kinvx_upd_not_ready[OF G(1) nr]) (use pri_ok_wakeup[OF p] in simp_all)
    moreover have "sleep_inv (wakeup t s) Q"
      by (rule sleep_inv_cong[OF G(2)]) (auto simp: w upd_sched_def upd_kt_def split: if_splits)
    ultimately show ?thesis using value_inv_same[OF o G(3) refl] W by (auto simp: ginv_def)
  qed
qed

lemma wakeup_effect:
  assumes "pri_ok (sched s t)"
  shows "u \<noteq> t \<Longrightarrow> sched (wakeup t s) u = sched s u"
    "sc_state (sched (wakeup t s) t) = (if proc_state s (kt_process (kt s t)) = PROC_STATE_READY then THREAD_STATE_READY else sc_state (sched s t))"
  by (simp_all add: wakeup_def rr_cl_wakeup_eq[OF assms] add_readyq_sched Let_def upd_sched_def upd_kt_def)

lemma unlink_sem_eq:
  assumes Q: "kqueues s Q" and t: "t \<in> set (Q (Wait c))"
  shows "unlink_sem c t s = upd_kt t (\<lambda>k. k\<lparr>kt_qnext := None, kt_qprev := None\<rparr>) (unlink_slq c t s)"
proof -
  from Q have D: "dll (knext s) (kprev s) (sl_head (slq s c)) (Q (Wait c)) (sl_tail (slq s c))"
    using dl_queuesD[of "knext s" "kprev s" "khead s" "ktail s" Q "Wait c"] by (simp add: kqueues_def)
  from t obtain a b where q: "Q (Wait c) = a @ t # b" by (auto simp: in_set_conv_decomp)
  have dist: "distinct (a @ t # b)" using dll_distinct[OF D] q by simp
  from D q obtain m where A: "dls (knext s) (kprev s) None (sl_head (slq s c)) a m (Some t)" and m: "kprev s t = m"
    and B: "dls (knext s) (kprev s) (Some t) (knext s t) b (sl_tail (slq s c)) None"
    by (auto simp: dll_def dls_append)
  have h: "sl_head (slq s c) = Some t \<longleftrightarrow> kt_qprev (kt s t) = None"
    using dls_head[OF A] dls_last[OF A] m dist by (cases a) (auto simp: kprev_def[symmetric])
  have tl: "sl_tail (slq s c) = Some t \<longleftrightarrow> kt_qnext (kt s t) = None"
    using dls_head[OF B] dls_last[OF B] dist by (cases b) (auto simp: knext_def[symmetric] split: if_splits)
  have ne: "kt_qnext (kt s t) \<noteq> Some t" "kt_qprev (kt s t) \<noteq> Some t"
    using dls_head[OF B] dls_last[OF A] m dist by (auto simp: knext_def[symmetric] kprev_def[symmetric] split: if_splits)
  show ?thesis using h tl ne unfolding unlink_sem_def unlink_slq_def field_defs
    by (cases "kt_qnext (kt s t)"; cases "kt_qprev (kt s t)") (auto simp: fun_eq_iff)
qed

lemma kinvx_unlink_sem:
  assumes K: "kinv s Q" and t: "t \<in> set (Q (Wait c))"
  defines "s' \<equiv> unlink_sem c t s" and "Q' \<equiv> Q(Wait c := remove1 t (Q (Wait c)))"
  shows "kinv s' Q'" "obj_same s s'" "\<And>q. t \<notin> set (Q' q)" "\<And>u. sched s' u = sched s u"
    "\<And>u. kt_slpchannel (kt s' u) = kt_slpchannel (kt s u)" "tmo_failed s' = tmo_failed s"
proof -
  note e = unlink_sem_eq[OF kinvx_queues[OF K] t]
  have u: "kinv (unlink_slq c t s) Q'" unfolding Q'_def by (rule kinvx_unlink_slq[OF K t])
  show off: "t \<notin> set (Q' q)" for q
    using off_after_remove[OF kinvx_queues[OF K], of t "Wait c" q] t unfolding Q'_def by simp
  show "kinv s' Q'" unfolding s'_def e
    by (rule kinvx_only_thread[OF u off only_thread_upd(1)])
      (use kinvx_pri[OF u, of t] t kinvx_wait[OF K t] in \<open>auto simp: upd_kt_def queue_fields\<close>)
  show "obj_same s s'" unfolding s'_def e
    by (rule obj_same_trans[OF obj_same_queues[OF unlink_slq_same] obj_same_upd(3)])
  show "sched s' u = sched s u" "kt_slpchannel (kt s' u) = kt_slpchannel (kt s u)" "tmo_failed s' = tmo_failed s" for u
    unfolding s'_def e by (simp_all add: upd_kt_def queue_fields)
qed

lemma ginv_unlink_sem:
  assumes G: "ginv s Q Ow" and t: "t \<in> set (Q (Wait (Sem_obj i)))"
  shows "ginv (unlink_sem (Sem_obj i) t s) (Q(Wait (Sem_obj i) := remove1 t (Q (Wait (Sem_obj i))))) Ow"
proof -
  have K: "kinv s Q" "sleep_inv s Q" "value_inv s Q" "owner_inv s Ow" using G by (simp_all add: ginv_def)
  note U = kinvx_unlink_sem[OF K(1) t]
  have "sleep_inv (unlink_sem (Sem_obj i) t s) (Q(Wait (Sem_obj i) := remove1 t (Q (Wait (Sem_obj i)))))"
    using K(2) unfolding sleep_inv_def U(4,5) by auto
  moreover have "value_inv (unlink_sem (Sem_obj i) t s) (Q(Wait (Sem_obj i) := remove1 t (Q (Wait (Sem_obj i)))))"
    using K(3) gl_owner_same[OF U(2)] U(2) unfolding value_inv_def obj_same_def by auto
  ultimately show ?thesis using U(1) owner_inv_same[OF U(2) K(4)] by (simp add: ginv_def)
qed

lemma removethread_spec:
  assumes G: "ginv s Q Ow"
  shows "if t \<in> set (Q (Wait (Sem_obj i)))
    then \<exists>s' Q'. removethread_fromsemwait x i t s = Some s' \<and> ginv s' Q' Ow \<and> timers s' = timers s \<and> tobj s' = tobj s \<and>
      (\<forall>d. Q' (Wait d) = (if d = Sem_obj i then remove1 t (Q (Wait d)) else Q (Wait d))) \<and>
      (\<forall>u. u \<noteq> t \<longrightarrow> sched s' u = sched s u) \<and>
      sc_state (sched s' t) = (if proc_state s (kt_process (kt s t)) = PROC_STATE_READY then THREAD_STATE_READY else THREAD_STATE_SLEEP) \<and>
      tmo_failed s' = (tmo_failed s)(x := True) \<and> proc_state s' = proc_state s \<and> (\<forall>u. kt_process (kt s' u) = kt_process (kt s u)) \<and>
      (\<forall>u. sc_state (sched s' u) = THREAD_STATE_SLEEP \<longrightarrow> sc_state (sched s u) = THREAD_STATE_SLEEP \<and>
         (kt_slpchannel (kt s' u) = None \<or> kt_slpchannel (kt s' u) = kt_slpchannel (kt s u)))
    else removethread_fromsemwait x i t s = Some s"
proof -
  have K: "kinv s Q" using G by (simp add: ginv_def)
  have fw: "find_waiter s (sl_head (slq s (Sem_obj i))) t = Some (if t \<in> set (Q (Wait (Sem_obj i))) then Some t else None)"
    using find_waiter_spec[OF kqueues_chain[OF kinvx_queues[OF K], of "Wait (Sem_obj i)"]] by simp
  show ?thesis
  proof (cases "t \<in> set (Q (Wait (Sem_obj i)))")
    case False
    then show ?thesis using G fw by (auto simp: removethread_fromsemwait_def)
  next
    case True
    let ?u = "unlink_sem (Sem_obj i) t s" and ?Q = "Q(Wait (Sem_obj i) := remove1 t (Q (Wait (Sem_obj i))))"
    define w where "w = ?u\<lparr>tmo_failed := (tmo_failed ?u)(x := True)\<rparr>"
    note U = kinvx_unlink_sem[OF K True]
    have sl: "sc_state (sched s t) = THREAD_STATE_SLEEP" using kinvx_wait[OF K True] by simp
    have wf: "sched w u = sched s u" "kt_slpchannel (kt w u) = kt_slpchannel (kt s u)" "kt_process (kt w u) = kt_process (kt s u)"
      "proc_state w = proc_state s" "timers w = timers s" "tobj w = tobj s" "tmo_failed w = (tmo_failed s)(x := True)" for u
      using U(2,4,5,6) by (simp_all add: w_def obj_same_def)
    have "ginv w ?Q Ow" unfolding w_def using ginv_unlink_sem[OF G True] by simp
    then have k: "kinv w ?Q" "sleep_inv w ?Q" "value_inv w ?Q" "owner_inv w Ow" by (simp_all add: ginv_def)
    have st: "sc_state (sched w t) \<noteq> THREAD_STATE_READY" using sl wf(1) by simp
    obtain Q' where Q': "ginv (wakeup t w) Q' Ow" "\<forall>c. Q' (Wait c) = ?Q (Wait c)" using ginv_wakeup[OF k U(3) st] by blast
    have e: "removethread_fromsemwait x i t s = Some (wakeup t w)"
      using fw True by (simp add: removethread_fromsemwait_def Let_def w_def)
    have o: "obj_same w (wakeup t w)" by (rule obj_same_wakeup)
    have p: "pri_ok (sched w t)" using kinvx_pri[OF K] wf(1) by simp
    have "sc_state (sched s u) = THREAD_STATE_SLEEP \<and> (kt_slpchannel (kt (wakeup t w) u) = None \<or>
        kt_slpchannel (kt (wakeup t w) u) = kt_slpchannel (kt s u))"
      if "sc_state (sched (wakeup t w) u) = THREAD_STATE_SLEEP" for u
      using that sched_wakeup[of t w u] wf(1,2)[of u] by auto
    moreover have "sched (wakeup t w) u = sched s u" if "u \<noteq> t" for u using wakeup_effect(1)[OF p that] wf(1) by simp
    moreover have "sc_state (sched (wakeup t w) t) =
      (if proc_state s (kt_process (kt s t)) = PROC_STATE_READY then THREAD_STATE_READY else THREAD_STATE_SLEEP)"
      using wakeup_effect(2)[OF p] wf(1,3,4) sl by simp
    moreover have "timers (wakeup t w) = timers s" "tobj (wakeup t w) = tobj s" "tmo_failed (wakeup t w) = (tmo_failed s)(x := True)"
      "proc_state (wakeup t w) = proc_state s" "\<forall>u. kt_process (kt (wakeup t w) u) = kt_process (kt s u)"
      using o wf by (simp_all add: obj_same_def)
    moreover have "\<forall>d. Q' (Wait d) = (if d = Sem_obj i then remove1 t (Q (Wait d)) else Q (Wait d))" using Q'(2) by simp
    ultimately show ?thesis unfolding if_P[OF True] using e Q'(1)
      by (intro exI[of _ "wakeup t w"] exI[of _ Q']) blast
  qed
qed

lemma event_remove_frame:
  assumes "event_wait_remove_thread x e t s = Some s'"
  shows "kt_slpchannel (kt s' u) = None \<or> kt_slpchannel (kt s' u) = kt_slpchannel (kt s u)"
    "proc_state s' = proc_state s" "kt_process (kt s' u) = kt_process (kt s u)" "y \<noteq> x \<Longrightarrow> tmo_failed s' y = tmo_failed s y"
proof -
  have a: "proc_state (add_readyq t z) = proc_state z" "kt_process (kt (add_readyq t z) v) = kt_process (kt z v)"
    "tmo_failed (add_readyq t z) = tmo_failed z" for z v using obj_same_add_readyq[of z t] by (simp_all add: obj_same_def)
  have b: "proc_state (unlink_slq c t s) = proc_state s" "kt_process (kt (unlink_slq c t s) v) = kt_process (kt s v)"
    "tmo_failed (unlink_slq c t s) = tmo_failed s" for c v
    using obj_same_queues[OF unlink_slq_same, of s c t] by (simp_all add: obj_same_def)
  show "kt_slpchannel (kt s' u) = None \<or> kt_slpchannel (kt s' u) = kt_slpchannel (kt s u)"
    using assms by (auto simp: event_wait_remove_thread_def bind_eq_Some_conv Let_def add_readyq_slpchannel upd_eventt_def upd_kt_def
      queue_fields split: option.splits if_splits)
  show "proc_state s' = proc_state s" "kt_process (kt s' u) = kt_process (kt s u)" "y \<noteq> x \<Longrightarrow> tmo_failed s' y = tmo_failed s y"
    using assms by (auto simp: event_wait_remove_thread_def bind_eq_Some_conv Let_def a b upd_eventt_def upd_kt_def split: option.splits)
qed

section \<open>What the handlers do\<close>

text \<open>The handlers of the timers in \<open>s\<close> have been run for \<open>D\<close>; the rest of what they read is as in \<open>s\<close>.\<close>

definition handled_from :: "kern \<Rightarrow> (qid \<Rightarrow> tid list) \<Rightarrow> (tid \<Rightarrow> chan list) \<Rightarrow> nat set \<Rightarrow> kern \<Rightarrow> bool" where
  "handled_from s Q Ow D s' \<longleftrightarrow> ginv s Q Ow \<and> tmo_ok s \<and> tmo_ok s' \<and>
     (\<forall>y. timer_handler (tobj s' y) = timer_handler (tobj s y) \<and> timer_ownerthread (tobj s' y) = timer_ownerthread (tobj s y)) \<and>
     proc_state s' = proc_state s \<and> (\<forall>t. kt_process (kt s' t) = kt_process (kt s t)) \<and>
     (\<exists>Q'. ginv s' Q' Ow \<and> timers_handled s Q D s' Q')"

lemma wakes_sleep: "kinv s Q \<Longrightarrow> wakes s Q y t \<Longrightarrow> sc_state (sched s t) = THREAD_STATE_SLEEP"
  using kinvx_wait[of "{}" s Q t] by (auto simp: wakes_def split: option.splits tmo_handler.splits)

lemma timers_handled_none:
  assumes "timers_handled s Q D s' Q'" "\<And>u. wakes s Q x u \<Longrightarrow> woken_by s Q D u"
  shows "timers_handled s Q (insert x D) s' Q'"
proof -
  have w: "woken_by s Q (insert x D) u \<longleftrightarrow> woken_by s Q D u" for u using assms(2) by blast
  show ?thesis using assms(1) unfolding timers_handled_def w by blast
qed

lemma timers_handled_wake:
  assumes H: "timers_handled s Q D s1 Q1" and x: "\<And>u. wakes s Q x u \<longleftrightarrow> u = t"
    and q: "\<And>c. Q2 (Wait c) = filter (\<lambda>u. u \<noteq> t) (Q1 (Wait c))"
    and st: "sc_state (sched s2 t) = woken_state s t" "\<And>u. u \<noteq> t \<Longrightarrow> sched s2 u = sched s1 u"
    and fl: "\<And>y. tmo_failed s2 y \<longleftrightarrow> tmo_failed s1 y \<or> y = x \<and> kt_slpchannel (kt s t) \<noteq> None"
  shows "timers_handled s Q (insert x D) s2 Q2"
proof -
  have w: "woken_by s Q (insert x D) u \<longleftrightarrow> woken_by s Q D u \<or> u = t" for u using x by blast
  have "Q2 (Wait c) = filter (\<lambda>u. \<not> woken_by s Q (insert x D) u) (Q (Wait c))" for c
    unfolding q w using H by (simp add: timers_handled_def conj_commute)
  moreover have "sc_state (sched s2 u) = woken_state s u" if "woken_by s Q (insert x D) u" for u
    using that st H unfolding w timers_handled_def by (cases "u = t") auto
  moreover have "sched s2 u = sched s u" if "\<not> woken_by s Q (insert x D) u" for u
    using that st(2) H unfolding w timers_handled_def by auto
  moreover have "\<exists>y \<in> insert x D. wakes s Q y u \<and> tmo_failed s2 y" if "woken_by s Q (insert x D) u" "kt_slpchannel (kt s u) \<noteq> None" for u
  proof (cases "u = t")
    case True
    then show ?thesis using that(2) x fl by blast
  next
    case False
    then have "woken_by s Q D u" using that(1) w by blast
    then show ?thesis using H that(2) fl unfolding timers_handled_def by blast
  qed
  moreover have "tmo_failed s y \<or> y \<in> insert x D \<and> (\<exists>u. wakes s Q y u)" if "tmo_failed s2 y" for y
    using that x fl[of y] H unfolding timers_handled_def by blast
  ultimately show ?thesis unfolding timers_handled_def by blast
qed

text \<open>A waiter is on one queue only, once.\<close>

lemma filter_waiter:
  assumes "kqueues s Q" "t \<in> set (Q (Wait c))" "\<And>d. Q2 (Wait d) = (if d = c then remove1 t (Q (Wait d)) else Q (Wait d))"
  shows "Q2 (Wait d) = filter (\<lambda>u. u \<noteq> t) (Q (Wait d))"
proof -
  have di: "distinct (Q (Wait c))" using assms(1) dl_queuesD[of "knext s" "kprev s" "khead s" "ktail s" Q "Wait c"]
    by (auto simp: kqueues_def dest: dll_distinct)
  show ?thesis
  proof (cases "d = c")
    case True
    then show ?thesis using assms(3) di by (auto simp: distinct_remove1_removeAll removeAll_filter_not_eq intro!: filter_cong)
  next
    case False
    have "t \<notin> set (Q (Wait d))" using kqueues_disjoint[OF assms(1), of t "Wait c" "Wait d"] assms(2) False by blast
    then show ?thesis using assms(3) False by (metis (mono_tags, lifting) filter_id_conv)
  qed
qed

lemma filter_absent: "t \<notin> set xs \<Longrightarrow> filter (\<lambda>u. u \<noteq> t) xs = xs"
  by (auto simp: filter_id_conv)

text \<open>The queue of a waiter, now and before.\<close>

lemma handled_queue:
  assumes "timers_handled s Q D s' Q'"
  shows "t \<in> set (Q' (Wait c)) \<longleftrightarrow> t \<in> set (Q (Wait c)) \<and> \<not> woken_by s Q D t"
  using assms by (simp add: timers_handled_def)

lemma run_tsleep_step:
  assumes I: "handled_from s0 Q0 Ow D s" and h: "timer_handler (tobj s x) = Some Tmo_wakeup"
  shows "\<exists>s'. run_handler rp x s = Some s' \<and> handled_from s0 Q0 Ow (insert x D) s' \<and> timers s' = timers s \<and> tobj s' = tobj s"
proof -
  from I obtain Q where G0: "ginv s0 Q0 Ow" and T0: "tmo_ok s0" and G: "ginv s Q Ow" and T: "tmo_ok s"
    and H: "timers_handled s0 Q0 D s Q" and tb: "\<And>y. timer_handler (tobj s y) = timer_handler (tobj s0 y)"
      "\<And>y. timer_ownerthread (tobj s y) = timer_ownerthread (tobj s0 y)"
    and pr: "proc_state s = proc_state s0" "\<And>t. kt_process (kt s t) = kt_process (kt s0 t)" by (auto simp: handled_from_def)
  have K0: "kinv s0 Q0" using G0 by (simp add: ginv_def)
  have K: "kinv s Q" "sleep_inv s Q" "value_inv s Q" "owner_inv s Ow" using G by (simp_all add: ginv_def)
  obtain t where t: "timer_ownerthread (tobj s x) = Some t" "sc_state (sched s t) = THREAD_STATE_SLEEP \<longrightarrow> kt_slpchannel (kt s t) = None"
    using T h unfolding tmo_ok_def by blast
  have t0: "sc_state (sched s0 t) = THREAD_STATE_SLEEP \<longrightarrow> kt_slpchannel (kt s0 t) = None"
    using T0 h t(1) tb unfolding tmo_ok_def by force
  have wx: "wakes s0 Q0 x u \<longleftrightarrow> u = t \<and> sc_state (sched s0 t) = THREAD_STATE_SLEEP" for u
    using h t(1) tb by (auto simp: wakes_def)
  have same: "sched s t = sched s0 t" if "\<not> woken_by s0 Q0 D t" using H that by (simp add: timers_handled_def)
  have was: "sc_state (sched s0 t) = THREAD_STATE_SLEEP" if "sc_state (sched s t) = THREAD_STATE_SLEEP"
    using that same wakes_sleep[OF K0, of _ t] by metis
  show ?thesis
  proof (cases "sc_state (sched s t) = THREAD_STATE_SLEEP")
    case False
    then have "run_handler rp x s = Some s" using h t(1) by (simp add: run_handler_def)
    moreover have "timers_handled s0 Q0 (insert x D) s Q"
      by (rule timers_handled_none[OF H]) (use wx same False in metis)
    ultimately show ?thesis using I G unfolding handled_from_def by blast
  next
    case True
    have off: "t \<notin> set (Q q)" for q
      using True t(2) kinvx_wait[OF K(1), of t] kinvx_ready[OF K(1), of t] by (cases q) fastforce+
    have nr: "sc_state (sched s t) \<noteq> THREAD_STATE_READY" using True by simp
    obtain Q' where G': "ginv (wakeup t s) Q' Ow" "\<forall>c. Q' (Wait c) = Q (Wait c)" using ginv_wakeup[OF K off nr] by blast
    have o: "obj_same s (wakeup t s)" by (rule obj_same_wakeup)
    then have o': "timers (wakeup t s) = timers s" "tobj (wakeup t s) = tobj s" "tmo_failed (wakeup t s) = tmo_failed s"
      "proc_state (wakeup t s) = proc_state s" "\<And>u. kt_process (kt (wakeup t s) u) = kt_process (kt s u)"
      by (simp_all add: obj_same_def)
    note p = kinvx_pri[OF K(1), of t]
    have T': "tmo_ok (wakeup t s)"
      by (rule tmo_ok_frame[OF T o'(2)]) (use sched_wakeup[of t s] in \<open>metis thread_state.distinct\<close>)
    have sl0: "kt_slpchannel (kt s0 t) = None" using t0 was[OF True] by blast
    have "timers_handled s0 Q0 (insert x D) (wakeup t s) Q'"
    proof (rule timers_handled_wake[OF H])
      show "wakes s0 Q0 x u \<longleftrightarrow> u = t" for u using wx was[OF True] by simp
      show "Q' (Wait c) = filter (\<lambda>u. u \<noteq> t) (Q (Wait c))" for c using G'(2) filter_absent[OF off] by simp
      show "sc_state (sched (wakeup t s) t) = woken_state s0 t"
        using wakeup_effect(2)[OF p] True sl0 pr by (simp add: woken_state_def)
      show "sched (wakeup t s) u = sched s u" if "u \<noteq> t" for u by (rule wakeup_effect(1)[OF p that])
      show "tmo_failed (wakeup t s) y \<longleftrightarrow> tmo_failed s y \<or> y = x \<and> kt_slpchannel (kt s0 t) \<noteq> None" for y using o'(3) sl0 by simp
    qed
    moreover have "run_handler rp x s = Some (wakeup t s)" using h t(1) True by (simp add: run_handler_def)
    ultimately show ?thesis using G0 T0 G'(1) T' tb pr o' unfolding handled_from_def by auto
  qed
qed

lemma run_waiter_step:
  assumes I: "handled_from s0 Q0 Ow D s" "ginv s Q Ow" "timers_handled s0 Q0 D s Q" and c: "\<not> is_lock c"
    and wx: "\<And>u. wakes s0 Q0 x u \<longleftrightarrow> u = t \<and> t \<in> set (Q0 (Wait c))"
    and run: "if t \<in> set (Q (Wait c))
      then \<exists>s' Q'. run_handler rp x s = Some s' \<and> ginv s' Q' Ow \<and> timers s' = timers s \<and> tobj s' = tobj s \<and>
        (\<forall>d. Q' (Wait d) = (if d = c then remove1 t (Q (Wait d)) else Q (Wait d))) \<and>
        (\<forall>u. u \<noteq> t \<longrightarrow> sched s' u = sched s u) \<and> sc_state (sched s' t) = woken_state s0 t \<and>
        (\<forall>y. tmo_failed s' y \<longleftrightarrow> tmo_failed s y \<or> y = x) \<and> proc_state s' = proc_state s \<and> (\<forall>u. kt_process (kt s' u) = kt_process (kt s u)) \<and>
        tmo_ok s'
      else run_handler rp x s = Some s"
  shows "\<exists>s'. run_handler rp x s = Some s' \<and> handled_from s0 Q0 Ow (insert x D) s' \<and> timers s' = timers s \<and> tobj s' = tobj s"
proof (cases "t \<in> set (Q (Wait c))")
  case False
  have "run_handler rp x s = Some s" using run[unfolded if_not_P[OF False]] .
  moreover have "timers_handled s0 Q0 (insert x D) s Q"
  proof (rule timers_handled_none[OF I(3)])
    fix u assume "wakes s0 Q0 x u"
    then have "u = t" "t \<in> set (Q0 (Wait c))" using wx by blast+
    then show "woken_by s0 Q0 D u" using False handled_queue[OF I(3), of t c] by blast
  qed
  ultimately show ?thesis using I unfolding handled_from_def by blast
next
  case True
  from run[unfolded if_P[OF True]] obtain s' Q' where A: "run_handler rp x s = Some s'" "ginv s' Q' Ow" "timers s' = timers s" "tobj s' = tobj s"
    "\<forall>d. Q' (Wait d) = (if d = c then remove1 t (Q (Wait d)) else Q (Wait d))" "\<forall>u. u \<noteq> t \<longrightarrow> sched s' u = sched s u"
    "sc_state (sched s' t) = woken_state s0 t" "\<forall>y. tmo_failed s' y \<longleftrightarrow> tmo_failed s y \<or> y = x" "proc_state s' = proc_state s"
    "\<forall>u. kt_process (kt s' u) = kt_process (kt s u)" "tmo_ok s'" by blast
  have K: "kinv s Q" "kinv s0 Q0" using I(1,2) by (simp_all add: ginv_def handled_from_def)
  have t0: "t \<in> set (Q0 (Wait c))" using handled_queue[OF I(3)] True by blast
  have "timers_handled s0 Q0 (insert x D) s' Q'"
  proof (rule timers_handled_wake[OF I(3)])
    show "wakes s0 Q0 x u \<longleftrightarrow> u = t" for u using wx t0 by blast
    show "Q' (Wait d) = filter (\<lambda>u. u \<noteq> t) (Q (Wait d))" for d
      by (rule filter_waiter[OF kinvx_queues[OF K(1)] True]) (use A(5) in blast)
    show "tmo_failed s' y \<longleftrightarrow> tmo_failed s y \<or> y = x \<and> kt_slpchannel (kt s0 t) \<noteq> None" for y
      using A(8) kinvx_wait[OF K(2) t0] by simp
  qed (use A(6,7) in auto)
  then show ?thesis using A I(1) unfolding handled_from_def by auto
qed

lemma run_handler_ok:
  assumes I: "handled_from s0 Q0 Ow D s" and rp: "packet_handler_ok rp"
  shows "\<exists>s'. run_handler rp x s = Some s' \<and> handled_from s0 Q0 Ow (insert x D) s' \<and> timers s' = timers s \<and> tobj s' = tobj s"
proof -
  from I obtain Q where G0: "ginv s0 Q0 Ow" and G: "ginv s Q Ow" and T: "tmo_ok s"
    and H: "timers_handled s0 Q0 D s Q" and tb: "timer_handler (tobj s x) = timer_handler (tobj s0 x)"
    and pr: "proc_state s = proc_state s0" "\<And>t. kt_process (kt s t) = kt_process (kt s0 t)" by (auto simp: handled_from_def)
  have K0: "kinv s0 Q0" and K: "kinv s Q" using G0 G by (simp_all add: ginv_def)
  have in0: "t \<in> set (Q0 (Wait c))" if "t \<in> set (Q (Wait c))" for t c using handled_queue[OF H] that by blast
  consider (none) "timer_handler (tobj s x) = None" | (pkt) n where "timer_handler (tobj s x) = Some (Tmo_other n)"
    | (tsleep) "timer_handler (tobj s x) = Some Tmo_wakeup"
    | (event) e t where "timer_handler (tobj s x) = Some (Tmo_event_wait_remove_thread e t)"
    | (sem) i t where "timer_handler (tobj s x) = Some (Tmo_removethread_fromsemwait i t)"
    by (metis option.exhaust tmo_handler.exhaust)
  then show ?thesis
  proof cases
    case none
    then have "run_handler rp x s = Some s" "\<not> wakes s0 Q0 x u" for u using tb by (simp_all add: run_handler_def wakes_def)
    then show ?thesis using I timers_handled_none[OF H, of x] G unfolding handled_from_def by blast
  next
    case (pkt n)
    then have "run_handler rp x s = Some s" "\<not> wakes s0 Q0 x u" for u
      using tb rp by (simp_all add: run_handler_def wakes_def packet_handler_ok_def split: option.splits tmo_handler.splits)
    then show ?thesis using I timers_handled_none[OF H, of x] G unfolding handled_from_def by blast
  next
    case tsleep
    then show ?thesis by (rule run_tsleep_step[OF I])
  next
    case (event e t)
    have r: "run_handler rp x s = event_wait_remove_thread x e t s" using event by (simp add: run_handler_def)
    have wx: "wakes s0 Q0 x u \<longleftrightarrow> u = t \<and> t \<in> set (Q0 (Wait (Event_obj e)))" for u using event tb by (auto simp: wakes_def)
    show ?thesis
    proof (rule run_waiter_step[OF I G H is_lock_simps(3) wx], goal_cases)
      case 1
      show ?case
      proof (cases "t \<in> set (Q (Wait (Event_obj e)))")
        case True
        with event_wait_remove_thread_spec[OF G, of t e x] obtain s' Q' where
          A: "event_wait_remove_thread x e t s = Some s'" "ginv s' Q' Ow" "timers s' = timers s" "tobj s' = tobj s" "tmo_failed s' x"
            "\<forall>d. Q' (Wait d) = (if d = Event_obj e then remove1 t (Q (Wait d)) else Q (Wait d))"
            "\<forall>u. sched s' u = (if u = t then (sched s u)\<lparr>sc_state := THREAD_STATE_READY\<rparr> else sched s u)" by auto
        note F = event_remove_frame[OF A(1)]
        have "tmo_ok s'" by (rule tmo_ok_frame[OF T A(4)]) (use A(7) F(1) in \<open>auto split: if_splits\<close>)
        moreover have "woken_state s0 t = THREAD_STATE_READY" using kinvx_wait[OF K0 in0[OF True]] by (simp add: woken_state_def)
        moreover have "tmo_failed s' y \<longleftrightarrow> tmo_failed s y \<or> y = x" for y using F(4)[of y] A(5) by blast
        ultimately show ?thesis unfolding if_P[OF True] r using A F(2,3) by (intro exI[of _ s'] exI[of _ Q']) auto
      next
        case False
        then show ?thesis using event_wait_remove_thread_spec[OF G, of t e x] r by simp
      qed
    qed
  next
    case (sem i t)
    have r: "run_handler rp x s = removethread_fromsemwait x i t s" using sem by (simp add: run_handler_def)
    have wx: "wakes s0 Q0 x u \<longleftrightarrow> u = t \<and> t \<in> set (Q0 (Wait (Sem_obj i)))" for u using sem tb by (auto simp: wakes_def)
    show ?thesis
    proof (rule run_waiter_step[OF I G H is_lock_simps(4) wx], goal_cases)
      case 1
      show ?case
      proof (cases "t \<in> set (Q (Wait (Sem_obj i)))")
        case True
        from removethread_spec[OF G, of t i x, unfolded if_P[OF True]] obtain s' Q' where
          A: "removethread_fromsemwait x i t s = Some s'" "ginv s' Q' Ow" "timers s' = timers s" "tobj s' = tobj s"
            "\<forall>d. Q' (Wait d) = (if d = Sem_obj i then remove1 t (Q (Wait d)) else Q (Wait d))" "\<forall>u. u \<noteq> t \<longrightarrow> sched s' u = sched s u"
            "sc_state (sched s' t) = (if proc_state s (kt_process (kt s t)) = PROC_STATE_READY then THREAD_STATE_READY else THREAD_STATE_SLEEP)"
            "tmo_failed s' = (tmo_failed s)(x := True)" "proc_state s' = proc_state s" "\<forall>u. kt_process (kt s' u) = kt_process (kt s u)"
            "\<forall>u. sc_state (sched s' u) = THREAD_STATE_SLEEP \<longrightarrow> sc_state (sched s u) = THREAD_STATE_SLEEP \<and>
               (kt_slpchannel (kt s' u) = None \<or> kt_slpchannel (kt s' u) = kt_slpchannel (kt s u))" by blast
        have "tmo_ok s'" by (rule tmo_ok_frame[OF T A(4)]) (use A(11) in blast)
        moreover have "kt_slpchannel (kt s0 t) = Some (Sem_obj i)" using kinvx_wait[OF K0 in0[OF True]] by simp
        then have "sc_state (sched s' t) = woken_state s0 t" using A(7) pr by (simp add: woken_state_def)
        ultimately show ?thesis unfolding if_P[OF True] r using A by (intro exI[of _ s'] exI[of _ Q']) auto
      next
        case False
        then show ?thesis using removethread_spec[OF G, of t i x] r by simp
      qed
    qed
  qed
qed

lemma ginv_fields:
  assumes "kt s' = kt s" "slq s' = slq s" "lockt s' = lockt s" "rlockt s' = rlockt s" "eventt s' = eventt s"
    "ready_qhead s' = ready_qhead s" "ready_qtail s' = ready_qtail s" and G: "ginv s Q Ow"
  shows "ginv s' Q Ow"
proof -
  have "kinv s Q" using G by (simp add: ginv_def)
  then have "kinv s' Q" by (rule kinvx_fields[rotated -1]) (simp_all add: assms)
  moreover have "value_inv s' Q = value_inv s Q" by (rule value_inv_fields) (simp_all add: assms)
  moreover have "owner_inv s' Ow = owner_inv s Ow"
    using gl_owner_fields[of s' s] owned_cong[of s' s Ow] assms by (simp add: owner_inv_def)
  ultimately show ?thesis using sleep_inv_fields[of s' s] assms(1) G by (simp add: ginv_def)
qed

lemma unlink_expired_fields:
  "kt (unlink_expired x s) = kt s" "slq (unlink_expired x s) = slq s" "lockt (unlink_expired x s) = lockt s"
  "rlockt (unlink_expired x s) = rlockt s" "eventt (unlink_expired x s) = eventt s"
  "ready_qhead (unlink_expired x s) = ready_qhead s" "ready_qtail (unlink_expired x s) = ready_qtail s"
  "proc_state (unlink_expired x s) = proc_state s" "tmo_failed (unlink_expired x s) = tmo_failed s"
  "timer_handler (tobj (unlink_expired x s) y) = timer_handler (tobj s y)"
  "timer_ownerthread (tobj (unlink_expired x s) y) = timer_ownerthread (tobj s y)"
  by (simp_all add: unlink_expired_def upd_tobj_def Let_def split: option.split)

lemma handled_from_fields:
  assumes "handled_from s0 Q0 Ow D s" "kt s' = kt s" "slq s' = slq s" "lockt s' = lockt s" "rlockt s' = rlockt s" "eventt s' = eventt s"
    "ready_qhead s' = ready_qhead s" "ready_qtail s' = ready_qtail s" "proc_state s' = proc_state s" "tmo_failed s' = tmo_failed s"
    "\<And>y. timer_handler (tobj s' y) = timer_handler (tobj s y) \<and> timer_ownerthread (tobj s' y) = timer_ownerthread (tobj s y)"
  shows "handled_from s0 Q0 Ow D s'"
proof -
  from assms(1) obtain Q where "ginv s Q Ow" "timers_handled s0 Q0 D s Q" by (auto simp: handled_from_def)
  then have "ginv s' Q Ow" "timers_handled s0 Q0 D s' Q" using ginv_fields[OF assms(2-8)] by (simp_all add: timers_handled_def assms)
  then show ?thesis using assms unfolding handled_from_def tmo_ok_def by auto
qed

interpretation tmo: timeout_client "run_handler rp" "\<lambda>D s. packet_handler_ok rp \<and> handled_from s0 Q0 Ow D s" for rp s0 Q0 Ow
proof unfold_locales
  show "\<exists>s'. run_handler rp x s = Some s' \<and> (packet_handler_ok rp \<and> handled_from s0 Q0 Ow (insert x D) s') \<and> timers s' = timers s \<and> tobj s' = tobj s"
    if "packet_handler_ok rp \<and> handled_from s0 Q0 Ow D s" for D s x using run_handler_ok[of s0 Q0 Ow D s rp x] that by blast
  show "packet_handler_ok rp \<and> handled_from s0 Q0 Ow D (unlink_expired x s)" if "packet_handler_ok rp \<and> handled_from s0 Q0 Ow D s" for D s x
    using that by (auto intro!: handled_from_fields[of s0 Q0 Ow D s] simp: unlink_expired_fields)
  show "packet_handler_ok rp \<and> handled_from s0 Q0 Ow D (s\<lparr>timers := h\<rparr>)" if "packet_handler_ok rp \<and> handled_from s0 Q0 Ow D s" for D s h
    using that by (auto intro!: handled_from_fields[of s0 Q0 Ow D s])
qed

section \<open>Properties\<close>

text \<open>C11: The timer thread handles exactly the timers that are due.  Its loop returns with the kernel
  invariant intact; every timer whose remaining time was not positive is off the queue
  and every other one is still queued with the same remaining time.  The handlers of the due timers, and no others, have
  taken effect: their sleepers in \<^verbatim>\<open>tsleep\<close> are awake, and their waiters of events and semaphores are off the sleep queues, which keep
  their order otherwise, are told that the time is over and are awake (ready; or, woken by \<^verbatim>\<open>wakeup\<close> in a process that is
  not ready, still in the sleep state as the code leaves it); no other thread changes.  Packet timers are covered as far as their
  handler leaves the threads, locks and timers alone (\<open>packet_handler_ok\<close>).\<close>

theorem expire_timers_exact:
  assumes "ginv s Q Ow" "tmo_ok s" "tqueue s L" "deltas_small L" "tail_nonneg L" "packet_handler_ok rp"
  shows "\<exists>s' Q' L'. expire_timers (run_handler rp) (timers s) s = Some s' \<and> ginv s' Q' Ow \<and> tmo_ok s' \<and> tqueue s' L' \<and>
    (\<forall>y. expiry L' y = (if y \<in> due L then None else expiry L y)) \<and> timers_handled s Q (due L) s' Q'"
proof -
  have "timers_handled s Q {} s Q" by (simp add: timers_handled_def)
  then have "handled_from s Q Ow {} s" using assms(1,2) unfolding handled_from_def by blast
  moreover have "tqueue (s\<lparr>timers := timers s\<rparr>) L" using assms(3) by simp
  ultimately obtain s' where s': "expire_timers (run_handler rp) (timers s) s = Some s'"
    "handled_from s Q Ow ({} \<union> set (delta_due L)) s'" "tqueue s' (delta_expire L)"
    using tmo.expire_timers_refines[of rp s Q Ow "{}"] assms(6) by blast
  have di: "distinct (map fst L)" using assms(3) by (auto simp: tqueue_def dll_def)
  have "expiry (delta_expire L) y = (if y \<in> due L then None else expiry L y)" for y
    using delta_expire_correct[OF assms(4,5) di, of y] by (auto simp: due_def split: option.splits)
  moreover have "handled_from s Q Ow (due L) s'" using s'(2) due_delta_due[OF assms(4,5) di] by simp
  ultimately show ?thesis using s'(1,3) unfolding handled_from_def by blast
qed

text \<open>Two timers without handler, the first 20 milliseconds overdue, the second due in 80.\<close>

definition two_timers :: kern where
  "two_timers = boot_kern\<lparr>timers := Some 1, tobj := (tobj boot_kern)(
     1 := (tobj boot_kern 1)\<lparr>timer_count := - 20, timer_next := Some 2\<rparr>,
     2 := (tobj boot_kern 2)\<lparr>timer_count := 100, timer_prev := Some 1\<rparr>)\<rparr>"

lemma two_timers_ok: "tqueue two_timers [(1, - 20), (2, 100)]"
  by (auto simp: tqueue_def two_timers_def tnext_def tprev_def dll_def boot_kern_def)

text \<open>Thread 2 waits for event 3 until the overdue timer 1 fires, thread 3 for event 4 until timer 2 fires.\<close>

definition timed_waiters :: kern where
  "timed_waiters = two_timers\<lparr>
     kt := (kt boot_kern)(
       2 := (kt boot_kern 2)\<lparr>kt_schedinf := (boot_sched 2)\<lparr>sc_state := THREAD_STATE_SLEEP\<rparr>, kt_slpchannel := Some (Event_obj 3)\<rparr>,
       3 := (kt boot_kern 3)\<lparr>kt_schedinf := (boot_sched 3)\<lparr>sc_state := THREAD_STATE_SLEEP\<rparr>, kt_slpchannel := Some (Event_obj 4)\<rparr>),
     slq := (slq boot_kern)(Event_obj 3 := (empty_slq SYNCH_TYPE_EVENT)\<lparr>sl_head := Some 2, sl_tail := Some 2\<rparr>,
       Event_obj 4 := (empty_slq SYNCH_TYPE_EVENT)\<lparr>sl_head := Some 3, sl_tail := Some 3\<rparr>),
     eventt := (eventt boot_kern)(3 := \<lparr>e_val = 1\<rparr>, 4 := \<lparr>e_val = 1\<rparr>),
     tobj := (tobj two_timers)(1 := (tobj two_timers 1)\<lparr>timer_handler := Some (Tmo_event_wait_remove_thread 3 2)\<rparr>,
       2 := (tobj two_timers 2)\<lparr>timer_handler := Some (Tmo_event_wait_remove_thread 4 3)\<rparr>)\<rparr>"

definition waiter_queues :: "qid \<Rightarrow> tid list" where
  "waiter_queues = boot_queues(Wait (Event_obj 3) := [2], Wait (Event_obj 4) := [3])"

lemmas waiter_defs = timed_waiters_def two_timers_def waiter_queues_def boot_queues_def boot_kern_def

lemma timed_waiters_kinv: "kinv timed_waiters waiter_queues"
proof (rule kinvxI, goal_cases)
  case 1
  have "dll (knext timed_waiters) (kprev timed_waiters) (khead timed_waiters q) (waiter_queues q) (ktail timed_waiters q)" for q
    by (cases q) (auto simp: waiter_defs dll_def knext_def kprev_def empty_slq_def)
  moreover have "set (waiter_queues q) \<inter> set (waiter_queues r) = {}" if "q \<noteq> r" for q r
    using that by (auto simp: waiter_queues_def boot_queues_def)
  ultimately show ?case by (simp add: kqueues_def dl_queues_def)
next
  case (2 i t)
  then show ?case by (auto simp: waiter_defs boot_sched_def ready_index_def split: if_splits)
next
  case (3 c t)
  then show ?case by (auto simp: waiter_defs split: if_splits)
next
  case (4 t)
  then show ?case by (auto simp: waiter_defs boot_sched_def ready_index_def split: if_splits)
next
  case (5 t)
  show ?case by (auto simp: waiter_defs boot_sched_def pri_ok_def maxpri_def)
qed

lemma timed_waiters_ok: "ginv timed_waiters waiter_queues (\<lambda>_. [])" "tmo_ok timed_waiters" "tqueue timed_waiters [(1, - 20), (2, 100)]"
proof -
  have "sleep_inv timed_waiters waiter_queues" by (auto simp: sleep_inv_def waiter_defs boot_sched_def split: if_splits)
  moreover have "value_inv timed_waiters waiter_queues" by (auto simp: value_inv_def waiter_defs gl_owner_def split: chan.splits if_splits)
  moreover have "owner_inv timed_waiters (\<lambda>_. [])"
    by (auto simp: owner_inv_def owned_def dl_queues_def dll_def last_of_def snext_def sprev_def shead_def gl_owner_def type_of_def
        waiter_defs empty_slq_def split: chan.split)
  ultimately show "ginv timed_waiters waiter_queues (\<lambda>_. [])" using timed_waiters_kinv by (simp add: ginv_def)
  show "tmo_ok timed_waiters" by (auto simp: tmo_ok_def waiter_defs)
  show "tqueue timed_waiters [(1, - 20), (2, 100)]" by (rule tqueue_fields[OF _ _ two_timers_ok]) (auto simp: timed_waiters_def two_timers_def)
qed

theorem expire_timers_exact_witness:
  "\<exists>s' Q' L'. expire_timers (run_handler (\<lambda>_. Some)) (timers timed_waiters) timed_waiters = Some s' \<and> ginv s' Q' (\<lambda>_. []) \<and> tqueue s' L' \<and>
     expiry L' 1 = None \<and> expiry L' 2 = Some 80 \<and> sc_state (sched s' 2) = THREAD_STATE_READY \<and> tmo_failed s' 1 \<and>
     sc_state (sched s' 3) = THREAD_STATE_SLEEP \<and> Q' (Wait (Event_obj 3)) = [] \<and> Q' (Wait (Event_obj 4)) = [3]"
proof -
  let ?L = "[(1, - 20), (2, 100)] :: delta_list"
  have s: "deltas_small ?L" "tail_nonneg ?L" "packet_handler_ok (\<lambda>_. Some)"
    by (simp_all add: deltas_small_def tail_nonneg_def packet_handler_ok_def)
  have e: "expiry ?L 1 = Some (- 20)" "expiry ?L 2 = Some 80" by simp_all
  have d: "due ?L = {1}" by (auto simp: due_def split: if_splits)
  have w: "wakes timed_waiters waiter_queues 1 t \<longleftrightarrow> t = 2" for t by (auto simp: wakes_def waiter_defs)
  have q: "waiter_queues (Wait (Event_obj 3)) = [2]" "waiter_queues (Wait (Event_obj 4)) = [3]" by (simp_all add: waiter_queues_def)
  have k: "kt_slpchannel (kt timed_waiters 2) = Some (Event_obj 3)" "sc_state (sched timed_waiters 3) = THREAD_STATE_SLEEP"
    by (simp_all add: waiter_defs)
  obtain s' Q' L' where A: "expire_timers (run_handler (\<lambda>_. Some)) (timers timed_waiters) timed_waiters = Some s'" "ginv s' Q' (\<lambda>_. [])" "tqueue s' L'"
    and B: "\<forall>y. expiry L' y = (if y \<in> {1} then None else expiry ?L y)"
    and H: "timers_handled timed_waiters waiter_queues {1} s' Q'"
    using expire_timers_exact[OF timed_waiters_ok s] unfolding d by blast
  have "sc_state (sched s' 2) = THREAD_STATE_READY" "sched s' 3 = sched timed_waiters 3" "tmo_failed s' 1"
    "Q' (Wait (Event_obj 3)) = []" "Q' (Wait (Event_obj 4)) = [3]"
    using H k(1) unfolding timers_handled_def by (simp_all add: w[unfolded One_nat_def] q woken_state_def)
  moreover have "expiry L' 1 = None" "expiry L' 2 = Some 80" using B e by simp_all
  ultimately show ?thesis using A k(2) by (intro exI[of _ s'] exI[of _ Q'] exI[of _ L']) simp
qed

text \<open>C22: Starting a timer.  Insertion returns; the new timer is due after the requested time and every other timer
  when it was due before; without overflow only the first delta of the queue can be
  negative, so timers are queued in the order in which they are due.\<close>

theorem insert_timerobj_correct:
  assumes "tqueue s L" "x \<notin> fst ` set L" "timer_next (tobj s x) = None" "timer_prev (tobj s x) = None"
    "tail_nonneg L" "L \<noteq> [] \<Longrightarrow> - (2 ^ 30) \<le> sint (snd (hd L))" "0 \<le> sint (timer_count (tobj s x))"
    "sint (timer_count (tobj s x)) < 2 ^ 30"
  shows "\<exists>s' L'. insert_timerobj x s = Some s' \<and> tqueue s' L' \<and> tail_nonneg L' \<and> tq_only s s' \<and>
    (\<forall>y. expiry L' y = (if y = x then Some (timer_count (tobj s x)) else expiry L y))"
  using insert_timerobj_refines[OF assms(1-4)] expiry_insert[OF assms(2), of "timer_count (tobj s x)"]
    tail_nonneg_insert[OF assms(5-8), of x] by blast

theorem insert_timerobj_correct_witness:
  "\<exists>s' L'. insert_timerobj 5 (upd_tobj 5 (\<lambda>b. b\<lparr>timer_count := 40\<rparr>) two_timers) = Some s' \<and> tqueue s' L' \<and>
     expiry L' 5 = Some 40 \<and> expiry L' 2 = Some 80"
proof -
  let ?s = "upd_tobj 5 (\<lambda>b. b\<lparr>timer_count := 40\<rparr>) two_timers"
  have T: "tqueue ?s [(1, - 20), (2, 100)]" by (rule tqueue_fields[OF _ _ two_timers_ok]) (auto simp: upd_tobj_def)
  have f: "timer_next (tobj ?s 5) = None" "timer_prev (tobj ?s 5) = None" "timer_count (tobj ?s 5) = 40"
    by (simp_all add: upd_tobj_def two_timers_def boot_kern_def)
  have e: "expiry [(1, - 20), (2, 100)] 2 = Some 80" by simp
  have n: "tail_nonneg [(1, - 20), (2, 100)]" by (simp add: tail_nonneg_def)
  from insert_timerobj_correct[OF T _ f(1,2) n] obtain s' L' where A: "insert_timerobj 5 ?s = Some s'" "tqueue s' L'"
    "\<forall>y. expiry L' y = (if y = 5 then Some (timer_count (tobj ?s 5)) else expiry [(1, - 20), (2, 100)] y)"
    by (auto simp: f(3))
  then show ?thesis using e f(3) by auto
qed

text \<open>Removing a timer leaves the time at which every other timer is due unchanged.\<close>

theorem remove_timerobj_correct:
  assumes "tqueue s L" "x \<in> fst ` set L"
  shows "\<exists>L'. tqueue (remove_timerobj x s) L' \<and> tq_only s (remove_timerobj x s) \<and>
    (\<forall>y. expiry L' y = (if y = x then None else expiry L y))"
proof -
  have "distinct (map fst L)" using assms(1) by (auto simp: tqueue_def dll_def)
  from expiry_remove[OF this, of x] remove_timerobj_refines(1,2)[OF assms] show ?thesis by blast
qed

theorem remove_timerobj_correct_witness:
  "\<exists>L'. tqueue (remove_timerobj 1 two_timers) L' \<and> expiry L' 1 = None \<and> expiry L' 2 = Some 80"
proof -
  have e: "expiry [(1, - 20), (2, 100)] 2 = Some 80" by simp
  from remove_timerobj_correct[OF two_timers_ok, of 1] obtain L' where
    "tqueue (remove_timerobj 1 two_timers) L'" "\<forall>y. expiry L' y = (if y = 1 then None else expiry [(1, - 20), (2, 100)] y)" by auto
  then show ?thesis using e by auto
qed

lemma time_scheduler:
  assumes "scheduler s = Some s'"
  shows "secs s' = secs s" "millesecs s' = millesecs s"
proof -
  have r: "secs (requeue_current z) = secs z" "millesecs (requeue_current z) = millesecs z" for z
    by (simp_all add: requeue_current_def append_readyq_def Let_def upd_sched_def upd_kt_def split: option.split)
  have u: "secs (unlink_readyq j n z) = secs z" "millesecs (unlink_readyq j n z) = millesecs z" for j n z
    by (simp_all add: unlink_readyq_def Let_def upd_kt_def split: option.split)
  show "secs s' = secs s" "millesecs s' = millesecs s"
    using assms unfolding scheduler_def Let_def
    by (auto simp: bind_eq_Some_conv context_switch_def upd_sched_def upd_kt_def r u split: option.splits if_splits)
qed

lemma clock_tick_fields:
  "kt (clock_tick s) = kt s" "slq (clock_tick s) = slq s" "lockt (clock_tick s) = lockt s" "rlockt (clock_tick s) = rlockt s"
  "eventt (clock_tick s) = eventt s" "ready_qhead (clock_tick s) = ready_qhead s" "ready_qtail (clock_tick s) = ready_qtail s"
  "current_thread (clock_tick s) = current_thread s" "timers (clock_tick s) = timers s" "tobj (clock_tick s) = tobj s"
  by (simp_all add: clock_tick_def Let_def)

lemma timers_tick_fields:
  "kt (timers_tick s) = kt s" "slq (timers_tick s) = slq s" "lockt (timers_tick s) = lockt s" "rlockt (timers_tick s) = rlockt s"
  "eventt (timers_tick s) = eventt s" "ready_qhead (timers_tick s) = ready_qhead s" "ready_qtail (timers_tick s) = ready_qtail s"
  "current_thread (timers_tick s) = current_thread s" "timers (timers_tick s) = timers s"
  "secs (timers_tick s) = secs s" "millesecs (timers_tick s) = millesecs s"
  by (simp_all add: timers_tick_def upd_tobj_def Let_def split: option.split)

lemma clock_tick_time:
  assumes "uint (millesecs s) < 1000" "uint (secs s) < 2 ^ 32 - 1"
  shows "uint (millesecs (clock_tick s)) < 1000"
    "uint (secs (clock_tick s)) * 1000 + uint (millesecs (clock_tick s)) = uint (secs s) * 1000 + uint (millesecs s) + 20"
proof -
  have m: "uint (millesecs s + 20) = uint (millesecs s) + 20" using assms(1) by (simp add: uint_word_ariths)
  have "uint (secs s + 1) = uint (secs s) + 1" using assms(2) by (simp add: uint_word_ariths)
  moreover have "uint (millesecs s + 20 - 1000) = uint (millesecs s) + 20 - 1000" if "1000 \<le> millesecs s + 20"
  proof -
    have "1000 \<le> uint (millesecs s) + 20" using that m by (simp add: word_le_def)
    then show ?thesis using assms(1) m by (simp add: uint_word_ariths)
  qed
  ultimately show "uint (millesecs (clock_tick s)) < 1000"
    "uint (secs (clock_tick s)) * 1000 + uint (millesecs (clock_tick s)) = uint (secs s) * 1000 + uint (millesecs s) + 20"
    using m assms by (auto simp: clock_tick_def Let_def word_le_def)
qed

lemma timers_tick_expiry:
  assumes T: "tqueue s L"
  shows "\<exists>L'. tqueue (timers_tick s) L' \<and> (\<forall>y. expiry L' y = map_option (\<lambda>e. e - 20) (expiry L y))"
proof (cases L)
  case Nil
  then have "timers s = None" using T by (auto simp: tqueue_def)
  then show ?thesis using T Nil by (intro exI[of _ "[]"]) (simp add: timers_tick_def)
next
  case (Cons p r)
  obtain x d where p: "p = (x, d)" by force
  have h: "timers s = Some x" using T Cons p by (auto simp: tqueue_def dll_def)
  have di: "distinct (map fst L)" using T by (auto simp: tqueue_def dll_def)
  let ?s = "timers_tick s"
  have t: "timer_next (tobj ?s y) = timer_next (tobj s y)" "timer_prev (tobj ?s y) = timer_prev (tobj s y)"
    "timer_count (tobj ?s y) = (if y = x then timer_count (tobj s y) - 20 else timer_count (tobj s y))" for y
    using h by (simp_all add: timers_tick_def upd_tobj_def Let_def)
  have n: "tnext ?s = tnext s" "tprev ?s = tprev s" by (simp_all add: tnext_def tprev_def t fun_eq_iff)
  have "tqueue ?s ((x, d - 20) # r)"
    using T di unfolding tqueue_def Cons p by (force simp: n t timers_tick_fields)
  moreover have "expiry ((x, d - 20) # r) y = map_option (\<lambda>e. e - 20) (expiry L y)" for y
    unfolding Cons p by (cases "expiry r y") auto
  ultimately show ?thesis by blast
qed

text \<open>C20: The clock interrupt.  It returns in every good state and keeps the kernel invariant; system time advances by
  20 milliseconds and so does every running timer.\<close>

theorem clock_interrupt_correct:
  assumes G: "ginv s Q Ow" and R: "running s" and T: "tqueue s L" and c: "uint (millesecs s) < 1000" "uint (secs s) < 2 ^ 32 - 1"
  shows "\<exists>s' L'. timer_handler_irq s = Some s' \<and> sys_inv s' \<and>
    uint (secs s') * 1000 + uint (millesecs s') = uint (secs s) * 1000 + uint (millesecs s) + 20 \<and>
    uint (millesecs s') < 1000 \<and> tqueue s' L' \<and> (\<forall>y. expiry L' y = map_option (\<lambda>e. e - 20) (expiry L y))"
proof -
  let ?s1 = "timers_tick (clock_tick s)"
  let ?s2 = "rr_cl_tick (current_thread ?s1) ?s1"
  note f = clock_tick_fields timers_tick_fields
  have "ginv ?s1 Q Ow" by (rule ginv_fields[OF _ _ _ _ _ _ _ G]) (simp_all add: f)
  moreover have "running ?s1" using running_fields[of ?s1 s] R by (simp add: f)
  ultimately have G2: "ginv ?s2 Q Ow" "running ?s2" using tick_inv by blast+
  have tm: "secs ?s2 = secs ?s1" "millesecs ?s2 = millesecs ?s1" "timers ?s2 = timers ?s1" "tobj ?s2 = tobj ?s1"
    by (simp_all add: rr_cl_tick_def Let_def upd_sched_def upd_kt_def)
  have "tqueue (clock_tick s) L" by (rule tqueue_fields[OF _ _ T]) (simp_all add: f)
  from timers_tick_expiry[OF this] obtain L' where L': "tqueue ?s1 L'" "\<forall>y. expiry L' y = map_option (\<lambda>e. e - 20) (expiry L y)" by auto
  have T2: "tqueue ?s2 L'" by (rule tqueue_fields[OF _ _ L'(1)]) (simp_all only: tm simp_thms)
  have time: "uint (secs ?s2) * 1000 + uint (millesecs ?s2) = uint (secs s) * 1000 + uint (millesecs s) + 20"
    "uint (millesecs ?s2) < 1000" using clock_tick_time[OF c] unfolding tm by (simp_all add: f)
  show ?thesis
  proof (cases "sc_tqleft (sched ?s2 (current_thread ?s2)) \<le> 0 \<or> runrun ?s2 \<or> kprunrun ?s2")
    case True
    from schedule_after_sleep[OF G2(1)] G2(2) obtain s' Q' where
      A: "scheduler ?s2 = Some s'" "ginv s' Q' Ow" "running s'" "obj_same ?s2 s'" by (auto simp: running_def)
    have "tqueue s' L'" by (rule tqueue_fields[OF _ _ T2]) (use A(4) in \<open>simp_all add: obj_same_def\<close>)
    moreover have "secs s' = secs ?s2" "millesecs s' = millesecs ?s2" using time_scheduler[OF A(1)] by simp_all
    moreover have "timer_handler_irq s = Some s'" using True A(1) unfolding timer_handler_irq_def Let_def by simp
    ultimately show ?thesis using A(2,3) L'(2) time by (auto simp: sys_inv_def)
  next
    case False
    then have "timer_handler_irq s = Some ?s2" unfolding timer_handler_irq_def Let_def by simp
    then show ?thesis using G2 T2 L'(2) time unfolding sys_inv_def by blast
  qed
qed

theorem clock_interrupt_correct_witness:
  "\<exists>s' L'. timer_handler_irq two_timers = Some s' \<and> sys_inv s' \<and> tqueue s' L' \<and> expiry L' 2 = Some 60"
proof -
  have G: "ginv two_timers boot_queues (\<lambda>_. [])"
    by (rule ginv_fields[OF _ _ _ _ _ _ _ boot_ginv]) (simp_all add: two_timers_def)
  have R: "running two_timers" using running_fields[of two_timers boot_kern] boot_running by (simp add: two_timers_def)
  have c: "uint (millesecs two_timers) < 1000" "uint (secs two_timers) < 2 ^ 32 - 1" by (simp_all add: two_timers_def boot_kern_def)
  have e: "expiry [(1, - 20), (2, 100)] 2 = Some 80" by simp
  from clock_interrupt_correct[OF G R two_timers_ok c] obtain s' L' where A: "timer_handler_irq two_timers = Some s'"
    "sys_inv s'" "tqueue s' L'" "\<forall>y. expiry L' y = map_option (\<lambda>e. e - 20) (expiry [(1, - 20), (2, 100)] y)" by blast
  have "expiry L' 2 = Some 60" unfolding A(4)[rule_format] e by simp
  with A show ?thesis by blast
qed

lemma tq_onlyD:
  assumes "tq_only s s'"
  shows "kt s' = kt s" "slq s' = slq s" "lockt s' = lockt s" "rlockt s' = rlockt s" "eventt s' = eventt s"
    "ready_qhead s' = ready_qhead s" "ready_qtail s' = ready_qtail s" "current_thread s' = current_thread s"
  using arg_cong[OF assms[unfolded tq_only_def], of kt] arg_cong[OF assms[unfolded tq_only_def], of slq]
    arg_cong[OF assms[unfolded tq_only_def], of lockt] arg_cong[OF assms[unfolded tq_only_def], of rlockt]
    arg_cong[OF assms[unfolded tq_only_def], of eventt] arg_cong[OF assms[unfolded tq_only_def], of ready_qhead]
    arg_cong[OF assms[unfolded tq_only_def], of ready_qtail] arg_cong[OF assms[unfolded tq_only_def], of current_thread]
  by simp_all

lemma sleeper_stays:
  assumes K: "kinv s Q" and s': "scheduler s = Some s'" and sl: "sc_state (sched s (current_thread s)) = THREAD_STATE_SLEEP"
  shows "sc_state (sched s' (current_thread s)) = THREAD_STATE_SLEEP"
proof (cases "stays s Q")
  case True
  then show ?thesis using scheduler_stays[OF K True] s' sl by auto
next
  case False
  then obtain n where n: "pick_from s Q 0 = Some n" by (auto simp: stays_def split: option.splits)
  from n obtain j where "n \<in> set (Q (Ready j))" by (rule pick_from_Some)
  then have "n \<noteq> current_thread s" using kinvx_ready[OF K, of n j] sl by auto
  then show ?thesis using scheduler_switches[OF K n False] s' sl by auto
qed

lemma ginv_sleep_current:
  assumes G: "ginv s Q Ow" and r: "sc_state (sched s (current_thread s)) = THREAD_STATE_RUNNING"
    and sl: "kt_slpchannel (kt s (current_thread s)) = None"
  shows "ginv (upd_sched (current_thread s) (\<lambda>si. si\<lparr>sc_state := THREAD_STATE_SLEEP\<rparr>) s) Q Ow"
proof -
  let ?t = "current_thread s"
  let ?s = "upd_sched ?t (\<lambda>si. si\<lparr>sc_state := THREAD_STATE_SLEEP\<rparr>) s"
  have K: "kinv s Q" "sleep_inv s Q" using G by (simp_all add: ginv_def)
  have off: "?t \<notin> set (Q q)" for q using kinvx_off_queue[OF K(1), of ?t] r by simp
  have "kinv ?s Q" by (rule kinvx_only_thread[OF K(1) off only_thread_upd(2)])
      (use kinvx_pri[OF K(1), of ?t] in \<open>simp_all add: upd_sched_def upd_kt_def\<close>)
  moreover have "sleep_inv ?s Q" using K(2) sl by (auto simp: sleep_inv_def upd_sched_def upd_kt_def split: if_splits)
  ultimately show ?thesis by (intro ginv_same[OF G obj_same_upd(1)]) simp_all
qed

text \<open>C23: A timed sleep.  With \<^verbatim>\<open>timerq_lock\<close> held, \<^verbatim>\<open>tsleep\<close> queues the caller's timer, gives the lock up and switches
  to another thread: the caller sleeps, its timer is due after the requested time, no other
  timer has moved and the kernel invariant holds.\<close>

theorem tsleep_correct:
  assumes G: "ginv s Q Ow" and R: "running s" and ni: "\<not> idle_thread s (current_thread s)"
    and own: "l_owner_thread (lockt s timerq_lock) = Some (current_thread s)"
    and sl: "kt_slpchannel (kt s (current_thread s)) = None"
    and T: "tqueue s L" "x \<notin> fst ` set L" "timer_next (tobj s x) = None" "timer_prev (tobj s x) = None"
  shows "\<exists>s' L'. syscall_tsleep x s = Some s' \<and> sys_inv s' \<and> sc_state (sched s' (current_thread s)) = THREAD_STATE_SLEEP \<and>
    l_owner_thread (lockt s' timerq_lock) = None \<and> tqueue s' L' \<and>
    (\<forall>y. expiry L' y = (if y = x then Some (timer_count (tobj s x)) else expiry L y))"
proof -
  let ?t = "current_thread s"
  from insert_timerobj_refines[OF T] obtain s1 where I: "insert_timerobj x s = Some s1" "tq_only s s1"
    "tqueue s1 (delta_insert x (timer_count (tobj s x)) L)" by auto
  then have s1: "kt s1 = kt s" "slq s1 = slq s" "lockt s1 = lockt s" "rlockt s1 = rlockt s" "eventt s1 = eventt s"
    "ready_qhead s1 = ready_qhead s" "ready_qtail s1 = ready_qtail s" "current_thread s1 = ?t"
    using tq_onlyD[OF I(2)] by simp_all
  have G1: "ginv s1 Q Ow" by (rule ginv_fields[OF _ _ _ _ _ _ _ G]) (simp_all add: s1)
  let ?s2 = "upd_sched ?t (\<lambda>si. si\<lparr>sc_state := THREAD_STATE_SLEEP\<rparr>) s1"
  have r: "sc_state (sched s1 ?t) = THREAD_STATE_RUNNING" using R by (simp add: s1 running_def)
  have G2: "ginv ?s2 Q Ow" using ginv_sleep_current[OF G1] r sl by (simp add: s1)
  have c2: "current_thread ?s2 = ?t" "lockt ?s2 = lockt s" by (simp_all add: upd_sched_def upd_kt_def s1)
  have "l_owner_thread (lockt ?s2 timerq_lock) = Some (current_thread ?s2)" using own c2 by simp
  from release_lock_spec[OF G2 this] obtain n s3 Q3 Ow3 where
    A: "release_lock timerq_lock ?s2 = Some (n, s3)" "ginv s3 Q3 Ow3" "released (Lock_obj timerq_lock) ?s2 Q s3 Q3"
      "timers s3 = timers ?s2" "tobj s3 = tobj ?s2" by blast
  have K: "kinv ?s2 Q" using G2 by (simp add: ginv_def)
  have off: "?t \<notin> set (Q (Wait c))" for c using kinvx_off_queue[of "{}" s Q ?t "Wait c"] G R by (simp add: ginv_def running_def)
  have st: "sched s3 u = (if u \<in> set (Q (Wait (Lock_obj timerq_lock))) then (sched ?s2 u)\<lparr>sc_state := THREAD_STATE_READY\<rparr> else sched ?s2 u)"
    "current_thread s3 = ?t" for u using A(3) c2 by (simp_all add: released_def)
  have nr: "sc_state (sched s3 (current_thread s3)) \<noteq> THREAD_STATE_READY" using off st by (simp add: upd_sched_def upd_kt_def)
  note D = drop_inherited_inv[OF A(2) nr]
  let ?s4 = "drop_inherited s3"
  have o: "others_stopped ?s4" "idle_available ?s4"
    by (rule idle_others_after_wait[OF R ni]; use off st D(3-5) in \<open>simp add: upd_sched_def upd_kt_def s1\<close>)+
  have K4: "kinv ?s4 Q3" using D(1) by (simp add: ginv_def)
  from schedule_after_sleep[OF D(1) o] obtain s' Q' where B: "scheduler ?s4 = Some s'" "ginv s' Q' Ow3" "running s'"
    "obj_same ?s4 s'" by auto
  have "unlock timerq_lock ?s2 = Some (ELOCK_SUCCESS, ?s4)" using A(1) own c2 by (simp add: unlock_def)
  then have "syscall_tsleep x s = Some s'" using I(1) B(1) by (simp add: syscall_tsleep_def s1)
  moreover have "obj_same s3 s'" by (rule obj_same_trans[OF D(2) B(4)])
  then have e: "timers s' = timers s1" "tobj s' = tobj s1" "lockt s' = lockt s3"
    using A(4,5) by (simp_all add: obj_same_def upd_sched_def upd_kt_def)
  have "tqueue s' (delta_insert x (timer_count (tobj s x)) L)" by (rule tqueue_fields[OF _ _ I(3)]) (simp_all add: e)
  moreover have "l_owner_thread (lockt s' timerq_lock) = None"
    using A(3) e(3) by (auto simp: released_def gl_owner_def dest!: spec[of _ "Lock_obj timerq_lock"])
  moreover have "sc_state (sched s' ?t) = THREAD_STATE_SLEEP"
    using sleeper_stays[OF K4 B(1)] off st D(3,4) by (simp add: upd_sched_def upd_kt_def)
  ultimately show ?thesis using B(2,3) expiry_insert[OF T(2)] by (auto simp: sys_inv_def)
qed

text \<open>The boot state with \<^verbatim>\<open>timerq_lock\<close> taken by the running thread.\<close>

definition timerq_kern :: kern where
  "timerq_kern = take_lock timerq_lock (upd_lockt timerq_lock (\<lambda>k. k\<lparr>l_val := 1\<rparr>) boot_kern)"

lemma timerq_kern_fields:
  "current_thread timerq_kern = 0" "sched timerq_kern u = boot_sched u" "kt_slpchannel (kt timerq_kern 0) = None"
  "l_owner_thread (lockt timerq_kern timerq_lock) = Some 0" "timers timerq_kern = None" "tobj timerq_kern = tobj boot_kern"
  by (simp_all add: timerq_kern_def take_lock_def Let_def SYNCHOBJ_fields upd_kt_def upd_lockt_def)
    (simp_all add: boot_kern_def ADD_SYNCHOBJ_def field_defs)

lemma timerq_kern_ginv: "ginv timerq_kern boot_queues ((\<lambda>_. [])(0 := [Lock_obj timerq_lock]))" "running timerq_kern"
proof -
  have c: "current_thread boot_kern = 0" "l_owner_thread (lockt boot_kern timerq_lock) = None" by (simp_all add: boot_kern_def)
  show "ginv timerq_kern boot_queues ((\<lambda>_. [])(0 := [Lock_obj timerq_lock]))" "running timerq_kern"
    using take_lock_inv(1,2)[OF boot_ginv boot_running c(2)] by (simp_all add: timerq_kern_def c)
qed

theorem tsleep_correct_witness:
  "\<exists>s' L'. syscall_tsleep 9 (tsleep_init 9 50 timerq_kern) = Some s' \<and> sys_inv s' \<and>
     sc_state (sched s' 0) = THREAD_STATE_SLEEP \<and> tqueue s' L' \<and> expiry L' 9 = Some 50"
proof -
  let ?s = "tsleep_init 9 50 timerq_kern"
  have f: "kt ?s = kt timerq_kern" "current_thread ?s = 0" "lockt ?s = lockt timerq_kern" "timers ?s = None"
    "timer_next (tobj ?s 9) = None" "timer_prev (tobj ?s 9) = None" "timer_count (tobj ?s 9) = 50"
    by (simp_all add: tsleep_init_def upd_tobj_def timerq_kern_fields)
  have G: "ginv ?s boot_queues ((\<lambda>_. [])(0 := [Lock_obj timerq_lock]))"
    by (rule ginv_fields[OF _ _ _ _ _ _ _ timerq_kern_ginv(1)]) (simp_all add: tsleep_init_def upd_tobj_def)
  have R: "running ?s" using running_fields[of ?s timerq_kern] timerq_kern_ginv(2) f timerq_kern_fields by simp
  have T: "tqueue ?s []" using f by (simp add: tqueue_def)
  have ni: "\<not> idle_thread ?s (current_thread ?s)"
    by (simp add: f timerq_kern_fields) (simp add: boot_sched_def)
  have own: "l_owner_thread (lockt ?s timerq_lock) = Some (current_thread ?s)" "kt_slpchannel (kt ?s (current_thread ?s)) = None"
    by (simp_all add: f timerq_kern_fields)
  from tsleep_correct[OF G R ni own T _ f(5,6)] obtain s' L' where A: "syscall_tsleep 9 ?s = Some s'" "sys_inv s'"
    "sc_state (sched s' (current_thread ?s)) = THREAD_STATE_SLEEP" "tqueue s' L'"
    "\<forall>y. expiry L' y = (if y = 9 then Some (timer_count (tobj ?s 9)) else expiry [] y)" by auto
  have "expiry L' 9 = Some 50" using A(5) f(7) by simp
  with A f(2) show ?thesis by auto
qed

text \<open>\<^verbatim>\<open>twakeup\<close> assumes that a thread that owns a timer sleeps on that timer only.  When the thread waits for an event
  with a time limit, it is put on a ready queue while it is still at the head of the
  event's queue: no queue assignment is consistent with the result.\<close>

theorem twakeup_breaks_queues:
  assumes K: "kinv s Q" and q: "Q (Wait c) = t # ts" and x: "timers s = Some x" "timer_ownerthread (tobj s x) = Some t"
    and own: "l_owner_thread (lockt s timerq_lock) = Some (current_thread s)" "sl_head (slq s (Lock_obj timerq_lock)) = None"
  shows "\<exists>s'. syscall_twakeup t s = Some (0, s') \<and> sc_state (sched s' t) = THREAD_STATE_READY \<and>
    sl_head (slq s' c) = Some t \<and> (\<forall>Q'. \<not> kinv s' Q')"
proof -
  define s1 where "s1 = add_readyq t (upd_tobj x (\<lambda>b. b\<lparr>timer_count := - 1\<rparr>) (remove_timerobj x s))"
  have r: "kt (remove_timerobj x s) = kt s" "slq (remove_timerobj x s) = slq s" "lockt (remove_timerobj x s) = lockt s"
    "current_thread (remove_timerobj x s) = current_thread s"
    by (simp_all add: remove_timerobj_def upd_tobj_def Let_def split: option.split)
  have f: "timer_find (\<lambda>y. timer_ownerthread (tobj s y) = Some t) s (timers s) = Some (Some x)"
    using x by (subst timer_find.simps) simp
  have f1: "slq s1 = slq s" "lockt s1 = lockt s" "current_thread s1 = current_thread s" "sc_state (sched s1 t) = THREAD_STATE_READY"
    using obj_same_add_readyq[of "upd_tobj x (\<lambda>b. b\<lparr>timer_count := - 1\<rparr>) (remove_timerobj x s)" t] r
    by (simp_all add: s1_def add_readyq_sched obj_same_def upd_tobj_def upd_kt_def)
  have "DEL_SLQ (Lock_obj timerq_lock) s1 = (None, s1)" using own(2) by (simp add: DEL_SLQ_def f1)
  then have w: "wake_all (Lock_obj timerq_lock) 0 s1 = Some (0, s1)" by (subst wake_all.simps) simp
  let ?s2 = "upd_lockt timerq_lock (\<lambda>k. k\<lparr>l_owner_thread := None, l_val := 0\<rparr>)
    (DEL_SYNCHOBJ (Lock_obj timerq_lock) (current_thread s1) s1)"
  let ?s' = "drop_inherited ?s2"
  have "unlock timerq_lock s1 = Some (ELOCK_SUCCESS, ?s')"
    using w own(1) by (simp add: unlock_def release_lock_def f1 Let_def)
  then have t: "syscall_twakeup t s = Some (0, ?s')" using f by (simp add: syscall_twakeup_def Let_def s1_def)
  have d: "sc_state (sched (drop_inherited z) t) = sc_state (sched z t)" "slq (drop_inherited z) = slq z" for z
    by (simp_all add: drop_inherited_def upd_sched_def upd_kt_def)
  have st: "sc_state (sched ?s' t) = THREAD_STATE_READY" unfolding d using f1(4) by (simp add: upd_lockt_def SYNCHOBJ_fields)
  have hd: "sl_head (slq ?s' c) = Some t"
  proof -
    have "sl_head (slq (DEL_SYNCHOBJ a b z) c) = sl_head (slq z c)" for a b z
      by (auto simp: DEL_SYNCHOBJ_def field_defs split: option.split)
    then show ?thesis using kqueues_slq_head[OF kinvx_queues[OF K], of c] q unfolding d by (simp add: upd_lockt_def f1)
  qed
  have "\<not> kinv ?s' Q'" for Q'
  proof
    assume k: "kinv ?s' Q'"
    from kqueues_slq_head[OF kinvx_queues[OF k], of c] hd obtain r where "Q' (Wait c) = t # r"
      by (cases "Q' (Wait c)") auto
    with kinvx_wait[OF k, of t c] st show False by simp
  qed
  with t st hd show ?thesis by blast
qed

theorem twakeup_breaks_queues_witness:
  "\<exists>s Q s'. kinv s Q \<and> syscall_twakeup 0 s = Some (0, s') \<and> (\<forall>Q'. \<not> kinv s' Q')"
proof -
  have b: "\<not> idle_thread boot_kern (current_thread boot_kern)" "current_thread boot_kern = 0"
    by (simp_all add: boot_kern_def boot_sched_def)
  let ?w = "wait_event 3 boot_kern"
  note W = wait_event_inv[OF boot_ginv boot_running, of 3]
  have "others_stopped ?w" "idle_available ?w"
    by (rule idle_others_after_wait[OF boot_running b(1)]; use W(2,3) in simp)+
  from schedule_after_sleep[OF W(1) this] obtain s Q where A: "scheduler ?w = Some s"
    "ginv s Q (\<lambda>_. [])" "running s" "obj_same ?w s" and q: "Q (Wait (Event_obj 3)) = [0]"
    using b(2) by (auto simp: boot_queues_def)
  have free: "l_owner_thread (lockt s timerq_lock) = None" using A(4) W(6) by (simp add: obj_same_def boot_kern_def)
  note L = take_lock_inv[OF A(2,3) free]
  define s1 where "s1 = take_lock timerq_lock (upd_lockt timerq_lock (\<lambda>k. k\<lparr>l_val := 1\<rparr>) s)"
  define s2 where "s2 = s1\<lparr>timers := Some 9, tobj := (tobj s1)(9 := (tobj s1 9)\<lparr>timer_ownerthread := Some 0\<rparr>)\<rparr>"
  from L have G2: "ginv s2 Q ((\<lambda>_. [])(current_thread s := [Lock_obj timerq_lock]))"
    by (intro ginv_fields[of s2 s1]) (simp_all add: s2_def s1_def)
  have K: "kinv s2 Q" "value_inv s Q" using G2 A(2) by (simp_all add: ginv_def)
  have "Q (Wait (Lock_obj timerq_lock)) = []" using K(2) free by (simp add: value_inv_def)
  then have h: "sl_head (slq s2 (Lock_obj timerq_lock)) = None"
    using kqueues_slq_head[OF kinvx_queues[OF K(1)], of "Lock_obj timerq_lock"] by simp
  have own: "l_owner_thread (lockt s2 timerq_lock) = Some (current_thread s2)" using L(3,4) by (simp add: s2_def s1_def)
  have x: "timers s2 = Some 9" "timer_ownerthread (tobj s2 9) = Some 0" by (simp_all add: s2_def)
  from twakeup_breaks_queues[OF K(1) q x own h] K(1) show ?thesis by blast
qed

end
