(* ===== verification/C_Strings.thy ===== *)
theory C_Strings
  imports Kernel_Prelude "HOL-Library.Sublist"
begin

text \<open>
  The string functions of \<^verbatim>\<open>base/string.c\<close> (and, line by line the same, of
  \<^verbatim>\<open>lib/string.c\<close>).  Memory is a function from addresses to bytes, a pointer an address,
  0 the null pointer; \<^verbatim>\<open>char\<close> is signed.  The loops run until they find a 0 byte, so they
  are partial functions; on a C string each of them is shown to return.
\<close>

unbundle bit_operations_syntax

section \<open>Definitions\<close>

type_synonym memory = "nat \<Rightarrow> u8"

partial_function (option) strlen_loop :: "memory \<Rightarrow> nat \<Rightarrow> nat \<Rightarrow> nat option" where
  "strlen_loop m src i = (if m (src + i) \<noteq> 0 then strlen_loop m src (i + 1) else Some i)"

definition strlen :: "memory \<Rightarrow> nat \<Rightarrow> nat option" where
  "strlen m src = strlen_loop m src 0"

partial_function (option) strnlen_loop :: "memory \<Rightarrow> nat \<Rightarrow> int \<Rightarrow> nat \<Rightarrow> nat option" where
  "strnlen_loop m src n i = (if n \<noteq> 0 \<and> m (src + i) \<noteq> 0 then strnlen_loop m src (n - 1) (i + 1) else Some i)"

definition strnlen :: "memory \<Rightarrow> nat \<Rightarrow> int \<Rightarrow> nat option" where
  "strnlen m src n = strnlen_loop m src n 0"

partial_function (option) strcpy_loop :: "memory \<Rightarrow> nat \<Rightarrow> nat \<Rightarrow> nat \<Rightarrow> memory option" where
  "strcpy_loop m dest src i =
     (if m (src + i) \<noteq> 0 then strcpy_loop (m(dest + i := m (src + i))) dest src (i + 1)
      else Some (m(dest + i := 0)))"

definition strcpy :: "memory \<Rightarrow> nat \<Rightarrow> nat \<Rightarrow> (nat \<times> memory) option" where
  "strcpy m dest src =
     (if dest = 0 \<or> src = 0 then Some (dest, m) else map_option (Pair dest) (strcpy_loop m dest src 0))"

text \<open>The \<^verbatim>\<open>for (i=0; i<=l; i++)\<close> loop of \<^verbatim>\<open>strcat\<close> and \<^verbatim>\<open>strncat\<close>.\<close>

function copy_upto :: "memory \<Rightarrow> nat \<Rightarrow> nat \<Rightarrow> nat \<Rightarrow> nat \<Rightarrow> memory" where
  "copy_upto m dest src i l =
     (if i \<le> l then copy_upto (m(dest + i := m (src + i))) dest src (i + 1) l else m)"
  by pat_completeness auto
termination by (relation "measure (\<lambda>(m, dest, src, i, l). l + 1 - i)") auto

declare copy_upto.simps [simp del]

definition strcat :: "memory \<Rightarrow> nat \<Rightarrow> nat \<Rightarrow> (nat \<times> memory) option" where
  "strcat m dest src =
     (if dest = 0 \<or> src = 0 then Some (dest, m)
      else Option.bind (strlen m src) (\<lambda>l. Option.bind (strlen m dest) (\<lambda>d.
        let dest = dest + d in Some (dest, copy_upto m dest src 0 l))))"

partial_function (option) strcmp_loop :: "memory \<Rightarrow> nat \<Rightarrow> nat \<Rightarrow> nat \<Rightarrow> int option" where
  "strcmp_loop m dest src i =
     (if m (dest + i) = m (src + i) \<and> m (dest + i) \<noteq> 0 \<and> m (src + i) \<noteq> 0
      then strcmp_loop m dest src (i + 1)
      else Some (sint (m (dest + i)) - sint (m (src + i))))"

definition strcmp :: "memory \<Rightarrow> nat \<Rightarrow> nat \<Rightarrow> int option" where
  "strcmp m dest src = (if dest = src then Some 0 else strcmp_loop m dest src 0)"

partial_function (option) strncpy_loop :: "memory \<Rightarrow> nat \<Rightarrow> nat \<Rightarrow> u32 \<Rightarrow> nat \<Rightarrow> memory option" where
  "strncpy_loop m dest src n i =
     (if n - 1 \<noteq> 0 \<and> m (src + i) \<noteq> 0
      then strncpy_loop (m(dest + i := m (src + i))) dest src (n - 1) (i + 1)
      else Some (m(dest + i := 0)))"

definition strncpy :: "memory \<Rightarrow> nat \<Rightarrow> nat \<Rightarrow> u32 \<Rightarrow> (nat \<times> memory) option" where
  "strncpy m dest src n =
     (if dest = 0 \<or> src = 0 then Some (dest, m) else map_option (Pair dest) (strncpy_loop m dest src n 0))"

definition strncat :: "memory \<Rightarrow> nat \<Rightarrow> nat \<Rightarrow> u32 \<Rightarrow> (nat \<times> memory) option" where
  "strncat m dest src n =
     (if dest = 0 \<or> src = 0 then Some (dest, m)
      else Option.bind (strlen m src) (\<lambda>l.
        let l = (if l \<le> unat n then l else unat n)
        in Option.bind (strlen m dest) (\<lambda>d.
             let dest = dest + d in Some (dest, copy_upto m dest src 0 l))))"

partial_function (option) strncmp_loop :: "memory \<Rightarrow> nat \<Rightarrow> nat \<Rightarrow> u32 \<Rightarrow> nat \<Rightarrow> int option" where
  "strncmp_loop m dest src n i =
     (if i < unat (n - 1) \<and> m (dest + i) = m (src + i) \<and> m (dest + i) \<noteq> 0 \<and> m (src + i) \<noteq> 0
      then strncmp_loop m dest src n (i + 1)
      else Some (sint (m (dest + i)) - sint (m (src + i))))"

definition strncmp :: "memory \<Rightarrow> nat \<Rightarrow> nat \<Rightarrow> u32 \<Rightarrow> int option" where
  "strncmp m dest src n = (if dest = src then Some 0 else strncmp_loop m dest src n 0)"

text \<open>Character classes; characters are \<^verbatim>\<open>int\<close> codes.\<close>

definition toupper :: "int \<Rightarrow> int" where
  "toupper ch = (if 97 \<le> ch \<and> ch \<le> 122 then 65 + (ch - 97) else ch)"

definition tolower :: "int \<Rightarrow> int" where
  "tolower ch = (if 65 \<le> ch \<and> ch \<le> 90 then 97 + (ch - 65) else ch)"

definition isspace :: "int \<Rightarrow> bool" where
  "isspace ch \<longleftrightarrow> ch = 32 \<or> ch = 9 \<or> ch = 10"

definition isalpha :: "int \<Rightarrow> bool" where
  "isalpha ch \<longleftrightarrow> 97 \<le> ch \<and> ch \<le> 122 \<or> 65 \<le> ch \<and> ch \<le> 90"

definition isnum :: "int \<Rightarrow> bool" where
  "isnum ch \<longleftrightarrow> 48 \<le> ch \<and> ch \<le> 57"

definition isdigit :: "int \<Rightarrow> bool" where
  "isdigit ch \<longleftrightarrow> 48 \<le> ch \<and> ch \<le> 57"

definition isxdigit :: "int \<Rightarrow> bool" where
  "isxdigit ch \<longleftrightarrow> 48 \<le> ch \<and> ch \<le> 57 \<or> 97 \<le> ch \<and> ch \<le> 102 \<or> 65 \<le> ch \<and> ch \<le> 70"

text \<open>The inner \<^verbatim>\<open>do\<close> loop of \<^verbatim>\<open>strstr\<close>: \<open>True\<close> when it reaches the end of \<^verbatim>\<open>sub\<close>.\<close>

partial_function (option) strstr_match :: "memory \<Rightarrow> nat \<Rightarrow> nat \<Rightarrow> bool option" where
  "strstr_match m bp sp =
     (if m sp = 0 then Some True
      else if m bp = m sp then strstr_match m (bp + 1) (sp + 1) else Some False)"

partial_function (option) strstr_loop :: "memory \<Rightarrow> nat \<Rightarrow> nat \<Rightarrow> nat option" where
  "strstr_loop m buf sub =
     (if m buf = 0 then Some 0
      else Option.bind (strstr_match m buf sub) (\<lambda>b. if b then Some buf else strstr_loop m (buf + 1) sub))"

definition strstr :: "memory \<Rightarrow> nat \<Rightarrow> nat \<Rightarrow> nat option" where
  "strstr m buf sub = (if m sub = 0 then Some buf else strstr_loop m buf sub)"

partial_function (option) strchr :: "memory \<Rightarrow> nat \<Rightarrow> int \<Rightarrow> nat option" where
  "strchr m s c =
     (if m s = word_of_int c then Some s else if m s = 0 then Some 0 else strchr m (s + 1) c)"

text \<open>\<^verbatim>\<open>lib/string.c\<close> adds the comparisons that ignore case.\<close>

definition upper_at :: "memory \<Rightarrow> nat \<Rightarrow> int" where
  "upper_at m a = toupper (sint (m a))"

partial_function (option) strcasecmp_loop :: "memory \<Rightarrow> nat \<Rightarrow> nat \<Rightarrow> nat \<Rightarrow> int option" where
  "strcasecmp_loop m dest src i =
     (if upper_at m (dest + i) = upper_at m (src + i) \<and> m (dest + i) \<noteq> 0 \<and> m (src + i) \<noteq> 0
      then strcasecmp_loop m dest src (i + 1)
      else Some (upper_at m (dest + i) - upper_at m (src + i)))"

definition strcasecmp :: "memory \<Rightarrow> nat \<Rightarrow> nat \<Rightarrow> int option" where
  "strcasecmp m dest src = (if dest = src then Some 0 else strcasecmp_loop m dest src 0)"

partial_function (option) strncasecmp_loop :: "memory \<Rightarrow> nat \<Rightarrow> nat \<Rightarrow> u32 \<Rightarrow> nat \<Rightarrow> int option" where
  "strncasecmp_loop m dest src n i =
     (if i < unat (n - 1) \<and> upper_at m (dest + i) = upper_at m (src + i) \<and> m (dest + i) \<noteq> 0 \<and> m (src + i) \<noteq> 0
      then strncasecmp_loop m dest src n (i + 1)
      else Some (upper_at m (dest + i) - upper_at m (src + i)))"

definition strncasecmp :: "memory \<Rightarrow> nat \<Rightarrow> nat \<Rightarrow> u32 \<Rightarrow> int option" where
  "strncasecmp m dest src n = (if dest = src then Some 0 else strncasecmp_loop m dest src n 0)"

section \<open>C strings\<close>

text \<open>The bytes \<open>cs\<close>, none of them 0, followed by a 0 byte, are stored at \<open>p\<close>.\<close>

definition cstring :: "memory \<Rightarrow> nat \<Rightarrow> u8 list \<Rightarrow> bool" where
  "cstring m p cs \<longleftrightarrow> 0 \<notin> set cs \<and> (\<forall>i < length cs. m (p + i) = cs ! i) \<and> m (p + length cs) = 0"

lemma cstring_nth: "cstring m p cs \<Longrightarrow> i < length cs \<Longrightarrow> m (p + i) = cs ! i"
  by (simp add: cstring_def)

lemma cstring_nz: "cstring m p cs \<Longrightarrow> i < length cs \<Longrightarrow> cs ! i \<noteq> 0"
  by (metis cstring_def nth_mem)

lemma cstring_end: "cstring m p cs \<Longrightarrow> m (p + length cs) = 0"
  by (simp add: cstring_def)

lemma cstring_zero_iff: "cstring m p cs \<Longrightarrow> i \<le> length cs \<Longrightarrow> m (p + i) = 0 \<longleftrightarrow> i = length cs"
  using cstring_nth[of m p cs i] cstring_nz[of m p cs i] cstring_end[of m p cs] by (cases "i = length cs") auto

lemma cstring_at: "cstring m p cs \<Longrightarrow> i \<le> length cs \<Longrightarrow> m (p + i) = (cs @ [0]) ! i"
  using cstring_nth[of m p cs i] cstring_nz[of m p cs i] cstring_end[of m p cs] by (cases "i = length cs") (auto simp: nth_append)

lemma cstring_cong: "cstring m p cs \<Longrightarrow> (\<And>i. i \<le> length cs \<Longrightarrow> m' (p + i) = m (p + i)) \<Longrightarrow> cstring m' p cs"
  by (simp add: cstring_def)

lemma cstring_drop: "cstring m p cs \<Longrightarrow> i \<le> length cs \<Longrightarrow> cstring m (p + i) (drop i cs)"
proof -
  assume c: "cstring m p cs" and i: "i \<le> length cs"
  have "m (p + i + j) = drop i cs ! j" if "j < length cs - i" for j
    using cstring_nth[OF c, of "i + j"] that i by (simp add: add.assoc)
  then show ?thesis using c i cstring_end[OF c] by (auto simp: cstring_def dest: in_set_dropD)
qed

lemma strlen_loop_correct: "cstring m p cs \<Longrightarrow> i \<le> length cs \<Longrightarrow> strlen_loop m p i = Some (length cs)"
proof (induction "length cs - i" arbitrary: i)
  case 0
  then show ?case using cstring_end[OF 0(2)] by (subst strlen_loop.simps) simp
next
  case (Suc k)
  then have "i < length cs" "strlen_loop m p (i + 1) = Some (length cs)" by auto
  then show ?case using cstring_nth[OF Suc.prems(1), of i] cstring_nz[OF Suc.prems(1), of i] by (subst strlen_loop.simps) simp
qed

lemma strlen_correct: "cstring m p cs \<Longrightarrow> strlen m p = Some (length cs)"
  using strlen_loop_correct[of m p cs 0] by (simp add: strlen_def)

section \<open>Copying\<close>

text \<open>Memory after the first \<open>k\<close> bytes of \<open>src\<close> were copied to \<open>dest\<close>, for disjoint areas.\<close>

definition copied :: "memory \<Rightarrow> nat \<Rightarrow> nat \<Rightarrow> nat \<Rightarrow> memory" where
  "copied m dest src k = (\<lambda>a. if dest \<le> a \<and> a < dest + k then m (src + (a - dest)) else m a)"

definition apart :: "nat \<Rightarrow> nat \<Rightarrow> nat \<Rightarrow> bool" where
  "apart dest src n \<longleftrightarrow> dest + n < src \<or> src + n < dest"

lemma copied_0 [simp]: "copied m dest src 0 = m"
  by (auto simp: copied_def fun_eq_iff)

lemma copied_src: "apart dest src n \<Longrightarrow> k \<le> n + 1 \<Longrightarrow> i \<le> n \<Longrightarrow> copied m dest src k (src + i) = m (src + i)"
  by (auto simp: copied_def apart_def)

lemma copied_step: "apart dest src n \<Longrightarrow> k \<le> n \<Longrightarrow>
    (copied m dest src k)(dest + k := copied m dest src k (src + k)) = copied m dest src (k + 1)"
  by (simp add: copied_src) (auto simp: copied_def fun_eq_iff)

lemma copied_cstring:
  assumes "cstring m src cs" "k \<le> length cs"
  shows "cstring ((copied m dest src k)(dest + k := 0)) dest (take k cs)"
  using assms by (auto simp: cstring_def copied_def dest: in_set_takeD)

lemma strcpy_loop_correct:
  assumes c: "cstring m src cs" and a: "apart dest src (length cs)" and "i \<le> length cs"
  shows "strcpy_loop (copied m dest src i) dest src i = Some ((copied m dest src (length cs))(dest + length cs := 0))"
  using assms(3)
proof (induction "length cs - i" arbitrary: i)
  case 0
  then show ?case using cstring_end[OF c] copied_src[OF a, of i i] by (subst strcpy_loop.simps) simp
next
  case (Suc k)
  then have i: "i < length cs" and IH: "strcpy_loop (copied m dest src (i + 1)) dest src (i + 1) =
      Some ((copied m dest src (length cs))(dest + length cs := 0))" by auto
  then have "copied m dest src i (src + i) \<noteq> 0" using cstring_nth[OF c i] cstring_nz[OF c i] copied_src[OF a, of i i] by simp
  then show ?case using IH copied_step[OF a, of i] i by (subst strcpy_loop.simps) (simp only: if_True not_False_eq_True; simp)
qed

lemma strncpy_loop_correct:
  assumes c: "cstring m src cs" and a: "apart dest src (length cs)" and "i \<le> length cs" "n \<noteq> 0"
  shows "strncpy_loop (copied m dest src i) dest src n i =
    (let k = min (length cs) (i + unat n - 1) in Some ((copied m dest src k)(dest + k := 0)))"
  using assms(3,4)
proof (induction "length cs - i" arbitrary: i n)
  case 0
  have "0 < unat n" using 0 by (simp add: unat_gt_0)
  then have "i + unat n - 1 \<ge> length cs" "i = length cs" using 0 by auto
  then show ?case using 0 cstring_end[OF c] copied_src[OF a, of i i] by (subst strncpy_loop.simps) (simp add: min_def Let_def)
next
  case (Suc k)
  then have i: "i < length cs" by auto
  have nz: "copied m dest src i (src + i) \<noteq> 0" using cstring_nth[OF c i] cstring_nz[OF c i] copied_src[OF a, of i i] i by simp
  show ?case
  proof (cases "n - 1 = 0")
    case True
    then have "n = 1" by simp
    then show ?thesis using i by (subst strncpy_loop.simps) (simp add: min_def Let_def)
  next
    case False
    have u: "unat (n - 1) = unat n - 1" using Suc.prems(2) by (metis unat_minus_one)
    have "unat (n - 1) \<noteq> 0" using False by (simp add: unat_eq_0)
    then have "1 < unat n" using u by simp
    then have e: "i + 1 + unat (n - 1) - 1 = i + unat n - 1" using u by simp
    have "strncpy_loop (copied m dest src (i + 1)) dest src (n - 1) (i + 1) =
      (let k = min (length cs) (i + unat n - 1) in Some ((copied m dest src k)(dest + k := 0)))"
      using Suc.hyps(1)[of "i + 1" "n - 1"] Suc.hyps(2) i False e by simp
    then show ?thesis using copied_step[OF a, of i] i nz False
      by (subst strncpy_loop.simps) (simp only: if_True not_False_eq_True simp_thms; simp)
  qed
qed

lemma copy_upto_correct:
  assumes a: "apart dest src l" and "i \<le> l + 1"
  shows "copy_upto (copied m dest src i) dest src i l = copied m dest src (l + 1)"
  using assms(2)
proof (induction "l + 1 - i" arbitrary: i)
  case 0
  then show ?case by (subst copy_upto.simps) simp
next
  case (Suc k)
  then have "i \<le> l" "copy_upto (copied m dest src (i + 1)) dest src (i + 1) l = copied m dest src (l + 1)" by auto
  then show ?case using copied_step[OF a, of i] by (subst copy_upto.simps) simp
qed

section \<open>Comparing\<close>

lemma cstring_Nil [simp]: "cstring m p [] \<longleftrightarrow> m p = 0"
  by (simp add: cstring_def)

lemma cstring_Cons [simp]: "cstring m p (c # cs) \<longleftrightarrow> c \<noteq> 0 \<and> m p = c \<and> cstring m (Suc p) cs"
  by (auto simp: cstring_def All_less_Suc2)

lemma cstring_unique: "cstring m p cs \<Longrightarrow> cstring m p ds \<Longrightarrow> ds = cs"
  by (induction cs arbitrary: p ds) (case_tac ds; auto)+

lemma sint_zero_iff: "sint (x :: u8) = 0 \<longleftrightarrow> x = 0"
  by (metis signed_0 signed_word_eqI)

lemma strcmp_loop_correct:
  "cstring m (p + i) ds \<Longrightarrow> cstring m (q + i) cs \<Longrightarrow>
   \<exists>r. strcmp_loop m p q i = Some r \<and> (r = 0 \<longleftrightarrow> ds = cs) \<and>
     (r < 0 \<longleftrightarrow> (map sint (ds @ [0]), map sint (cs @ [0])) \<in> lexord {(a, b). a < b})"
proof (induction ds arbitrary: cs i)
  case Nil
  then show ?case by (cases cs; subst strcmp_loop.simps) (auto simp: sint_zero_iff)
next
  case (Cons d ds)
  show ?case
  proof (cases "\<exists>r. cs = d # r")
    case True
    then obtain r where r: "cs = d # r" by auto
    from Cons.IH[of "i + 1" r] Cons.prems r show ?thesis by (subst strcmp_loop.simps) auto
  next
    case False
    then have ne: "m (p + i) \<noteq> m (q + i)" using Cons.prems by (cases cs) auto
    then show ?thesis using Cons.prems False
      by (cases cs; subst strcmp_loop.simps) (auto simp: signed_word_eqI sint_zero_iff dest: signed_word_eqI)
  qed
qed

lemma strncmp_loop_correct:
  "cstring m (p + i) ds \<Longrightarrow> cstring m (q + i) cs \<Longrightarrow> unat (n - 1) = i + k \<Longrightarrow>
   \<exists>r. strncmp_loop m p q n i = Some r \<and> (r = 0 \<longleftrightarrow> take (k + 1) ds = take (k + 1) cs)"
proof (induction ds arbitrary: cs i k)
  case Nil
  then show ?case by (cases cs; subst strncmp_loop.simps) (auto simp: sint_zero_iff)
next
  case (Cons d ds)
  show ?case
  proof (cases "\<exists>r. cs = d # r")
    case True
    then obtain r where r: "cs = d # r" by auto
    show ?thesis
    proof (cases k)
      case 0
      then show ?thesis using Cons.prems r by (subst strncmp_loop.simps) auto
    next
      case (Suc j)
      from Cons.IH[of "i + 1" r j] Cons.prems r Suc show ?thesis by (subst strncmp_loop.simps) auto
    qed
  next
    case False
    then have ne: "m (p + i) \<noteq> m (q + i)" using Cons.prems by (cases cs) auto
    then show ?thesis using Cons.prems False
      by (cases cs; subst strncmp_loop.simps) (auto simp: sint_zero_iff dest: signed_word_eqI)
  qed
qed

lemma toupper_nonzero: "toupper x = 0 \<longleftrightarrow> x = 0"
  by (simp add: toupper_def)

lemma strcasecmp_loop_correct:
  "cstring m (p + i) ds \<Longrightarrow> cstring m (q + i) cs \<Longrightarrow>
   \<exists>r. strcasecmp_loop m p q i = Some r \<and> (r = 0 \<longleftrightarrow> map (\<lambda>c. toupper (sint c)) ds = map (\<lambda>c. toupper (sint c)) cs)"
proof (induction ds arbitrary: cs i)
  case Nil
  have z: "toupper 0 = 0" by (simp add: toupper_def)
  show ?case using Nil
    by (cases cs; subst strcasecmp_loop.simps) (auto simp: upper_at_def z toupper_nonzero sint_zero_iff)
next
  case (Cons d ds)
  have z: "toupper 0 = 0" by (simp add: toupper_def)
  show ?case
  proof (cases cs)
    case Nil
    then show ?thesis using Cons.prems
      by (subst strcasecmp_loop.simps) (auto simp: upper_at_def z toupper_nonzero sint_zero_iff)
  next
    case (Cons c r)
    with Cons.IH[of "i + 1" r] Cons.prems show ?thesis
      by (subst strcasecmp_loop.simps) (auto simp: upper_at_def)
  qed
qed

section \<open>Searching\<close>

lemma strstr_match_correct:
  "cstring m p cs \<Longrightarrow> cstring m q sub \<Longrightarrow> strstr_match m p q = Some (prefix sub cs)"
proof (induction sub arbitrary: p q cs)
  case Nil
  then show ?case by (subst strstr_match.simps) simp
next
  case (Cons d sub)
  then show ?case by (cases cs; subst strstr_match.simps) auto
qed

lemma strstr_loop_correct:
  "cstring m p cs \<Longrightarrow> cstring m q sub \<Longrightarrow> sub \<noteq> [] \<Longrightarrow> 0 < p \<Longrightarrow>
   \<exists>r. strstr_loop m p q = Some r \<and>
     (if r = 0 then \<not> sublist sub cs
      else \<exists>k. r = p + k \<and> prefix sub (drop k cs) \<and> (\<forall>j < k. \<not> prefix sub (drop j cs)))"
proof (induction cs arbitrary: p)
  case Nil
  then show ?case by (subst strstr_loop.simps) simp
next
  case (Cons c cs)
  show ?case
  proof (cases "prefix sub (c # cs)")
    case True
    then show ?thesis using Cons.prems strstr_match_correct[OF Cons.prems(1,2)]
      by (subst strstr_loop.simps) (auto intro: exI[of _ 0])
  next
    case False
    have c: "cstring m (Suc p) cs" using Cons.prems by simp
    from Cons.IH[OF c Cons.prems(2,3)] obtain r where r: "strstr_loop m (Suc p) q = Some r"
      "if r = 0 then \<not> sublist sub cs else \<exists>k. r = Suc p + k \<and> prefix sub (drop k cs) \<and> (\<forall>j < k. \<not> prefix sub (drop j cs))" by auto
    have s: "strstr_loop m p q = Some r"
      using Cons.prems r(1) strstr_match_correct[OF Cons.prems(1,2)] False by (subst strstr_loop.simps) simp
    show ?thesis
    proof (cases "r = 0")
      case True
      then show ?thesis using s r(2) False by (auto simp: sublist_Cons_right)
    next
      case nz: False
      then obtain k where k: "r = Suc p + k" "prefix sub (drop k cs)" "\<forall>j < k. \<not> prefix sub (drop j cs)" using r(2) by auto
      have "\<forall>j < Suc k. \<not> prefix sub (drop j (c # cs))" using k(3) False by (auto simp: less_Suc_eq_0_disj)
      then show ?thesis using s nz k by (intro exI[of _ r]) (auto intro!: exI[of _ "Suc k"])
    qed
  qed
qed

lemma strchr_correct:
  "cstring m p cs \<Longrightarrow> word_of_int c \<noteq> (0 :: u8) \<Longrightarrow> 0 < p \<Longrightarrow>
   \<exists>r. strchr m p c = Some r \<and>
     (if r = 0 then word_of_int c \<notin> set cs
      else \<exists>k < length cs. r = p + k \<and> cs ! k = word_of_int c \<and> word_of_int c \<notin> set (take k cs))"
proof (induction cs arbitrary: p)
  case Nil
  then show ?case by (subst strchr.simps) simp
next
  case (Cons d cs)
  show ?case
  proof (cases "d = word_of_int c")
    case True
    then show ?thesis using Cons.prems by (subst strchr.simps) (auto intro!: exI[of _ 0])
  next
    case False
    from Cons.IH[of "Suc p"] Cons.prems obtain r where r: "strchr m (Suc p) c = Some r"
      "if r = 0 then word_of_int c \<notin> set cs
       else \<exists>k < length cs. r = Suc p + k \<and> cs ! k = word_of_int c \<and> word_of_int c \<notin> set (take k cs)" by auto
    have s: "strchr m p c = Some r" using Cons.prems False r(1) by (subst strchr.simps) auto
    show ?thesis
    proof (cases "r = 0")
      case True
      then show ?thesis using s r(2) False by auto
    next
      case nz: False
      then obtain k where "k < length cs" "r = Suc p + k" "cs ! k = word_of_int c" "word_of_int c \<notin> set (take k cs)"
        using r(2) by auto
      then show ?thesis using s nz False by (intro exI[of _ r]) (auto intro!: exI[of _ "Suc k"])
    qed
  qed
qed

section \<open>Properties\<close>

text \<open>A memory that holds the byte lists \<open>cs\<close> at 100 and \<open>ds\<close> at 200, and 0 elsewhere.\<close>

definition two_strings :: "u8 list \<Rightarrow> u8 list \<Rightarrow> memory" where
  "two_strings cs ds a = (if 100 \<le> a \<and> a < 100 + length cs then cs ! (a - 100)
     else if 200 \<le> a \<and> a < 200 + length ds then ds ! (a - 200) else 0)"

lemma two_strings_cstring:
  assumes "0 \<notin> set cs" "0 \<notin> set ds" "length cs < 100"
  shows "cstring (two_strings cs ds) 100 cs" "cstring (two_strings cs ds) 200 ds"
  using assms by (auto simp: cstring_def two_strings_def)

text \<open>\<^verbatim>\<open>strcpy\<close> returns its destination, which then holds the source string; the source is
  unchanged when the two areas do not overlap, and no byte outside the destination's
  \<^verbatim>\<open>strlen + 1\<close> bytes is written.\<close>

theorem strcpy_correct:
  assumes "cstring m src cs" "apart dest src (length cs)" "dest \<noteq> 0" "src \<noteq> 0"
  shows "\<exists>m'. strcpy m dest src = Some (dest, m') \<and> cstring m' dest cs \<and> cstring m' src cs \<and>
    (\<forall>a. a < dest \<or> dest + length cs < a \<longrightarrow> m' a = m a)"
proof -
  let ?m = "(copied m dest src (length cs))(dest + length cs := 0)"
  have "strcpy_loop m dest src 0 = Some ?m" using strcpy_loop_correct[OF assms(1,2), of 0] by simp
  moreover have "cstring ?m dest cs" using copied_cstring[OF assms(1), of "length cs" dest] by simp
  moreover have "cstring ?m src cs"
    by (rule cstring_cong[OF assms(1)]) (use assms(2) in \<open>auto simp: copied_def apart_def\<close>)
  ultimately show ?thesis using assms(3,4) by (auto simp: strcpy_def copied_def)
qed

theorem strcpy_correct_witness:
  "\<exists>m'. strcpy (two_strings [65, 66] []) 200 100 = Some (200, m') \<and> cstring m' 200 [65, 66]"
  using strcpy_correct[of "two_strings [65, 66] []" 100 "[65, 66]" 200] two_strings_cstring(1)[of "[65, 66]" "[]"]
  by (auto simp: apart_def)

text \<open>\<^verbatim>\<open>strncpy\<close> with a positive bound \<open>n\<close> stores at most \<open>n\<close> bytes: the first \<open>n - 1\<close>
  characters of the source and always a terminating 0; nothing beyond them is written.\<close>

theorem strncpy_correct:
  assumes "cstring m src cs" "apart dest src (length cs)" "dest \<noteq> 0" "src \<noteq> 0" "n \<noteq> 0"
  shows "\<exists>m'. strncpy m dest src n = Some (dest, m') \<and> cstring m' dest (take (unat n - 1) cs) \<and>
    (\<forall>a. a < dest \<or> dest + unat n \<le> a \<longrightarrow> m' a = m a)"
proof -
  let ?k = "min (length cs) (unat n - 1)"
  let ?m = "(copied m dest src ?k)(dest + ?k := 0)"
  have n: "0 < unat n" using assms(5) by (simp add: unat_gt_0)
  have "strncpy_loop m dest src n 0 = Some ?m"
    using strncpy_loop_correct[OF assms(1,2) _ assms(5), of 0] by (simp add: Let_def)
  moreover have "cstring ?m dest (take ?k cs)" by (rule copied_cstring[OF assms(1)]) simp
  moreover have "take ?k cs = take (unat n - 1) cs" by (simp add: min_def)
  ultimately show ?thesis using assms(3,4) n by (auto simp: strncpy_def copied_def)
qed

theorem strncpy_correct_witness:
  "\<exists>m'. strncpy (two_strings [65, 66, 67] []) 200 100 3 = Some (200, m') \<and> cstring m' 200 [65, 66]"
  using strncpy_correct[of "two_strings [65, 66, 67] []" 100 "[65, 66, 67]" 200 3]
    two_strings_cstring(1)[of "[65, 66, 67]" "[]"]
  by (auto simp: apart_def)

text \<open>A zero bound gives \<^verbatim>\<open>strncpy\<close> no bound at all: \<^verbatim>\<open>n - 1\<close> wraps around and the whole source
  (of any length below the word size) is copied.\<close>

theorem strncpy_zero_unbounded:
  assumes "cstring m src cs" "apart dest src (length cs)" "dest \<noteq> 0" "src \<noteq> 0" "length cs < 2 ^ 32 - 1"
  shows "\<exists>m'. strncpy m dest src 0 = Some (dest, m') \<and> cstring m' dest cs"
proof (cases cs)
  case Nil
  then show ?thesis using assms by (subst strncpy_def, subst strncpy_loop.simps) (auto simp: cstring_def)
next
  case (Cons c r)
  let ?m = "(copied m dest src (length cs))(dest + length cs := 0)"
  have u: "unat (- 1 :: u32) = 2 ^ 32 - 1" by (simp add: unsigned_minus_1_eq_mask mask_eq_exp_minus_1)
  have "strncpy_loop (copied m dest src 1) dest src (- 1) 1 = Some ?m"
    using strncpy_loop_correct[OF assms(1,2), of 1 "- 1"] Cons assms(5) by (simp add: Let_def u min_def)
  moreover have "copied m dest src 1 = m(dest := m src)"
    using copied_step[OF assms(2), of 0 m] by simp
  ultimately have "strncpy_loop m dest src 0 0 = Some ?m"
    using assms(1) Cons by (subst strncpy_loop.simps) simp
  then show ?thesis using assms(3,4) copied_cstring[OF assms(1), of "length cs" dest] by (auto simp: strncpy_def)
qed

theorem strncpy_zero_unbounded_witness:
  "\<exists>m'. strncpy (two_strings [65, 66] []) 200 100 0 = Some (200, m') \<and> cstring m' 200 [65, 66]"
  using strncpy_zero_unbounded[of "two_strings [65, 66] []" 100 "[65, 66]" 200] two_strings_cstring(1)[of "[65, 66]" "[]"]
  by (auto simp: apart_def)

text \<open>\<^verbatim>\<open>strcat\<close> appends the source to the destination and writes nothing else; the pointer it
  returns is not the destination but the place where the copy was put.\<close>

theorem strcat_correct:
  assumes "cstring m src cs" "cstring m dest ds" "apart (dest + length ds) src (length cs)" "dest \<noteq> 0" "src \<noteq> 0"
  shows "\<exists>m'. strcat m dest src = Some (dest + length ds, m') \<and> cstring m' dest (ds @ cs) \<and>
    (\<forall>a. a < dest + length ds \<or> dest + length ds + length cs < a \<longrightarrow> m' a = m a)"
proof -
  let ?d = "dest + length ds"
  let ?m = "copied m ?d src (length cs + 1)"
  have "strcat m dest src = Some (?d, ?m)"
    using assms strlen_correct[OF assms(1)] strlen_correct[OF assms(2)] copy_upto_correct[OF assms(3), of 0 m]
    by (simp add: strcat_def Let_def)
  moreover have "cstring ?m dest (ds @ cs)"
  proof -
    have "?m (dest + i) = (ds @ cs) ! i" if "i < length ds + length cs" for i
    proof (cases "i < length ds")
      case True
      then show ?thesis using cstring_nth[OF assms(2) True] by (simp add: copied_def nth_append)
    next
      case False
      then obtain j where "i = length ds + j" using le_Suc_ex by (metis not_less)
      then show ?thesis using cstring_nth[OF assms(1), of j] that by (simp add: copied_def nth_append)
    qed
    then show ?thesis using assms(1,2) by (auto simp: cstring_def copied_def)
  qed
  ultimately show ?thesis by (auto simp: copied_def)
qed

theorem strcat_correct_witness:
  "\<exists>m'. strcat (two_strings [65, 66] [67]) 200 100 = Some (201, m') \<and> cstring m' 200 [67, 65, 66]"
  using strcat_correct[of "two_strings [65, 66] [67]" 100 "[65, 66]" 200 "[67]"] two_strings_cstring[of "[65, 66]" "[67]"]
  by (auto simp: apart_def)

text \<open>\<^verbatim>\<open>strncat\<close> of a source longer than its bound copies one character more than the bound and
  stores no terminating 0.\<close>

theorem strncat_unterminated:
  assumes "cstring m src cs" "cstring m dest ds" "apart (dest + length ds) src (length cs)" "dest \<noteq> 0" "src \<noteq> 0"
    "unat n < length cs"
  shows "\<exists>m'. strncat m dest src n = Some (dest + length ds, m') \<and>
    (\<forall>i \<le> unat n. m' (dest + length ds + i) = cs ! i) \<and> m' (dest + length ds + unat n) \<noteq> 0 \<and>
    m' (dest + length ds + unat n + 1) = m (dest + length ds + unat n + 1)"
proof -
  let ?d = "dest + length ds"
  let ?m = "copied m ?d src (unat n + 1)"
  have a: "apart ?d src (unat n)" using assms(3,6) by (auto simp: apart_def)
  have "strncat m dest src n = Some (?d, ?m)"
    using assms strlen_correct[OF assms(1)] strlen_correct[OF assms(2)] copy_upto_correct[OF a, of 0 m]
    by (simp add: strncat_def Let_def)
  moreover have "\<forall>i \<le> unat n. ?m (?d + i) = cs ! i" using assms(1,6) by (auto simp: copied_def cstring_def)
  moreover have "cs ! unat n \<noteq> 0" by (rule cstring_nz[OF assms(1,6)])
  ultimately show ?thesis by (auto simp: copied_def)
qed

theorem strncat_unterminated_witness:
  "\<exists>m'. strncat (two_strings [65, 66] [67]) 200 100 1 = Some (201, m') \<and> m' 202 = 66"
  using strncat_unterminated[of "two_strings [65, 66] [67]" 100 "[65, 66]" 200 "[67]" 1]
    two_strings_cstring[of "[65, 66]" "[67]"]
  by (auto simp: apart_def)

text \<open>\<^verbatim>\<open>strcmp\<close> returns 0 exactly for equal strings and otherwise a negative number exactly when
  the first string, with its terminating 0, is smaller in the lexicographic order of
  signed characters.\<close>

theorem strcmp_correct:
  assumes "cstring m p ds" "cstring m q cs"
  shows "\<exists>r. strcmp m p q = Some r \<and> (r = 0 \<longleftrightarrow> ds = cs) \<and>
    (r < 0 \<longleftrightarrow> (map sint (ds @ [0]), map sint (cs @ [0])) \<in> lexord {(a, b). a < b})"
proof (cases "p = q")
  case True
  then have "ds = cs" using cstring_unique assms by blast
  moreover have "(xs, xs) \<notin> lexord {(a, b). a < (b :: int)}" for xs by (rule lexord_irreflexive) simp
  ultimately show ?thesis using True by (simp add: strcmp_def)
next
  case False
  then show ?thesis using strcmp_loop_correct[of m p 0 ds q cs] assms by (simp add: strcmp_def)
qed

theorem strcmp_correct_witness:
  "\<exists>r. strcmp (two_strings [65, 66] [65, 67]) 100 200 = Some r \<and> r < 0"
  using strcmp_correct[of "two_strings [65, 66] [65, 67]" 100 "[65, 66]" 200 "[65, 67]"]
    two_strings_cstring[of "[65, 66]" "[65, 67]"]
  by auto

text \<open>\<^verbatim>\<open>strstr\<close> returns the first place where the searched string occurs, or the null pointer
  when it does not occur.\<close>

theorem strstr_correct:
  assumes "cstring m p cs" "cstring m q sub" "0 < p"
  shows "\<exists>r. strstr m p q = Some r \<and>
     (if r = 0 then \<not> sublist sub cs
      else \<exists>k. r = p + k \<and> prefix sub (drop k cs) \<and> (\<forall>j < k. \<not> prefix sub (drop j cs)))"
proof (cases sub)
  case Nil
  then show ?thesis using assms by (auto simp: strstr_def intro!: exI[of _ 0])
next
  case (Cons c r)
  then show ?thesis using strstr_loop_correct[OF assms(1,2)] assms by (auto simp: strstr_def)
qed

theorem strstr_correct_witness: "strstr (two_strings [65, 66] [66]) 100 200 = Some 101"
proof -
  from strstr_correct[of "two_strings [65, 66] [66]" 100 "[65, 66]" 200 "[66]"] two_strings_cstring[of "[65, 66]" "[66]"]
  obtain r where r: "strstr (two_strings [65, 66] [66]) 100 200 = Some r"
    "if r = 0 then \<not> sublist [66] [65, 66 :: u8]
     else \<exists>k. r = 100 + k \<and> prefix [66] (drop k [65, 66 :: u8]) \<and> (\<forall>j < k. \<not> prefix [66] (drop j [65, 66 :: u8]))"
    by auto
  have "sublist [66] [65, 66 :: u8]" by (simp add: sublist_Cons_right)
  then obtain k where k: "r = 100 + k" "prefix [66] (drop k [65, 66 :: u8])" using r(2) by (auto split: if_splits)
  then have "k = 1" by (cases k; cases "k - 1") auto
  then show ?thesis using r(1) k(1) by simp
qed

lemma strncmp_correct:
  assumes "cstring m p ds" "cstring m q cs" "n \<noteq> 0"
  shows "\<exists>r. strncmp m p q n = Some r \<and> (r = 0 \<longleftrightarrow> take (unat n) ds = take (unat n) cs)"
proof (cases "p = q")
  case True
  then show ?thesis using cstring_unique assms by (auto simp: strncmp_def)
next
  case False
  have "unat (n - 1) + 1 = unat n" using assms(3) unat_minus_one[OF assms(3)] unat_gt_0[of n] by simp
  then show ?thesis using strncmp_loop_correct[of m p 0 ds q cs n "unat (n - 1)"] assms False by (simp add: strncmp_def)
qed

lemma strcasecmp_correct:
  assumes "cstring m p ds" "cstring m q cs"
  shows "\<exists>r. strcasecmp m p q = Some r \<and> (r = 0 \<longleftrightarrow> map (\<lambda>c. toupper (sint c)) ds = map (\<lambda>c. toupper (sint c)) cs)"
  using assms cstring_unique strcasecmp_loop_correct[of m p 0 ds q cs] by (auto simp: strcasecmp_def)

end
