(* ===== verification/Strtol.thy ===== *)
theory Strtol
  imports C_Strings
begin

text \<open>Conversion of character strings to numbers (\<^verbatim>\<open>lib/strtol.c\<close>): \<^verbatim>\<open>strtol\<close>, \<^verbatim>\<open>strtoul\<close>, \<^verbatim>\<open>atol\<close> and
  \<^verbatim>\<open>atoi\<close> over the byte memory of \<^verbatim>\<open>C_Strings\<close>. The scanning loops are partial functions; the lemmas
  show that they return on every terminated string of digits, and with which value.\<close>

section \<open>Definitions\<close>

text \<open>The digit value of a character, if it is a digit or a letter.\<close>

definition digval :: "u8 \<Rightarrow> int option" where
  "digval c = (if isdigit (uint c) then Some (sint c - 48)
     else if isalpha (uint c) then Some (toupper (sint c) - 65 + 10) else None)"

partial_function (option) skip_space :: "memory \<Rightarrow> nat \<Rightarrow> u8 \<Rightarrow> (nat \<times> u8) option" where
  "skip_space m p c = (if isspace (uint c) then skip_space m (p + 1) (m p) else Some (p, c))"

text \<open>The \<^verbatim>\<open>for (;;)\<close> loop: \<open>rd\<close> and \<open>ovf\<close> are the flags \<^verbatim>\<open>FL_READDIGIT\<close> and \<^verbatim>\<open>FL_OVERFLOW\<close>.\<close>

partial_function (option) strtox_loop ::
  "memory \<Rightarrow> u32 \<Rightarrow> nat \<Rightarrow> u8 \<Rightarrow> u32 \<Rightarrow> bool \<Rightarrow> bool \<Rightarrow> (nat \<times> u32 \<times> bool \<times> bool) option" where
  "strtox_loop m ibase p c number rd ovf =
     (case digval c of
        None \<Rightarrow> Some (p, number, rd, ovf)
      | Some dv \<Rightarrow>
          let d = word_of_int dv; maxval = 4294967295 div ibase
          in if ibase \<le> d then Some (p, number, rd, ovf)
             else if number < maxval \<or> number = maxval \<and> d \<le> 4294967295 mod ibase
             then strtox_loop m ibase (p + 1) (m p) (number * ibase + d) True ovf
             else strtox_loop m ibase (p + 1) (m p) number True True)"

text \<open>Base 0 is replaced by 8, 10 or 16 according to the prefix.\<close>

definition actual_base :: "memory \<Rightarrow> nat \<Rightarrow> u8 \<Rightarrow> int \<Rightarrow> int" where
  "actual_base m p c ibase =
     (if ibase = 0 then if c \<noteq> 48 then 10 else if m p = 120 \<or> m p = 88 then 16 else 8 else ibase)"

text \<open>The clamping at the end; the flag tells whether \<^verbatim>\<open>errno\<close> is set to \<^verbatim>\<open>ERANGE\<close>.\<close>

definition strtox_range :: "bool \<Rightarrow> bool \<Rightarrow> bool \<Rightarrow> u32 \<Rightarrow> u32 \<times> bool" where
  "strtox_range uns neg ovf number =
     (if ovf \<or> \<not> uns \<and> (neg \<and> number > - 2147483647 \<or> \<not> neg \<and> number > 2147483647)
      then (if uns then 4294967295 else if neg then - 2147483648 else 2147483647, True)
      else (number, False))"

definition skip_sign :: "memory \<Rightarrow> nat \<Rightarrow> u8 \<Rightarrow> nat \<times> u8" where
  "skip_sign m p c = (if c = 45 \<or> c = 43 then (p + 1, m p) else (p, c))"

definition skip_hex_prefix :: "memory \<Rightarrow> nat \<Rightarrow> u8 \<Rightarrow> int \<Rightarrow> nat \<times> u8" where
  "skip_hex_prefix m p c ibase =
     (if ibase = 16 \<and> c = 48 \<and> (m p = 120 \<or> m p = 88) then (p + 2, m (p + 1)) else (p, c))"

definition strtox_end :: "nat \<Rightarrow> bool \<Rightarrow> bool \<Rightarrow> nat \<Rightarrow> u32 \<Rightarrow> bool \<Rightarrow> bool \<Rightarrow> u32 \<times> nat \<times> bool" where
  "strtox_end nptr uns neg p number rd ovf =
     (let (number, erange) = (if rd then strtox_range uns neg ovf number else (0, False))
      in (if neg then - number else number, if rd then p - 1 else nptr, erange))"

text \<open>Returns the number, \<^verbatim>\<open>*endptr\<close> and whether \<^verbatim>\<open>errno\<close> was set; \<^verbatim>\<open>endptr\<close> is not null.\<close>

definition strtoxl :: "memory \<Rightarrow> nat \<Rightarrow> int \<Rightarrow> bool \<Rightarrow> (u32 \<times> nat \<times> bool) option" where
  "strtoxl m nptr ibase uns =
     Option.bind (skip_space m (nptr + 1) (m nptr)) (\<lambda>(p, c).
       let neg = (c = 45);
           (p, c) = skip_sign m p c
       in if ibase < 0 \<or> ibase = 1 \<or> 36 < ibase then Some (0, nptr, False)
          else let b = actual_base m p c ibase;
                   (p, c) = skip_hex_prefix m p c b
               in map_option (\<lambda>(p, number, rd, ovf). strtox_end nptr uns neg p number rd ovf)
                    (strtox_loop m (word_of_int b) p c 0 False False))"

definition strtol :: "memory \<Rightarrow> nat \<Rightarrow> int \<Rightarrow> (int \<times> nat) option" where
  "strtol m nptr ibase = map_option (\<lambda>(n, p, _). (sint n, p)) (strtoxl m nptr ibase False)"

definition strtoul :: "memory \<Rightarrow> nat \<Rightarrow> int \<Rightarrow> (u32 \<times> nat) option" where
  "strtoul m nptr ibase = map_option (\<lambda>(n, p, _). (n, p)) (strtoxl m nptr ibase True)"

partial_function (option) atol_skip :: "memory \<Rightarrow> nat \<Rightarrow> nat option" where
  "atol_skip m p = (if isspace (uint (m p)) then atol_skip m (p + 1) else Some p)"

partial_function (option) atol_loop :: "memory \<Rightarrow> nat \<Rightarrow> int \<Rightarrow> int \<Rightarrow> int option" where
  "atol_loop m p c tot =
     (if isdigit c then atol_loop m (p + 1) (uint (m p)) (to_s32 (10 * tot + (c - 48))) else Some tot)"

definition atol :: "memory \<Rightarrow> nat \<Rightarrow> int option" where
  "atol m nptr =
     Option.bind (atol_skip m nptr) (\<lambda>p.
       let c = uint (m p); sign = c;
           (c, p) = (if c = 45 \<or> c = 43 then (uint (m (p + 1)), p + 2) else (c, p + 1))
       in map_option (\<lambda>tot. if sign = 45 then to_s32 (- tot) else tot) (atol_loop m p c 0))"

definition atoi :: "memory \<Rightarrow> nat \<Rightarrow> int option" where
  "atoi m nptr = atol m nptr"

section \<open>Reading digits\<close>

text \<open>The value of a digit list, most significant digit first.\<close>

definition digits_value :: "nat \<Rightarrow> nat list \<Rightarrow> nat" where
  "digits_value b ds = foldl (\<lambda>a d. a * b + d) 0 ds"

text \<open>The characters \<open>cs\<close> spell the digits \<open>ds\<close> of base \<open>b\<close>.\<close>

definition spells :: "nat \<Rightarrow> u8 list \<Rightarrow> nat list \<Rightarrow> bool" where
  "spells b cs ds \<longleftrightarrow> list_all2 (\<lambda>c d. digval c = Some (int d) \<and> d < b) cs ds"

definition no_digit :: "nat \<Rightarrow> u8 \<Rightarrow> bool" where
  "no_digit b c \<longleftrightarrow> (case digval c of None \<Rightarrow> True | Some d \<Rightarrow> int b \<le> d)"

text \<open>\<open>cs\<close> is stored at \<open>p\<close> and followed by a character that is no digit.\<close>

definition digits_at :: "nat \<Rightarrow> memory \<Rightarrow> nat \<Rightarrow> u8 list \<Rightarrow> bool" where
  "digits_at b m p cs \<longleftrightarrow> (\<forall>i < length cs. m (p + i) = cs ! i) \<and> no_digit b (m (p + length cs))"

lemma digits_at_Cons: "digits_at b m p (c # cs) \<longleftrightarrow> m p = c \<and> digits_at b m (p + 1) cs"
  by (auto simp: digits_at_def All_less_Suc2)

lemma digval_range: "digval c = Some d \<Longrightarrow> 0 \<le> d \<and> d < 36"
proof -
  assume a: "digval c = Some d"
  have "sint c = uint c" if "uint c < 128"
    using that by (simp add: sint_uint signed_take_bit_int_eq_self_iff order_trans[OF _ uint_ge_0])
  then show ?thesis using a by (auto simp: digval_def isdigit_def isalpha_def toupper_def split: if_splits)
qed

definition accumulate :: "nat \<Rightarrow> nat \<times> bool \<Rightarrow> nat \<Rightarrow> nat \<times> bool" where
  "accumulate b = (\<lambda>(n, ovf) d. if n * b + d < 2 ^ 32 then (n * b + d, ovf) else (n, True))"

lemma div_fits:
  assumes "(r :: nat) < b" "d < b"
  shows "(n < q \<or> n = q \<and> d \<le> r) \<longleftrightarrow> n * b + d \<le> q * b + r"
proof (cases n q rule: linorder_cases)
  case less
  then have "Suc n * b \<le> q * b" by (intro mult_le_mono1) simp
  with less assms show ?thesis by simp
next
  case greater
  then have "Suc q * b \<le> n * b" by (intro mult_le_mono1) simp
  with greater assms show ?thesis by simp
qed simp

lemma fits_iff:
  assumes "1 < b" "b \<le> 36" "d < b"
  shows "(n :: u32) < 4294967295 div word_of_nat b \<or> n = 4294967295 div word_of_nat b \<and> word_of_nat d \<le> (4294967295 :: u32) mod word_of_nat b
    \<longleftrightarrow> unat n * b + d < 2 ^ 32"
proof -
  have b: "unat (word_of_nat b :: u32) = b" "unat (word_of_nat d :: u32) = d"
    using assms by (simp_all add: unat_of_nat)
  let ?q = "4294967295 div b" and ?r = "4294967295 mod b"
  have e: "unat (4294967295 div word_of_nat b :: u32) = ?q" "unat (4294967295 mod word_of_nat b :: u32) = ?r"
    by (simp_all add: unat_div unat_mod b)
  have "(unat n < ?q \<or> unat n = ?q \<and> d \<le> ?r) \<longleftrightarrow> unat n * b + d \<le> ?q * b + ?r"
    using assms by (intro div_fits) simp_all
  then show ?thesis by (simp add: word_less_nat_alt word_le_nat_alt e b word_unat_eq_iff) linarith
qed

lemma strtox_loop_end:
  assumes "no_digit b c" "b \<le> 36"
  shows "strtox_loop m (word_of_nat b) p c number rd ovf = Some (p, number, rd, ovf)"
proof (cases "digval c")
  case None
  then show ?thesis by (subst strtox_loop.simps) simp
next
  case (Some d)
  with digval_range[OF Some] assms obtain k where k: "d = int k" "k < 36" "b \<le> k"
    by (cases d) (auto simp: no_digit_def)
  then have "(word_of_nat b :: u32) \<le> word_of_nat k"
    using assms(2) by (simp add: word_le_nat_alt unat_of_nat)
  with Some k(1) show ?thesis by (subst strtox_loop.simps) simp
qed

lemma strtox_loop_step:
  assumes "digval c = Some (int d)" "d < b" "1 < b" "b \<le> 36"
  shows "strtox_loop m (word_of_nat b) p c (word_of_nat n) rd ovf
    = (if n mod 2 ^ 32 * b + d < 2 ^ 32 then strtox_loop m (word_of_nat b) (p + 1) (m p) (word_of_nat (n * b + d)) True ovf
       else strtox_loop m (word_of_nat b) (p + 1) (m p) (word_of_nat n) True True)"
proof -
  have l: "\<not> (word_of_nat b :: u32) \<le> word_of_nat d"
    using assms by (simp add: word_le_nat_alt unat_of_nat)
  show ?thesis
    using fits_iff[OF assms(3,4,2), of "word_of_nat n"] l
    by (subst strtox_loop.simps) (simp add: assms(1) Let_def unat_of_nat)
qed

lemma strtox_loop_digits:
  assumes "spells b (c # cs) (d # ds)" "digits_at b m p cs" "1 < b" "b \<le> 36" "n < 2 ^ 32"
  shows "strtox_loop m (word_of_nat b) p c (word_of_nat n) rd ovf
    = (let (n', ovf') = foldl (accumulate b) (n, ovf) (d # ds) in Some (p + length cs + 1, word_of_nat n', True, ovf'))"
  using assms
proof (induction cs arbitrary: p c d ds n rd ovf)
  case Nil
  then have d: "digval c = Some (int d)" "d < b" "ds = []" by (auto simp: spells_def)
  have nd: "no_digit b (m p)" using Nil.prems by (simp add: digits_at_def)
  show ?case using d Nil.prems
    by (subst strtox_loop_step[OF d(1,2)]) (simp_all add: strtox_loop_end[OF nd] accumulate_def)
next
  case (Cons e es)
  from Cons.prems(1) obtain f fs where ds: "ds = f # fs" by (auto simp: spells_def list_all2_Cons1)
  have d: "digval c = Some (int d)" "d < b" "spells b (e # es) (f # fs)" using Cons.prems(1) by (auto simp: spells_def ds)
  have a: "m p = e" "digits_at b m (p + 1) es" using Cons.prems(2) by (simp_all add: digits_at_Cons)
  show ?case
    using Cons.IH[OF d(3) a(2) assms(3,4)] Cons.prems(3-5)
    by (subst strtox_loop_step[OF d(1,2)]) (simp_all add: a(1) accumulate_def ds Let_def del: of_nat_add of_nat_mult)
qed

text \<open>The running number is the value read so far until the first overflow.\<close>

lemma accumulate_value:
  assumes "1 < b" "ovf = (2 ^ 32 \<le> v)" "\<not> ovf \<longrightarrow> n = v"
  shows "case foldl (accumulate b) (n, ovf) ds of (n', ovf') \<Rightarrow>
    ovf' = (2 ^ 32 \<le> foldl (\<lambda>a d. a * b + d) v ds) \<and> (\<not> ovf' \<longrightarrow> n' = foldl (\<lambda>a d. a * b + d) v ds)"
  using assms(2,3)
proof (induction ds arbitrary: n ovf v)
  case (Cons d ds)
  let ?v = "v * b + d"
  have w: "v \<le> ?v" using assms(1) by (simp add: trans_le_add1)
  obtain n1 ovf1 where a: "accumulate b (n, ovf) d = (n1, ovf1)" by fastforce
  have "ovf1 = (2 ^ 32 \<le> ?v)" "\<not> ovf1 \<longrightarrow> n1 = ?v"
    using a Cons.prems w by (auto simp: accumulate_def split: if_splits)
  then show ?case using Cons.IH[of ovf1 ?v n1] a by simp
qed simp

section \<open>The conversions\<close>

lemma cstr_at_Cons: "cstring m p (c # cs) \<longleftrightarrow> c \<noteq> 0 \<and> m p = c \<and> cstring m (p + 1) cs"
  by (auto simp: cstring_def All_less_Suc2)

lemma cstring_append: "cstring m p (cs @ ds) \<longrightarrow> cstring m (p + length cs) ds"
proof (induction cs arbitrary: p)
  case (Cons c cs)
  show ?case using Cons.IH[of "p + 1"] by (simp add: cstr_at_Cons)
qed simp

lemma skip_space_correct:
  assumes "cstring m p (sp @ cs)" "list_all (\<lambda>c. isspace (uint c)) sp" "\<not> isspace (uint (m (p + length sp)))"
  shows "skip_space m (p + 1) (m p) = Some (p + length sp + 1, m (p + length sp))"
  using assms
proof (induction sp arbitrary: p)
  case Nil
  then show ?case by (subst skip_space.simps) simp
next
  case (Cons c sp)
  then show ?case using Cons.IH[of "p + 1"] by (subst skip_space.simps) (simp add: cstr_at_Cons)
qed

lemma spells_digits_at:
  assumes "cstring m p cs" "spells b cs ds"
  shows "digits_at b m p cs"
  using assms by (auto simp: digits_at_def cstring_def no_digit_def digval_def isdigit_def isalpha_def)

lemma digval_first:
  assumes "digval c = Some d"
  shows "\<not> isspace (uint c)" "c \<noteq> 45" "c \<noteq> 43"
  using assms by (auto simp: digval_def isdigit_def isalpha_def isspace_def split: if_splits)

lemma no_hex_prefix:
  assumes "spells 16 (c # cs) (d # ds)" "cstring m p cs"
  shows "m p \<noteq> 120 \<and> m p \<noteq> 88"
proof (cases cs)
  case Nil
  then show ?thesis using assms(2) by (simp add: cstring_def)
next
  case (Cons e es)
  with assms obtain f where "digval (m p) = Some (int f)" "f < 16"
    by (auto simp: spells_def list_all2_Cons1 cstr_at_Cons)
  then show ?thesis by (auto simp: digval_def isdigit_def isalpha_def toupper_def)
qed

text \<open>All conversions at once: blanks, an optional sign and digits of a base from 2 to 36.\<close>

lemma strtoxl_spec:
  assumes s: "cstring m p (sp @ sg @ cs)" "list_all (\<lambda>c. isspace (uint c)) sp" "sg \<in> {[], [45], [43]}"
    and d: "spells b cs ds" "cs \<noteq> []" "1 < b" "b \<le> 36"
  obtains n where
    "strtoxl m p (int b) uns = (let (r, erange) = strtox_range uns (sg = [45]) (2 ^ 32 \<le> digits_value b ds) n
      in Some (if sg = [45] then - r else r, p + length (sp @ sg @ cs), erange))"
    "digits_value b ds < 2 ^ 32 \<Longrightarrow> n = word_of_nat (digits_value b ds)"
proof -
  obtain c cs' d0 ds' where cs: "cs = c # cs'" and ds: "ds = d0 # ds'" and c: "digval c = Some (int d0)"
    using d(1,2) by (cases cs) (auto simp: spells_def list_all2_Cons1)
  define P Q where pq: "P = p + length sp" "Q = P + length sg"
  have at: "cstring m P (sg @ cs)" "cstring m Q cs"
    using s(1) cstring_append[of m p sp "sg @ cs"] cstring_append[of m P sg cs] by (simp_all add: pq)
  have first: "m P = hd (sg @ cs)" using at(1) cs s(3) by (auto simp: cstr_at_Cons)
  have mq: "m Q = c" "cstring m (Q + 1) cs'" using at(2) by (simp_all add: cs cstr_at_Cons)
  have blank: "skip_space m (p + 1) (m p) = Some (P + 1, m P)"
    unfolding pq(1) by (rule skip_space_correct[OF s(1,2)]) (use first[unfolded pq(1)] s(3) digval_first(1)[OF c] cs in \<open>auto simp: isspace_def\<close>)
  obtain n ovf where a: "foldl (accumulate b) (0, False) ds = (n, ovf)" by fastforce
  have v: "ovf = (2 ^ 32 \<le> digits_value b ds)" "\<not> ovf \<longrightarrow> n = digits_value b ds"
    using accumulate_value[of b False 0 0 ds] d(3) a by (simp_all add: digits_value_def)
  have loop: "strtox_loop m (word_of_nat b) (Q + 1) c 0 False False = Some (Q + length cs + 1, word_of_nat n, True, ovf)"
    using strtox_loop_digits[OF d(1)[unfolded cs ds] spells_digits_at[OF mq(2), of b ds'] d(3,4), of 0 False False] d(1) a
    by (simp add: cs ds spells_def)
  have hex: "skip_hex_prefix m (Q + 1) c (int b) = (Q + 1, c)"
    using no_hex_prefix[OF _ mq(2)] d(1) cs ds by (auto simp: skip_hex_prefix_def)
  have sign: "skip_sign m (P + 1) (m P) = (Q + 1, c)" "(m P = 45) = (sg = [45])"
    using first s(3) mq(1) cs digval_first(2,3)[OF c] by (auto simp: skip_sign_def pq(2))
  have b: "\<not> (int b < 0 \<or> int b = 1 \<or> 36 < int b)" "actual_base m (Q + 1) c (int b) = int b"
    using d(3,4) by (simp_all add: actual_base_def)
  have len: "p + (length sp + (length sg + length cs)) = Q + length cs" by (simp add: pq)
  show ?thesis
  proof (rule that[of "word_of_nat n"])
    show "strtoxl m p (int b) uns = (let (r, erange) = strtox_range uns (sg = [45]) (2 ^ 32 \<le> digits_value b ds) (word_of_nat n)
      in Some (if sg = [45] then - r else r, p + length (sp @ sg @ cs), erange))"
      unfolding strtoxl_def blank Option.bind.bind_lunit prod.case Let_def sign(1) b(2) hex v(1)[symmetric]
      using b(1) by (simp add: loop[simplified] strtox_end_def sign(2) len split: prod.split)
  qed (use v in simp)
qed

section \<open>atol\<close>

lemma atol_skip_correct:
  assumes "cstring m p (sp @ cs)" "list_all (\<lambda>c. isspace (uint c)) sp" "\<not> isspace (uint (m (p + length sp)))"
  shows "atol_skip m p = Some (p + length sp)"
  using assms
proof (induction sp arbitrary: p)
  case Nil
  then show ?case by (subst atol_skip.simps) simp
next
  case (Cons c sp)
  then show ?case using Cons.IH[of "p + 1"] by (subst atol_skip.simps) (simp add: cstr_at_Cons)
qed

lemma digval_decimal: "digval c = Some (int d) \<Longrightarrow> d < 10 \<Longrightarrow> isdigit (uint c) \<and> uint c - 48 = int d"
proof -
  assume d: "digval c = Some (int d)" "d < 10"
  have "sint c = uint c" if "uint c < 128"
    using that by (simp add: sint_uint signed_take_bit_int_eq_self_iff order_trans[OF _ uint_ge_0])
  then show ?thesis using d by (auto simp: digval_def isdigit_def isalpha_def toupper_def split: if_splits)
qed

lemma atol_loop_correct:
  assumes "cstring m p cs" "spells 10 cs ds" "foldl (\<lambda>a d. a * 10 + d) v ds < 2 ^ 31"
  shows "atol_loop m (p + 1) (uint (m p)) (int v) = Some (int (foldl (\<lambda>a d. a * 10 + d) v ds))"
  using assms
proof (induction cs arbitrary: p ds v)
  case Nil
  then show ?case by (subst atol_loop.simps) (simp add: spells_def cstring_def isdigit_def)
next
  case (Cons c cs)
  from Cons.prems(2) obtain d ds' where ds: "ds = d # ds'" "digval c = Some (int d)" "d < 10" "spells 10 cs ds'"
    by (auto simp: spells_def list_all2_Cons1)
  have grow: "w \<le> foldl (\<lambda>a d. a * 10 + d) w xs" for w :: nat and xs :: "nat list"
    by (induction xs rule: rev_induct) simp_all
  have "v * 10 + d < 2 ^ 31" using grow[of "v * 10 + d" ds'] Cons.prems(3) ds(1) by simp
  then have "to_s32 (10 * int v + (uint c - 48)) = int (v * 10 + d)"
    using digval_decimal[OF ds(2,3)] by (simp add: to_s32_id)
  then show ?case
    using Cons.IH[of "p + 1" ds' "v * 10 + d"] Cons.prems ds digval_decimal[OF ds(2,3)]
    by (subst atol_loop.simps) (simp add: cstr_at_Cons)
qed

lemma atol_correct:
  assumes "cstring m p (sp @ sg @ cs)" "list_all (\<lambda>c. isspace (uint c)) sp" "sg \<in> {[], [45], [43]}"
    "spells 10 cs ds" "cs \<noteq> []" "digits_value 10 ds < 2 ^ 31"
  shows "atol m p = Some (if sg = [45] then - int (digits_value 10 ds) else int (digits_value 10 ds))"
proof -
  obtain c cs' d0 where cs: "cs = c # cs'" and c: "digval c = Some (int d0)"
    using assms(4,5) by (cases cs) (auto simp: spells_def list_all2_Cons1)
  define P where P: "P = p + length sp"
  have at: "cstring m P (sg @ cs)" "cstring m (P + length sg) cs"
    using assms(1) cstring_append[of m p sp "sg @ cs"] cstring_append[of m P sg cs] by (simp_all add: P)
  have first: "m P = hd (sg @ cs)" using at(1) cs assms(3) by (auto simp: cstr_at_Cons)
  have blank: "atol_skip m p = Some P"
    unfolding P by (rule atol_skip_correct[OF assms(1,2)])
      (use first[unfolded P] assms(3) digval_first(1)[OF c] cs in \<open>auto simp: isspace_def\<close>)
  have loop: "atol_loop m (P + length sg + 1) (uint (m (P + length sg))) 0 = Some (int (digits_value 10 ds))"
    using atol_loop_correct[OF at(2) assms(4), of 0] assms(6) by (simp add: digits_value_def)
  have u: "uint (m P) = 45 \<longleftrightarrow> m P = 45" "uint (m P) = 43 \<longleftrightarrow> m P = 43"
    using word_uint_eq_iff[of "m P" 45] word_uint_eq_iff[of "m P" 43] by simp_all
  have t: "to_s32 (- int (digits_value 10 ds)) = - int (digits_value 10 ds)"
    using assms(6) by (simp add: to_s32_id)
  have "m P = c" if "sg = []" using first that cs by simp
  moreover have "m P = 45" if "sg = [45]" using first that by simp
  moreover have "m P = 43" if "sg = [43]" using first that by simp
  ultimately show ?thesis using assms(3) loop digval_first(2,3)[OF c] t
    by (auto simp: atol_def blank u Let_def)
qed

section \<open>Properties\<close>

lemma strtoul_correct:
  assumes "cstring m p (sp @ cs)" "list_all (\<lambda>c. isspace (uint c)) sp" "spells b cs ds" "cs \<noteq> []" "1 < b" "b \<le> 36"
  shows "strtoul m p (int b) = Some (word_of_nat (min (digits_value b ds) 4294967295), p + length (sp @ cs))"
  by (rule strtoxl_spec[of m p sp "[]" cs b ds True]) (use assms in \<open>auto simp: strtoul_def strtox_range_def min_def split: prod.splits if_splits\<close>)

lemma sint_to_s32: "sint (word_of_int k :: u32) = to_s32 k"
  by (simp add: sint_sbintrunc' signed_take_bit_eq_take_bit_shift to_s32_def take_bit_eq_mod)

lemma to_s32_minus: "0 \<le> v \<Longrightarrow> v < 2 ^ 32 \<Longrightarrow> to_s32 (- v) = (if v \<le> 2 ^ 31 then - v else 2 ^ 32 - v)"
proof -
  assume v: "0 \<le> v" "v < 2 ^ 32"
  show ?thesis
  proof (cases "v \<le> 2 ^ 31")
    case False
    have "(2 ^ 31 - v) mod 2 ^ 32 = 2 ^ 31 - v + 2 ^ 32"
      using False v by (subst mod_add_self2[symmetric], intro mod_pos_pos_trivial) simp_all
    then show ?thesis using False by (simp add: to_s32_def)
  qed (use v in \<open>simp add: to_s32_def\<close>)
qed

lemma strtox_range_signed:
  fixes v :: nat
  assumes "v < 2 ^ 32 \<Longrightarrow> n = word_of_nat v"
  shows "sint (fst (strtox_range False False (2 ^ 32 \<le> v) n)) = min (int v) 2147483647"
    "sint (- fst (strtox_range False True (2 ^ 32 \<le> v) n)) = (if v = 2147483649 then 2147483647 else - min (int v) 2147483648)"
proof -
  have n: "n = word_of_int (int v)" "uint n = int v" if "v < 2 ^ 32"
    using assms[OF that] that by (simp_all add: unsigned_of_nat take_bit_nat_eq_self)
  have p: "sint n = int v" if "v \<le> 2147483647"
    using that n(1) sint_to_s32[of "int v"] by (simp add: to_s32_id)
  have m: "sint (- n) = (if v \<le> 2147483648 then - int v else 2 ^ 32 - int v)" if "v < 2 ^ 32"
    using that n(1) sint_to_s32[of "- int v"] by (simp add: to_s32_minus)
  show "sint (fst (strtox_range False False (2 ^ 32 \<le> v) n)) = min (int v) 2147483647"
    using p n(2) by (cases "v < 2 ^ 32") (auto simp: strtox_range_def word_less_def min_def)
  show "sint (- fst (strtox_range False True (2 ^ 32 \<le> v) n)) = (if v = 2147483649 then 2147483647 else - min (int v) 2147483648)"
    using m n(2) by (cases "v < 2 ^ 32") (auto simp: strtox_range_def word_less_def min_def)
qed

lemma strtol_spec:
  assumes "cstring m p (sp @ sg @ cs)" "list_all (\<lambda>c. isspace (uint c)) sp" "sg \<in> {[], [45], [43]}"
    "spells b cs ds" "cs \<noteq> []" "1 < b" "b \<le> 36"
  shows "strtol m p (int b) = Some
    (if sg \<noteq> [45] then min (int (digits_value b ds)) 2147483647
     else if digits_value b ds = 2147483649 then 2147483647 else - min (int (digits_value b ds)) 2147483648,
     p + length (sp @ sg @ cs))"
proof -
  obtain n where r: "strtoxl m p (int b) False = (let (r, erange) = strtox_range False (sg = [45]) (2 ^ 32 \<le> digits_value b ds) n
      in Some (if sg = [45] then - r else r, p + length (sp @ sg @ cs), erange))"
    and n: "digits_value b ds < 2 ^ 32 \<Longrightarrow> n = word_of_nat (digits_value b ds)"
    using strtoxl_spec[OF assms] by blast
  show ?thesis using r strtox_range_signed[OF n]
    by (auto simp: strtol_def Let_def split: prod.splits)
qed

text \<open>C26: \<^verbatim>\<open>strtol\<close> reads blanks, an optional sign and the digits of a base from 2 to 36 up to the
  end of the string: the result is the signed value of the digits, clamped to \<^verbatim>\<open>LONG_MIN\<close> and
  \<^verbatim>\<open>LONG_MAX\<close>, and the end pointer is the end of the string. The one value that escapes the clamping is
  \<open>- (LONG_MAX + 2)\<close>, for which \<^verbatim>\<open>LONG_MAX\<close> is returned, because the code compares the
  magnitude with the unsigned value of \<^verbatim>\<open>-LONG_MAX\<close>.\<close>

theorem strtol_correct:
  assumes "cstring m p (sp @ sg @ cs)" "list_all (\<lambda>c. isspace (uint c)) sp" "sg \<in> {[], [45], [43]}"
    "spells b cs ds" "cs \<noteq> []" "1 < b" "b \<le> 36"
  shows "strtol m p (int b) = Some
    (if sg \<noteq> [45] then min (int (digits_value b ds)) 2147483647
     else if digits_value b ds = 2147483649 then 2147483647 else - min (int (digits_value b ds)) 2147483648,
     p + length (sp @ sg @ cs))"
  by (rule strtol_spec[OF assms])

theorem strtol_correct_witness:
  "strtol (two_strings [32, 45, 55, 98] []) 100 16 = Some (-123, 104)"
proof -
  have c: "cstring (two_strings [32, 45, 55, 98] []) 100 ([32] @ [45] @ [55, 98])"
    using two_strings_cstring(1)[of "[32, 45, 55, 98]" "[]"] by simp
  have s: "spells 16 [55, 98] [7, 11]"
    by (simp add: spells_def digval_def isdigit_def isalpha_def toupper_def)
  show ?thesis using strtol_correct[OF c _ _ s] by (simp add: isspace_def digits_value_def)
qed

text \<open>C39: On a decimal numeral whose value is below \<open>2 ^ 31\<close>, with blanks and a sign, the simple loop of
  \<^verbatim>\<open>atol\<close>, which has no test for overflow, gives the same number as \<^verbatim>\<open>strtol\<close> with base 10.\<close>

theorem atol_equals_strtol:
  assumes "cstring m p (sp @ sg @ cs)" "list_all (\<lambda>c. isspace (uint c)) sp" "sg \<in> {[], [45], [43]}"
    "spells 10 cs ds" "cs \<noteq> []" "digits_value 10 ds < 2 ^ 31"
  shows "atol m p = map_option fst (strtol m p 10)"
  using atol_correct[OF assms] strtol_spec[OF assms(1-5)] assms(6) by simp

theorem atol_equals_strtol_witness:
  "atol (two_strings [32, 45, 55, 57] []) 100 = map_option fst (strtol (two_strings [32, 45, 55, 57] []) 100 10)"
proof -
  have c: "cstring (two_strings [32, 45, 55, 57] []) 100 ([32] @ [45] @ [55, 57])"
    using two_strings_cstring(1)[of "[32, 45, 55, 57]" "[]"] by simp
  have s: "spells 10 [55, 57] [7, 9]"
    by (simp add: spells_def digval_def isdigit_def isalpha_def toupper_def)
  show ?thesis using atol_equals_strtol[OF c _ _ s] by (simp add: isspace_def digits_value_def)
qed

end
