(* ===== verification/Datetime.thy ===== *)
theory Datetime
  imports Kernel_Prelude
begin

text \<open>
  The calendar of \<^verbatim>\<open>base/timer.c\<close>: \<^verbatim>\<open>secs_to_date\<close> and \<^verbatim>\<open>date_to_secs\<close> (the same code is in
  \<^verbatim>\<open>lib/datetime.c\<close> and \<^verbatim>\<open>imgcopy/datetime.c\<close>).  \<open>None\<close> stands for a read beyond the end of
  the array \<^verbatim>\<open>month_days\<close>.  Seconds are 32-bit unsigned; the \<^verbatim>\<open>int\<close> product added to them
  is taken modulo \<open>2 ^ 32\<close>.
\<close>

section \<open>Definitions\<close>

text \<open>The fields are \<^verbatim>\<open>short\<close> in \<^verbatim>\<open>include/timer.h\<close>; all values below fit.\<close>

record date_time =
  seconds :: int
  minutes :: int
  hours :: int
  date :: int
  month :: int
  year :: int

definition month_days :: "int \<Rightarrow> int list" where
  "month_days y = [0, 31, if y mod 4 = 0 then 29 else 28, 31, 30, 31, 30, 31, 31, 30, 31, 30, 31]"

text \<open>The \<^verbatim>\<open>while\<close> loop of \<^verbatim>\<open>secs_to_date\<close>; the result is the final \<^verbatim>\<open>dt.month\<close> and \<^verbatim>\<open>mdays\<close>.\<close>

function month_loop :: "int list \<Rightarrow> int \<Rightarrow> nat \<Rightarrow> int \<Rightarrow> (nat \<times> int) option" where
  "month_loop md days m mdays =
     (if length md \<le> m then None
      else if mdays + md ! m \<le> days then month_loop md days (m + 1) (mdays + md ! m)
      else Some (m, mdays))"
  by pat_completeness auto
termination by (relation "measure (\<lambda>(md, days, m, mdays). length md - m)") auto

declare month_loop.simps [simp del]

text \<open>The year within the four-year cycle and the day within that year.\<close>

definition year_of_cycle :: "int \<Rightarrow> int \<times> int" where
  "year_of_cycle days =
     (if 1096 < days then (3, days - 1096)
      else if 730 < days then (2, days - 730)
      else if 365 < days then (1, days - 365)
      else (0, days))"

definition secs_to_date :: "u32 \<Rightarrow> date_time option" where
  "secs_to_date secs =
     (let days = uint (secs div (24 * 3600));
          secs = uint (secs mod (24 * 3600));
          y = 1970 + 4 * (days div 1461);
          (dy, days) = year_of_cycle (days mod 1461);
          y = y + dy
      in map_option (\<lambda>(m, mdays).
           \<lparr>seconds = secs mod 3600 mod 60, minutes = secs mod 3600 div 60, hours = secs div 3600,
            date = days - mdays + 1, month = int m, year = y\<rparr>)
         (month_loop (month_days y) days 1 0))"

text \<open>The \<^verbatim>\<open>for\<close> loop of \<^verbatim>\<open>date_to_secs\<close>, from \<open>i\<close> to \<open>dt.month - 1\<close>.\<close>

function month_sum :: "int list \<Rightarrow> nat \<Rightarrow> int \<Rightarrow> int \<Rightarrow> int option" where
  "month_sum md i m days =
     (if int i < m then if length md \<le> i then None else month_sum md (i + 1) m (days + md ! i)
      else Some days)"
  by pat_completeness auto
termination by (relation "measure (\<lambda>(md, i, m, days). length md - i)") auto

declare month_sum.simps [simp del]

definition date_to_secs :: "date_time \<Rightarrow> u32 option" where
  "date_to_secs dt =
     (let md = month_days (year dt);
          secs = word_of_int (c_div (year dt - 1970) 4 * (1461 * 24 * 3600));
          y = (year dt - 1970) - 4 * c_div (year dt - 1970) 4;
          secs = secs + word_of_int (y * (365 * 24 * 3600))
      in map_option (\<lambda>days.
           let days = days + (date dt - 1)
           in secs + word_of_int (days * 24 * 3600 + hours dt * 3600 + minutes dt * 60 + seconds dt))
         (month_sum md 1 (month dt) (if 2 < y then 1 else 0)))"

section \<open>The loops\<close>

definition month_start :: "int list \<Rightarrow> nat \<Rightarrow> nat \<Rightarrow> int" where
  "month_start md i m = (\<Sum>k = i..<m. md ! k)"

lemma month_loop_correct:
  assumes "i \<le> length md" "\<forall>k < length md. 0 \<le> md ! k" "mdays \<le> days" "days < mdays + month_start md i (length md)"
  shows "\<exists>m. month_loop md days i mdays = Some (m, mdays + month_start md i m) \<and> i \<le> m \<and> m < length md \<and>
    mdays + month_start md i m \<le> days \<and> days < mdays + month_start md i m + md ! m"
  using assms
proof (induction "length md - i" arbitrary: i mdays)
  case 0
  then show ?case by (simp add: month_start_def)
next
  case (Suc n)
  then have i: "i < length md" by simp
  have s: "month_start md i m = md ! i + month_start md (i + 1) m" if "i < m" for m
    using that by (simp add: month_start_def sum.atLeast_Suc_lessThan)
  show ?case
  proof (cases "mdays + md ! i \<le> days")
    case True
    have "n = length md - (i + 1)" "i + 1 \<le> length md" using Suc(2) i by auto
    from Suc(1)[OF this Suc(4) True] s[OF i] Suc(6) obtain m where
      "month_loop md days (i + 1) (mdays + md ! i) = Some (m, mdays + md ! i + month_start md (i + 1) m)" "i + 1 \<le> m"
      "m < length md" "mdays + md ! i + month_start md (i + 1) m \<le> days"
      "days < mdays + md ! i + month_start md (i + 1) m + md ! m" by auto
    with s[of m] True i show ?thesis by (subst month_loop.simps) auto
  next
    case False
    then show ?thesis using i Suc(5) by (subst month_loop.simps) (auto simp: month_start_def intro!: exI[of _ i])
  qed
qed

lemma month_loop_overrun:
  assumes "i \<le> length md" "\<forall>k < length md. 0 \<le> md ! k" "mdays + month_start md i (length md) \<le> days"
  shows "month_loop md days i mdays = None"
  using assms
proof (induction "length md - i" arbitrary: i mdays)
  case 0
  then show ?case by (subst month_loop.simps) simp
next
  case (Suc n)
  then have i: "i < length md" by simp
  have s: "month_start md i (length md) = md ! i + month_start md (i + 1) (length md)"
    using i by (simp add: month_start_def sum.atLeast_Suc_lessThan)
  have p: "0 \<le> month_start md (i + 1) (length md)" unfolding month_start_def by (rule sum_nonneg) (use Suc(4) in auto)
  have "n = length md - (i + 1)" "i + 1 \<le> length md" using Suc(2) i by auto
  from Suc(1)[OF this Suc(4)] Suc(5) s have "month_loop md days (i + 1) (mdays + md ! i) = None" by simp
  with s p Suc(5) i show ?case by (subst month_loop.simps) auto
qed

lemma month_sum_correct:
  "i \<le> m \<Longrightarrow> m \<le> length md \<Longrightarrow> month_sum md i (int m) days = Some (days + month_start md i m)"
proof (induction "m - i" arbitrary: i days)
  case 0
  then show ?case by (subst month_sum.simps) (simp add: month_start_def)
next
  case (Suc n)
  then have "i < m" "month_sum md (i + 1) (int m) (days + md ! i) = Some (days + md ! i + month_start md (i + 1) m)" by auto
  then show ?case using Suc(4) by (subst month_sum.simps) (simp add: month_start_def sum.atLeast_Suc_lessThan)
qed

lemma month_days_nonneg: "k < length (month_days y) \<Longrightarrow> 0 \<le> month_days y ! k"
  by (auto simp: month_days_def nth_Cons split: nat.split)

lemma month_days_year: "month_start (month_days y) 1 13 = (if y mod 4 = 0 then 366 else 365)"
  by (simp add: month_start_def month_days_def atLeastLessThan_upt[of 1 13] upt_rec numeral_eq_Suc)

lemma length_month_days [simp]: "length (month_days y) = 13"
  by (simp add: month_days_def)

lemma month_days_le: "1 \<le> m \<Longrightarrow> m < 13 \<Longrightarrow> 28 \<le> month_days y ! m \<and> month_days y ! m \<le> 31"
  by (auto simp: month_days_def nth_Cons split: nat.split)
section \<open>Round trip\<close>

definition valid_date :: "date_time \<Rightarrow> bool" where
  "valid_date dt \<longleftrightarrow> 1 \<le> month dt \<and> month dt \<le> 12 \<and> 1 \<le> date dt \<and>
     date dt \<le> month_days (year dt) ! nat (month dt) \<and>
     0 \<le> hours dt \<and> hours dt < 24 \<and> 0 \<le> minutes dt \<and> minutes dt < 60 \<and> 0 \<le> seconds dt \<and> seconds dt < 60"

text \<open>The days on which a new year begins, except the first of the four-year cycle.\<close>

definition year_boundary :: "int \<Rightarrow> bool" where
  "year_boundary days \<longleftrightarrow> days mod 1461 \<in> {365, 730, 1096}"

lemma uint_day: "uint (secs div (24 * 3600) :: u32) = uint secs div 86400" "uint (secs mod (24 * 3600) :: u32) = uint secs mod 86400"
  by (simp_all add: uint_div uint_mod)

lemma cycle_day:
  assumes "0 \<le> r" "r < 1461" "year_of_cycle r = (dy, d)"
  shows "0 \<le> dy" "dy \<le> 3" "0 \<le> d" "r = dy * 365 + (if 2 < dy then 1 else 0) + d"
    "(if (1970 + 4 * c + dy) mod 4 = 0 then 366 else 365) \<le> d \<longleftrightarrow> r \<in> {365, 730, 1096}"
proof -
  have "(1970 + 4 * c + k) mod 4 = (2 + k) mod 4" for k :: int
    by presburger
  then show "0 \<le> dy" "dy \<le> 3" "0 \<le> d" "r = dy * 365 + (if 2 < dy then 1 else 0) + d"
    "(if (1970 + 4 * c + dy) mod 4 = 0 then 366 else 365) \<le> d \<longleftrightarrow> r \<in> {365, 730, 1096}"
    using assms by (auto simp: year_of_cycle_def split: if_splits)
qed
text \<open>The result of both conversions for day \<open>d\<close> of the year \<open>1970 + 4 * c + dy\<close>.\<close>

lemma secs_to_date_eq:
  assumes "year_of_cycle (uint secs div 86400 mod 1461) = (dy, d)"
  shows "secs_to_date secs = (let y = 1970 + 4 * (uint secs div 86400 div 1461) + dy; t = uint secs mod 86400 in
    map_option (\<lambda>(m, mdays). \<lparr>seconds = t mod 3600 mod 60, minutes = t mod 3600 div 60, hours = t div 3600,
        date = d - mdays + 1, month = int m, year = y\<rparr>) (month_loop (month_days y) d 1 0))"
  unfolding secs_to_date_def Let_def uint_day assms by simp

lemma hms: "0 \<le> (t :: int) \<Longrightarrow> t div 3600 * 3600 + t mod 3600 div 60 * 60 + t mod 3600 mod 60 = t"
  by (simp add: algebra_simps)

lemma recombine: "D = q * 1461 + (dy * 365 + b + d) \<Longrightarrow> u = D * 86400 + t \<Longrightarrow>
    q * (1461 * 24 * 3600) + dy * (365 * 24 * 3600) + ((b + d) * 24 * 3600 + t) = (u :: int)"
  by simp

lemma hms_bounds: "0 \<le> (u :: int) mod 86400 div 3600 \<and> u mod 86400 div 3600 < 24 \<and>
    0 \<le> u mod 86400 mod 3600 div 60 \<and> u mod 86400 mod 3600 div 60 < 60 \<and>
    0 \<le> u mod 86400 mod 3600 mod 60 \<and> u mod 86400 mod 3600 mod 60 < 60"
proof -
  have b: "0 \<le> (x :: int) div d \<and> x div d < k" if "0 \<le> x" "x < k * d" "0 < d" for x k d
  proof -
    have "x div d * d \<le> x" using pos_mod_sign[of d x] div_mult_mod_eq[of x d] that(3) by linarith
    then have "x div d * d < k * d" using that(2) by linarith
    then have "x div d < k" using that(3) by (simp add: mult_less_cancel_right)
    then show ?thesis using that by (simp add: pos_imp_zdiv_nonneg_iff)
  qed
  show ?thesis using b[of "u mod 86400" 24 3600] b[of "u mod 86400 mod 3600" 60 60] by simp
qed

text \<open>C27: Reading the clock as a date and converting back gives the same number of seconds, and the date
  is a valid calendar date, for every 32-bit time except those on the first day of the
  second, third and fourth year of a four-year cycle.\<close>

theorem date_roundtrip:
  assumes "\<not> year_boundary (uint secs div 86400)"
  shows "\<exists>dt. secs_to_date secs = Some dt \<and> valid_date dt \<and> date_to_secs dt = Some secs"
proof -
  let ?D = "uint secs div 86400" and ?t = "uint secs mod 86400"
  obtain dy d where yd: "year_of_cycle (?D mod 1461) = (dy, d)" by force
  define y where "y = 1970 + 4 * (?D div 1461) + dy"
  have r: "0 \<le> ?D mod 1461" "?D mod 1461 < 1461" by simp_all
  note c = cycle_day[OF r yd]
  have d: "d < (if y mod 4 = 0 then 366 else 365)" using c(5)[of "?D div 1461"] assms unfolding y_def year_boundary_def by simp
  from month_loop_correct[of 1 "month_days y" 0 d] month_days_nonneg[of _ y] month_days_year[of y] c(3) d
  obtain m where m: "month_loop (month_days y) d 1 0 = Some (m, month_start (month_days y) 1 m)" "1 \<le> m" "m < 13"
    "month_start (month_days y) 1 m \<le> d" "d < month_start (month_days y) 1 m + month_days y ! m" by auto
  let ?dt = "\<lparr>seconds = ?t mod 3600 mod 60, minutes = ?t mod 3600 div 60, hours = ?t div 3600,
        date = d - month_start (month_days y) 1 m + 1, month = int m, year = y\<rparr>"
  have s: "secs_to_date secs = Some ?dt" unfolding secs_to_date_eq[OF yd] using m(1) by (simp add: Let_def y_def)
  have u: "0 \<le> uint secs" by simp
  have D: "0 \<le> ?D" by (rule pos_imp_zdiv_nonneg_iff[THEN iffD2]) simp_all
  have q: "c_div (y - 1970) 4 = ?D div 1461" using c(1,2) D by (simp add: y_def)
  have "valid_date ?dt" using m hms_bounds[of "uint secs"] by (simp add: valid_date_def)
  moreover have "date_to_secs ?dt = Some secs"
  proof -
    have ms: "month_sum (month_days y) 1 (int m) k = Some (k + month_start (month_days y) 1 m)" for k
      using month_sum_correct[of 1 m "month_days y" k] m(2,3) by simp
    have e: "y - 1970 - 4 * (?D div 1461) = dy" by (simp add: y_def)
    have tot: "?D div 1461 * (1461 * 24 * 3600) + dy * (365 * 24 * 3600) +
       (((if 2 < dy then 1 else 0) + d) * 24 * 3600 + ?t) = uint secs"
    proof -
      have "?D = ?D div 1461 * 1461 + (dy * 365 + (if 2 < dy then 1 else 0) + d)" using c(4) div_mult_mod_eq[of ?D 1461] by simp
      moreover have "uint secs = ?D * 86400 + ?t" by (rule div_mult_mod_eq[symmetric])
      ultimately show ?thesis by (rule recombine)
    qed
    have "0 \<le> ?t" by simp
    note h = hms[OF this]
    have ar: "(b + S + (d - S + 1 - 1)) * 24 * 3600 + H + M + k = (b + d) * 24 * 3600 + (H + M + k)" for b S H M k :: int
      by simp
    have "date_to_secs ?dt = Some (word_of_int (?D div 1461 * (1461 * 24 * 3600)) + word_of_int (dy * (365 * 24 * 3600)) +
       word_of_int (((if 2 < dy then 1 else 0) + d) * 24 * 3600 + (?t div 3600 * 3600 + ?t mod 3600 div 60 * 60 + ?t mod 3600 mod 60)))"
      unfolding date_to_secs_def Let_def by (simp only: date_time.simps q e ms option.map ar)
    also have "\<dots> = Some (word_of_int (uint secs))" by (simp only: h wi_hom_add tot)
    finally show ?thesis by simp
  qed
  ultimately show ?thesis using s by blast
qed

theorem date_roundtrip_witness:
  "\<exists>dt. secs_to_date 1000000000 = Some dt \<and> valid_date dt \<and> date_to_secs dt = Some 1000000000"
  using date_roundtrip[of 1000000000] by (simp add: year_boundary_def)

text \<open>On the first day of the second, third and fourth year of a four-year cycle the search for the
  month runs past the end of the array of month lengths.\<close>

theorem date_year_boundary_overrun:
  assumes "year_boundary (uint secs div 86400)"
  shows "secs_to_date secs = None"
proof -
  let ?D = "uint secs div 86400"
  obtain dy d where yd: "year_of_cycle (?D mod 1461) = (dy, d)" by force
  define y where "y = 1970 + 4 * (?D div 1461) + dy"
  have r: "0 \<le> ?D mod 1461" "?D mod 1461 < 1461" by simp_all
  note c = cycle_day[OF r yd]
  have "(if y mod 4 = 0 then 366 else 365) \<le> d" using c(5)[of "?D div 1461"] assms unfolding y_def year_boundary_def by simp
  then have "month_loop (month_days y) d 1 0 = None"
    using month_loop_overrun[of 1 "month_days y" 0 d] month_days_nonneg[of _ y] month_days_year[of y] by simp
  then show ?thesis unfolding secs_to_date_eq[OF yd] by (simp add: y_def Let_def)
qed

theorem date_year_boundary_overrun_witness: "secs_to_date 31536000 = None"
  using date_year_boundary_overrun[of 31536000] by (simp add: year_boundary_def)

end
