(* ===== verification/Chains.thy ===== *)
theory Chains
  imports Kernel_Prelude
begin

text \<open>Singly linked lists of C structures: a function from addresses to the \<^verbatim>\<open>next\<close> pointer of the
  structure there, address 0 being the null pointer. \<open>lseg\<close> relates a start pointer, the list of
  the addresses met and the pointer that ends the segment. The free lists of the core allocator and
  the block lists of the two heap allocators are such chains.\<close>

fun lseg :: "(u32 \<Rightarrow> u32) \<Rightarrow> u32 \<Rightarrow> u32 list \<Rightarrow> u32 \<Rightarrow> bool" where
  "lseg nxt p [] q \<longleftrightarrow> p = q"
| "lseg nxt p (x # xs) q \<longleftrightarrow> p = x \<and> x \<noteq> 0 \<and> lseg nxt (nxt x) xs q"

abbreviation chain :: "(u32 \<Rightarrow> u32) \<Rightarrow> u32 \<Rightarrow> u32 list \<Rightarrow> bool" where
  "chain nxt p xs \<equiv> lseg nxt p xs 0"

lemma lseg_append: "lseg nxt p (xs @ ys) q \<longleftrightarrow> (\<exists>r. lseg nxt p xs r \<and> lseg nxt r ys q)"
  by (induction xs arbitrary: p) auto

lemma lseg_nz: "lseg nxt p xs q \<Longrightarrow> 0 \<notin> set xs"
  by (induction xs arbitrary: p) auto

lemma lseg_cong: "(\<And>x. x \<in> set xs \<Longrightarrow> nxt' x = nxt x) \<Longrightarrow> lseg nxt' p xs q = lseg nxt p xs q"
  by (induction xs arbitrary: p) auto

lemma lseg_upd [simp]: "x \<notin> set xs \<Longrightarrow> lseg (nxt(x := v)) p xs q = lseg nxt p xs q"
  by (rule lseg_cong) auto

lemma lseg_last: "lseg nxt p xs q \<Longrightarrow> xs \<noteq> [] \<Longrightarrow> nxt (last xs) = q"
  by (induction xs arbitrary: p) auto

lemma lseg_set_last: "lseg nxt p xs q \<Longrightarrow> xs \<noteq> [] \<Longrightarrow> distinct xs \<Longrightarrow> lseg (nxt(last xs := r)) p xs r"
  by (induction xs arbitrary: p) auto

lemma chain_head: "chain nxt p xs \<Longrightarrow> p = (case xs of [] \<Rightarrow> 0 | x # _ \<Rightarrow> x)"
  by (cases xs) auto

lemma chain_unique: "chain nxt p xs \<Longrightarrow> chain nxt p ys \<Longrightarrow> xs = ys"
proof (induction xs arbitrary: p ys)
  case Nil
  then show ?case by (cases ys) auto
next
  case (Cons x xs)
  then show ?case by (cases ys) auto
qed

lemma chain_distinct: "chain nxt p xs \<Longrightarrow> distinct xs"
proof (induction xs arbitrary: p)
  case (Cons x xs)
  show ?case
  proof (cases "x \<in> set xs")
    case True
    then obtain as bs where xs: "xs = as @ x # bs" by (meson split_list)
    with Cons.prems have "chain nxt (nxt x) (as @ x # bs)" "chain nxt (nxt x) bs" by (auto simp: lseg_append)
    then have "as @ x # bs = bs" by (rule chain_unique)
    then have "length (as @ x # bs) = length bs" by simp
    then show ?thesis by simp
  qed (use Cons in auto)
qed simp

text \<open>Replacing the rest of a chain, after its first part \<open>xs\<close>, by another chain.\<close>

lemma lseg_relink:
  assumes "lseg nxt p xs r" "distinct xs" "chain nxt h zs" "set xs \<inter> set zs = {}"
  shows "xs = [] \<Longrightarrow> chain nxt h (xs @ zs)" "xs \<noteq> [] \<Longrightarrow> chain (nxt(last xs := h)) p (xs @ zs)"
proof -
  show "xs = [] \<Longrightarrow> chain nxt h (xs @ zs)" using assms(3) by simp
  assume "xs \<noteq> []"
  then obtain as a where xs: "xs = as @ [a]" by (cases xs rule: rev_cases) auto
  from assms(1,2) have "lseg nxt p as a" "a \<noteq> 0" "a \<notin> set as"
    by (auto simp: xs lseg_append)
  then show "chain (nxt(last xs := h)) p (xs @ zs)" using assms(3,4) by (auto simp: xs lseg_append)
qed

lemma chain_prefix: "chain nxt p (xs @ ys) \<Longrightarrow> \<exists>r. lseg nxt p xs r"
  by (auto simp: lseg_append)

lemma chain_first: "chain nxt p (xs @ y # ys) \<Longrightarrow> y = p \<longleftrightarrow> xs = []"
  using chain_distinct[of nxt p "xs @ y # ys"] by (cases xs) auto

lemma chain_mid: "chain nxt p (xs @ y # ys) \<Longrightarrow> y \<noteq> 0 \<and> chain nxt (nxt y) ys"
  by (auto simp: lseg_append)

lemma chain_tail: "chain nxt p (xs @ ys) \<Longrightarrow> chain nxt (case ys of [] \<Rightarrow> 0 | y # _ \<Rightarrow> y) ys"
  by (cases ys) (auto simp: lseg_append)

lemma chain_last_next: "chain nxt p (xs @ ys) \<Longrightarrow> xs \<noteq> [] \<Longrightarrow> nxt (last xs) = (case ys of [] \<Rightarrow> 0 | y # _ \<Rightarrow> y)"
  using lseg_last[of nxt p xs] by (cases ys) (auto simp: lseg_append)

end
