(* ===== verification/Heap_Lists.thy ===== *)
theory Heap_Lists
  imports Chains
begin

text \<open>The block lists of the two heap allocators. \<^verbatim>\<open>kmalloc\<close> (\<^verbatim>\<open>base/vmmap.c\<close>) and the C library's
  \<^verbatim>\<open>malloc\<close> (\<^verbatim>\<open>lib/malloc.c\<close>) keep the same data structure: nodes \<^verbatim>\<open>struct mem_list\<close> in pages of their own,
  a list of available blocks, sorted by address and with adjacent blocks merged, and a list of used blocks.
  This theory holds the operations that both share, over a record that each of them extends, and proves
  what they do to the blocks; \<^verbatim>\<open>Kmalloc\<close> and \<^verbatim>\<open>Umalloc\<close> hold the allocators themselves.\<close>

section \<open>State\<close>

text \<open>The \<^verbatim>\<open>struct mem_list\<close> nodes by address (0 is the null pointer), the pages that hold them, linked
  through their last word, and the two lists of nodes.\<close>

record mem_info =
  m_addr :: "u32 \<Rightarrow> u32"
  m_size :: "u32 \<Rightarrow> u32"
  m_next :: "u32 \<Rightarrow> u32"
  malloc_info :: u32
  info_next :: "u32 \<Rightarrow> u32"
  avail_list :: u32
  used_list :: u32

definition set_addr :: "u32 \<Rightarrow> u32 \<Rightarrow> 'a mem_info_scheme \<Rightarrow> 'a mem_info_scheme" where
  "set_addr p v h = h\<lparr>m_addr := (m_addr h)(p := v)\<rparr>"

definition set_size :: "u32 \<Rightarrow> u32 \<Rightarrow> 'a mem_info_scheme \<Rightarrow> 'a mem_info_scheme" where
  "set_size p v h = h\<lparr>m_size := (m_size h)(p := v)\<rparr>"

definition set_link :: "u32 \<Rightarrow> u32 \<Rightarrow> 'a mem_info_scheme \<Rightarrow> 'a mem_info_scheme" where
  "set_link p v h = h\<lparr>m_next := (m_next h)(p := v)\<rparr>"

definition m_end :: "'a mem_info_scheme \<Rightarrow> u32 \<Rightarrow> u32" where
  "m_end h p = m_addr h p + m_size h p"

section \<open>The list of available blocks\<close>

text \<open>The loop that looks for the place of a block: \<open>q1\<close> and its predecessor \<open>q2\<close>.\<close>

partial_function (option) insert_seek :: "'a mem_info_scheme \<Rightarrow> u32 \<Rightarrow> u32 \<Rightarrow> u32 \<Rightarrow> (u32 \<times> u32) option" where
  "insert_seek h a q1 q2 =
     (if q1 \<noteq> 0 \<and> m_end h q1 < a then insert_seek h a (m_next h q1) q1 else Some (q1, q2))"

text \<open>Insertion returns also the number of nodes that were merged away; without a predecessor to
  link to there is no defined result.\<close>

definition insert_before :: "u32 \<Rightarrow> u32 \<Rightarrow> 'a mem_info_scheme \<Rightarrow> 'a mem_info_scheme \<times> int" where
  "insert_before p av h =
     (if m_end h p = m_addr h av
      then (set_size p 0 (set_size av (m_size h av + m_size h p) (set_addr av (m_addr h p) h)), 1)
      else ((set_link p av h)\<lparr>avail_list := p\<rparr>, 0))"

definition insert_at :: "u32 \<Rightarrow> u32 \<times> u32 \<Rightarrow> 'a mem_info_scheme \<Rightarrow> ('a mem_info_scheme \<times> int) option" where
  "insert_at p = (\<lambda>(q1, q2) h.
     if q1 \<noteq> 0 then
       if m_end h q1 = m_addr h p then
         let h = set_size p 0 (set_size q1 (m_size h q1 + m_size h p) h); q2 = m_next h q1 in
         if q2 \<noteq> 0 \<and> m_end h q1 = m_addr h q2 then
           let h = set_size q2 0 (set_size q1 (m_size h q1 + m_size h q2) h) in Some (set_link q1 (m_next h q2) h, 2)
         else Some (h, 1)
       else if m_end h p = m_addr h q1 then
         Some (set_size p 0 (set_size q1 (m_size h q1 + m_size h p) (set_addr q1 (m_addr h p) h)), 1)
       else if q2 = 0 then None else Some (set_link q2 p (set_link p q1 h), 0)
     else if q2 = 0 then None else Some (set_link q2 p h, 0))"

definition insert_node :: "u32 \<Rightarrow> 'a mem_info_scheme \<Rightarrow> ('a mem_info_scheme \<times> int) option" where
  "insert_node p h =
     (let h = set_link p 0 h; av = avail_list h in
      if av = 0 then Some (h\<lparr>avail_list := p\<rparr>, 0)
      else if m_addr h p < m_addr h av then Some (insert_before p av h)
      else Option.bind (insert_seek h (m_addr h p) av 0) (\<lambda>q. insert_at p q h))"

partial_function (option) find_pred :: "'a mem_info_scheme \<Rightarrow> u32 \<Rightarrow> u32 \<Rightarrow> u32 option" where
  "find_pred h p q2 = (if q2 \<noteq> 0 \<and> m_next h q2 \<noteq> p then find_pred h p (m_next h q2) else Some q2)"

definition delete_node :: "u32 \<Rightarrow> 'a mem_info_scheme \<Rightarrow> 'a mem_info_scheme option" where
  "delete_node p h =
     (let h = set_size p 0 h in
      if avail_list h = p then Some (set_link p 0 (h\<lparr>avail_list := m_next h (avail_list h)\<rparr>))
      else map_option (\<lambda>q2. set_link p 0 (if q2 \<noteq> 0 then set_link q2 (m_next h p) h else h))
        (find_pred h p (avail_list h)))"

text \<open>Best fit: whether a block is large enough, the smallest excess so far (an \<^verbatim>\<open>int\<close> that is compared
  as unsigned) and its node.\<close>

partial_function (option) best_fit :: "'a mem_info_scheme \<Rightarrow> u32 \<Rightarrow> u32 \<Rightarrow> bool \<times> u32 \<times> u32 \<Rightarrow> (bool \<times> u32 \<times> u32) option" where
  "best_fit h sz p1 best =
     (if p1 = 0 then Some best
      else best_fit h sz (m_next h p1)
        (if sz \<le> m_size h p1
         then if m_size h p1 - sz < fst (snd best) then (True, m_size h p1 - sz, p1) else (True, snd best)
         else best))"

section \<open>Nodes\<close>

text \<open>A page has room for 341 nodes of 12 bytes; a node of size 0 is unused.\<close>

definition page_nodes :: "u32 \<Rightarrow> u32 list" where
  "page_nodes page = map (\<lambda>i. page + 12 * word_of_nat i) [0 ..< 341]"

text \<open>The search through the pages gives an unused node or, if there is none, the last page.\<close>

partial_function (option) node_search :: "'a mem_info_scheme \<Rightarrow> u32 \<Rightarrow> u32 \<Rightarrow> (u32 + u32) option" where
  "node_search h ptr1 ptr2 =
     (if ptr1 = 0 then Some (Inr ptr2)
      else case find (\<lambda>p. m_size h p = 0) (page_nodes ptr1) of
             Some p \<Rightarrow> Some (Inl p)
           | None \<Rightarrow> node_search h (info_next h ptr1) ptr1)"

text \<open>\<^verbatim>\<open>bzero\<close> on a page of nodes.\<close>

definition clear_page :: "u32 \<Rightarrow> 'a mem_info_scheme \<Rightarrow> 'a mem_info_scheme" where
  "clear_page page h =
     (let z = (\<lambda>f a. if page \<le> a \<and> a - page < 4096 then 0 else f a) in
      h\<lparr>m_addr := z (m_addr h), m_size := z (m_size h), m_next := z (m_next h), info_next := (info_next h)(page := 0)\<rparr>)"

section \<open>The list of used blocks\<close>

text \<open>The search for the node of a block: the node (0 if there is none) and its predecessor.\<close>

partial_function (option) used_find :: "'a mem_info_scheme \<Rightarrow> u32 \<Rightarrow> u32 \<Rightarrow> u32 \<Rightarrow> (u32 \<times> u32) option" where
  "used_find h ptr p1 p2 =
     (if p1 = 0 \<or> m_addr h p1 = ptr then Some (p1, p2) else used_find h ptr (m_next h p1) p1)"

definition unlink_used :: "u32 \<Rightarrow> u32 \<Rightarrow> 'a mem_info_scheme \<Rightarrow> 'a mem_info_scheme" where
  "unlink_used p1 p2 h =
     set_link p1 0 (if p1 = used_list h then h\<lparr>used_list := m_next h p1\<rparr> else set_link p2 (m_next h p1) h)"

text \<open>The start of a found block becomes a used block with its own node \<open>p3\<close>, and every allocated
  block is linked in front of the used list.\<close>

definition split_block :: "u32 \<Rightarrow> u32 \<Rightarrow> u32 \<Rightarrow> 'a mem_info_scheme \<Rightarrow> 'a mem_info_scheme" where
  "split_block p1 p3 sz h =
     (let h = set_link p3 0 (set_size p3 sz (set_addr p3 (m_addr h p1) h));
          h = set_size p1 (m_size h p1 - sz) h
      in set_addr p1 (m_addr h p1 + sz) h)"

definition link_used :: "u32 \<Rightarrow> 'a mem_info_scheme \<Rightarrow> 'a mem_info_scheme" where
  "link_used p3 h = (set_link p3 (used_list h) h)\<lparr>used_list := p3\<rparr>"

section \<open>Ranges\<close>

text \<open>A block as its start address and its number of bytes; lists of blocks in ascending order with a
  gap after each block. Addresses stay below \<open>0xefffffff\<close>, the value from which the best-fit search
  starts.\<close>

definition range_bytes :: "nat \<times> nat \<Rightarrow> nat set" where
  "range_bytes = (\<lambda>(a, n). {a ..< a + n})"

definition range_ok :: "nat \<times> nat \<Rightarrow> bool" where
  "range_ok = (\<lambda>(a, n). 0 < a \<and> 0 < n \<and> a + n < 0xefffffff)"

definition below :: "nat \<times> nat \<Rightarrow> nat \<times> nat \<Rightarrow> bool" where
  "below = (\<lambda>(a, n) (b, m). a + n < b)"

definition ranges_ok :: "(nat \<times> nat) list \<Rightarrow> bool" where
  "ranges_ok rs \<longleftrightarrow> sorted_wrt below rs \<and> list_all range_ok rs"

definition bytes :: "(nat \<times> nat) list \<Rightarrow> nat set" where
  "bytes rs = \<Union> (range_bytes ` set rs)"

definition blk :: "'a mem_info_scheme \<Rightarrow> u32 \<Rightarrow> nat \<times> nat" where
  "blk h p = (unat (m_addr h p), unat (m_size h p))"

lemma ranges_ok_Nil [simp]: "ranges_ok []"
  by (simp add: ranges_ok_def)

lemma ranges_ok_Cons: "ranges_ok (x # ys) \<longleftrightarrow> range_ok x \<and> ranges_ok ys \<and> (\<forall>y \<in> set ys. below x y)"
  by (auto simp: ranges_ok_def)

lemma ranges_ok_append:
  "ranges_ok (xs @ ys) \<longleftrightarrow> ranges_ok xs \<and> ranges_ok ys \<and> (\<forall>x \<in> set xs. \<forall>y \<in> set ys. below x y)"
  by (auto simp: ranges_ok_def sorted_wrt_append)

lemma bytes_simps [simp]:
  "bytes [] = {}" "bytes (x # xs) = range_bytes x \<union> bytes xs" "bytes (xs @ ys) = bytes xs \<union> bytes ys"
  by (auto simp: bytes_def)

lemma range_bytes_join: "range_bytes (a, n + m) = range_bytes (a, n) \<union> range_bytes (a + n, m)"
  by (auto simp: range_bytes_def)

lemma set_fields [simp]:
  "m_addr (set_addr p v h) = (m_addr h)(p := v)" "m_size (set_addr p v h) = m_size h" "m_next (set_addr p v h) = m_next h"
  "m_addr (set_size p v h) = m_addr h" "m_size (set_size p v h) = (m_size h)(p := v)" "m_next (set_size p v h) = m_next h"
  "m_addr (set_link p v h) = m_addr h" "m_size (set_link p v h) = m_size h" "m_next (set_link p v h) = (m_next h)(p := v)"
  "avail_list (set_addr p v h) = avail_list h" "avail_list (set_size p v h) = avail_list h" "avail_list (set_link p v h) = avail_list h"
  "used_list (set_addr p v h) = used_list h" "used_list (set_size p v h) = used_list h" "used_list (set_link p v h) = used_list h"
  "malloc_info (set_addr p v h) = malloc_info h" "malloc_info (set_size p v h) = malloc_info h" "malloc_info (set_link p v h) = malloc_info h"
  "info_next (set_addr p v h) = info_next h" "info_next (set_size p v h) = info_next h" "info_next (set_link p v h) = info_next h"
  "mem_info.more (set_addr p v h) = mem_info.more h" "mem_info.more (set_size p v h) = mem_info.more h"
  "mem_info.more (set_link p v h) = mem_info.more h"
  by (simp_all add: set_addr_def set_size_def set_link_def)

text \<open>Only nodes of \<open>N\<close> and the head of the available list differ.\<close>

definition only_nodes :: "u32 set \<Rightarrow> 'a mem_info_scheme \<Rightarrow> 'a mem_info_scheme \<Rightarrow> bool" where
  "only_nodes N h h' \<longleftrightarrow> (\<forall>x. x \<notin> N \<longrightarrow> m_addr h' x = m_addr h x \<and> m_size h' x = m_size h x \<and> m_next h' x = m_next h x) \<and>
     malloc_info h' = malloc_info h \<and> info_next h' = info_next h \<and> used_list h' = used_list h \<and> mem_info.more h' = mem_info.more h"

lemma only_nodes_mono: "only_nodes N h h' \<Longrightarrow> N \<subseteq> M \<Longrightarrow> only_nodes M h h'"
  by (auto simp: only_nodes_def)

text \<open>The available list of \<open>h\<close> consists of the nodes \<open>A\<close>.\<close>

definition avail :: "'a mem_info_scheme \<Rightarrow> u32 list \<Rightarrow> bool" where
  "avail h A \<longleftrightarrow> chain (m_next h) (avail_list h) A \<and> ranges_ok (map (blk h) A)"

text \<open>What insertion of \<open>p\<close> promises.\<close>

definition inserted :: "u32 \<Rightarrow> 'a mem_info_scheme \<Rightarrow> u32 list \<Rightarrow> 'a mem_info_scheme \<Rightarrow> int \<Rightarrow> u32 list \<Rightarrow> bool" where
  "inserted p h A h' k A' \<longleftrightarrow> avail h' A' \<and> bytes (map (blk h') A') = bytes (map (blk h) A) \<union> range_bytes (blk h p) \<and>
     set A' \<subseteq> insert p (set A) \<and> int (length A') + k = int (length A) + 1 \<and> only_nodes (insert p (set A)) h h'"

text \<open>The block \<open>p\<close> belongs between the blocks \<open>X\<close> and \<open>Y\<close>, with a gap after \<open>X\<close>.\<close>

definition slot :: "'a mem_info_scheme \<Rightarrow> u32 list \<Rightarrow> u32 \<Rightarrow> u32 list \<Rightarrow> bool" where
  "slot h X p Y \<longleftrightarrow> avail h (X @ Y) \<and> p \<notin> set (X @ Y) \<and> p \<noteq> 0 \<and> range_ok (blk h p) \<and>
     (\<forall>x \<in> set X. below (blk h x) (blk h p)) \<and> (\<forall>y \<in> set Y. unat (m_end h p) \<le> unat (m_addr h y))"

lemma unat_m_end: "range_ok (blk h p) \<Longrightarrow> unat (m_end h p) = unat (m_addr h p) + unat (m_size h p)"
  by (auto simp: range_ok_def blk_def m_end_def intro!: unat_add_lem[THEN iffD1])

lemma unat_sizes:
  assumes "range_ok (a, unat n)" "range_ok (a + unat n, unat m)"
  shows "unat (n + m :: u32) = unat n + unat m"
  using assms by (intro unat_add_lem[THEN iffD1]) (simp add: range_ok_def)

lemma slotD:
  assumes "slot h X p Y"
  shows "chain (m_next h) (avail_list h) (X @ Y)" "distinct (X @ Y)" "ranges_ok (map (blk h) X @ map (blk h) Y)" "p \<noteq> 0" "p \<notin> set X" "p \<notin> set Y"
    "range_ok (blk h p)" "\<And>x. x \<in> set X \<Longrightarrow> below (blk h x) (blk h p)"
    "\<And>y. y \<in> set Y \<Longrightarrow> unat (m_addr h p) + unat (m_size h p) \<le> unat (m_addr h y)"
    "\<And>x. x \<in> set (X @ Y) \<Longrightarrow> range_ok (blk h x)" "chain (m_next h) (case Y of [] \<Rightarrow> 0 | y # _ \<Rightarrow> y) Y"
proof -
  note s = assms[unfolded slot_def avail_def]
  show "chain (m_next h) (avail_list h) (X @ Y)" "ranges_ok (map (blk h) X @ map (blk h) Y)" "p \<noteq> 0" "p \<notin> set X" "p \<notin> set Y"
    "range_ok (blk h p)" "\<And>x. x \<in> set X \<Longrightarrow> below (blk h x) (blk h p)" using s by auto
  show "distinct (X @ Y)" using s chain_distinct by blast
  show "\<And>y. y \<in> set Y \<Longrightarrow> unat (m_addr h p) + unat (m_size h p) \<le> unat (m_addr h y)" using s unat_m_end[of h p] by auto
  show "\<And>x. x \<in> set (X @ Y) \<Longrightarrow> range_ok (blk h x)" using s by (auto simp: ranges_ok_def list_all_iff)
  show "chain (m_next h) (case Y of [] \<Rightarrow> 0 | y # _ \<Rightarrow> y) Y" using s chain_tail by blast
qed

lemma map_blk_cong: "(\<And>x. x \<in> set L \<Longrightarrow> m_addr h' x = m_addr h x \<and> m_size h' x = m_size h x) \<Longrightarrow> map (blk h') L = map (blk h) L"
  by (simp add: blk_def)

text \<open>A new node, at the front and after the nodes \<open>X\<close>.\<close>

lemma insert_new_front:
  assumes s: "slot h [] p Y" and gap: "\<forall>y \<in> set Y. below (blk h p) (blk h y)" and h': "m_next h p = 0 \<or> Y \<noteq> []"
  shows "inserted p h Y ((set_link p (case Y of [] \<Rightarrow> 0 | y # _ \<Rightarrow> y) h)\<lparr>avail_list := p\<rparr>) 0 (p # Y)"
proof -
  note d = slotD[OF s]
  let ?h = "(set_link p (case Y of [] \<Rightarrow> 0 | y # _ \<Rightarrow> y) h)\<lparr>avail_list := p\<rparr>"
  have m: "map (blk ?h) (p # Y) = blk h p # map (blk h) Y" by (simp add: blk_def)
  show ?thesis unfolding inserted_def avail_def m
    using d gap by (auto simp: ranges_ok_Cons only_nodes_def)
qed

lemma insert_new_after:
  assumes s: "slot h X p Y" and gap: "\<forall>y \<in> set Y. below (blk h p) (blk h y)" and X: "X \<noteq> []"
  shows "inserted p h (X @ Y) (set_link (last X) p (set_link p (case Y of [] \<Rightarrow> 0 | y # _ \<Rightarrow> y) h)) 0 (X @ p # Y)"
proof -
  note d = slotD[OF s]
  let ?h = "set_link (last X) p (set_link p (case Y of [] \<Rightarrow> 0 | y # _ \<Rightarrow> y) h)"
  obtain U u where x: "X = U @ [u]" using X by (cases X rule: rev_cases) auto
  have m: "map (blk ?h) (X @ p # Y) = map (blk h) X @ blk h p # map (blk h) Y" by (simp add: blk_def)
  have "chain (m_next ?h) (avail_list ?h) (X @ p # Y)" using d(1,2,4,5,6,11) by (auto simp: x lseg_append)
  moreover have "ranges_ok (map (blk h) X @ blk h p # map (blk h) Y)"
    using d(3,7,8) gap by (auto simp: ranges_ok_append ranges_ok_Cons)
  ultimately show ?thesis unfolding inserted_def avail_def m by (auto simp: x only_nodes_def)
qed

text \<open>The next block grows downwards by \<open>p\<close>.\<close>

lemma insert_join_next:
  assumes s: "slot h X p (q # Z)" and adj: "m_end h p = m_addr h q"
  shows "inserted p h (X @ q # Z) (set_size p 0 (set_size q (m_size h q + m_size h p) (set_addr q (m_addr h p) h))) 1 (X @ q # Z)"
proof -
  note d = slotD[OF s]
  let ?h = "set_size p 0 (set_size q (m_size h q + m_size h p) (set_addr q (m_addr h p) h))"
  have q: "unat (m_addr h q) = unat (m_addr h p) + unat (m_size h p)" using unat_m_end[OF d(7)] adj by simp
  have sz: "unat (m_size h q + m_size h p) = unat (m_size h p) + unat (m_size h q)"
    using unat_sizes[of "unat (m_addr h p)" "m_size h p" "m_size h q"] d(7) d(10)[of q] q by (simp add: blk_def add.commute)
  have m: "map (blk ?h) (X @ q # Z) = map (blk h) X @ (unat (m_addr h p), unat (m_size h p) + unat (m_size h q)) # map (blk h) Z"
    using d(2,5,6) sz by (auto simp: blk_def)
  have "ranges_ok (map (blk h) X @ (unat (m_addr h p), unat (m_size h p) + unat (m_size h q)) # map (blk h) Z)"
    using d(3) d(7) d(8) q by (auto simp: ranges_ok_append ranges_ok_Cons below_def range_ok_def blk_def)
  moreover have "bytes (map (blk h) X @ (unat (m_addr h p), unat (m_size h p) + unat (m_size h q)) # map (blk h) Z)
      = bytes (map (blk h) (X @ q # Z)) \<union> range_bytes (blk h p)"
    using range_bytes_join[of "unat (m_addr h p)" "unat (m_size h p)" "unat (m_size h q)"] q by (auto simp: blk_def)
  ultimately show ?thesis unfolding inserted_def avail_def m using d(1) by (auto simp: only_nodes_def)
qed

text \<open>The block before \<open>p\<close> ends where \<open>p\<close> starts: it grows upwards, and may then reach the next one.\<close>

definition touching :: "'a mem_info_scheme \<Rightarrow> u32 list \<Rightarrow> u32 \<Rightarrow> u32 \<Rightarrow> u32 list \<Rightarrow> bool" where
  "touching h X q p Z \<longleftrightarrow> avail h (X @ q # Z) \<and> p \<notin> set (X @ q # Z) \<and> range_ok (blk h p) \<and>
     m_end h q = m_addr h p \<and> (\<forall>z \<in> set Z. unat (m_end h p) \<le> unat (m_addr h z))"

lemma touchingD:
  assumes "touching h X q p Z"
  shows "chain (m_next h) (avail_list h) (X @ q # Z)" "distinct (X @ q # Z)" "p \<notin> set (X @ q # Z)"
    "ranges_ok (map (blk h) X @ (unat (m_addr h q), unat (m_size h q)) # map (blk h) Z)"
    "unat (m_addr h p) = unat (m_addr h q) + unat (m_size h q)"
    "unat (m_size h q + m_size h p) = unat (m_size h q) + unat (m_size h p)"
    "range_ok (unat (m_addr h q), unat (m_size h q) + unat (m_size h p))"
    "\<And>z. z \<in> set Z \<Longrightarrow> unat (m_addr h q) + (unat (m_size h q) + unat (m_size h p)) \<le> unat (m_addr h z)"
    "range_bytes (unat (m_addr h q), unat (m_size h q) + unat (m_size h p)) = range_bytes (blk h q) \<union> range_bytes (blk h p)"
proof -
  note t = assms[unfolded touching_def avail_def]
  show "chain (m_next h) (avail_list h) (X @ q # Z)" "p \<notin> set (X @ q # Z)" using t by auto
  show "distinct (X @ q # Z)" using t chain_distinct by blast
  show r: "ranges_ok (map (blk h) X @ (unat (m_addr h q), unat (m_size h q)) # map (blk h) Z)" using t by (simp add: blk_def)
  have ok: "range_ok (blk h q)" "range_ok (blk h p)" using r t by (auto simp: ranges_ok_append ranges_ok_Cons blk_def)
  show a: "unat (m_addr h p) = unat (m_addr h q) + unat (m_size h q)" using unat_m_end[OF ok(1)] t by simp
  show sz: "unat (m_size h q + m_size h p) = unat (m_size h q) + unat (m_size h p)"
    using unat_sizes[of "unat (m_addr h q)" "m_size h q" "m_size h p"] ok a by (simp add: blk_def)
  show "range_ok (unat (m_addr h q), unat (m_size h q) + unat (m_size h p))" using ok a by (auto simp: range_ok_def blk_def)
  show "\<And>z. z \<in> set Z \<Longrightarrow> unat (m_addr h q) + (unat (m_size h q) + unat (m_size h p)) \<le> unat (m_addr h z)"
    using t unat_m_end[OF ok(2)] a by auto
  show "range_bytes (unat (m_addr h q), unat (m_size h q) + unat (m_size h p)) = range_bytes (blk h q) \<union> range_bytes (blk h p)"
    using range_bytes_join[of "unat (m_addr h q)" "unat (m_size h q)" "unat (m_size h p)"] a by (simp add: blk_def)
qed

lemma insert_join_prev:
  assumes t: "touching h X q p Z" and gap: "\<forall>z \<in> set Z. unat (m_addr h q) + (unat (m_size h q) + unat (m_size h p)) < unat (m_addr h z)"
  shows "inserted p h (X @ q # Z) (set_size p 0 (set_size q (m_size h q + m_size h p) h)) 1 (X @ q # Z)"
proof -
  note d = touchingD[OF t]
  let ?h = "set_size p 0 (set_size q (m_size h q + m_size h p) h)"
  have m: "map (blk ?h) (X @ q # Z) = map (blk h) X @ (unat (m_addr h q), unat (m_size h q) + unat (m_size h p)) # map (blk h) Z"
    using d(2,3,6) by (auto simp: blk_def)
  have "ranges_ok (map (blk h) X @ (unat (m_addr h q), unat (m_size h q) + unat (m_size h p)) # map (blk h) Z)"
    using d(4,7) gap by (auto simp: ranges_ok_append ranges_ok_Cons below_def blk_def)
  moreover have "bytes (map (blk h) X @ (unat (m_addr h q), unat (m_size h q) + unat (m_size h p)) # map (blk h) Z)
      = bytes (map (blk h) (X @ q # Z)) \<union> range_bytes (blk h p)" using d(9) by auto
  ultimately show ?thesis unfolding inserted_def avail_def m using d(1) by (auto simp: only_nodes_def)
qed

lemma insert_join_both:
  assumes t: "touching h X q p (r # Z)" and adj: "m_addr h q + (m_size h q + m_size h p) = m_addr h r"
  shows "inserted p h (X @ q # r # Z) (set_link q (m_next h r) (set_size r 0 (set_size q (m_size h q + m_size h p + m_size h r)
    (set_size p 0 (set_size q (m_size h q + m_size h p) h))))) 2 (X @ q # Z)"
proof -
  note d = touchingD[OF t]
  let ?h = "set_link q (m_next h r) (set_size r 0 (set_size q (m_size h q + m_size h p + m_size h r)
    (set_size p 0 (set_size q (m_size h q + m_size h p) h))))"
  let ?n = "unat (m_size h q) + unat (m_size h p)"
  have ok: "range_ok (blk h r)" using d(4) by (auto simp: ranges_ok_append ranges_ok_Cons)
  have ar: "unat (m_addr h r) = unat (m_addr h q) + ?n"
    using d(6,7) by (auto simp: adj[symmetric] range_ok_def intro!: trans[OF unat_add_lem[THEN iffD1]])
  have sz: "unat (m_size h q + m_size h p + m_size h r) = ?n + unat (m_size h r)"
    using unat_sizes[of "unat (m_addr h q)" "m_size h q + m_size h p" "m_size h r"] ok ar d(6,7) by (simp add: blk_def)
  have m: "map (blk ?h) (X @ q # Z) = map (blk h) X @ (unat (m_addr h q), ?n + unat (m_size h r)) # map (blk h) Z"
    using d(2,3) sz by (auto simp: blk_def)
  have "ranges_ok (map (blk h) X @ (unat (m_addr h q), ?n + unat (m_size h r)) # map (blk h) Z)"
    using d(4,7) ok ar by (auto simp: ranges_ok_append ranges_ok_Cons below_def blk_def range_ok_def)
  moreover have "bytes (map (blk h) X @ (unat (m_addr h q), ?n + unat (m_size h r)) # map (blk h) Z)
      = bytes (map (blk h) (X @ q # r # Z)) \<union> range_bytes (blk h p)"
    using d(9) ar range_bytes_join[of "unat (m_addr h q)" ?n "unat (m_size h r)"] by (auto simp: blk_def)
  moreover have "chain (m_next ?h) (avail_list ?h) (X @ q # Z)" using d(1,2) by (auto simp: lseg_append)
  ultimately show ?thesis unfolding inserted_def avail_def m by (auto simp: only_nodes_def)
qed

lemma insert_seek_correct:
  "chain (m_next h) q1 L \<Longrightarrow> insert_seek h a q1 q2 =
     (let X = takeWhile (\<lambda>x. m_end h x < a) L; Y = dropWhile (\<lambda>x. m_end h x < a) L in
      Some (case Y of [] \<Rightarrow> 0 | y # _ \<Rightarrow> y, if X = [] then q2 else last X))"
proof (induction L arbitrary: q1 q2)
  case Nil
  then show ?case by (subst insert_seek.simps) simp
next
  case (Cons x L)
  then show ?case using Cons.IH[of "m_next h x" x] by (subst insert_seek.simps) (auto simp: Let_def)
qed

definition fresh_block :: "'a mem_info_scheme \<Rightarrow> u32 list \<Rightarrow> u32 \<Rightarrow> bool" where
  "fresh_block h A p \<longleftrightarrow> p \<notin> set A \<and> p \<noteq> 0 \<and> range_ok (blk h p) \<and> range_bytes (blk h p) \<inter> bytes (map (blk h) A) = {}"

text \<open>Blocks that do not overlap are one after the other.\<close>

lemma range_cases:
  assumes "range_ok x" "range_ok y" "range_bytes x \<inter> range_bytes y = {}"
  shows "fst x + snd x \<le> fst y \<or> fst y + snd y \<le> fst x"
proof (rule ccontr)
  assume "\<not> ?thesis"
  then have "max (fst x) (fst y) \<in> range_bytes x \<inter> range_bytes y"
    using assms(1,2) by (auto simp: range_bytes_def range_ok_def max_def split: prod.splits)
  with assms(3) show False by blast
qed

lemma fresh_rel:
  assumes "avail h A" "fresh_block h A p" "x \<in> set A"
  shows "range_ok (blk h x)" "unat (m_end h x) = unat (m_addr h x) + unat (m_size h x)" "unat (m_addr h x) < unat (m_end h x)"
    "unat (m_end h x) \<le> unat (m_addr h p) \<or> unat (m_end h p) \<le> unat (m_addr h x)"
proof -
  show ok: "range_ok (blk h x)" using assms(1,3) by (auto simp: avail_def ranges_ok_def list_all_iff)
  then show e: "unat (m_end h x) = unat (m_addr h x) + unat (m_size h x)" by (rule unat_m_end)
  then show "unat (m_addr h x) < unat (m_end h x)" using ok by (simp add: range_ok_def blk_def)
  have "range_bytes (blk h x) \<inter> range_bytes (blk h p) = {}" using assms(2,3) by (auto simp: bytes_def fresh_block_def)
  then show "unat (m_end h x) \<le> unat (m_addr h p) \<or> unat (m_end h p) \<le> unat (m_addr h x)"
    using range_cases[OF ok, of "blk h p"] assms(2) e unat_m_end[of h p] by (auto simp: blk_def fresh_block_def)
qed

lemma avail_below: "avail h (X @ Y) \<Longrightarrow> x \<in> set X \<Longrightarrow> y \<in> set Y \<Longrightarrow> below (blk h x) (blk h y)"
  by (auto simp: avail_def ranges_ok_append)

lemma set_link_same: "m_next h p = v \<Longrightarrow> set_link p v h = h"
  by (auto simp: set_link_def)

text \<open>The place in front of the first block.\<close>

lemma insert_before_correct:
  assumes A: "avail h (a # A)" and p: "fresh_block h (a # A) p" and lt: "m_addr h p < m_addr h a"
  shows "case insert_before p a h of (h', k) \<Rightarrow> \<exists>A'. inserted p h (a # A) h' k A'"
proof -
  have up: "unat (m_addr h a) < unat (m_addr h y)" if "y \<in> set A" for y
    using avail_below[of h "[a]" A a y] A that by (auto simp: below_def blk_def)
  have y: "unat (m_end h p) \<le> unat (m_addr h y)" if "y \<in> set (a # A)" for y
    using fresh_rel[OF A p that] up[of y] lt that by (auto simp: word_less_nat_alt)
  have s: "slot h [] p (a # A)" using A p y by (auto simp: slot_def fresh_block_def)
  show ?thesis
  proof (cases "m_end h p = m_addr h a")
    case True
    then show ?thesis using insert_join_next[OF s True] by (auto simp: insert_before_def)
  next
    case False
    then have "unat (m_end h p) < unat (m_addr h a)" using y[of a] by (simp add: word_unat_eq_iff)
    then have "\<forall>y \<in> set (a # A). below (blk h p) (blk h y)"
      using up unat_m_end[of h p] p by (fastforce simp: below_def blk_def fresh_block_def)
    from insert_new_front[OF s this] False show ?thesis by (auto simp: insert_before_def)
  qed
qed

text \<open>The place after a block that \<open>p\<close> touches.\<close>

lemma insert_at_touching:
  assumes t: "touching h X q p Z" and q2: "q \<noteq> 0"
  shows "\<exists>h' k A'. insert_at p (q, q2) h = Some (h', k) \<and> inserted p h (X @ q # Z) h' k A'"
proof -
  note d = touchingD[OF t]
  have e: "m_end h q = m_addr h p" using t by (simp add: touching_def)
  have nq: "m_next h q = (case Z of [] \<Rightarrow> 0 | z # _ \<Rightarrow> z)" using chain_last_next[of "m_next h" "avail_list h" "X @ [q]" Z] d(1) by simp
  have qp: "q \<noteq> p" using d(3) by auto
  show ?thesis
  proof (cases "\<exists>r W. Z = r # W \<and> m_addr h q + (m_size h q + m_size h p) = m_addr h r")
    case True
    then obtain r W where z: "Z = r # W" and adj: "m_addr h q + (m_size h q + m_size h p) = m_addr h r" by blast
    have rp: "r \<noteq> p" "r \<noteq> q" "r \<noteq> 0" using d(2,3) chain_mid[of "m_next h" "avail_list h" "X @ [q]" r W] d(1) z by auto
    show ?thesis using insert_join_both[OF t[unfolded z] adj] e nq qp rp z q2 adj
      by (auto simp: insert_at_def Let_def m_end_def)
  next
    case False
    have "\<forall>z \<in> set Z. unat (m_addr h q) + (unat (m_size h q) + unat (m_size h p)) < unat (m_addr h z)"
    proof (cases Z)
      case (Cons r W)
      have "unat (m_addr h q + (m_size h q + m_size h p)) = unat (m_addr h q) + (unat (m_size h q) + unat (m_size h p))"
        using d(6,7) by (auto simp: range_ok_def intro!: trans[OF unat_add_lem[THEN iffD1]])
      then have "unat (m_addr h q) + (unat (m_size h q) + unat (m_size h p)) < unat (m_addr h r)"
        using d(8)[of r] False Cons by (auto simp: word_unat_eq_iff)
      moreover have "unat (m_addr h r) < unat (m_addr h z)" if "z \<in> set W" for z
        using d(4) Cons that by (auto simp: ranges_ok_append ranges_ok_Cons below_def blk_def)
      ultimately show ?thesis using Cons by fastforce
    qed simp
    from insert_join_prev[OF t this] False e nq qp q2 show ?thesis
      by (cases Z) (auto simp: insert_at_def Let_def m_end_def add.assoc)
  qed
qed

text \<open>The place after a gap.\<close>

lemma insert_at_gap:
  assumes s: "slot h X p Y" and X: "X \<noteq> []" and p0: "m_next h p = 0" and nt: "\<forall>y \<in> set Y. m_end h y \<noteq> m_addr h p"
  shows "\<exists>h' k A'. insert_at p (case Y of [] \<Rightarrow> 0 | y # _ \<Rightarrow> y, last X) h = Some (h', k) \<and> inserted p h (X @ Y) h' k A'"
proof -
  note d = slotD[OF s]
  have l0: "last X \<noteq> 0" using lseg_nz[OF d(1)] X by (metis Un_iff last_in_set set_append)
  show ?thesis
  proof (cases "\<exists>q Z. Y = q # Z \<and> m_end h p = m_addr h q")
    case True
    then obtain q Z where Y: "Y = q # Z" "m_end h p = m_addr h q" by blast
    have "q \<noteq> 0" using d(11) Y by auto
    then show ?thesis using insert_join_next[OF s[unfolded Y(1)] Y(2)] nt Y by (auto simp: insert_at_def Let_def)
  next
    case False
    have "\<forall>y \<in> set Y. below (blk h p) (blk h y)"
    proof (cases Y)
      case (Cons q Z)
      have "unat (m_addr h p) + unat (m_size h p) < unat (m_addr h q)"
        using d(9)[of q] False Cons unat_m_end[OF d(7)] by (auto simp: word_unat_eq_iff)
      moreover have "unat (m_addr h q) < unat (m_addr h z)" if "z \<in> set Z" for z
        using d(3) Cons that by (auto simp: ranges_ok_append ranges_ok_Cons below_def blk_def)
      ultimately show ?thesis using Cons by (fastforce simp: below_def blk_def)
    qed simp
    from insert_new_after[OF s this X] False nt l0 p0 d(11) show ?thesis
      by (cases Y) (auto simp: insert_at_def Let_def set_link_same)
  qed
qed

lemma insert_at_correct:
  assumes A: "avail h A" and p: "fresh_block h A p" and p0: "m_next h p = 0" and le: "A \<noteq> []" "\<not> m_addr h p < m_addr h (hd A)"
  shows "\<exists>h' k A'. Option.bind (insert_seek h (m_addr h p) (avail_list h) 0) (\<lambda>q. insert_at p q h) = Some (h', k) \<and> inserted p h A h' k A'"
proof -
  define X Y where xy: "X = takeWhile (\<lambda>x. m_end h x < m_addr h p) A" "Y = dropWhile (\<lambda>x. m_end h x < m_addr h p) A"
  have AXY: "A = X @ Y" by (simp add: xy)
  have x: "below (blk h x) (blk h p)" if "x \<in> set X" for x
    using set_takeWhileD[OF that[unfolded xy]] fresh_rel(2)[OF A p, of x] by (auto simp: below_def blk_def word_less_nat_alt)
  have seek: "insert_seek h (m_addr h p) (avail_list h) 0 = Some (case Y of [] \<Rightarrow> 0 | y # _ \<Rightarrow> y, if X = [] then 0 else last X)"
    using insert_seek_correct[of h "avail_list h" A "m_addr h p" 0] A by (simp add: avail_def xy Let_def)
  show ?thesis
  proof (cases "\<exists>q Z. Y = q # Z \<and> m_end h q = m_addr h p")
    case True
    then obtain q Z where Y: "Y = q # Z" "m_end h q = m_addr h p" by blast
    have "unat (m_end h p) \<le> unat (m_addr h z)" if "z \<in> set Z" for z
      using avail_below[of h "X @ [q]" Z q z] fresh_rel(2,3,4)[OF A p, of z] fresh_rel(2)[OF A p, of q] that A AXY Y
      by (auto simp: below_def blk_def)
    then have t: "touching h X q p Z" using A AXY Y p by (auto simp: touching_def fresh_block_def)
    have "q \<noteq> 0" using A AXY Y lseg_nz[of "m_next h" "avail_list h" A 0] by (auto simp: avail_def)
    from insert_at_touching[OF t this] show ?thesis using seek Y AXY by auto
  next
    case False
    have far: "unat (m_addr h p) < unat (m_end h y) \<and> unat (m_end h p) \<le> unat (m_addr h y)" if yY: "y \<in> set Y" for y
    proof -
      obtain q Z where Y: "Y = q # Z" using yY by (cases Y) auto
      then have "dropWhile (\<lambda>x. m_end h x < m_addr h p) A \<noteq> []" using xy(2) by (metis list.distinct(1))
      from hd_dropWhile[OF this] have "\<not> m_end h q < m_addr h p" using Y xy(2) by simp
      then have q: "unat (m_addr h p) < unat (m_end h q)" using False Y by (auto simp: word_less_nat_alt word_unat_eq_iff)
      have "unat (m_end h q) \<le> unat (m_end h y)"
        using avail_below[of h "X @ [q]" Z q y] fresh_rel(2)[OF A p, of q] fresh_rel(3)[OF A p, of y] yY Y A AXY
        by (auto simp: below_def blk_def)
      then show ?thesis using q fresh_rel(4)[OF A p, of y] yY AXY by auto
    qed
    have s: "slot h X p Y" using A AXY p x far by (auto simp: slot_def fresh_block_def)
    have X: "X \<noteq> []"
    proof
      assume "X = []"
      then have "hd A \<in> set Y" using AXY le(1) by auto
      from far[OF this] fresh_rel(3)[OF A p hd_in_set[OF le(1)]] le(2) show False
        using p unat_m_end[of h p] by (auto simp: word_less_nat_alt fresh_block_def range_ok_def blk_def)
    qed
    have "\<forall>y \<in> set Y. m_end h y \<noteq> m_addr h p" using far by fastforce
    from insert_at_gap[OF s X p0 this] show ?thesis using seek X AXY by auto
  qed
qed

lemma insert_node_spec:
  assumes A: "avail h A" and p: "fresh_block h A p"
  shows "\<exists>h' k A'. insert_node p h = Some (h', k) \<and> inserted p h A h' k A'"
proof -
  define g where "g = set_link p 0 h"
  have b: "blk g = blk h" by (auto simp: g_def blk_def)
  have Ag: "avail g A" using A p by (simp add: avail_def b fresh_block_def) (simp add: g_def)
  have pg: "fresh_block g A p" using p by (simp add: fresh_block_def b)
  have g: "m_next g p = 0" "avail_list g = (case A of [] \<Rightarrow> 0 | a # _ \<Rightarrow> a)"
    using chain_head[of "m_next g" "avail_list g" A] Ag by (simp_all add: avail_def) (simp add: g_def)
  have "\<exists>h' k A'. insert_node p h = Some (h', k) \<and> inserted p g A h' k A'"
  proof (cases A)
    case Nil
    have "slot g [] p []" using Ag pg Nil by (simp add: slot_def fresh_block_def)
    from insert_new_front[OF this] show ?thesis
      using g Nil by (auto simp: insert_node_def Let_def g_def[symmetric] set_link_same)
  next
    case (Cons a B)
    have a0: "a \<noteq> 0" using Ag Cons by (auto simp: avail_def)
    show ?thesis
    proof (cases "m_addr g p < m_addr g a")
      case True
      from insert_before_correct[OF Ag[unfolded Cons] pg[unfolded Cons] True] show ?thesis
        using True g a0 Cons by (auto simp: insert_node_def Let_def g_def[symmetric] split: prod.splits)
    next
      case False
      from insert_at_correct[OF Ag pg g(1)] False show ?thesis
        using g a0 Cons by (simp add: insert_node_def Let_def g_def[symmetric])
    qed
  qed
  then obtain h' k A' where r: "insert_node p h = Some (h', k)" "inserted p g A h' k A'" by blast
  have "inserted p h A h' k A'" using r(2)[unfolded inserted_def b] unfolding inserted_def by (auto simp: only_nodes_def g_def)
  with r(1) show ?thesis by blast
qed

section \<open>Searches\<close>

lemma find_pred_correct:
  "chain (m_next h) q (X @ p # Y) \<Longrightarrow> X \<noteq> [] \<Longrightarrow> find_pred h p q = Some (last X)"
proof (induction X arbitrary: q)
  case (Cons x X)
  note c = chain_distinct[OF Cons.prems(1)]
  show ?case
  proof (cases X)
    case Nil
    then show ?thesis using Cons.prems by (subst find_pred.simps) auto
  next
    case (Cons y Z)
    then have "find_pred h p (m_next h x) = Some (last X)" using Cons.IH[of "m_next h x"] Cons.prems by auto
    then show ?thesis using Cons.prems c Cons by (subst find_pred.simps) auto
  qed
qed simp

lemma delete_node_spec:
  assumes A: "avail h (X @ p # Y)"
  shows "\<exists>h'. delete_node p h = Some h' \<and> avail h' (X @ Y) \<and> only_nodes (set (X @ p # Y)) h h' \<and>
    m_addr h' = m_addr h \<and> m_size h' = (m_size h)(p := 0)"
proof -
  have c: "chain (m_next h) (avail_list h) (X @ p # Y)" and ok: "ranges_ok (map (blk h) (X @ Y))"
    using A by (auto simp: avail_def ranges_ok_append ranges_ok_Cons)
  note d = chain_distinct[OF c]
  have nz: "p \<noteq> 0" "chain (m_next h) (m_next h p) Y" using c chain_mid by blast+
  define h' where "h' = set_link p 0 (if X = [] then (set_size p 0 h)\<lparr>avail_list := m_next h p\<rparr>
    else set_link (last X) (m_next h p) (set_size p 0 h))"
  have m: "map (blk h') (X @ Y) = map (blk h) (X @ Y)" using d by (intro map_blk_cong) (auto simp: h'_def)
  have "delete_node p h = Some h'"
  proof (cases "X = []")
    case True
    have "avail_list h = p" using c True by simp
    then show ?thesis using True by (simp add: delete_node_def h'_def Let_def)
  next
    case False
    have "avail_list h \<noteq> p" using chain_first[OF c] False by auto
    moreover have "last X \<noteq> 0" using lseg_nz[OF c] False by (metis Un_iff last_in_set set_append)
    moreover have "find_pred (set_size p 0 h) p (avail_list h) = Some (last X)"
      using find_pred_correct[of "set_size p 0 h" "avail_list h" X p Y] c False by simp
    ultimately show ?thesis using False by (simp add: delete_node_def h'_def Let_def)
  qed
  moreover have "chain (m_next h') (avail_list h') (X @ Y)"
  proof (cases "X = []")
    case True
    then show ?thesis using nz d by (simp add: h'_def)
  next
    case False
    obtain r where "lseg (m_next h) (avail_list h) X r" using c chain_prefix by blast
    from lseg_relink(2)[OF this _ nz(2) _ False] d
    have "chain ((m_next h)(last X := m_next h p)) (avail_list h) (X @ Y)" by auto
    then show ?thesis using d False by (subst lseg_cong[of _ _ "(m_next h)(last X := m_next h p)"]) (auto simp: h'_def)
  qed
  moreover have "only_nodes (set (X @ p # Y)) h h'" "m_addr h' = m_addr h" "m_size h' = (m_size h)(p := 0)"
    by (auto simp: h'_def only_nodes_def)
  ultimately show ?thesis using ok unfolding avail_def m[symmetric] by blast
qed

definition best_ok :: "'a mem_info_scheme \<Rightarrow> u32 \<Rightarrow> u32 set \<Rightarrow> bool \<times> u32 \<times> u32 \<Rightarrow> bool" where
  "best_ok h sz S = (\<lambda>(avl, hole, p3).
     if avl then p3 \<in> S \<and> sz \<le> m_size h p3 \<and> hole = m_size h p3 - sz \<and> (\<forall>x \<in> S. sz \<le> m_size h x \<longrightarrow> m_size h p3 \<le> m_size h x)
     else hole = 0xefffffff \<and> p3 = 0 \<and> (\<forall>x \<in> S. m_size h x < sz))"

lemma diff_less_iff: "sz \<le> a \<Longrightarrow> sz \<le> b \<Longrightarrow> a - sz < b - sz \<longleftrightarrow> a < (b :: u32)"
  by (simp add: word_less_nat_alt word_le_nat_alt unat_sub) linarith

lemma best_step:
  assumes "best_ok h sz S best" "m_size h x < 0xefffffff"
  shows "best_ok h sz (insert x S) (if sz \<le> m_size h x
     then if m_size h x - sz < fst (snd best) then (True, m_size h x - sz, x) else (True, snd best) else best)"
proof -
  obtain avl hole p3 where b: "best = (avl, hole, p3)" by (cases best) auto
  have lt: "m_size h x - sz < 0xefffffff" if "sz \<le> m_size h x"
    using assms(2) that by (auto simp: word_less_nat_alt word_le_nat_alt unat_sub)
  show ?thesis
  proof (cases avl)
    case True
    then show ?thesis using assms(1) b diff_less_iff[of sz "m_size h x" "m_size h p3"] by (auto simp: best_ok_def)
  next
    case False
    then show ?thesis using assms(1) b lt by (auto simp: best_ok_def)
  qed
qed

lemma best_fit_correct:
  assumes "chain (m_next h) p1 L" "\<forall>x \<in> set L. m_size h x < 0xefffffff" "best_ok h sz S best"
  shows "\<exists>best'. best_fit h sz p1 best = Some best' \<and> best_ok h sz (S \<union> set L) best'"
  using assms
proof (induction L arbitrary: p1 S best)
  case Nil
  then show ?case by (subst best_fit.simps) simp
next
  case (Cons x L)
  let ?b = "if sz \<le> m_size h x then if m_size h x - sz < fst (snd best) then (True, m_size h x - sz, x) else (True, snd best) else best"
  have "best_ok h sz (insert x S) ?b" by (rule best_step) (use Cons.prems in auto)
  from Cons.IH[OF _ _ this, of "m_next h x"] Cons.prems obtain best' where "best_fit h sz (m_next h x) ?b = Some best'"
    "best_ok h sz (insert x S \<union> set L) best'" by (metis lseg.simps(2) list.set_intros(2))
  moreover have "best_fit h sz p1 best = best_fit h sz (m_next h x) ?b"
    using Cons.prems(1) by (subst best_fit.simps) (simp only: lseg.simps if_False)
  ultimately show ?case by (intro exI[of _ best']) simp
qed

lemma avail_sizes: "avail h A \<Longrightarrow> x \<in> set A \<Longrightarrow> m_size h x < 0xefffffff"
  by (auto simp: avail_def ranges_ok_def list_all_iff range_ok_def blk_def word_less_nat_alt)

text \<open>What the search over the available list finds.\<close>

lemma best_fit_avail:
  assumes "avail h A"
  obtains p3 hole where "best_fit h sz (avail_list h) (False, 0xefffffff, 0) = Some (True, hole, p3)" "p3 \<in> set A" "sz \<le> m_size h p3"
      "\<forall>x \<in> set A. sz \<le> m_size h x \<longrightarrow> m_size h p3 \<le> m_size h x"
  | "best_fit h sz (avail_list h) (False, 0xefffffff, 0) = Some (False, 0xefffffff, 0)" "\<forall>x \<in> set A. m_size h x < sz"
proof -
  have "best_ok h sz {} (False, 0xefffffff, 0)" by (simp add: best_ok_def)
  from best_fit_correct[OF _ _ this, of "avail_list h" A] assms avail_sizes[OF assms]
  obtain avl hole p3 where "best_fit h sz (avail_list h) (False, 0xefffffff, 0) = Some (avl, hole, p3)" "best_ok h sz (set A) (avl, hole, p3)"
    by (auto simp: avail_def)
  then show thesis using that by (cases avl) (auto simp: best_ok_def)
qed


section \<open>The whole heap\<close>

definition page_bytes :: "u32 \<Rightarrow> nat set" where
  "page_bytes p = {unat p ..< unat p + 4096}"

definition page_ok :: "u32 \<Rightarrow> bool" where
  "page_ok p \<longleftrightarrow> p \<noteq> 0 \<and> unat p + 4096 < 2 ^ 32"

definition disjoint_sets :: "nat set list \<Rightarrow> bool" where
  "disjoint_sets = sorted_wrt (\<lambda>S T. S \<inter> T = {})"

lemma disjoint_sets_append:
  "disjoint_sets (xs @ ys) \<longleftrightarrow> disjoint_sets xs \<and> disjoint_sets ys \<and> \<Union> (set xs) \<inter> \<Union> (set ys) = {}"
  by (auto simp: disjoint_sets_def sorted_wrt_append)

lemma disjoint_sets_Cons [simp]: "disjoint_sets (x # xs) \<longleftrightarrow> x \<inter> \<Union> (set xs) = {} \<and> disjoint_sets xs"
  by (auto simp: disjoint_sets_def)

lemma disjoint_sets_Nil [simp]: "disjoint_sets []"
  by (simp add: disjoint_sets_def)

definition used_ranges :: "'a mem_info_scheme \<Rightarrow> u32 list \<Rightarrow> nat set list" where
  "used_ranges h U = map (\<lambda>x. range_bytes (blk h x)) U"

definition pages_bytes :: "u32 list \<Rightarrow> nat set" where
  "pages_bytes P = \<Union> (page_bytes ` set P)"

text \<open>All memory the allocator manages: available and used blocks and the pages of nodes.\<close>

definition heap_bytes :: "'a mem_info_scheme \<Rightarrow> u32 list \<Rightarrow> u32 list \<Rightarrow> u32 list \<Rightarrow> nat set" where
  "heap_bytes h A U P = bytes (map (blk h) A) \<union> bytes (map (blk h) U) \<union> pages_bytes P"

definition heap_ok :: "'a mem_info_scheme \<Rightarrow> u32 list \<Rightarrow> u32 list \<Rightarrow> u32 list \<Rightarrow> bool" where
  "heap_ok h A U P \<longleftrightarrow> avail h A \<and> chain (m_next h) (used_list h) U \<and> chain (info_next h) (malloc_info h) P \<and>
     distinct (A @ U) \<and> unat ` set (A @ U) \<subseteq> pages_bytes P \<and> (\<forall>x \<in> set U. range_ok (blk h x)) \<and> (\<forall>p \<in> set P. page_ok p) \<and>
     disjoint_sets (used_ranges h U @ map page_bytes P @ [bytes (map (blk h) A)])"

lemma used_ranges_bytes: "\<Union> (set (used_ranges h U)) = bytes (map (blk h) U)"
  by (auto simp: used_ranges_def bytes_def)

lemma heap_okD:
  assumes "heap_ok h A U P"
  shows "avail h A" "chain (m_next h) (used_list h) U" "chain (info_next h) (malloc_info h) P" "distinct (A @ U)"
    "unat ` set (A @ U) \<subseteq> pages_bytes P" "\<And>x. x \<in> set U \<Longrightarrow> range_ok (blk h x)" "\<And>p. p \<in> set P \<Longrightarrow> page_ok p"
    "disjoint_sets (used_ranges h U)" "disjoint_sets (map page_bytes P)"
    "bytes (map (blk h) U) \<inter> pages_bytes P = {}" "bytes (map (blk h) U) \<inter> bytes (map (blk h) A) = {}"
    "pages_bytes P \<inter> bytes (map (blk h) A) = {}" "\<And>x. x \<in> set (A @ U) \<Longrightarrow> 0 < unat (m_size h x)"
proof -
  note a = assms[unfolded heap_ok_def disjoint_sets_append used_ranges_bytes]
  show "avail h A" "chain (m_next h) (used_list h) U" "chain (info_next h) (malloc_info h) P" "distinct (A @ U)"
    "unat ` set (A @ U) \<subseteq> pages_bytes P" "\<And>x. x \<in> set U \<Longrightarrow> range_ok (blk h x)" "\<And>p. p \<in> set P \<Longrightarrow> page_ok p"
    "disjoint_sets (used_ranges h U)" "disjoint_sets (map page_bytes P)"
    "bytes (map (blk h) U) \<inter> pages_bytes P = {}" "bytes (map (blk h) U) \<inter> bytes (map (blk h) A) = {}"
    "pages_bytes P \<inter> bytes (map (blk h) A) = {}"
    using a by (auto simp: pages_bytes_def)
  then show "\<And>x. x \<in> set (A @ U) \<Longrightarrow> 0 < unat (m_size h x)"
    using a by (fastforce simp: avail_def ranges_ok_def list_all_iff range_ok_def blk_def)
qed

lemma heap_okI:
  assumes "avail h A" "chain (m_next h) (used_list h) U" "chain (info_next h) (malloc_info h) P" "distinct (A @ U)"
    "unat ` set (A @ U) \<subseteq> pages_bytes P" "\<And>x. x \<in> set U \<Longrightarrow> range_ok (blk h x)" "\<And>p. p \<in> set P \<Longrightarrow> page_ok p"
    "disjoint_sets (used_ranges h U)" "disjoint_sets (map page_bytes P)"
    "bytes (map (blk h) U) \<inter> pages_bytes P = {}" "bytes (map (blk h) U) \<inter> bytes (map (blk h) A) = {}"
    "pages_bytes P \<inter> bytes (map (blk h) A) = {}"
  shows "heap_ok h A U P"
  unfolding heap_ok_def disjoint_sets_append used_ranges_bytes using assms by (auto simp: pages_bytes_def)

lemma only_nodes_used:
  assumes "only_nodes N h h'" "N \<inter> set U = {}"
  shows "chain (m_next h') (used_list h') U = chain (m_next h) (used_list h) U" "map (blk h') U = map (blk h) U"
    "used_ranges h' U = used_ranges h U"
proof -
  have e: "m_addr h' x = m_addr h x \<and> m_size h' x = m_size h x \<and> m_next h' x = m_next h x" if "x \<in> set U" for x
    using assms that by (auto simp: only_nodes_def)
  show "chain (m_next h') (used_list h') U = chain (m_next h) (used_list h) U"
    using assms(1) e lseg_cong[of U "m_next h'" "m_next h"] by (simp add: only_nodes_def)
  show "map (blk h') U = map (blk h) U" "used_ranges h' U = used_ranges h U" using e by (simp_all add: blk_def used_ranges_def)
qed

text \<open>A new block becomes available.\<close>

lemma heap_insert:
  assumes h: "heap_ok h A U P" and p: "p \<notin> set (A @ U)" "p \<noteq> 0" "unat p \<in> pages_bytes P" "range_ok (blk h p)"
    "range_bytes (blk h p) \<inter> heap_bytes h A U P = {}"
  shows "\<exists>h' k A'. insert_node p h = Some (h', k) \<and> heap_ok h' A' U P \<and> only_nodes (insert p (set A)) h h' \<and>
    heap_bytes h' A' U P = heap_bytes h A U P \<union> range_bytes (blk h p) \<and> map (blk h') U = map (blk h) U \<and>
    bytes (map (blk h') A') = bytes (map (blk h) A) \<union> range_bytes (blk h p)"
proof -
  note d = heap_okD[OF h]
  have "fresh_block h A p" using p by (auto simp: fresh_block_def heap_bytes_def)
  from insert_node_spec[OF d(1) this] obtain h' k A' where r: "insert_node p h = Some (h', k)" "avail h' A'"
    "bytes (map (blk h') A') = bytes (map (blk h) A) \<union> range_bytes (blk h p)" "set A' \<subseteq> insert p (set A)" "only_nodes (insert p (set A)) h h'"
    by (auto simp: inserted_def)
  note u = only_nodes_used[OF r(5), of U]
  have dis: "insert p (set A) \<inter> set U = {}" using p(1) d(4) by auto
  have ch: "chain (info_next h') (malloc_info h') P" using r(5) d(3) by (simp add: only_nodes_def)
  have dd: "distinct (A' @ U)" using r(2,4) dis d(4) chain_distinct by (fastforce simp: avail_def)
  have "heap_ok h' A' U P"
  proof (rule heap_okI)
    show "unat ` set (A' @ U) \<subseteq> pages_bytes P" using r(4) d(5) p(3) by auto
    show "\<And>x. x \<in> set U \<Longrightarrow> range_ok (blk h' x)" using d(6) u(2)[OF dis] by simp
    show "bytes (map (blk h') U) \<inter> bytes (map (blk h') A') = {}" "pages_bytes P \<inter> bytes (map (blk h') A') = {}"
      unfolding r(3) u(2)[OF dis] using d(11,12) p(5) by (auto simp: heap_bytes_def)
    show "bytes (map (blk h') U) \<inter> pages_bytes P = {}" unfolding u(2)[OF dis] by (rule d(10))
  qed (use r(2) ch dd u(1,3)[OF dis] d(2,7-9) in simp_all)
  moreover have "heap_bytes h' A' U P = heap_bytes h A U P \<union> range_bytes (blk h p)"
    unfolding heap_bytes_def u(2)[OF dis] r(3) by auto
  ultimately show ?thesis using r(1,3,5) u(2)[OF dis] by blast
qed

text \<open>The fields that \<open>link_used\<close> changes.\<close>

lemma link_used_fields [simp]:
  "m_addr (link_used p h) = m_addr h" "m_size (link_used p h) = m_size h" "m_next (link_used p h) = (m_next h)(p := used_list h)"
  "used_list (link_used p h) = p" "avail_list (link_used p h) = avail_list h" "malloc_info (link_used p h) = malloc_info h"
  "info_next (link_used p h) = info_next h" "mem_info.more (link_used p h) = mem_info.more h"
  by (simp_all add: link_used_def)

lemma bytes_disjoint: "ranges_ok (xs @ x # ys) \<Longrightarrow> range_bytes x \<inter> bytes (xs @ ys) = {}"
  by (fastforce simp: ranges_ok_append ranges_ok_Cons bytes_def range_bytes_def below_def)

text \<open>A whole available block is given out.\<close>

lemma heap_take_whole:
  assumes h: "heap_ok h (X @ p # Y) U P"
  shows "\<exists>g. delete_node p h = Some g \<and> heap_ok (link_used p (set_size p (m_size h p) g)) (X @ Y) (p # U) P \<and>
    map (blk (link_used p (set_size p (m_size h p) g))) (p # U) = blk h p # map (blk h) U \<and>
    heap_bytes (link_used p (set_size p (m_size h p) g)) (X @ Y) (p # U) P = heap_bytes h (X @ p # Y) U P \<and>
    mem_info.more g = mem_info.more h"
proof -
  note d = heap_okD[OF h]
  obtain g where g: "delete_node p h = Some g" "avail g (X @ Y)" "only_nodes (set (X @ p # Y)) h g" "m_addr g = m_addr h" "m_size g = (m_size h)(p := 0)"
    using delete_node_spec[OF d(1)] by blast
  define h' where "h' = link_used p (set_size p (m_size h p) g)"
  have b: "blk h' = blk h" using g(4,5) by (auto simp: h'_def blk_def)
  have gu: "used_list g = used_list h" "malloc_info g = malloc_info h" "info_next g = info_next h" "mem_info.more g = mem_info.more h"
    "\<And>x. x \<notin> set (X @ p # Y) \<Longrightarrow> m_next g x = m_next h x" using g(3) by (auto simp: only_nodes_def)
  have pd: "p \<notin> set (X @ Y)" "p \<notin> set U" "set (X @ p # Y) \<inter> set U = {}" using d(4) by auto
  have mb: "map (blk g) (X @ Y) = map (blk h) (X @ Y)" using g(4,5) pd(1) by (auto simp: blk_def)
  have av: "avail h' (X @ Y)" using g(2)[unfolded avail_def mb] pd(1) unfolding avail_def b by (simp add: h'_def)
  have "chain (m_next g) (used_list g) U" using only_nodes_used(1)[OF g(3) pd(3)] d(2) by simp
  then have u: "chain (m_next h') (used_list h') (p # U)"
    using pd(2) chain_mid[of "m_next h" "avail_list h" X p Y] d(1) by (simp add: h'_def avail_def)
  have rg: "ranges_ok (map (blk h) X @ blk h p # map (blk h) Y)" using d(1) by (simp add: avail_def)
  have ok: "heap_ok h' (X @ Y) (p # U) P"
  proof (rule heap_okI[OF av u])
    show "chain (info_next h') (malloc_info h') P" using d(3) gu by (simp add: h'_def)
    show "distinct ((X @ Y) @ p # U)" using d(4) by auto
    show "unat ` set ((X @ Y) @ p # U) \<subseteq> pages_bytes P" using d(5) by auto
    show "range_ok (blk h' x)" if "x \<in> set (p # U)" for x using that d(6) rg by (auto simp: b ranges_ok_append ranges_ok_Cons)
    show "disjoint_sets (used_ranges h' (p # U))" using d(8,11) by (auto simp: used_ranges_def b used_ranges_bytes[unfolded used_ranges_def] bytes_def)
    show "bytes (map (blk h') (p # U)) \<inter> pages_bytes P = {}" "pages_bytes P \<inter> bytes (map (blk h') (X @ Y)) = {}" using d(10,12) by (auto simp: b)
    show "bytes (map (blk h') (p # U)) \<inter> bytes (map (blk h') (X @ Y)) = {}" using d(11) bytes_disjoint[OF rg] by (auto simp: b)
  qed (use d in auto)
  moreover have "heap_bytes h' (X @ Y) (p # U) P = heap_bytes h (X @ p # Y) U P" by (auto simp: heap_bytes_def b)
  ultimately show ?thesis using g(1) gu(4) by (intro exI[of _ g]) (simp only: h'_def[symmetric] b list.map simp_thms)
qed

text \<open>The start of an available block is given out, with a node of its own.\<close>

lemma heap_split:
  assumes h: "heap_ok h (X @ p1 # Y) U P" and sz: "sz \<noteq> 0" "sz < m_size h p1"
    and p3: "p3 \<notin> set (X @ p1 # Y) \<union> set U" "p3 \<noteq> 0" "unat p3 \<in> pages_bytes P"
  defines "h' \<equiv> link_used p3 (split_block p1 p3 sz h)"
  shows "heap_ok h' (X @ p1 # Y) (p3 # U) P" "map (blk h') (p3 # U) = (unat (m_addr h p1), unat sz) # map (blk h) U"
    "heap_bytes h' (X @ p1 # Y) (p3 # U) P = heap_bytes h (X @ p1 # Y) U P" "mem_info.more h' = mem_info.more h"
proof -
  note d = heap_okD[OF h]
  let ?a = "unat (m_addr h p1)" and ?n = "unat (m_size h p1)" and ?s = "unat sz"
  have s: "0 < ?s" "?s < ?n" using sz by (simp_all add: unat_gt_0 word_less_nat_alt)
  have rg: "ranges_ok (map (blk h) X @ (?a, ?n) # map (blk h) Y)" using d(1) by (simp add: avail_def blk_def)
  then have ok1: "range_ok (?a, ?n)" by (simp add: ranges_ok_append ranges_ok_Cons)
  have a: "unat (m_addr h p1 + sz) = ?a + ?s" using ok1 s by (intro unat_add_lem[THEN iffD1]) (simp add: range_ok_def)
  have n: "unat (m_size h p1 - sz) = ?n - ?s" using sz(2) by (simp add: unat_sub)
  have f: "m_addr h' = (m_addr h)(p3 := m_addr h p1, p1 := m_addr h p1 + sz)" "m_size h' = (m_size h)(p3 := sz, p1 := m_size h p1 - sz)"
    "m_next h' = (m_next h)(p3 := used_list h)" "used_list h' = p3" "avail_list h' = avail_list h" "malloc_info h' = malloc_info h"
    "info_next h' = info_next h" "mem_info.more h' = mem_info.more h"
    using p3(1) by (auto simp: h'_def split_block_def Let_def)
  show "mem_info.more h' = mem_info.more h" by (rule f(8))
  have dd: "p1 \<notin> set X" "p1 \<notin> set Y" "p1 \<notin> set U" using d(4) by auto
  have mA: "map (blk h') (X @ p1 # Y) = map (blk h) X @ (?a + ?s, ?n - ?s) # map (blk h) Y" using p3(1) dd a n by (auto simp: blk_def f)
  have mU: "map (blk h') (p3 # U) = (?a, ?s) # map (blk h) U" using p3(1) dd by (auto simp: blk_def f)
  show "map (blk h') (p3 # U) = (?a, ?s) # map (blk h) U" by (rule mU)
  have part: "range_bytes (?a, ?n) = range_bytes (?a, ?s) \<union> range_bytes (?a + ?s, ?n - ?s)" "range_bytes (?a, ?s) \<inter> range_bytes (?a + ?s, ?n - ?s) = {}"
    using s by (auto simp: range_bytes_def)
  have bA: "bytes (map (blk h) (X @ p1 # Y)) = bytes (map (blk h') (X @ p1 # Y)) \<union> range_bytes (?a, ?s)"
    unfolding mA using part(1) by (auto simp: blk_def)
  have out: "range_bytes (?a, ?s) \<inter> bytes (map (blk h') (X @ p1 # Y)) = {}"
    unfolding mA using part bytes_disjoint[OF rg] by auto
  have av: "avail h' (X @ p1 # Y)" unfolding avail_def mA
    using d(1) p3(1) s rg ok1 by (auto simp: avail_def f ranges_ok_append ranges_ok_Cons below_def range_ok_def)
  have u: "chain (m_next h') (used_list h') (p3 # U)" using d(2) p3(1,2) by (simp add: f)
  show "heap_ok h' (X @ p1 # Y) (p3 # U) P"
  proof (rule heap_okI[OF av u])
    show "range_ok (blk h' x)" if "x \<in> set (p3 # U)" for x
      using that d(6) ok1 s p3(1) dd by (auto simp: blk_def f range_ok_def)
    have "used_ranges h' (p3 # U) = range_bytes (?a, ?s) # used_ranges h U" using mU by (simp add: used_ranges_def)
    then show "disjoint_sets (used_ranges h' (p3 # U))" using d(8,11) bA by (auto simp: used_ranges_bytes)
    show "bytes (map (blk h') (p3 # U)) \<inter> pages_bytes P = {}" unfolding mU using d(10,12) bA by auto
    show "bytes (map (blk h') (p3 # U)) \<inter> bytes (map (blk h') (X @ p1 # Y)) = {}" unfolding mU using d(11) bA out by auto
    show "pages_bytes P \<inter> bytes (map (blk h') (X @ p1 # Y)) = {}" using d(12) bA by auto
    show "unat ` set ((X @ p1 # Y) @ p3 # U) \<subseteq> pages_bytes P" using d(5) p3(3) by auto
  qed (use d p3(1) f in auto)
  show "heap_bytes h' (X @ p1 # Y) (p3 # U) P = heap_bytes h (X @ p1 # Y) U P"
    unfolding heap_bytes_def mU using bA by auto
qed

lemma used_find_correct:
  "chain (m_next h) p1 L \<Longrightarrow> used_find h ptr p1 p2 =
     Some (case dropWhile (\<lambda>x. m_addr h x \<noteq> ptr) L of [] \<Rightarrow> 0 | y # _ \<Rightarrow> y,
       if takeWhile (\<lambda>x. m_addr h x \<noteq> ptr) L = [] then p2 else last (takeWhile (\<lambda>x. m_addr h x \<noteq> ptr) L))"
proof (induction L arbitrary: p1 p2)
  case Nil
  then show ?case by (subst used_find.simps) simp
next
  case (Cons x L)
  then show ?case using Cons.IH[of "m_next h x" x] by (subst used_find.simps) auto
qed

text \<open>A used block leaves its list.\<close>

lemma heap_unlink:
  assumes h: "heap_ok h A (X @ p # Y) P"
  defines "h' \<equiv> unlink_used p (if X = [] then 0 else last X) h"
  shows "heap_ok h' A (X @ Y) P" "blk h' = blk h" "mem_info.more h' = mem_info.more h"
    "p \<notin> set (A @ X @ Y)" "p \<noteq> 0" "unat p \<in> pages_bytes P" "range_ok (blk h p)"
    "range_bytes (blk h p) \<inter> heap_bytes h A (X @ Y) P = {}"
proof -
  note d = heap_okD[OF h]
  have c: "p \<noteq> 0" "chain (m_next h) (m_next h p) Y" "p = used_list h \<longleftrightarrow> X = []"
    using chain_mid[OF d(2)] chain_first[OF d(2)] by auto
  have dd: "p \<notin> set X" "p \<notin> set Y" "p \<notin> set A" "distinct (X @ Y)" using d(4) by auto
  have f: "m_addr h' = m_addr h" "m_size h' = m_size h" "avail_list h' = avail_list h" "malloc_info h' = malloc_info h"
    "info_next h' = info_next h" "mem_info.more h' = mem_info.more h" "\<And>x. x \<notin> set (X @ p # Y) \<Longrightarrow> m_next h' x = m_next h x"
    using c(3) by (auto simp: h'_def unlink_used_def)
  then show b: "blk h' = blk h" and "mem_info.more h' = mem_info.more h" by (auto simp: blk_def)
  have u: "chain (m_next h') (used_list h') (X @ Y)"
  proof (cases "X = []")
    case True
    then show ?thesis using c dd by (simp add: h'_def unlink_used_def)
  next
    case False
    obtain r where "lseg (m_next h) (used_list h) X r" using d(2) chain_prefix by blast
    from lseg_relink(2)[OF this _ c(2) _ False] dd(4)
    have "chain ((m_next h)(last X := m_next h p)) (used_list h) (X @ Y)" by auto
    then show ?thesis using dd False c(3)
      by (subst lseg_cong[of _ _ "(m_next h)(last X := m_next h p)"]) (auto simp: h'_def unlink_used_def)
  qed
  have "chain (m_next h') (avail_list h) A = chain (m_next h) (avail_list h) A"
    by (rule lseg_cong, rule f(7)) (use d(4) in auto)
  then have av: "avail h' A" using d(1) f by (simp add: avail_def b)
  have ur: "disjoint_sets (used_ranges h X @ range_bytes (blk h p) # used_ranges h Y)" using d(8) by (simp add: used_ranges_def)
  show "heap_ok h' A (X @ Y) P"
  proof (rule heap_okI[OF av u])
    show "disjoint_sets (used_ranges h' (X @ Y))" using ur by (auto simp: used_ranges_def b disjoint_sets_append)
  qed (use d f b in auto)
  show "p \<notin> set (A @ X @ Y)" "p \<noteq> 0" "unat p \<in> pages_bytes P" "range_ok (blk h p)" using dd c d(5,6) by auto
  have "range_bytes (blk h p) \<inter> bytes (map (blk h) (X @ Y)) = {}"
    using ur by (auto simp: disjoint_sets_append used_ranges_bytes bytes_def used_ranges_def)
  then show "range_bytes (blk h p) \<inter> heap_bytes h A (X @ Y) P = {}" using d(10,11) by (auto simp: heap_bytes_def)
qed

section \<open>Unused nodes\<close>

lemma page_nodes_in:
  assumes "page_ok q" "x \<in> set (page_nodes q)"
  shows "unat x \<in> page_bytes q" "x \<noteq> 0"
proof -
  obtain i where i: "i < 341" "x = q + 12 * word_of_nat i" using assms(2) by (auto simp: page_nodes_def)
  have "unat (12 * word_of_nat i :: u32) = 12 * i" using i(1) by (simp add: unat_word_ariths unat_of_nat)
  then have "unat x = unat q + 12 * i" unfolding i(2) using assms(1) i(1)
    by (subst unat_add_lem[THEN iffD1]) (simp_all add: page_ok_def)
  then show "unat x \<in> page_bytes q" "x \<noteq> 0"
    using i(1) assms(1) by (auto simp: page_bytes_def page_ok_def unat_eq_zero)
qed

lemma node_search_correct:
  assumes "chain (info_next h) ptr1 P"
  shows "(\<exists>p q. node_search h ptr1 ptr2 = Some (Inl p) \<and> q \<in> set P \<and> p \<in> set (page_nodes q) \<and> m_size h p = 0) \<or>
    node_search h ptr1 ptr2 = Some (Inr (if P = [] then ptr2 else last P))"
  using assms
proof (induction P arbitrary: ptr1 ptr2)
  case Nil
  then show ?case by (subst (2) node_search.simps) simp
next
  case (Cons q P)
  show ?case
  proof (cases "find (\<lambda>p. m_size h p = 0) (page_nodes q)")
    case None
    then have "node_search h ptr1 ptr2 = node_search h (info_next h q) q" using Cons.prems by (subst node_search.simps) simp
    then show ?thesis using Cons.IH[of "info_next h q" q] Cons.prems by auto
  next
    case (Some p)
    then have "node_search h ptr1 ptr2 = Some (Inl p)" using Cons.prems by (subst node_search.simps) simp
    then show ?thesis using Some by (auto simp: find_Some_iff)
  qed
qed

lemma clear_page_fields:
  assumes "page_ok q"
  shows "unat x \<notin> page_bytes q \<Longrightarrow> m_addr (clear_page q h) x = m_addr h x \<and> m_size (clear_page q h) x = m_size h x \<and> m_next (clear_page q h) x = m_next h x"
    "m_size (clear_page q h) q = 0" "info_next (clear_page q h) = (info_next h)(q := 0)"
    "avail_list (clear_page q h) = avail_list h" "used_list (clear_page q h) = used_list h" "malloc_info (clear_page q h) = malloc_info h"
    "mem_info.more (clear_page q h) = mem_info.more h"
proof -
  have i: "(q \<le> x \<and> x - q < 4096) = (unat x \<in> page_bytes q)"
    by (auto simp: page_bytes_def word_le_nat_alt word_less_nat_alt unat_sub)
  show "unat x \<notin> page_bytes q \<Longrightarrow> m_addr (clear_page q h) x = m_addr h x \<and> m_size (clear_page q h) x = m_size h x \<and> m_next (clear_page q h) x = m_next h x"
    "m_size (clear_page q h) q = 0" by (simp_all add: clear_page_def Let_def i)
qed (simp_all add: clear_page_def Let_def)

text \<open>A new page for nodes.\<close>

lemma heap_new_page:
  assumes h: "heap_ok h A U P" and q: "page_ok q" "page_bytes q \<inter> heap_bytes h A U P = {}"
  defines "h' \<equiv> clear_page q (if P = [] then h\<lparr>malloc_info := q\<rparr> else h\<lparr>info_next := (info_next h)(last P := q)\<rparr>)"
  shows "heap_ok h' A U (P @ [q])" "map (blk h') U = map (blk h) U" "map (blk h') A = map (blk h) A"
    "heap_bytes h' A U (P @ [q]) = heap_bytes h A U P \<union> page_bytes q" "mem_info.more h' = mem_info.more h" "m_size h' q = 0"
proof -
  note d = heap_okD[OF h] and f = clear_page_fields[OF q(1)]
  have "unat q \<in> page_bytes q" by (simp add: page_bytes_def)
  then have qP: "q \<notin> set P" "q \<noteq> 0" using q by (auto simp: heap_bytes_def pages_bytes_def page_ok_def)
  have same: "m_addr h' x = m_addr h x \<and> m_size h' x = m_size h x \<and> m_next h' x = m_next h x" if "x \<in> set (A @ U)" for x
  proof -
    have "unat x \<in> pages_bytes P" using d(5) that by blast
    then have out: "unat x \<notin> page_bytes q" using q(2) by (auto simp: heap_bytes_def)
    show ?thesis by (simp add: h'_def f(1)[OF out])
  qed
  show mU: "map (blk h') U = map (blk h) U" and mA: "map (blk h') A = map (blk h) A" using same by (simp_all add: blk_def)
  show "mem_info.more h' = mem_info.more h" "m_size h' q = 0" by (simp_all add: h'_def f)
  have ul: "used_list h' = used_list h" "avail_list h' = avail_list h" by (simp_all add: h'_def f)
  have pg: "chain (info_next h') (malloc_info h') (P @ [q])"
  proof (cases "P = []")
    case True
    then show ?thesis using qP by (simp add: h'_def f)
  next
    case False
    have "lseg ((info_next h)(last P := q)) (malloc_info h) P q" using lseg_set_last[OF d(3) False chain_distinct[OF d(3)]] .
    then show ?thesis using qP False by (auto simp: h'_def f lseg_append)
  qed
  show "heap_ok h' A U (P @ [q])"
  proof (rule heap_okI[OF _ _ pg])
    show "avail h' A" unfolding avail_def mA using d(1) same ul lseg_cong[of A "m_next h'" "m_next h" "avail_list h" 0] by (auto simp: avail_def)
    show "chain (m_next h') (used_list h') U" using d(2) same ul lseg_cong[of U "m_next h'" "m_next h" "used_list h" 0] by auto
    show "range_ok (blk h' x)" if "x \<in> set U" for x using d(6)[OF that] same[of x] that by (simp add: blk_def)
    have "used_ranges h' U = used_ranges h U" using same by (simp add: used_ranges_def blk_def)
    then show "disjoint_sets (used_ranges h' U)" using d(8) by simp
    show "disjoint_sets (map page_bytes (P @ [q]))" using d(9) q(2) by (auto simp: disjoint_sets_append heap_bytes_def pages_bytes_def)
    show "bytes (map (blk h') U) \<inter> pages_bytes (P @ [q]) = {}" unfolding mU using d(10) q(2) by (auto simp: heap_bytes_def pages_bytes_def)
    show "bytes (map (blk h') U) \<inter> bytes (map (blk h') A) = {}" unfolding mU mA by (rule d(11))
    show "pages_bytes (P @ [q]) \<inter> bytes (map (blk h') A) = {}" unfolding mA using d(12) q(2) by (auto simp: heap_bytes_def pages_bytes_def)
    show "unat ` set (A @ U) \<subseteq> pages_bytes (P @ [q])" using d(5) by (auto simp: pages_bytes_def)
  qed (use d(4,7) q(1) in auto)
  show "heap_bytes h' A U (P @ [q]) = heap_bytes h A U P \<union> page_bytes q" unfolding heap_bytes_def mU mA by (auto simp: pages_bytes_def)
qed

section \<open>Facts for the allocators\<close>

lemma heap_cong:
  assumes "m_addr s' = m_addr s" "m_size s' = m_size s" "m_next s' = m_next s" "malloc_info s' = malloc_info s"
    "info_next s' = info_next s" "avail_list s' = avail_list s" "used_list s' = used_list s"
  shows "heap_ok s' = heap_ok s" "heap_bytes s' = heap_bytes s" "blk s' = blk s"
proof -
  show b: "blk s' = blk s" using assms by (intro ext) (simp add: blk_def)
  show "heap_bytes s' = heap_bytes s" by (intro ext) (simp add: heap_bytes_def b)
  show "heap_ok s' = heap_ok s" using assms by (intro ext) (simp add: heap_ok_def avail_def used_ranges_def b)
qed

lemma blk_size: "map (blk s') A = map (blk s) A \<Longrightarrow> x \<in> set A \<Longrightarrow> m_size s' x = m_size s x \<and> m_addr s' x = m_addr s x"
  by (auto simp: blk_def word_unat_eq_iff)

text \<open>A contiguous piece of the available memory lies in one block.\<close>

lemma ranges_contiguous:
  assumes "ranges_ok rs" "range_bytes (a, n) \<subseteq> bytes rs" "0 < n"
  shows "\<exists>r \<in> set rs. n \<le> snd r"
proof -
  have "a \<in> bytes rs" using assms(2,3) by (auto simp: range_bytes_def)
  then obtain b m where r: "(b, m) \<in> set rs" "b \<le> a" "a < b + m" by (auto simp: bytes_def range_bytes_def)
  have "a + n \<le> b + m"
  proof (rule ccontr)
    assume "\<not> a + n \<le> b + m"
    then have "b + m \<in> bytes rs" using assms(2) r by (auto simp: range_bytes_def)
    then obtain b' m' where q: "(b', m') \<in> set rs" "b' \<le> b + m" "b + m < b' + m'" by (auto simp: bytes_def range_bytes_def)
    have "(b', m') \<noteq> (b, m)" using q by auto
    then have "below (b, m) (b', m') \<or> below (b', m') (b, m)"
      using assms(1) r(1) q(1) unfolding ranges_ok_def
      by (metis in_set_conv_nth nat_neq_iff sorted_wrt_iff_nth_less)
    then show False using q r by (auto simp: below_def)
  qed
  then show ?thesis using r by (intro bexI[of _ "(b, m)"]) auto
qed

text \<open>A node that is in no list may be changed.\<close>

lemma heap_fresh_node:
  assumes h: "heap_ok s A U P" and p: "p \<notin> set (A @ U)"
    and f: "\<forall>x. x \<noteq> p \<longrightarrow> m_addr s' x = m_addr s x \<and> m_size s' x = m_size s x \<and> m_next s' x = m_next s x"
    "malloc_info s' = malloc_info s" "info_next s' = info_next s" "avail_list s' = avail_list s" "used_list s' = used_list s"
  shows "heap_ok s' A U P" "map (blk s') A = map (blk s) A" "map (blk s') U = map (blk s) U"
proof -
  note d = heap_okD[OF h]
  show mA: "map (blk s') A = map (blk s) A" and mU: "map (blk s') U = map (blk s) U"
    by (rule map_blk_cong; use f(1) p in auto)+
  have c: "lseg (m_next s') q L 0 = lseg (m_next s) q L 0" if "p \<notin> set L" for q L by (rule lseg_cong) (use f(1) that in auto)
  have ur: "used_ranges s' U = used_ranges s U" unfolding used_ranges_def using mU by (simp add: blk_def)
  show "heap_ok s' A U P" unfolding heap_ok_def avail_def mA ur using h p f c[of A] c[of U] mU by (auto simp: heap_ok_def avail_def)
qed

lemma heap_node_search:
  assumes h: "heap_ok s A U P"
  obtains (found) p where "node_search s (malloc_info s) 0 = Some (Inl p)" "p \<notin> set (A @ U)" "p \<noteq> 0" "unat p \<in> pages_bytes P"
  | (full) "node_search s (malloc_info s) 0 = Some (Inr (if P = [] then 0 else last P))"
proof -
  note d = heap_okD[OF h]
  from node_search_correct[OF d(3), of 0] show ?thesis
  proof
    assume "\<exists>p q. node_search s (malloc_info s) 0 = Some (Inl p) \<and> q \<in> set P \<and> p \<in> set (page_nodes q) \<and> m_size s p = 0"
    then obtain p q where p: "node_search s (malloc_info s) 0 = Some (Inl p)" "q \<in> set P" "p \<in> set (page_nodes q)" "m_size s p = 0" by blast
    show ?thesis
    proof (rule found[OF p(1)])
      show "p \<notin> set (A @ U)" using d(13)[of p] p(4) by auto
      show "p \<noteq> 0" "unat p \<in> pages_bytes P" using page_nodes_in[OF d(7)[OF p(2)] p(3)] p(2) by (auto simp: pages_bytes_def)
    qed
  qed (rule full)
qed

lemma page_head_free:
  assumes a: "q \<noteq> 0" "m_size s q = 0" "malloc_info s = q"
  shows "node_search s (malloc_info s) 0 = Some (Inl q)"
proof -
  have "page_nodes q = q # map (\<lambda>i. q + 12 * word_of_nat i) [Suc 0 ..< 341]"
    unfolding page_nodes_def by (subst upt_conv_Cons) (simp_all del: upt_rec_numeral upt_Suc)
  then have "find (\<lambda>p. m_size s p = 0) (page_nodes q) = Some q" using a(2) by simp
  then show ?thesis using a by (subst node_search.simps) simp
qed

lemma node_search_cong:
  assumes "chain (info_next h) ptr1 P" "m_size h' = m_size h" "info_next h' = info_next h"
  shows "node_search h' ptr1 ptr2 = node_search h ptr1 ptr2"
  using assms(1)
proof (induction P arbitrary: ptr1 ptr2)
  case Nil
  then show ?case by (simp add: node_search.simps[of h'] node_search.simps[of h])
next
  case (Cons q P)
  then have "node_search h' (info_next h q) q = node_search h (info_next h q) q" "ptr1 = q" "q \<noteq> 0" by auto
  then show ?case by (subst (1 2) node_search.simps) (simp add: assms(2,3) split: option.split)
qed

text \<open>The node that the search for an address finds.\<close>

lemma used_find_block:
  assumes h: "heap_ok s A U P"
  obtains (none) "used_find s ptr (used_list s) 0 = Some (0, if U = [] then 0 else last U)" "\<not> (\<exists>n. (unat ptr, n) \<in> set (map (blk s) U))"
  | (found) X p Z where "U = X @ p # Z" "m_addr s p = ptr" "p \<noteq> 0" "used_find s ptr (used_list s) 0 = Some (p, if X = [] then 0 else last X)"
proof -
  define X Y where xy: "X = takeWhile (\<lambda>x. m_addr s x \<noteq> ptr) U" "Y = dropWhile (\<lambda>x. m_addr s x \<noteq> ptr) U"
  have c: "chain (m_next s) (used_list s) U" by (rule heap_okD(2)[OF h])
  have find: "used_find s ptr (used_list s) 0 = Some (case Y of [] \<Rightarrow> 0 | y # _ \<Rightarrow> y, if X = [] then 0 else last X)"
    using used_find_correct[OF c, of ptr 0] by (simp add: xy)
  have U: "U = X @ Y" by (simp add: xy)
  show thesis
  proof (cases Y)
    case Nil
    have "\<forall>x \<in> set U. m_addr s x \<noteq> ptr" using Nil xy(2) by simp
    then have "\<not> (\<exists>n. (unat ptr, n) \<in> set (map (blk s) U))" by (auto simp: blk_def word_unat_eq_iff)
    then show ?thesis using none find Nil U by simp
  next
    case (Cons p Z)
    have "dropWhile (\<lambda>x. m_addr s x \<noteq> ptr) U \<noteq> []" using Cons xy(2) by (metis list.distinct(1))
    from hd_dropWhile[OF this] have "m_addr s p = ptr" using Cons xy(2) by simp
    then show ?thesis using found[of X p Z] find Cons U chain_mid[of "m_next s" "used_list s" X p Z] c by auto
  qed
qed

text \<open>The search runs forever on a node that is its own successor.\<close>

lemma used_find_cycle:
  assumes "used_find h ptr p1 p2 = Some r"
  shows "\<not> (p1 \<noteq> 0 \<and> m_next h p1 = p1 \<and> m_addr h p1 \<noteq> ptr)"
  by (rule used_find.raw_induct[where P = "\<lambda>h ptr p1 p2 r. \<not> (p1 \<noteq> 0 \<and> m_next h p1 = p1 \<and> m_addr h p1 \<noteq> ptr)", OF _ assms])
    (fastforce split: if_splits)

text \<open>A used block becomes available again.\<close>

lemma heap_release:
  assumes h: "heap_ok s A (X @ p # Z) P"
  defines "g \<equiv> unlink_used p (if X = [] then 0 else last X) s"
  shows "\<exists>g' m A'. insert_node p g = Some (g', m) \<and> heap_ok g' A' (X @ Z) P \<and> mem_info.more g' = mem_info.more s \<and>
    heap_bytes g' A' (X @ Z) P \<subseteq> heap_bytes s A (X @ p # Z) P \<and> map (blk g') (X @ Z) = map (blk s) (X @ Z) \<and>
    bytes (map (blk g') A') = bytes (map (blk s) A) \<union> range_bytes (blk s p)"
proof -
  note u = heap_unlink[OF h, folded g_def]
  have sub: "range_bytes (blk s p) \<subseteq> heap_bytes s A (X @ p # Z) P" "heap_bytes s A (X @ Z) P \<subseteq> heap_bytes s A (X @ p # Z) P"
    by (auto simp: heap_bytes_def)
  have ins: "range_bytes (blk g p) \<inter> heap_bytes g A (X @ Z) P = {}" using u(2,8) by (simp add: heap_bytes_def)
  obtain g' m A' where i: "insert_node p g = Some (g', m)" "heap_ok g' A' (X @ Z) P" "only_nodes (insert p (set A)) g g'"
    "heap_bytes g' A' (X @ Z) P = heap_bytes g A (X @ Z) P \<union> range_bytes (blk g p)" "map (blk g') (X @ Z) = map (blk g) (X @ Z)"
    "bytes (map (blk g') A') = bytes (map (blk g) A) \<union> range_bytes (blk g p)"
    using heap_insert[OF u(1) _ u(5,6) _ ins] u(2,4,7) by auto
  have "mem_info.more g' = mem_info.more s" using i(3) u(3) by (simp add: only_nodes_def)
  moreover have "heap_bytes g' A' (X @ Z) P \<subseteq> heap_bytes s A (X @ p # Z) P" unfolding i(4) using sub u(2) by (simp add: heap_bytes_def)
  ultimately show ?thesis using i(1,2,5,6) u(2) by (simp del: map_eq_conv map_append) blast
qed

end
