(* ===== verification/Core_Memory.thy ===== *)
theory Core_Memory
  imports Chains
begin

text \<open>The page allocator of the kernel (\<^verbatim>\<open>core_alloc\<close>, \<^verbatim>\<open>core_free\<close>, \<^verbatim>\<open>core_alloc_n\<close> and
  \<^verbatim>\<open>initialize_core_info\<close> of \<^verbatim>\<open>base/vmmap.c\<close>). The free blocks of physical memory form a list, linked
  through headers stored in the blocks themselves, in ascending order of address. The lemmas relate
  this list to the set of free addresses. \<^verbatim>\<open>core_lock\<close> is held from the first to the last
  instruction of each operation, so an operation is one step.\<close>

section \<open>State\<close>

record memory_map_descriptor =
  base_addr :: u32
  seg_length :: u32
  seg_type :: u8

record core_header =
  phys_addr :: u32
  no_blocks :: u32

text \<open>\<open>no_pages\<close> and \<open>next_block\<close> are the \<^verbatim>\<open>struct free_mem_block\<close> headers stored in the first bytes
  of the free blocks, by address; address 0 is the null pointer.\<close>

record core =
  first_block :: u32
  no_pages :: "u32 \<Rightarrow> u32"
  next_block :: "u32 \<Rightarrow> u32"
  ram_segments :: "memory_map_descriptor list"
  no_of_ram_segments :: nat

definition set_first :: "u32 \<Rightarrow> core \<Rightarrow> core" where
  "set_first p s = s\<lparr>first_block := p\<rparr>"

definition set_next :: "u32 \<Rightarrow> u32 \<Rightarrow> core \<Rightarrow> core" where
  "set_next t p s = s\<lparr>next_block := (next_block s)(t := p)\<rparr>"

definition set_pages :: "u32 \<Rightarrow> u32 \<Rightarrow> core \<Rightarrow> core" where
  "set_pages t n s = s\<lparr>no_pages := (no_pages s)(t := n)\<rparr>"

section \<open>Allocation\<close>

text \<open>One round of the search: the candidate is an address, the difference of its size and the
  requested size (a signed long), and its predecessor.\<close>

definition core_pick :: "core \<Rightarrow> int \<Rightarrow> u32 \<Rightarrow> u32 \<Rightarrow> u32 \<times> int \<times> u32 \<Rightarrow> u32 \<times> int \<times> u32" where
  "core_pick s npages t t2 = (\<lambda>(baddr, hole_size, t1).
     let d = no_pages s t - word_of_int npages in
     if hole_size < 0 then if hole_size < sint d then (t, sint d, t2) else (baddr, hole_size, t1)
     else if word_of_int npages < no_pages s t \<and> d < word_of_int hole_size then (t, sint d, t2)
     else (baddr, hole_size, t1))"

partial_function (option) core_scan ::
  "core \<Rightarrow> int \<Rightarrow> u32 \<Rightarrow> u32 \<Rightarrow> u32 \<times> int \<times> u32 \<Rightarrow> (u32 \<times> int \<times> u32) option" where
  "core_scan s npages t t2 best =
     (if t = 0 then Some best else core_scan s npages (next_block s t) t (core_pick s npages t t2 best))"

text \<open>Taking the chosen block out of the list, or its first \<^verbatim>\<open>npages\<close> pages.\<close>

definition core_take :: "int \<Rightarrow> u32 \<times> int \<times> u32 \<Rightarrow> core \<Rightarrow> core" where
  "core_take npages = (\<lambda>(t, hole_size, t1) s.
     if hole_size \<le> 0 then
       if t = first_block s then set_first (next_block s t) s else set_next t1 (next_block s t) s
     else
       let t2 = t + word_of_int npages * 4096;
           s = set_next t2 (next_block s t) (set_pages t2 (word_of_int hole_size) s)
       in if t = first_block s then set_first t2 s else set_next t1 t2 s)"

definition core_alloc :: "int \<Rightarrow> core \<Rightarrow> (core_header \<times> core) option" where
  "core_alloc npages s =
     (if first_block s = 0 then Some (\<lparr>phys_addr = 0, no_blocks = 0\<rparr>, s)
      else map_option (\<lambda>(baddr, hole_size, t1).
             (\<lparr>phys_addr = baddr, no_blocks = word_of_int (if 0 \<le> hole_size then npages else npages + hole_size)\<rparr>,
              core_take npages (baddr, hole_size, t1) s))
           (core_scan s npages (next_block s (first_block s)) (first_block s)
             (first_block s, sint (no_pages s (first_block s) - word_of_int npages), 0)))"

section \<open>Release\<close>

definition is_valid_block :: "core \<Rightarrow> core_header \<Rightarrow> bool" where
  "is_valid_block s ch \<longleftrightarrow> no_blocks ch \<noteq> 0 \<and>
     list_ex (\<lambda>seg. seg_type seg = 1 \<and> base_addr seg \<le> phys_addr ch \<and> phys_addr ch \<le> base_addr seg + seg_length seg)
       (take (no_of_ram_segments s) (ram_segments s))"

partial_function (option) find_before_loop :: "core \<Rightarrow> u32 \<Rightarrow> u32 \<Rightarrow> u32 \<Rightarrow> u32 option" where
  "find_before_loop s addr t1 t2 =
     (if t2 \<noteq> 0 \<and> t2 < addr then find_before_loop s addr t2 (next_block s t2) else Some t1)"

definition find_mem_block_before :: "core \<Rightarrow> core_header \<Rightarrow> u32 option" where
  "find_mem_block_before s ch = find_before_loop s (phys_addr ch) 0 (first_block s)"

text \<open>Linking the block in front of all others, and after \<open>t1\<close>.\<close>

definition core_free_first :: "core_header \<Rightarrow> core \<Rightarrow> core" where
  "core_free_first ch s =
     (let t2 = first_block s; b = phys_addr ch;
          s = set_pages b (no_blocks ch) (set_first b s)
      in if t2 \<noteq> 0 \<and> b + no_blocks ch * 4096 = t2
         then let s = set_pages b (no_pages s b + no_pages s t2) s in set_next b (next_block s t2) s
         else set_next b t2 s)"

definition core_free_after :: "u32 \<Rightarrow> core_header \<Rightarrow> core \<Rightarrow> core" where
  "core_free_after t1 ch s =
     (let t2 = next_block s t1; b = phys_addr ch in
      if t1 + no_pages s t1 * 4096 = b then
        let s = set_pages t1 (no_pages s t1 + no_blocks ch) s in
        if t2 \<noteq> 0 \<and> t1 + no_pages s t1 * 4096 = t2
        then let s = set_pages t1 (no_pages s t1 + no_pages s t2) s in set_next t1 (next_block s t2) s
        else s
      else if t2 \<noteq> 0 \<and> b + no_blocks ch * 4096 = t2 then
        let s = set_pages b (no_blocks ch + no_pages s t2) (set_next t1 b s) in set_next b (next_block s t2) s
      else set_next b t2 (set_pages b (no_blocks ch) (set_next t1 b s)))"

definition core_free :: "core_header \<Rightarrow> core \<Rightarrow> core option" where
  "core_free ch s =
     (if \<not> is_valid_block s ch then Some s
      else map_option (\<lambda>t1. if t1 = 0 then core_free_first ch s else core_free_after t1 ch s)
        (find_mem_block_before s ch))"

section \<open>Allocation in fragments\<close>

text \<open>The fragments got so far, the last one first, are released from the last to the first.\<close>

fun core_free_all :: "core_header list \<Rightarrow> core \<Rightarrow> core option" where
  "core_free_all [] s = Some s"
| "core_free_all (ch # chs) s = Option.bind (core_free ch s) (core_free_all chs)"

text \<open>Returns the number of fragments, or \<^verbatim>\<open>ENOMEM\<close>, and the fragments. \<open>chs\<close> are those already
  obtained, the last one first; \<open>room\<close> is \<^verbatim>\<open>chmax - i\<close>.\<close>

fun core_alloc_n_loop :: "nat \<Rightarrow> int \<Rightarrow> core_header list \<Rightarrow> core \<Rightarrow> (int \<times> core_header list \<times> core) option" where
  "core_alloc_n_loop room pages chs s =
     (if 0 < pages then
        case room of
          0 \<Rightarrow> map_option (\<lambda>s. (ENOMEM, [], s)) (core_free_all chs s)
        | Suc room \<Rightarrow> Option.bind (core_alloc pages s) (\<lambda>(ch, s).
            if no_blocks ch = 0 then map_option (\<lambda>s. (ENOMEM, [], s)) (core_free_all chs s)
            else core_alloc_n_loop room (pages - uint (no_blocks ch)) (ch # chs) s)
      else Some (int (length chs), rev chs, s))"

definition core_alloc_n :: "int \<Rightarrow> nat \<Rightarrow> core \<Rightarrow> (int \<times> core_header list \<times> core) option" where
  "core_alloc_n npages chmax s = core_alloc_n_loop chmax npages [] s"

section \<open>Initialization\<close>

text \<open>The first RAM segment whose end is not below the first free location; beyond the array there
  is no defined result.\<close>

fun find_segment :: "memory_map_descriptor list \<Rightarrow> u32 \<Rightarrow> nat \<Rightarrow> nat option" where
  "find_segment [] first_free_loc i = None"
| "find_segment (seg # segs) first_free_loc i =
     (if base_addr seg + seg_length seg < first_free_loc then find_segment segs first_free_loc (i + 1) else Some i)"

text \<open>The \<^verbatim>\<open>for\<close> loop over the remaining segments: returns the last block and the final index.\<close>

fun add_segments :: "memory_map_descriptor list \<Rightarrow> nat \<Rightarrow> u32 \<Rightarrow> core \<Rightarrow> u32 \<times> nat \<times> core" where
  "add_segments [] i t s = (t, i, s)"
| "add_segments (seg # segs) i t s =
     (if seg_type seg = 1
      then add_segments segs (i + 1) (base_addr seg)
             (set_pages (base_addr seg) (seg_length seg div 4096) (set_next t (base_addr seg) s))
      else if seg_type seg < 1 then (t, i, s)
      else add_segments segs (i + 1) t s)"

definition initialize_core_info :: "u32 \<Rightarrow> core \<Rightarrow> core option" where
  "initialize_core_info first_free_loc s =
     map_option (\<lambda>i.
       let seg = ram_segments s ! i;
           s = set_next first_free_loc 0
                 (set_pages first_free_loc ((base_addr seg + seg_length seg - first_free_loc) div 4096)
                   (set_first first_free_loc s));
           (t, i, s) = add_segments (drop i (ram_segments s)) i first_free_loc s
       in set_next t 0 (s\<lparr>no_of_ram_segments := i\<rparr>))
     (find_segment (ram_segments s) first_free_loc 0)"

section \<open>The free list\<close>

text \<open>A free list as address ranges: start address and number of pages.\<close>

type_synonym block = "nat \<times> nat"

definition block_at :: "core \<Rightarrow> u32 \<Rightarrow> block" where
  "block_at s a = (unat a, unat (no_pages s a))"

definition block_bytes :: "block \<Rightarrow> nat set" where
  "block_bytes = (\<lambda>(a, n). {a ..< a + 4096 * n})"

definition before :: "block \<Rightarrow> block \<Rightarrow> bool" where
  "before = (\<lambda>(a, n) (b, m). a + 4096 * n \<le> b)"

definition block_ok :: "block \<Rightarrow> bool" where
  "block_ok = (\<lambda>(a, n). 0 < a \<and> 0 < n \<and> a + 4096 * n < 2 ^ 32)"

text \<open>Blocks in ascending order that do not overlap.\<close>

definition blocks_ok :: "block list \<Rightarrow> bool" where
  "blocks_ok bs \<longleftrightarrow> sorted_wrt before bs \<and> list_all block_ok bs"

definition free_bytes :: "block list \<Rightarrow> nat set" where
  "free_bytes bs = \<Union> (block_bytes ` set bs)"

definition core_chain :: "core \<Rightarrow> u32 list \<Rightarrow> bool" where
  "core_chain s L \<longleftrightarrow> chain (next_block s) (first_block s) L \<and> blocks_ok (map (block_at s) L)"

text \<open>The free list of \<open>s\<close> is \<open>bs\<close>.\<close>

definition core_rep :: "core \<Rightarrow> block list \<Rightarrow> bool" where
  "core_rep s bs \<longleftrightarrow> (\<exists>L. core_chain s L \<and> bs = map (block_at s) L)"

definition header_block :: "core_header \<Rightarrow> block" where
  "header_block ch = (unat (phys_addr ch), unat (no_blocks ch))"

lemma set_simps [simp]:
  "first_block (set_first p s) = p" "no_pages (set_first p s) = no_pages s" "next_block (set_first p s) = next_block s"
  "first_block (set_next t p s) = first_block s" "no_pages (set_next t p s) = no_pages s"
  "next_block (set_next t p s) = (next_block s)(t := p)"
  "first_block (set_pages t n s) = first_block s" "next_block (set_pages t n s) = next_block s"
  "no_pages (set_pages t n s) = (no_pages s)(t := n)"
  "ram_segments (set_first p s) = ram_segments s" "ram_segments (set_next t p s) = ram_segments s"
  "ram_segments (set_pages t n s) = ram_segments s"
  "no_of_ram_segments (set_first p s) = no_of_ram_segments s" "no_of_ram_segments (set_next t p s) = no_of_ram_segments s"
  "no_of_ram_segments (set_pages t n s) = no_of_ram_segments s"
  by (simp_all add: set_first_def set_next_def set_pages_def)

lemma block_at_frame [simp]:
  "block_at (set_first p s) = block_at s" "block_at (set_next t p s) = block_at s"
  by (simp_all add: block_at_def fun_eq_iff)

lemma map_block_at_pages [simp]: "t \<notin> set L \<Longrightarrow> map (block_at (set_pages t n s)) L = map (block_at s) L"
  by (auto simp: block_at_def)

lemma block_at_pages [simp]: "block_at (set_pages t n s) t = (unat t, unat n)"
  by (simp add: block_at_def)

lemma blocks_ok_append:
  "blocks_ok (xs @ ys) \<longleftrightarrow> blocks_ok xs \<and> blocks_ok ys \<and> (\<forall>x \<in> set xs. \<forall>y \<in> set ys. before x y)"
  by (auto simp: blocks_ok_def sorted_wrt_append)

lemma blocks_ok_Cons: "blocks_ok (x # ys) \<longleftrightarrow> block_ok x \<and> blocks_ok ys \<and> (\<forall>y \<in> set ys. before x y)"
  by (auto simp: blocks_ok_def)

lemma blocks_ok_Nil [simp]: "blocks_ok []"
  by (simp add: blocks_ok_def)

lemma free_bytes_simps [simp]:
  "free_bytes [] = {}" "free_bytes (b # bs) = block_bytes b \<union> free_bytes bs"
  "free_bytes (xs @ ys) = free_bytes xs \<union> free_bytes ys"
  by (auto simp: free_bytes_def)

lemma block_bytes_split:
  "k \<le> n \<Longrightarrow> block_bytes (a, n) = block_bytes (a, k) \<union> block_bytes (a + 4096 * k, n - k)"
  "k \<le> n \<Longrightarrow> block_bytes (a, k) \<inter> block_bytes (a + 4096 * k, n - k) = {}"
  by (auto simp: block_bytes_def)

lemma before_disjoint: "before x y \<Longrightarrow> block_bytes x \<inter> block_bytes y = {}"
  by (auto simp: before_def block_bytes_def)

lemma free_bytes_before: "(\<forall>y \<in> set ys. before x y) \<Longrightarrow> block_bytes x \<inter> free_bytes ys = {}"
  using before_disjoint by (fastforce simp: free_bytes_def)

lemma free_bytes_after: "(\<forall>y \<in> set ys. before y x) \<Longrightarrow> block_bytes x \<inter> free_bytes ys = {}"
  using before_disjoint[of _ x] by (force simp: free_bytes_def)

text \<open>Address arithmetic does not wrap inside a block.\<close>

lemma unat_end:
  fixes a n :: u32
  assumes "block_ok (unat a, unat n)"
  shows "unat (a + n * 4096) = unat a + 4096 * unat n"
proof -
  have "unat n * 4096 < 2 ^ 32" "unat a + 4096 * unat n < 2 ^ 32" using assms by (simp_all add: block_ok_def)
  then show ?thesis by (simp add: unat_word_ariths)
qed

section \<open>The search\<close>

text \<open>Among the first \<open>k\<close> blocks the code prefers block \<open>i\<close>: it is large enough if any is (and then
  no larger one beats it except an exact fit that comes later), otherwise it is the largest.\<close>

definition fits :: "nat list \<Rightarrow> nat \<Rightarrow> nat \<Rightarrow> nat \<Rightarrow> bool" where
  "fits ps n k i \<longleftrightarrow> i < k \<and> k \<le> length ps \<and>
     (if n \<le> ps ! i then \<forall>j<k. n < ps ! j \<longrightarrow> ps ! i \<le> ps ! j else \<forall>j<k. ps ! j \<le> ps ! i)"

definition page_counts :: "core \<Rightarrow> u32 list \<Rightarrow> nat list" where
  "page_counts s L = map (\<lambda>a. unat (no_pages s a)) L"

definition scan_state :: "core \<Rightarrow> u32 list \<Rightarrow> nat \<Rightarrow> nat \<Rightarrow> u32 \<times> int \<times> u32" where
  "scan_state s L n i = (L ! i, int (page_counts s L ! i) - int n, if i = 0 then 0 else L ! (i - 1))"

lemma sint_diff:
  assumes "unat p < 2 ^ 20" "n < 2 ^ 20"
  shows "sint (p - word_of_nat n :: u32) = int (unat p) - int n"
proof -
  have "p - word_of_nat n = word_of_int (int (unat p) - int n)" by (simp add: word_of_int_minus)
  then have "sint (p - word_of_nat n) = to_s32 (int (unat p) - int n)"
    by (simp only: sint_sbintrunc' signed_take_bit_eq_take_bit_shift to_s32_def take_bit_eq_mod) simp
  moreover have "to_s32 (int q - int n) = int q - int n" if "q < 2 ^ 20" for q using that assms(2) by (simp add: to_s32_id)
  ultimately show ?thesis using assms(1) by metis
qed

lemma core_pick_step:
  assumes i: "fits (page_counts s L) n k i" and k: "k < length L"
    and small: "\<forall>p \<in> set (page_counts s L). p < 2 ^ 20" "n < 2 ^ 20"
  shows "\<exists>i'. fits (page_counts s L) n (Suc k) i' \<and>
    core_pick s (int n) (L ! k) (L ! (k - 1)) (scan_state s L n i) = scan_state s L n i'"
proof -
  let ?P = "page_counts s L"
  have len: "length ?P = length L" by (simp add: page_counts_def)
  have Pk: "?P ! k < 2 ^ 20" "?P ! i < 2 ^ 20" using small(1) i k len by (auto simp: fits_def)
  have k0: "k \<noteq> 0" using i by (auto simp: fits_def)
  have pk: "unat (no_pages s (L ! k)) = ?P ! k" using k by (simp add: page_counts_def)
  have d: "sint (no_pages s (L ! k) - word_of_nat n) = int (?P ! k) - int n"
    using sint_diff[of "no_pages s (L ! k)" n] pk Pk small(2) by simp
  have lt: "(word_of_nat n < no_pages s (L ! k)) = (n < ?P ! k)"
    using small(2) pk by (simp add: word_less_nat_alt unat_of_nat)
  have cmp: "(no_pages s (L ! k) - word_of_nat n < word_of_int (int (?P ! i) - int n)) = (?P ! k < ?P ! i)"
    if "n < ?P ! k" "n \<le> ?P ! i"
  proof -
    have "unat (no_pages s (L ! k) - word_of_nat n) = ?P ! k - n"
      using that pk small(2) by (subst unat_sub) (simp_all add: word_le_nat_alt unat_of_nat)
    moreover have "unat (word_of_int (int (?P ! i) - int n) :: u32) = ?P ! i - n"
      using that Pk by (simp add: of_nat_diff[symmetric] unat_of_nat del: of_nat_diff)
    ultimately show ?thesis using that by (simp add: word_less_nat_alt diff_less_mono) linarith
  qed
  show ?thesis
  proof (cases "?P ! i < n \<and> ?P ! i < ?P ! k \<or> n \<le> ?P ! i \<and> n < ?P ! k \<and> ?P ! k < ?P ! i")
    case True
    then have "fits ?P n (Suc k) k" using i k len by (auto simp: fits_def less_Suc_eq split: if_splits)
    moreover have "core_pick s (int n) (L ! k) (L ! (k - 1)) (scan_state s L n i) = scan_state s L n k"
      using True k0 lt cmp d by (auto simp: core_pick_def scan_state_def Let_def)
    ultimately show ?thesis by blast
  next
    case False
    then have "fits ?P n (Suc k) i" using i k len by (auto simp: fits_def less_Suc_eq split: if_splits)
    moreover have "core_pick s (int n) (L ! k) (L ! (k - 1)) (scan_state s L n i) = scan_state s L n i"
      using False lt cmp d by (auto simp: core_pick_def scan_state_def Let_def)
    ultimately show ?thesis by blast
  qed
qed

lemma core_scan_correct:
  assumes "chain (next_block s) (first_block s) L" "0 < k" "k \<le> length L" "fits (page_counts s L) n k i"
    "\<forall>p \<in> set (page_counts s L). p < 2 ^ 20" "n < 2 ^ 20"
  shows "\<exists>i'. fits (page_counts s L) n (length L) i' \<and>
    core_scan s (int n) (if k < length L then L ! k else 0) (L ! (k - 1)) (scan_state s L n i) = Some (scan_state s L n i')"
  using assms(2-4)
proof (induction "length L - k" arbitrary: k i)
  case 0
  then show ?case by (subst core_scan.simps) auto
next
  case (Suc x)
  then have k: "k < length L" by simp
  obtain i' where i': "fits (page_counts s L) n (Suc k) i'"
    "core_pick s (int n) (L ! k) (L ! (k - 1)) (scan_state s L n i) = scan_state s L n i'"
    using core_pick_step[OF Suc.prems(3) k assms(5,6)] by blast
  have "L = take (Suc k) L @ drop (Suc k) L" by simp
  then have c: "chain (next_block s) (first_block s) (take (Suc k) L @ drop (Suc k) L)" using assms(1) by simp
  have l: "last (take (Suc k) L) = L ! k" using k by (simp add: take_Suc_conv_app_nth)
  have nxt: "next_block s (L ! k) = (if Suc k < length L then L ! Suc k else 0)"
    using chain_last_next[OF c] k l list.size(3) by (cases "Suc k < length L"; cases L) (auto simp: Cons_nth_drop_Suc[symmetric])
  have nz: "L ! k \<noteq> 0" using lseg_nz[OF assms(1)] k by (metis nth_mem)
  have "x = length L - Suc k" "0 < Suc k" "Suc k \<le> length L" using Suc.hyps(2) k by auto
  from Suc.hyps(1)[OF this i'(1)] show ?case
    using k nz i'(2) nxt by (subst core_scan.simps) simp
qed

section \<open>Allocation: what it takes and what it leaves\<close>

lemma page_counts_small: "core_chain s L \<Longrightarrow> \<forall>p \<in> set (page_counts s L). p < 2 ^ 20"
  by (auto simp: core_chain_def blocks_ok_def list_all_iff page_counts_def block_at_def block_ok_def)

lemma blocks_ok_cut: "blocks_ok (xs @ (a, m) # ys) \<Longrightarrow> 0 < k \<Longrightarrow> k < m \<Longrightarrow> blocks_ok (xs @ (a + 4096 * k, m - k) # ys)"
  by (fastforce simp: blocks_ok_append blocks_ok_Cons before_def block_ok_def)

text \<open>The update of the links, for the block in the middle of the list.\<close>

lemma core_take_whole:
  assumes "core_chain s (xs @ b # ys)"
  shows "core_chain (if b = first_block s then set_first (next_block s b) s else set_next (last xs) (next_block s b) s) (xs @ ys)"
proof -
  note c = assms[unfolded core_chain_def]
  have d: "distinct (xs @ b # ys)" using c chain_distinct by blast
  have ok: "blocks_ok (map (block_at s) (xs @ ys))" using c by (auto simp: blocks_ok_append blocks_ok_Cons)
  obtain r where "lseg (next_block s) (first_block s) xs r" using c chain_prefix by blast
  moreover have "chain (next_block s) (next_block s b) ys" using c chain_mid by blast
  ultimately show ?thesis
    using lseg_relink[of "next_block s" "first_block s" xs r "next_block s b" ys] d ok c
      chain_first[of "next_block s" "first_block s" xs b ys]
    by (auto simp: core_chain_def)
qed

lemma core_take_part:
  fixes n :: u32
  assumes c: "core_chain s (xs @ b # ys)" and n: "n \<noteq> 0" "n < no_pages s b"
    and s1: "s1 = set_next (b + n * 4096) (next_block s b) (set_pages (b + n * 4096) (no_pages s b - n) s)"
  shows "core_chain (if b = first_block s then set_first (b + n * 4096) s1 else set_next (last xs) (b + n * 4096) s1)
      (xs @ (b + n * 4096) # ys)"
    "block_at s1 (b + n * 4096) = (unat b + 4096 * unat n, unat (no_pages s b) - unat n)"
    "map (block_at s1) xs = map (block_at s) xs" "map (block_at s1) ys = map (block_at s) ys"
proof -
  let ?t = "b + n * 4096"
  note cc = c[unfolded core_chain_def]
  have ok: "block_ok (block_at s b)" and ord: "\<forall>x \<in> set xs. before (block_at s x) (block_at s b)"
    "\<forall>y \<in> set ys. before (block_at s b) (block_at s y)"
    using cc by (auto simp: blocks_ok_append blocks_ok_Cons)
  have nn: "0 < unat n" "unat n < unat (no_pages s b)" using n by (simp_all add: unat_gt_0 word_less_nat_alt)
  have "block_ok (unat b, unat n)" using ok nn by (auto simp: block_ok_def block_at_def)
  then have t: "unat ?t = unat b + 4096 * unat n" by (rule unat_end)
  have m: "unat (no_pages s b - n) = unat (no_pages s b) - unat n" using n(2) by (simp add: unat_sub)
  show at: "block_at s1 ?t = (unat b + 4096 * unat n, unat (no_pages s b) - unat n)"
    using t m by (simp add: s1)
  have tx: "?t \<notin> set xs" "?t \<notin> set ys"
    using ord nn t by (auto simp: before_def block_at_def)
  then show mx: "map (block_at s1) xs = map (block_at s) xs" and my: "map (block_at s1) ys = map (block_at s) ys"
    by (auto simp: s1 block_at_def)
  have t0: "?t \<noteq> 0" using t nn by (metis add_gr_0 mult_pos_pos unat_0 zero_less_numeral less_irrefl)
  have d: "distinct (xs @ b # ys)" using cc chain_distinct by blast
  have "chain (next_block s1) ?t (?t # ys)"
    using chain_mid[of "next_block s" "first_block s" xs b ys] cc t0 tx by (simp add: s1)
  moreover obtain r where "lseg (next_block s1) (first_block s) xs r"
    using chain_prefix[of "next_block s" "first_block s" xs] cc tx by (auto simp: s1)
  moreover have "blocks_ok (map (block_at s1) (xs @ ?t # ys))"
    using blocks_ok_cut[of "map (block_at s) xs" "unat b" "unat (no_pages s b)" "map (block_at s) ys"] cc nn
    by (simp add: at mx my) (simp add: block_at_def)
  ultimately show "core_chain (if b = first_block s then set_first ?t s1 else set_next (last xs) ?t s1) (xs @ ?t # ys)"
    using lseg_relink[of "next_block s1" "first_block s" xs r ?t "?t # ys"] d tx(1) chain_first[of "next_block s" "first_block s" xs b ys] cc
    by (auto simp: core_chain_def s1)
qed

definition same_ram :: "core \<Rightarrow> core \<Rightarrow> bool" where
  "same_ram s s' \<longleftrightarrow> ram_segments s' = ram_segments s \<and> no_of_ram_segments s' = no_of_ram_segments s"

lemma core_take_ram: "same_ram s (core_take n best s)"
  by (cases best) (simp add: same_ram_def core_take_def Let_def)

lemma core_take_correct:
  assumes c: "core_chain s (xs @ b # ys)" and n: "0 < n" "n < 2 ^ 20" and m: "m = unat (no_pages s b)"
  defines "s' \<equiv> core_take (int n) (b, int m - int n, if xs = [] then 0 else last xs) s"
  shows "core_rep s' (map (block_at s) xs @ (if n < m then [(unat b + 4096 * n, m - n)] else []) @ map (block_at s) ys)"
proof (cases "n < m")
  case False
  have "core_chain s' (xs @ ys)" using core_take_whole[OF c] False chain_first[of "next_block s" "first_block s" xs b ys] c
    by (auto simp: s'_def core_take_def core_chain_def)
  moreover have "block_at s' = block_at s" using False by (simp add: s'_def core_take_def)
  ultimately show ?thesis using False unfolding core_rep_def by (intro exI[of _ "xs @ ys"]) simp
next
  case True
  let ?n = "word_of_nat n :: u32"
  let ?t = "b + ?n * 4096"
  define s1 where s1: "s1 = set_next ?t (next_block s b) (set_pages ?t (no_pages s b - ?n) s)"
  have un: "unat ?n = n" using n by (simp add: unat_of_nat)
  have "?n \<noteq> 0" "?n < no_pages s b" using un n True m by (auto simp: word_less_nat_alt simp del: unat_of_nat)
  note part = core_take_part[OF c this s1]
  have mn: "word_of_int (int m - int n) = no_pages s b - ?n" by (simp add: m word_of_int_minus)
  have s': "s' = (if b = first_block s then set_first ?t s1 else set_next (last xs) ?t s1)"
    using True mn chain_first[of "next_block s" "first_block s" xs b ys] c
    by (auto simp: s'_def core_take_def s1 core_chain_def Let_def)
  have ba: "block_at s' = block_at s1" by (simp add: s')
  show ?thesis using part True un m ba unfolding core_rep_def s'[symmetric] by (intro exI[of _ "xs @ ?t # ys"]) simp
qed

lemma core_alloc_spec:
  assumes "core_rep s bs" "bs \<noteq> []" "0 < n" "n < 2 ^ 20"
  obtains xs a m ys ch s' where "bs = xs @ (a, m) # ys" "fits (map snd bs) n (length bs) (length xs)"
    "core_alloc (int n) s = Some (ch, s')" "header_block ch = (a, min n m)"
    "core_rep s' (xs @ (if n < m then [(a + 4096 * n, m - n)] else []) @ ys)" "same_ram s s'"
proof -
  obtain L where L: "core_chain s L" and bs: "bs = map (block_at s) L" using assms(1) core_rep_def by blast
  have c: "chain (next_block s) (first_block s) L" and L0: "L \<noteq> []" using L bs assms(2) by (auto simp: core_chain_def)
  have P: "page_counts s L = map snd bs" by (simp add: bs page_counts_def block_at_def)
  have f: "first_block s = L ! 0" "first_block s \<noteq> 0" "next_block s (L ! 0) = (if 1 < length L then L ! 1 else 0)"
    using c L0 by (cases L; cases "tl L"; auto)+
  have P0: "page_counts s L ! 0 = unat (no_pages s (L ! 0))" "page_counts s L ! 0 < 2 ^ 20"
    using L0 page_counts_small[OF L] by (auto simp: page_counts_def)
  have init: "(first_block s, sint (no_pages s (first_block s) - word_of_int (int n)), 0) = scan_state s L n 0"
    using sint_diff[of "no_pages s (L ! 0)" n] P0 f assms(4) by (simp add: scan_state_def)
  have "fits (page_counts s L) n 1 0" using L0 by (cases L) (auto simp: fits_def page_counts_def)
  then obtain i where i: "fits (page_counts s L) n (length L) i"
    "core_scan s (int n) (next_block s (first_block s)) (first_block s) (scan_state s L n 0) = Some (scan_state s L n i)"
    using core_scan_correct[OF c, of 1 n 0] page_counts_small[OF L] assms(4) L0 f by (auto simp: Suc_le_eq)
  have il: "i < length L" using i(1) by (simp add: fits_def)
  define xs b ys m where xs: "xs = take i L" and b: "b = L ! i" and ys: "ys = drop (Suc i) L" and m: "m = unat (no_pages s b)"
  have Ls: "L = xs @ b # ys" using il by (simp add: xs b ys id_take_nth_drop)
  have st: "scan_state s L n i = (b, int m - int n, if xs = [] then 0 else last xs)"
    using il by (auto simp: scan_state_def xs b m page_counts_def last_conv_nth)
  have alloc: "core_alloc (int n) s = Some (\<lparr>phys_addr = b, no_blocks = word_of_int (if n \<le> m then int n else int m)\<rparr>,
      core_take (int n) (b, int m - int n, if xs = [] then 0 else last xs) s)"
    using f(2) i(2) init st by (simp add: core_alloc_def)
  have h: "header_block \<lparr>phys_addr = b, no_blocks = word_of_int (if n \<le> m then int n else int m)\<rparr> = (unat b, min n m)"
    using assms(4) m by (auto simp: header_block_def unat_of_nat min_def)
  show ?thesis
  proof (rule that[OF _ _ alloc h])
    show "bs = map (block_at s) xs @ (unat b, m) # map (block_at s) ys" by (simp add: bs Ls block_at_def m)
    show "fits (map snd bs) n (length bs) (length (map (block_at s) xs))" using i(1) il by (simp add: P bs xs)
    show "core_rep (core_take (int n) (b, int m - int n, if xs = [] then 0 else last xs) s)
      (map (block_at s) xs @ (if n < m then [(unat b + 4096 * n, m - n)] else []) @ map (block_at s) ys)"
      by (rule core_take_correct[OF L[unfolded Ls] assms(3,4) m])
    show "same_ram s (core_take (int n) (b, int m - int n, if xs = [] then 0 else last xs) s)" by (rule core_take_ram)
  qed
qed

section \<open>Release: coalescing\<close>

lemma block_bytes_join: "block_bytes (a, n) \<union> block_bytes (a + 4096 * n, m) = block_bytes (a, n + m)"
  by (auto simp: block_bytes_def)

lemma blocks_ok_join:
  assumes "blocks_ok (xs @ (a, n) # (a + 4096 * n, m) # ys)"
  shows "blocks_ok (xs @ (a, n + m) # ys)"
    "free_bytes (xs @ (a, n + m) # ys) = free_bytes (xs @ (a, n) # (a + 4096 * n, m) # ys)"
  using assms block_bytes_join[of a n m]
  by (fastforce simp: blocks_ok_append blocks_ok_Cons before_def block_ok_def, auto)

lemma unat_pages:
  assumes "block_ok (a, unat n)" "block_ok (b, unat m)"
  shows "unat (n + m :: u32) = unat n + unat m"
proof -
  have "unat n < 2 ^ 20" "unat m < 2 ^ 20" using assms by (auto simp: block_ok_def)
  then show ?thesis by (subst unat_add_lem[THEN iffD1]) simp_all
qed

lemma find_before_correct:
  assumes "chain (next_block s) p L" "sorted_wrt (\<lambda>x y. x < y) L"
  shows "find_before_loop s b t p = Some (if takeWhile (\<lambda>x. x < b) L = [] then t else last (takeWhile (\<lambda>x. x < b) L))"
  using assms
proof (induction L arbitrary: p t)
  case Nil
  then show ?case by (subst find_before_loop.simps) simp
next
  case (Cons x L)
  then show ?case using Cons.IH[of "next_block s x" x] by (subst find_before_loop.simps) auto
qed

lemma core_chain_sorted: "core_chain s L \<Longrightarrow> sorted_wrt (\<lambda>x y. x < y) L"
  unfolding core_chain_def blocks_ok_def sorted_wrt_map list_all_iff
  by (auto elim!: sorted_wrt_mono_rel[rotated] simp: before_def block_at_def block_ok_def word_less_nat_alt)

text \<open>The block \<open>b\<close> of \<open>n\<close> pages is to be released between the blocks \<open>xs\<close> and \<open>ys\<close>.\<close>

definition gap :: "core \<Rightarrow> u32 list \<Rightarrow> u32 \<Rightarrow> u32 \<Rightarrow> u32 list \<Rightarrow> bool" where
  "gap s xs b n ys \<longleftrightarrow> chain (next_block s) (first_block s) (xs @ ys) \<and>
     blocks_ok (map (block_at s) xs @ (unat b, unat n) # map (block_at s) ys)"

lemma gapD:
  assumes "gap s xs b n ys"
  shows "b \<noteq> 0" "b \<notin> set xs" "b \<notin> set ys" "distinct (xs @ ys)" "block_ok (unat b, unat n)"
    "\<And>x. x \<in> set xs \<union> set ys \<Longrightarrow> block_ok (block_at s x)"
    "chain (next_block s) (case ys of [] \<Rightarrow> 0 | y # _ \<Rightarrow> y) ys"
    "xs \<noteq> [] \<Longrightarrow> next_block s (last xs) = (case ys of [] \<Rightarrow> 0 | y # _ \<Rightarrow> y)"
    "xs = [] \<Longrightarrow> first_block s = (case ys of [] \<Rightarrow> 0 | y # _ \<Rightarrow> y)"
    "\<exists>r. lseg (next_block s) (first_block s) xs r"
proof -
  note g = assms[unfolded gap_def]
  have ok: "block_ok (unat b, unat n)" "\<forall>x \<in> set xs. before (block_at s x) (unat b, unat n)"
    "\<forall>y \<in> set ys. before (unat b, unat n) (block_at s y)" using g by (auto simp: blocks_ok_append blocks_ok_Cons)
  show oks: "\<And>x. x \<in> set xs \<union> set ys \<Longrightarrow> block_ok (block_at s x)" using g by (auto simp: blocks_ok_def list_all_iff)
  show "b \<noteq> 0" "block_ok (unat b, unat n)" using ok(1) by (auto simp: block_ok_def)
  show "b \<notin> set xs" using ok(2) oks[of b] by (auto simp: before_def block_at_def block_ok_def)
  show "b \<notin> set ys" using ok(1,3) by (auto simp: before_def block_at_def block_ok_def)
  show "distinct (xs @ ys)" using g chain_distinct by blast
  show "chain (next_block s) (case ys of [] \<Rightarrow> 0 | y # _ \<Rightarrow> y) ys" using g chain_tail by blast
  show "xs \<noteq> [] \<Longrightarrow> next_block s (last xs) = (case ys of [] \<Rightarrow> 0 | y # _ \<Rightarrow> y)" using g chain_last_next by blast
  show "xs = [] \<Longrightarrow> first_block s = (case ys of [] \<Rightarrow> 0 | y # _ \<Rightarrow> y)" using g chain_head[of "next_block s" "first_block s" ys] by simp
  show "\<exists>r. lseg (next_block s) (first_block s) xs r" using g chain_prefix by blast
qed

text \<open>The released block, or its union with a neighbour, as the new list.\<close>

definition released :: "core \<Rightarrow> u32 list \<Rightarrow> u32 \<Rightarrow> u32 \<Rightarrow> u32 list \<Rightarrow> core \<Rightarrow> bool" where
  "released s xs b n ys s' \<longleftrightarrow> (\<exists>bs'. core_rep s' bs' \<and>
     free_bytes bs' = free_bytes (map (block_at s) xs @ (unat b, unat n) # map (block_at s) ys))"

lemma releasedI:
  assumes "core_chain s' L" "free_bytes (map (block_at s') L) = free_bytes (map (block_at s) xs @ (unat b, unat n) # map (block_at s) ys)"
  shows "released s xs b n ys s'"
  using assms by (auto simp: released_def core_rep_def)

lemma core_free_first_correct:
  assumes g: "gap s [] b n ys"
  shows "released s [] b n ys (core_free_first \<lparr>phys_addr = b, no_blocks = n\<rparr> s)"
proof (cases "ys \<noteq> [] \<and> b + n * 4096 = hd ys")
  case True
  then obtain y zs where ys: "ys = y # zs" and adj: "y = b + n * 4096" by (cases ys) auto
  note d = gapD[OF g]
  define s' where "s' = core_free_first \<lparr>phys_addr = b, no_blocks = n\<rparr> s"
  have yb: "y \<noteq> b" "b \<notin> set zs" using d(3) ys by auto
  have f: "first_block s = y" "y \<noteq> 0" using d(7,9) ys by auto
  have s': "first_block s' = b" "next_block s' = (next_block s)(b := next_block s y)"
    "no_pages s' = (no_pages s)(b := n + no_pages s y)"
    using f adj yb by (auto simp: s'_def core_free_first_def Let_def)
  have at: "map (block_at s') (b # zs) = (unat b, unat n + unat (no_pages s y)) # map (block_at s) zs"
    using yb s' unat_pages[OF d(5), of "unat y" "no_pages s y"] d(6)[of y] ys by (auto simp: block_at_def)
  have "blocks_ok ([] @ (unat b, unat n) # (unat b + 4096 * unat n, unat (no_pages s y)) # map (block_at s) zs)"
    using g unat_end[OF d(5)] ys adj by (simp add: gap_def block_at_def)
  note j = blocks_ok_join[OF this]
  have "core_chain s' (b # zs)" unfolding core_chain_def at using d(1,7) ys yb s' j(1) by simp
  moreover have "free_bytes (map (block_at s') (b # zs)) = free_bytes (map (block_at s) [] @ (unat b, unat n) # map (block_at s) ys)"
    unfolding at using j(2) unat_end[OF d(5)] ys adj by (simp add: block_at_def)
  ultimately show ?thesis unfolding s'_def[symmetric] by (rule releasedI)
next
  case False
  note d = gapD[OF g]
  define s' where "s' = core_free_first \<lparr>phys_addr = b, no_blocks = n\<rparr> s"
  have s': "first_block s' = b" "next_block s' = (next_block s)(b := first_block s)" "no_pages s' = (no_pages s)(b := n)"
    using False d(9) by (cases ys; auto simp: s'_def core_free_first_def Let_def)+
  have at: "map (block_at s') (b # ys) = (unat b, unat n) # map (block_at s) ys" using d(3) s' by (auto simp: block_at_def)
  have "core_chain s' (b # ys)" unfolding core_chain_def at using d s' g by (simp add: gap_def)
  then show ?thesis unfolding s'_def[symmetric] by (rule releasedI) (unfold at, simp)
qed

lemma gap_lastD:
  assumes g: "gap s (us @ [t1]) b n ys"
  shows "next_block s t1 = (case ys of [] \<Rightarrow> 0 | y # _ \<Rightarrow> y)" "t1 \<noteq> b" "t1 \<notin> set us" "t1 \<notin> set ys" "b \<notin> set us" "t1 \<noteq> 0"
    "lseg (next_block s) (first_block s) us t1" "block_ok (unat t1, unat (no_pages s t1))"
    "\<And>y zs. ys = y # zs \<Longrightarrow> block_ok (unat y, unat (no_pages s y)) \<and> y \<noteq> 0"
    "blocks_ok (map (block_at s) us @ (unat t1, unat (no_pages s t1)) # (unat b, unat n) # map (block_at s) ys)"
proof -
  note d = gapD[OF g]
  show "next_block s t1 = (case ys of [] \<Rightarrow> 0 | y # _ \<Rightarrow> y)" "t1 \<noteq> b" "t1 \<notin> set us" "t1 \<notin> set ys" "b \<notin> set us" "t1 \<noteq> 0"
    "lseg (next_block s) (first_block s) us t1"
    using d(2,4,8,10) by (auto simp: lseg_append)
  show "block_ok (unat t1, unat (no_pages s t1))" using d(6)[of t1] by (simp add: block_at_def)
  show "\<And>y zs. ys = y # zs \<Longrightarrow> block_ok (unat y, unat (no_pages s y)) \<and> y \<noteq> 0" using d(6,7) by (auto simp: block_at_def)
  show "blocks_ok (map (block_at s) us @ (unat t1, unat (no_pages s t1)) # (unat b, unat n) # map (block_at s) ys)"
    using g by (simp add: gap_def block_at_def)
qed

text \<open>No neighbour is adjacent: the block becomes a new node.\<close>

lemma core_free_new_node:
  assumes g: "gap s (us @ [t1]) b n ys" and no: "t1 + no_pages s t1 * 4096 \<noteq> b" "ys = [] \<or> b + n * 4096 \<noteq> hd ys"
  shows "released s (us @ [t1]) b n ys (core_free_after t1 \<lparr>phys_addr = b, no_blocks = n\<rparr> s)"
proof -
  note d = gapD[OF g] and t1 = gap_lastD[OF g]
  define s' where "s' = core_free_after t1 \<lparr>phys_addr = b, no_blocks = n\<rparr> s"
  have s': "first_block s' = first_block s" "no_pages s' = (no_pages s)(b := n)"
    "next_block s' = (next_block s)(t1 := b, b := next_block s t1)"
    using no t1 by (cases ys; auto simp: s'_def core_free_after_def Let_def)+
  have at: "map (block_at s') (us @ t1 # b # ys) = map (block_at s) (us @ [t1]) @ (unat b, unat n) # map (block_at s) ys"
    using d(2,3) s' by (auto simp: block_at_def)
  have "core_chain s' (us @ t1 # b # ys)" unfolding core_chain_def at
    using g d t1 by (auto simp: gap_def s' lseg_append)
  then show ?thesis unfolding s'_def[symmetric] by (rule releasedI) (simp only: at)
qed

text \<open>The block ends where the next one starts: it absorbs the next node.\<close>

lemma core_free_join_next:
  assumes g: "gap s (us @ [t1]) b n (y # zs)" and adj: "t1 + no_pages s t1 * 4096 \<noteq> b" "y = b + n * 4096"
  shows "released s (us @ [t1]) b n (y # zs) (core_free_after t1 \<lparr>phys_addr = b, no_blocks = n\<rparr> s)"
proof -
  note d = gapD[OF g] and t1 = gap_lastD[OF g]
  define s' where "s' = core_free_after t1 \<lparr>phys_addr = b, no_blocks = n\<rparr> s"
  have s': "first_block s' = first_block s" "no_pages s' = (no_pages s)(b := n + no_pages s y)"
    "next_block s' = (next_block s)(t1 := b, b := next_block s y)"
    using adj t1 d(3) by (auto simp: s'_def core_free_after_def Let_def)
  have at: "map (block_at s') (us @ t1 # b # zs)
      = map (block_at s) (us @ [t1]) @ (unat b, unat n + unat (no_pages s y)) # map (block_at s) zs"
    using d(2,3) s' unat_pages[OF d(5), of "unat y" "no_pages s y"] t1(9) by (auto simp: block_at_def)
  have "blocks_ok (map (block_at s) (us @ [t1]) @ (unat b, unat n) # (unat b + 4096 * unat n, unat (no_pages s y)) # map (block_at s) zs)"
    using g unat_end[OF d(5)] adj by (simp add: gap_def block_at_def)
  note j = blocks_ok_join[OF this]
  have "core_chain s' (us @ t1 # b # zs)" unfolding core_chain_def at
    using g d(1,2,3,7) t1 j(1) by (auto simp: gap_def s' lseg_append)
  then show ?thesis unfolding s'_def[symmetric]
    by (rule releasedI) (unfold at, use j(2) unat_end[OF d(5)] adj in \<open>simp add: block_at_def\<close>)
qed

text \<open>The block starts where the previous one ends: the previous node grows, and absorbs the next
  one if that is adjacent too.\<close>

lemma core_free_join_prev:
  assumes g: "gap s (us @ [t1]) b n ys" and prev: "t1 + no_pages s t1 * 4096 = b"
  shows "released s (us @ [t1]) b n ys (core_free_after t1 \<lparr>phys_addr = b, no_blocks = n\<rparr> s)"
proof -
  note d = gapD[OF g] and t1 = gap_lastD[OF g]
  let ?U = "map (block_at s) us" and ?k = "unat (no_pages s t1) + unat n"
  define s' where "s' = core_free_after t1 \<lparr>phys_addr = b, no_blocks = n\<rparr> s"
  have p1: "unat (no_pages s t1 + n) = ?k" by (rule unat_pages[OF t1(8) d(5)])
  have "blocks_ok (?U @ (unat t1, unat (no_pages s t1)) # (unat t1 + 4096 * unat (no_pages s t1), unat n) # map (block_at s) ys)"
    using t1(10) unat_end[OF t1(8)] prev by simp
  note j = blocks_ok_join[OF this]
  have j2: "free_bytes (?U @ (unat t1, ?k) # map (block_at s) ys)
      = free_bytes (map (block_at s) (us @ [t1]) @ (unat b, unat n) # map (block_at s) ys)"
    using j(2) unat_end[OF t1(8)] prev by (simp add: block_at_def)
  have ok3: "block_ok (unat t1, unat (no_pages s t1 + n))" using j(1) p1 by (simp add: blocks_ok_append blocks_ok_Cons)
  have "released s (us @ [t1]) b n ys s'"
  proof (cases "ys \<noteq> [] \<and> t1 + (no_pages s t1 + n) * 4096 = hd ys")
    case True
    then obtain y zs where ys: "ys = y # zs" and adj: "y = t1 + (no_pages s t1 + n) * 4096" by (cases ys) auto
    have s': "first_block s' = first_block s" "no_pages s' = (no_pages s)(t1 := no_pages s t1 + n + no_pages s y)"
      "next_block s' = (next_block s)(t1 := next_block s y)"
      using prev True t1 ys by (auto simp: s'_def core_free_after_def Let_def)
    have at: "map (block_at s') (us @ t1 # zs) = ?U @ (unat t1, ?k + unat (no_pages s y)) # map (block_at s) zs"
      using t1 s' ys unat_pages[OF ok3, of "unat y" "no_pages s y"] p1 by (auto simp: block_at_def)
    have "blocks_ok (?U @ (unat t1, ?k) # (unat t1 + 4096 * ?k, unat (no_pages s y)) # map (block_at s) zs)"
      using j(1) unat_end[OF ok3] ys adj p1 by (simp add: block_at_def)
    note k = blocks_ok_join[OF this]
    have "core_chain s' (us @ t1 # zs)" unfolding core_chain_def at
      using g t1 k(1) ys d(7) by (auto simp: gap_def s' lseg_append)
    then show ?thesis by (rule releasedI) (unfold at, use k(2) j2 unat_end[OF ok3] p1 ys adj in \<open>simp add: block_at_def\<close>)
  next
    case False
    have s': "first_block s' = first_block s" "no_pages s' = (no_pages s)(t1 := no_pages s t1 + n)" "next_block s' = next_block s"
      using prev False t1 by (cases ys; auto simp: s'_def core_free_after_def Let_def)+
    have at: "map (block_at s') (us @ t1 # ys) = ?U @ (unat t1, ?k) # map (block_at s) ys"
      using t1 s' p1 by (auto simp: block_at_def)
    have "core_chain s' (us @ t1 # ys)" unfolding core_chain_def at using g j(1) by (auto simp: gap_def s')
    then show ?thesis by (rule releasedI) (unfold at, rule j2)
  qed
  then show ?thesis by (simp add: s'_def)
qed

lemma core_free_after_correct:
  assumes g: "gap s xs b n ys" and xs: "xs \<noteq> []"
  shows "released s xs b n ys (core_free_after (last xs) \<lparr>phys_addr = b, no_blocks = n\<rparr> s)"
proof -
  obtain us t1 where x: "xs = us @ [t1]" using xs by (cases xs rule: rev_cases) auto
  consider "t1 + no_pages s t1 * 4096 = b"
    | y zs where "t1 + no_pages s t1 * 4096 \<noteq> b" "ys = y # zs" "y = b + n * 4096"
    | "t1 + no_pages s t1 * 4096 \<noteq> b" "ys = [] \<or> b + n * 4096 \<noteq> hd ys" by (cases ys) auto
  then show ?thesis
    using g core_free_join_prev core_free_join_next core_free_new_node by cases (auto simp: x)
qed

lemma gapI:
  assumes c: "core_chain s L" and ok: "block_ok (unat b, unat n)"
    and dis: "block_bytes (unat b, unat n) \<inter> free_bytes (map (block_at s) L) = {}"
  shows "gap s (takeWhile (\<lambda>x. x < b) L) b n (dropWhile (\<lambda>x. x < b) L)"
proof -
  let ?xs = "takeWhile (\<lambda>x. x < b) L" and ?ys = "dropWhile (\<lambda>x. x < b) L"
  note c1 = c[unfolded core_chain_def]
  have oks: "block_ok (block_at s x)" if "x \<in> set L" for x using c1 that by (auto simp: blocks_ok_def list_all_iff)
  have djx: "block_bytes (unat b, unat n) \<inter> block_bytes (block_at s x) = {}" if "x \<in> set L" for x
    using dis that by (auto simp: free_bytes_def)
  have x: "before (block_at s x) (unat b, unat n)" if "x \<in> set ?xs" for x
  proof -
    have "x < b" "x \<in> set L" using that by (auto dest: set_takeWhileD)
    then have "unat b \<notin> block_bytes (block_at s x)" using djx[of x] ok by (auto simp: block_bytes_def block_ok_def)
    with \<open>x < b\<close> show ?thesis by (auto simp: before_def block_at_def block_bytes_def word_less_nat_alt)
  qed
  have y: "before (unat b, unat n) (block_at s y)" if yd: "y \<in> set ?ys" for y
  proof -
    have yL: "y \<in> set L" using that by (rule set_dropWhileD)
    obtain z zs where Cons: "?ys = z # zs" using yd by (cases ?ys) (simp_all del: dropWhile_eq_Nil_conv)
    have "b \<le> y"
    proof -
      have "sorted_wrt (\<lambda>x y. x < y) (?xs @ ?ys)" using core_chain_sorted[OF c] by simp
      then have "\<forall>v \<in> set zs. z < v" unfolding Cons sorted_wrt_append by simp
      moreover have "\<not> z < b" using hd_dropWhile[of "\<lambda>x. x < b" L] Cons by simp
      ultimately show ?thesis using that Cons by auto
    qed
    moreover have "unat y \<notin> block_bytes (unat b, unat n)"
      using djx[OF yL] oks[OF yL] by (auto simp: block_bytes_def block_at_def block_ok_def)
    ultimately show ?thesis by (auto simp: before_def block_at_def block_bytes_def word_le_nat_alt)
  qed
  have "blocks_ok (map (block_at s) ?xs @ map (block_at s) ?ys)" using c1 by (simp add: map_append[symmetric] del: map_append)
  then show ?thesis using c1 x y ok by (auto simp: gap_def blocks_ok_append blocks_ok_Cons)
qed

lemma core_free_ram: "core_free ch s = Some s' \<Longrightarrow> same_ram s s'"
  by (auto simp: core_free_def same_ram_def core_free_first_def core_free_after_def Let_def split: if_splits)

lemma core_free_spec:
  assumes "core_rep s bs" "block_ok (header_block ch)" "block_bytes (header_block ch) \<inter> free_bytes bs = {}" "is_valid_block s ch"
  shows "\<exists>s' bs'. core_free ch s = Some s' \<and> core_rep s' bs' \<and> free_bytes bs' = free_bytes bs \<union> block_bytes (header_block ch) \<and> same_ram s s'"
proof -
  obtain L where L: "core_chain s L" and bs: "bs = map (block_at s) L" using assms(1) core_rep_def by blast
  define b n where bn: "b = phys_addr ch" "n = no_blocks ch"
  have ch: "ch = \<lparr>phys_addr = b, no_blocks = n\<rparr>" and h: "header_block ch = (unat b, unat n)" by (simp_all add: bn header_block_def)
  define xs ys where xy: "xs = takeWhile (\<lambda>x. x < b) L" "ys = dropWhile (\<lambda>x. x < b) L"
  have g: "gap s xs b n ys" unfolding xy using gapI[OF L] assms(2,3) h bs by simp
  define s' where s': "s' = (if (if xs = [] then 0 else last xs) = 0 then core_free_first ch s else core_free_after (last xs) ch s)"
  have f: "find_mem_block_before s ch = Some (if xs = [] then 0 else last xs)"
    using find_before_correct[of s "first_block s" L b 0] L core_chain_sorted[OF L] by (simp add: find_mem_block_before_def core_chain_def xy bn)
  then have r: "core_free ch s = Some s'" using assms(4) by (simp add: core_free_def s')
  have nz: "xs \<noteq> [] \<Longrightarrow> last xs \<noteq> 0"
    using lseg_nz[of "next_block s" "first_block s" "xs @ ys"] g by (metis Un_iff gap_def last_in_set set_append)
  have "released s xs b n ys s'"
    using core_free_first_correct[of s b n ys] core_free_after_correct[of s xs b n ys] g nz by (cases "xs = []") (auto simp: s' ch)
  then obtain bs' where "core_rep s' bs'" "free_bytes bs' = free_bytes (map (block_at s) xs @ (unat b, unat n) # map (block_at s) ys)"
    by (auto simp: released_def)
  moreover have "free_bytes bs = free_bytes (map (block_at s) xs @ map (block_at s) ys)"
    unfolding bs xy map_append[symmetric] takeWhile_dropWhile_id ..
  ultimately show ?thesis using r core_free_ram[OF r] h by (intro exI[of _ s'] exI[of _ bs']) auto
qed

section \<open>Allocation in fragments\<close>

text \<open>A set of addresses that lies in the usable RAM segments.\<close>

definition in_ram :: "core \<Rightarrow> nat set \<Rightarrow> bool" where
  "in_ram s B \<longleftrightarrow> (\<forall>x \<in> B. \<exists>seg \<in> set (take (no_of_ram_segments s) (ram_segments s)). seg_type seg = 1 \<and>
     unat (base_addr seg) + unat (seg_length seg) < 2 ^ 32 \<and>
     unat (base_addr seg) \<le> x \<and> x < unat (base_addr seg) + unat (seg_length seg))"

lemma in_ram_valid:
  assumes "in_ram s (block_bytes (header_block ch))" "block_ok (header_block ch)"
  shows "is_valid_block s ch"
proof -
  have "unat (phys_addr ch) \<in> block_bytes (header_block ch)" and n: "no_blocks ch \<noteq> 0"
    using assms(2) by (auto simp: block_bytes_def header_block_def block_ok_def)
  then obtain seg where g: "seg \<in> set (take (no_of_ram_segments s) (ram_segments s))" "seg_type seg = 1"
    "unat (base_addr seg) + unat (seg_length seg) < 2 ^ 32" "unat (base_addr seg) \<le> unat (phys_addr ch)"
    "unat (phys_addr ch) < unat (base_addr seg) + unat (seg_length seg)"
    using assms(1) by (auto simp: in_ram_def)
  then have "unat (base_addr seg + seg_length seg) = unat (base_addr seg) + unat (seg_length seg)"
    by (subst unat_add_lem[THEN iffD1]) simp_all
  with g n show ?thesis by (auto simp: is_valid_block_def list_ex_iff word_le_nat_alt)
qed

lemma in_ram_cong: "same_ram s s' \<Longrightarrow> in_ram s' B = in_ram s B"
  by (simp add: in_ram_def same_ram_def)

lemma in_ram_mono: "in_ram s B \<Longrightarrow> A \<subseteq> B \<Longrightarrow> in_ram s A"
  by (auto simp: in_ram_def)

definition header_bytes :: "core_header list \<Rightarrow> nat set" where
  "header_bytes chs = free_bytes (map header_block chs)"

text \<open>The fragments \<open>chs\<close> are usable blocks apart from each other and from \<open>B\<close>.\<close>

fun fragments :: "core \<Rightarrow> nat set \<Rightarrow> core_header list \<Rightarrow> bool" where
  "fragments s B [] \<longleftrightarrow> True"
| "fragments s B (ch # chs) \<longleftrightarrow> block_ok (header_block ch) \<and> in_ram s (block_bytes (header_block ch)) \<and>
     block_bytes (header_block ch) \<inter> B = {} \<and> fragments s (B \<union> block_bytes (header_block ch)) chs"

lemma fragments_cong: "same_ram s s' \<Longrightarrow> fragments s' B chs = fragments s B chs"
  by (induction chs arbitrary: B) (simp_all add: in_ram_cong)

lemma core_free_all_spec:
  "core_rep s bs \<Longrightarrow> fragments s (free_bytes bs) chs \<Longrightarrow>
   \<exists>s' bs'. core_free_all chs s = Some s' \<and> core_rep s' bs' \<and> free_bytes bs' = free_bytes bs \<union> header_bytes chs \<and> same_ram s s'"
proof (induction chs arbitrary: s bs)
  case Nil
  then show ?case by (auto simp: header_bytes_def same_ram_def)
next
  case (Cons ch chs)
  obtain s1 bs1 where 1: "core_free ch s = Some s1" "core_rep s1 bs1" "free_bytes bs1 = free_bytes bs \<union> block_bytes (header_block ch)" "same_ram s s1"
    using core_free_spec[OF Cons.prems(1), of ch] Cons.prems(2) in_ram_valid[of s ch] by auto
  have "fragments s1 (free_bytes bs1) chs" using Cons.prems(2) 1(3) fragments_cong[OF 1(4)] by simp
  from Cons.IH[OF 1(2) this] obtain s2 bs2 where "core_free_all chs s1 = Some s2" "core_rep s2 bs2"
    "free_bytes bs2 = free_bytes bs1 \<union> header_bytes chs" "same_ram s1 s2" by blast
  then show ?case using 1 by (auto simp: header_bytes_def same_ram_def)
qed

definition total_pages :: "block list \<Rightarrow> nat" where
  "total_pages bs = sum_list (map snd bs)"

text \<open>What one allocation does to the free list, in terms of addresses.\<close>

lemma core_alloc_effect:
  assumes "core_rep s bs" "bs \<noteq> []" "0 < n" "n < 2 ^ 20"
  obtains ch s' bs' m where "core_alloc (int n) s = Some (ch, s')" "core_rep s' bs'" "same_ram s s'"
    "block_ok (header_block ch)" "snd (header_block ch) = min n m" "m \<in> set (map snd bs)"
    "m < n \<Longrightarrow> \<forall>p \<in> set (map snd bs). p \<le> m"
    "free_bytes bs = free_bytes bs' \<union> block_bytes (header_block ch)" "free_bytes bs' \<inter> block_bytes (header_block ch) = {}"
    "m < n \<Longrightarrow> total_pages bs = total_pages bs' + m \<and> length bs = Suc (length bs')"
    "\<And>k. 0 < k \<Longrightarrow> \<exists>p \<in> set (map snd bs). n + k \<le> p \<Longrightarrow> \<exists>p \<in> set (map snd bs'). k \<le> p"
proof -
  obtain xs a m ys ch s' where r: "bs = xs @ (a, m) # ys" "fits (map snd bs) n (length bs) (length xs)"
    "core_alloc (int n) s = Some (ch, s')" "header_block ch = (a, min n m)"
    "core_rep s' (xs @ (if n < m then [(a + 4096 * n, m - n)] else []) @ ys)" "same_ram s s'"
    using core_alloc_spec[OF assms] by blast
  have ok: "blocks_ok (xs @ (a, m) # ys)" using assms(1) r(1) by (auto simp: core_rep_def core_chain_def)
  then have bok: "block_ok (a, m)" and bx: "\<forall>x \<in> set xs. before x (a, m)" and by': "\<forall>y \<in> set ys. before (a, m) y"
    by (auto simp: blocks_ok_append blocks_ok_Cons)
  define tl' where "tl' = (if n < m then [(a + 4096 * n, m - n)] else [])"
  have split: "block_bytes (a, m) = block_bytes (a, min n m) \<union> free_bytes tl'" "block_bytes (a, min n m) \<inter> free_bytes tl' = {}"
    by (auto simp: tl'_def block_bytes_def)
  have apart: "block_bytes (a, m) \<inter> free_bytes xs = {}" "block_bytes (a, m) \<inter> free_bytes ys = {}"
    using free_bytes_before[OF by'] free_bytes_after[OF bx] by auto
  have m: "map snd bs ! length xs = m" by (simp add: r(1) nth_append)
  show ?thesis
  proof (rule that[OF r(3,5,6)])
    show "block_ok (header_block ch)" using bok assms(3) by (auto simp: r(4) block_ok_def)
    show "snd (header_block ch) = min n m" "m \<in> set (map snd bs)" by (simp_all add: r(1,4))
    show "\<forall>p \<in> set (map snd bs). p \<le> m" if "m < n"
      using r(2) m that unfolding fits_def all_set_conv_all_nth by simp
    show "free_bytes bs = free_bytes (xs @ (if n < m then [(a + 4096 * n, m - n)] else []) @ ys) \<union> block_bytes (header_block ch)"
      using split(1) by (auto simp: r(1,4) tl'_def[symmetric])
    show "free_bytes (xs @ (if n < m then [(a + 4096 * n, m - n)] else []) @ ys) \<inter> block_bytes (header_block ch) = {}"
      using split apart by (auto simp: r(4) tl'_def[symmetric])
    show "total_pages bs = total_pages (xs @ (if n < m then [(a + 4096 * n, m - n)] else []) @ ys) + m \<and>
        length bs = Suc (length (xs @ (if n < m then [(a + 4096 * n, m - n)] else []) @ ys))" if "m < n"
      using that by (simp add: total_pages_def r(1))
    show "\<exists>p \<in> set (map snd (xs @ (if n < m then [(a + 4096 * n, m - n)] else []) @ ys)). k \<le> p"
      if "0 < k" "\<exists>p \<in> set (map snd bs). n + k \<le> p" for k
    proof -
      from that(2) consider "n + k \<le> m" | p where "p \<in> set (map snd (xs @ ys))" "n + k \<le> p" by (auto simp: r(1))
      then show ?thesis
      proof cases
        case (2 p)
        then show ?thesis by (intro bexI[of _ p]) auto
      qed (use that(1) in fastforce)
    qed
  qed
qed

declare core_alloc_n_loop.simps [simp del]

definition got :: "core_header list \<Rightarrow> nat" where
  "got chs = total_pages (map header_block chs)"

lemma got_Cons: "got (ch # chs) = snd (header_block ch) + got chs"
  by (simp add: got_def total_pages_def)

lemma header_bytes_Cons: "header_bytes (ch # chs) = block_bytes (header_block ch) \<union> header_bytes chs"
  by (simp add: header_bytes_def)

text \<open>What \<open>core_alloc_n\<close> may return for \<open>n\<close> pages, \<open>chs\<close> being the fragments got before.\<close>

definition alloc_n_result :: "core \<Rightarrow> block list \<Rightarrow> nat \<Rightarrow> nat \<Rightarrow> core_header list \<Rightarrow> int \<times> core_header list \<times> core \<Rightarrow> bool" where
  "alloc_n_result s bs room n chs = (\<lambda>(r, chs', s'). \<exists>bs'. core_rep s' bs' \<and> same_ram s s' \<and>
     free_bytes bs' \<union> header_bytes chs' = free_bytes bs \<union> header_bytes chs \<and>
     (if r = ENOMEM then chs' = [] \<and> 0 < n \<and> \<not> (n \<le> total_pages bs \<and> length bs \<le> room)
      else r = int (length chs') \<and> length chs' \<le> room + length chs \<and> got chs' = n + got chs \<and>
        fragments s' (free_bytes bs') (rev chs')))"

lemma total_pages_zero: "core_rep s [] \<Longrightarrow> core_alloc n s = Some (\<lparr>phys_addr = 0, no_blocks = 0\<rparr>, s)"
  by (auto simp: core_alloc_def core_rep_def core_chain_def)

lemma core_alloc_n_undo:
  assumes "core_rep s bs" "fragments s (free_bytes bs) chs" "0 < n" "\<not> (n \<le> total_pages bs \<and> length bs \<le> room)"
  shows "\<exists>s'. core_free_all chs s = Some s' \<and> alloc_n_result s bs room n chs (ENOMEM, [], s')"
proof -
  obtain s' bs' where "core_free_all chs s = Some s'" "core_rep s' bs'" "free_bytes bs' = free_bytes bs \<union> header_bytes chs" "same_ram s s'"
    using core_free_all_spec[OF assms(1,2)] by blast
  then show ?thesis using assms(3,4) unfolding alloc_n_result_def
    by (intro exI[of _ s']) (auto intro!: exI[of _ bs'] simp: header_bytes_def)
qed

lemma got_rev [simp]: "got (rev chs) = got chs" "header_bytes (rev chs) = header_bytes chs"
  by (simp_all add: got_def total_pages_def header_bytes_def free_bytes_def rev_map[symmetric])

lemma core_alloc_n_done:
  assumes "core_rep s bs" "fragments s (free_bytes bs) chs"
  shows "\<exists>res. core_alloc_n_loop room 0 chs s = Some res \<and> alloc_n_result s bs room 0 chs res"
proof -
  have "core_alloc_n_loop room 0 chs s = Some (int (length chs), rev chs, s)" by (subst core_alloc_n_loop.simps) simp
  moreover have "alloc_n_result s bs room 0 chs (int (length chs), rev chs, s)"
    using assms by (auto simp: alloc_n_result_def same_ram_def)
  ultimately show ?thesis by blast
qed

lemma core_alloc_n_loop_spec:
  "core_rep s bs \<Longrightarrow> in_ram s (free_bytes bs) \<Longrightarrow> fragments s (free_bytes bs) chs \<Longrightarrow> n < 2 ^ 20 \<Longrightarrow>
   \<exists>res. core_alloc_n_loop room (int n) chs s = Some res \<and> alloc_n_result s bs room n chs res"
proof (induction room arbitrary: n chs s bs)
  case 0
  show ?case
  proof (cases "n = 0")
    case True
    then show ?thesis using core_alloc_n_done[OF 0(1,3)] by simp
  next
    case False
    then have "\<not> (n \<le> total_pages bs \<and> length bs \<le> 0)" by (auto simp: total_pages_def)
    from core_alloc_n_undo[OF 0(1,3) _ this] False show ?thesis by (subst core_alloc_n_loop.simps) auto
  qed
next
  case (Suc room)
  consider "n = 0" | "0 < n" "bs = []" | "0 < n" "bs \<noteq> []" by blast
  then show ?case
  proof cases
    case 1
    then show ?thesis using core_alloc_n_done[OF Suc.prems(1,3)] by simp
  next
    case 2
    then have "\<not> (n \<le> total_pages bs \<and> length bs \<le> Suc room)" by (auto simp: total_pages_def)
    from core_alloc_n_undo[OF Suc.prems(1,3) 2(1) this] 2 Suc.prems(1) show ?thesis
      by (subst core_alloc_n_loop.simps) (auto simp: total_pages_zero)
  next
    case 3
    obtain ch s1 bs1 m where a: "core_alloc (int n) s = Some (ch, s1)" "core_rep s1 bs1" "same_ram s s1"
      "block_ok (header_block ch)" "snd (header_block ch) = min n m" "m \<in> set (map snd bs)"
      "free_bytes bs = free_bytes bs1 \<union> block_bytes (header_block ch)" "free_bytes bs1 \<inter> block_bytes (header_block ch) = {}"
      "m < n \<Longrightarrow> total_pages bs = total_pages bs1 + m \<and> length bs = Suc (length bs1)"
      by (rule core_alloc_effect[OF Suc.prems(1) 3(2,1) Suc.prems(4)]) (rule that; assumption)
    have nz: "no_blocks ch \<noteq> 0" "uint (no_blocks ch) = int (min n m)"
      using a(4,5) by (auto simp: block_ok_def header_block_def uint_nat)
    have ram: "in_ram s1 (free_bytes bs1)" "in_ram s1 (block_bytes (header_block ch))"
      using Suc.prems(2) a(7) in_ram_cong[OF a(3)] by (auto intro: in_ram_mono)
    have fr: "fragments s1 (free_bytes bs1) (ch # chs)"
      using Suc.prems(3) a(4,7,8) ram(2) fragments_cong[OF a(3)] by (auto simp: Int_commute)
    obtain res where r: "core_alloc_n_loop room (int (n - min n m)) (ch # chs) s1 = Some res"
      "alloc_n_result s1 bs1 room (n - min n m) (ch # chs) res"
      using Suc.IH[OF a(2) ram(1) fr, of "n - min n m"] Suc.prems(4) less_imp_diff_less by blast
    have "core_alloc_n_loop (Suc room) (int n) chs s = Some res"
      using 3 a(1) nz r(1) by (subst core_alloc_n_loop.simps) (simp add: of_nat_diff)
    moreover have "alloc_n_result s bs (Suc room) n chs res"
    proof -
      obtain r chs' s' where res: "res = (r, chs', s')" by (metis prod_cases3)
      then obtain bs' where b: "core_rep s' bs'" "same_ram s1 s'"
        "free_bytes bs' \<union> header_bytes chs' = free_bytes bs \<union> header_bytes chs"
        "if r = ENOMEM then chs' = [] \<and> 0 < n - min n m \<and> \<not> (n - min n m \<le> total_pages bs1 \<and> length bs1 \<le> room)
         else r = int (length chs') \<and> length chs' \<le> room + length (ch # chs) \<and> got chs' = n - min n m + got (ch # chs) \<and>
           fragments s' (free_bytes bs') (rev chs')"
        using r(2) a(7) by (auto simp: alloc_n_result_def header_bytes_Cons Un_assoc)
      have "if r = ENOMEM then chs' = [] \<and> 0 < n \<and> \<not> (n \<le> total_pages bs \<and> length bs \<le> Suc room)
         else r = int (length chs') \<and> length chs' \<le> Suc room + length chs \<and> got chs' = n + got chs \<and>
           fragments s' (free_bytes bs') (rev chs')"
        using b(4) a(5,9) by (cases "r = ENOMEM") (auto simp: got_Cons min_def split: if_splits)
      moreover have "same_ram s s'" using a(3) b(2) by (simp add: same_ram_def)
      ultimately show ?thesis using b(1,3) unfolding alloc_n_result_def res by blast
    qed
    ultimately show ?thesis by blast
  qed
qed

section \<open>Initialization\<close>

text \<open>The free blocks that the usable segments stand for.\<close>

definition seg_block :: "memory_map_descriptor \<Rightarrow> block" where
  "seg_block seg = (unat (base_addr seg), unat (seg_length seg) div 4096)"

text \<open>Segments as a BIOS reports them, up to the first of type 0.\<close>

definition usable :: "memory_map_descriptor list \<Rightarrow> memory_map_descriptor list" where
  "usable segs = filter (\<lambda>seg. seg_type seg = 1) (takeWhile (\<lambda>seg. seg_type seg \<noteq> 0) segs)"

lemma u8_less_one: "(x :: u8) < 1 \<longleftrightarrow> x = 0"
  by (simp add: word_less_nat_alt unat_eq_zero)

lemma add_segments_correct:
  assumes "t \<noteq> 0" "t \<notin> base_addr ` set (usable segs)" "distinct (map base_addr (usable segs))" "0 \<notin> base_addr ` set (usable segs)"
  shows "\<exists>t' i' s'. add_segments segs i t s = (t', i', s') \<and> i' = i + length (takeWhile (\<lambda>seg. seg_type seg \<noteq> 0) segs) \<and>
    ram_segments s' = ram_segments s \<and> first_block s' = first_block s \<and>
    lseg (next_block s') t (t # map base_addr (usable segs)) (next_block s' t') \<and> t' = last (t # map base_addr (usable segs)) \<and>
    (\<forall>a. a \<notin> base_addr ` set (usable segs) \<longrightarrow> no_pages s' a = no_pages s a) \<and>
    (\<forall>seg \<in> set (usable segs). no_pages s' (base_addr seg) = seg_length seg div 4096) \<and>
    (\<forall>a. a \<noteq> t \<and> a \<notin> base_addr ` set (usable segs) \<longrightarrow> next_block s' a = next_block s a)"
  using assms
proof (induction segs arbitrary: i t s)
  case Nil
  then show ?case by (simp add: usable_def)
next
  case (Cons seg segs)
  consider "seg_type seg = 1" | "seg_type seg = 0" | "seg_type seg \<noteq> 0" "seg_type seg \<noteq> 1" by blast
  then show ?case
  proof cases
    case 1
    let ?b = "base_addr seg"
    let ?s = "set_pages ?b (seg_length seg div 4096) (set_next t ?b s)"
    have u: "usable (seg # segs) = seg # usable segs" using 1 by (simp add: usable_def)
    have p: "?b \<noteq> 0" "?b \<notin> base_addr ` set (usable segs)" "t \<noteq> ?b" "t \<notin> base_addr ` set (usable segs)" "t \<noteq> 0"
      "distinct (map base_addr (usable segs))" "0 \<notin> base_addr ` set (usable segs)" using Cons.prems u by auto
    obtain t' i' s' where r: "add_segments segs (i + 1) ?b ?s = (t', i', s')"
      "i' = i + 1 + length (takeWhile (\<lambda>seg. seg_type seg \<noteq> 0) segs)" "ram_segments s' = ram_segments s" "first_block s' = first_block s"
      "lseg (next_block s') ?b (?b # map base_addr (usable segs)) (next_block s' t')" "t' = last (?b # map base_addr (usable segs))"
      "\<forall>a. a \<notin> base_addr ` set (usable segs) \<longrightarrow> no_pages s' a = no_pages ?s a"
      "\<forall>seg \<in> set (usable segs). no_pages s' (base_addr seg) = seg_length seg div 4096"
      "\<forall>a. a \<noteq> ?b \<and> a \<notin> base_addr ` set (usable segs) \<longrightarrow> next_block s' a = next_block ?s a"
      using Cons.IH[of ?b "i + 1" ?s] p by auto
    have "next_block s' t = ?b" "no_pages s' ?b = seg_length seg div 4096" using r(7,9) p by auto
    then show ?thesis using r p 1 by (simp add: u)
  next
    case 2
    then show ?thesis using Cons.prems by (simp add: usable_def u8_less_one)
  next
    case 3
    then have "usable (seg # segs) = usable segs" by (simp add: usable_def)
    then show ?thesis using Cons.IH[of t "i + 1" s] Cons.prems 3 by (simp add: u8_less_one)
  qed
qed

lemma find_segment_dropWhile:
  assumes "\<not> base_addr seg + seg_length seg < loc"
  shows "\<exists>k rest. find_segment (pre @ seg # post) loc i = Some (i + k) \<and> k \<le> length pre \<and> drop k pre = rest \<and>
    rest = dropWhile (\<lambda>x. base_addr x + seg_length x < loc) pre"
  using assms
proof (induction pre arbitrary: i)
  case (Cons x pre)
  then obtain k where "find_segment (pre @ seg # post) loc (i + 1) = Some (i + 1 + k)" "k \<le> length pre"
    "drop k pre = dropWhile (\<lambda>x. base_addr x + seg_length x < loc) pre" by blast
  then show ?case by (cases "base_addr x + seg_length x < loc") (auto intro: exI[of _ "Suc k"])
qed simp

lemma add_segments_reserved:
  "\<forall>x \<in> set rest. 1 < seg_type x \<Longrightarrow> add_segments (rest @ segs) i t s = add_segments segs (i + length rest) t s"
  by (induction rest arbitrary: i) (auto simp: word_less_nat_alt)

lemma seg_blocks_distinct:
  assumes "blocks_ok (map seg_block segs)"
  shows "distinct (map base_addr segs)" "0 \<notin> base_addr ` set segs"
  using assms by (induction segs) (auto simp: blocks_ok_Cons before_def block_ok_def seg_block_def)

lemma initialize_core_spec:
  assumes segs: "ram_segments s = pre @ seg # post"
    "\<forall>x \<in> set (dropWhile (\<lambda>x. base_addr x + seg_length x < loc) pre). 1 < seg_type x"
    and seg: "seg_type seg = 1" "base_addr seg = loc" "unat loc + unat (seg_length seg) < 2 ^ 32"
    and ok: "blocks_ok (map seg_block (usable (seg # post)))"
  shows "\<exists>s'. initialize_core_info loc s = Some s' \<and> core_rep s' (map seg_block (usable (seg # post))) \<and>
    ram_segments s' = ram_segments s \<and>
    no_of_ram_segments s' = length pre + length (takeWhile (\<lambda>seg. seg_type seg \<noteq> 0) (seg # post))"
proof -
  have u: "usable (seg # post) = seg # usable post" using seg(1) by (simp add: usable_def)
  note d = seg_blocks_distinct[OF ok]
  have d1: "loc \<noteq> 0" "loc \<notin> base_addr ` set (usable post)" "distinct (map base_addr (usable post))" "0 \<notin> base_addr ` set (usable post)"
    using d seg(2) by (auto simp: u)
  have "unat (loc + seg_length seg) = unat loc + unat (seg_length seg)" using seg(3) by (subst unat_add_lem[THEN iffD1]) simp_all
  then have "\<not> base_addr seg + seg_length seg < loc" using seg(2) by (simp add: word_less_nat_alt)
  then obtain k where f: "find_segment (ram_segments s) loc 0 = Some k" "k \<le> length pre" "\<forall>x \<in> set (drop k pre). 1 < seg_type x"
    using find_segment_dropWhile[of seg loc pre post 0] segs by auto
  define hd_seg where "hd_seg = (pre @ seg # post) ! k"
  define s0 where "s0 = set_next loc 0 (set_pages loc ((base_addr hd_seg + seg_length hd_seg - loc) div 4096) (set_first loc s))"
  define s1 where "s1 = set_pages loc (seg_length seg div 4096) (set_next loc loc s0)"
  obtain t' i' s2 where r: "add_segments post (length pre + 1) loc s1 = (t', i', s2)"
    "i' = length pre + 1 + length (takeWhile (\<lambda>seg. seg_type seg \<noteq> 0) post)"
    "ram_segments s2 = ram_segments s1" "first_block s2 = first_block s1"
    "lseg (next_block s2) loc (loc # map base_addr (usable post)) (next_block s2 t')" "t' = last (loc # map base_addr (usable post))"
    "\<forall>a. a \<notin> base_addr ` set (usable post) \<longrightarrow> no_pages s2 a = no_pages s1 a"
    "\<forall>seg \<in> set (usable post). no_pages s2 (base_addr seg) = seg_length seg div 4096"
    using add_segments_correct[OF d1, of "length pre + 1" s1] by blast
  have sk: "add_segments (drop k (pre @ seg # post)) k loc s0 = (t', i', s2)"
    using add_segments_reserved[OF f(3), of "seg # post" k loc s0] f(2) seg r(1) by (simp add: s1_def)
  define s' where "s' = set_next t' 0 (s2\<lparr>no_of_ram_segments := i'\<rparr>)"
  have "ram_segments s0 = pre @ seg # post" by (simp add: s0_def segs(1))
  then have res: "initialize_core_info loc s = Some s'"
    unfolding initialize_core_info_def f(1) using sk segs(1) by (simp add: Let_def s0_def hd_seg_def s'_def)
  have at: "map (block_at s') (loc # map base_addr (usable post)) = map seg_block (usable (seg # post))"
    using r(7,8) d1(2) by (auto simp: s'_def u block_at_def seg_block_def s1_def unat_div seg(2))
  have "chain (next_block s') loc (loc # map base_addr (usable post))"
    using lseg_set_last[OF r(5), of 0] d1 r(6) by (simp add: s'_def)
  moreover have "first_block s' = loc" using r(4) by (simp add: s'_def s1_def s0_def)
  ultimately have "core_chain s' (loc # map base_addr (usable post))" unfolding core_chain_def at using ok by simp
  then have "core_rep s' (map seg_block (usable (seg # post)))" unfolding core_rep_def at[symmetric] by blast
  with res show ?thesis using r(2,3) seg(1) by (auto simp: s'_def s1_def s0_def)
qed

section \<open>Properties\<close>

text \<open>A small memory: one free block of 16 pages at 1 MB.\<close>

definition core_example :: core where
  "core_example = \<lparr>first_block = 0x100000, no_pages = (\<lambda>_. 0)(0x100000 := 16), next_block = \<lambda>_. 0,
     ram_segments = [\<lparr>base_addr = 0x100000, seg_length = 0x10000, seg_type = 1\<rparr>], no_of_ram_segments = 1\<rparr>"

lemma core_example_rep: "core_rep core_example [(0x100000, 16)]"
  unfolding core_rep_def
  by (intro exI[of _ "[0x100000]"]) (simp add: core_chain_def core_example_def blocks_ok_def block_at_def block_ok_def)

lemma core_example_ram: "in_ram core_example (free_bytes [(0x100000, 16)])"
  by (auto simp: in_ram_def core_example_def block_bytes_def)

text \<open>C14: \<^verbatim>\<open>core_alloc\<close> returns a block of free memory and takes exactly this block out of the free
  list. If some free block has at least \<^verbatim>\<open>npages\<close> pages the block has \<^verbatim>\<open>npages\<close> pages, otherwise it
  is a largest free block (with 0 pages when no memory is free).\<close>

theorem core_alloc_correct:
  assumes "core_rep s bs" "0 < n" "n < 2 ^ 20"
  shows "\<exists>ch s' bs'. core_alloc (int n) s = Some (ch, s') \<and> core_rep s' bs' \<and>
    free_bytes bs = free_bytes bs' \<union> block_bytes (header_block ch) \<and>
    free_bytes bs' \<inter> block_bytes (header_block ch) = {} \<and>
    snd (header_block ch) = min n (Max (insert 0 (set (map snd bs))))"
proof (cases "bs = []")
  case True
  then show ?thesis using assms(1) total_pages_zero[of s "int n"] by (auto simp: header_block_def block_bytes_def)
next
  case False
  obtain ch s' bs' m where r: "core_alloc (int n) s = Some (ch, s')" "core_rep s' bs'"
    "snd (header_block ch) = min n m" "m \<in> set (map snd bs)" "m < n \<Longrightarrow> \<forall>p \<in> set (map snd bs). p \<le> m"
    "free_bytes bs = free_bytes bs' \<union> block_bytes (header_block ch)" "free_bytes bs' \<inter> block_bytes (header_block ch) = {}"
    by (rule core_alloc_effect[OF assms(1) False assms(2,3)]) (rule that; assumption)
  have "min n m = min n (Max (insert 0 (set (map snd bs))))"
  proof (cases "m < n")
    case True
    then have "Max (insert 0 (set (map snd bs))) = m" using r(4,5) by (intro Max_eqI) auto
    then show ?thesis by simp
  next
    case False
    moreover have "m \<le> Max (insert 0 (set (map snd bs)))" using r(4) by (intro Max_ge) auto
    ultimately show ?thesis by simp
  qed
  with r show ?thesis by auto
qed

theorem core_alloc_correct_witness:
  "\<exists>ch s' bs'. core_alloc 3 core_example = Some (ch, s') \<and> core_rep s' bs' \<and> snd (header_block ch) = 3 \<and>
    free_bytes bs' \<inter> block_bytes (header_block ch) = {}"
  using core_alloc_correct[OF core_example_rep, of 3] by auto

text \<open>C15: \<^verbatim>\<open>core_free\<close> of a block in usable memory that overlaps no free block adds exactly this
  block to the free memory, and the free list stays sorted and without overlaps.\<close>

theorem core_free_correct:
  assumes "core_rep s bs" "block_ok (header_block ch)" "in_ram s (block_bytes (header_block ch))"
    "block_bytes (header_block ch) \<inter> free_bytes bs = {}"
  shows "\<exists>s' bs'. core_free ch s = Some s' \<and> core_rep s' bs' \<and> blocks_ok bs' \<and>
    free_bytes bs' = free_bytes bs \<union> block_bytes (header_block ch)"
  using core_free_spec[OF assms(1,2,4) in_ram_valid[OF assms(3,2)]] by (auto simp: core_rep_def core_chain_def)

theorem core_free_correct_witness:
  "\<exists>s' bs'. core_free \<lparr>phys_addr = 0x102000, no_blocks = 2\<rparr>
      (core_example\<lparr>no_pages := (\<lambda>_. 0)(0x100000 := 2)\<rparr>) = Some s' \<and> core_rep s' bs' \<and> free_bytes bs' = {0x100000 ..< 0x104000}"
proof -
  let ?s = "core_example\<lparr>no_pages := (\<lambda>_. 0)(0x100000 := 2)\<rparr>"
  have "core_rep ?s [(0x100000, 2)]" unfolding core_rep_def
    by (intro exI[of _ "[0x100000]"]) (simp add: core_chain_def core_example_def blocks_ok_def block_at_def block_ok_def)
  from core_free_correct[OF this, of "\<lparr>phys_addr = 0x102000, no_blocks = 2\<rparr>"]
  show ?thesis by (auto simp: header_block_def block_ok_def block_bytes_def in_ram_def core_example_def ivl_disj_un)
qed

text \<open>C16: \<^verbatim>\<open>core_alloc_n\<close> either collects fragments with exactly \<open>n\<close> pages in all, pairwise disjoint
  and disjoint from what stays free, or it returns \<^verbatim>\<open>ENOMEM\<close> with the free memory as before. It
  succeeds whenever \<open>n\<close> pages are free and the array has room for as many fragments as there are
  free blocks.\<close>

theorem core_alloc_n_correct:
  assumes "core_rep s bs" "in_ram s (free_bytes bs)" "n < 2 ^ 20"
  shows "\<exists>r chs s' bs'. core_alloc_n (int n) chmax s = Some (r, chs, s') \<and> core_rep s' bs' \<and>
    free_bytes bs = free_bytes bs' \<union> header_bytes chs \<and>
    (if r = ENOMEM then chs = [] \<and> (total_pages bs < n \<or> chmax < length bs)
     else r = int (length chs) \<and> length chs \<le> chmax \<and> got chs = n \<and> fragments s' (free_bytes bs') (rev chs))"
proof -
  obtain r chs s' where "core_alloc_n (int n) chmax s = Some (r, chs, s')" "alloc_n_result s bs chmax n [] (r, chs, s')"
    using core_alloc_n_loop_spec[OF assms(1,2) _ assms(3), of "[]" chmax] by (auto simp: core_alloc_n_def)
  then show ?thesis by (fastforce simp: alloc_n_result_def header_bytes_def got_def total_pages_def split: if_splits)
qed

theorem core_alloc_n_correct_witness:
  "\<exists>chs s' bs'. core_alloc_n 5 4 core_example = Some (int (length chs), chs, s') \<and> core_rep s' bs' \<and> got chs = 5"
  using core_alloc_n_correct[OF core_example_rep core_example_ram, of 5 4]
  by (auto simp: total_pages_def split: if_splits)

text \<open>The memory map that the BIOS of the bundled emulator reports for 32 MB (\<^verbatim>\<open>bochs/bochs-2.3/bios/rombios.c\<close>,
  function \<^verbatim>\<open>0xe820\<close>), with the first unused entry after it. The third segment ends exactly at 1 MB, the first
  free location that \<^verbatim>\<open>initboot.asm\<close> passes.\<close>

definition bochs_map :: "memory_map_descriptor list" where
  "bochs_map = [\<lparr>base_addr = 0, seg_length = 0x9fc00, seg_type = 1\<rparr>, \<lparr>base_addr = 0x9fc00, seg_length = 0x400, seg_type = 2\<rparr>,
     \<lparr>base_addr = 0xe8000, seg_length = 0x18000, seg_type = 2\<rparr>, \<lparr>base_addr = 0x100000, seg_length = 0x1f00000, seg_type = 1\<rparr>,
     \<lparr>base_addr = 0xfffc0000, seg_length = 0x40000, seg_type = 2\<rparr>, \<lparr>base_addr = 0, seg_length = 0, seg_type = 0\<rparr>]"

text \<open>C25: At boot, with the first free location at the start of a usable RAM segment and only segments
  that end below it or reserved ones before it, \<^verbatim>\<open>initialize_core_info\<close> makes the free list of the whole
  pages of that and the following usable segments, in order, up to the first unused entry, and counts the
  segments up to there. A reserved segment may end exactly at the first free location, as on the map of the
  bundled BIOS, where the scan for the first segment stops one too early.\<close>

theorem initialize_core_correct:
  assumes "ram_segments s = pre @ seg # post"
    "\<forall>x \<in> set (dropWhile (\<lambda>x. base_addr x + seg_length x < loc) pre). 1 < seg_type x"
    "seg_type seg = 1" "base_addr seg = loc" "unat loc + unat (seg_length seg) < 2 ^ 32"
    "blocks_ok (map seg_block (usable (seg # post)))"
  shows "\<exists>s'. initialize_core_info loc s = Some s' \<and> core_rep s' (map seg_block (usable (seg # post))) \<and>
    no_of_ram_segments s' = length pre + length (takeWhile (\<lambda>seg. seg_type seg \<noteq> 0) (seg # post))"
  using initialize_core_spec[OF assms] by blast

theorem initialize_core_correct_witness:
  "\<exists>s'. initialize_core_info 0x100000 (core_example\<lparr>ram_segments := bochs_map\<rparr>) = Some s' \<and> core_rep s' [(0x100000, 0x1f00)] \<and>
    no_of_ram_segments s' = length (butlast bochs_map)"
  using initialize_core_correct[where s = "core_example\<lparr>ram_segments := bochs_map\<rparr>" and pre = "take 3 bochs_map"
    and seg = "bochs_map ! 3" and post = "drop 4 bochs_map" and loc = "0x100000"]
  by (simp add: bochs_map_def usable_def seg_block_def blocks_ok_def block_ok_def)

end
