(* ===== verification/Kmalloc.thy ===== *)
theory Kmalloc
  imports Heap_Lists Core_Memory
begin

text \<open>The kernel heap (\<^verbatim>\<open>kmalloc\<close> and \<^verbatim>\<open>kfree\<close> of \<^verbatim>\<open>base/vmmap.c\<close>): the block lists of \<^verbatim>\<open>Heap_Lists\<close> on top of
  the page allocator of \<^verbatim>\<open>Core_Memory\<close>, from which both the memory of the blocks and the pages of the
  nodes come. The invariant says that free core, node pages, available and used blocks are pairwise
  disjoint; the lemmas show that every branch of the two operations keeps it.\<close>

section \<open>Definitions\<close>

record kheap = mem_info +
  kmcount :: int
  kcore :: core

definition insert_avail_node :: "u32 \<Rightarrow> kheap \<Rightarrow> kheap option" where
  "insert_avail_node p s = map_option (\<lambda>(s, merged). s\<lparr>kmcount := kmcount s - merged\<rparr>) (insert_node p s)"

definition delete_avail_node :: "u32 \<Rightarrow> kheap \<Rightarrow> kheap option" where
  "delete_avail_node p s = delete_node p s"

text \<open>The part of \<^verbatim>\<open>create_mem_list_node\<close> after the first page of nodes is there; 0 is the null pointer.\<close>

definition search_mem_list_node :: "kheap \<Rightarrow> (u32 \<times> kheap) option" where
  "search_mem_list_node s =
     Option.bind (node_search s (malloc_info s) 0) (\<lambda>r. case r of
         Inl p1 \<Rightarrow> Some (p1, s)
       | Inr ptr2 \<Rightarrow> map_option (\<lambda>(chead, c).
           let s = s\<lparr>kcore := c\<rparr>; ptr1 = phys_addr chead in
           if no_blocks chead < 1 then (0, s)
           else (ptr1, clear_page ptr1 (s\<lparr>info_next := (info_next s)(ptr2 := ptr1)\<rparr>))) (core_alloc 1 (kcore s)))"

definition create_mem_list_node :: "kheap \<Rightarrow> (u32 \<times> kheap) option" where
  "create_mem_list_node s =
     (if malloc_info s = 0 then
        Option.bind (core_alloc 1 (kcore s)) (\<lambda>(chead, c).
          let s = s\<lparr>kcore := c\<rparr> in
          if no_blocks chead < 1 then Some (0, s)
          else search_mem_list_node (clear_page (phys_addr chead) (s\<lparr>malloc_info := phys_addr chead\<rparr>)))
      else search_mem_list_node s)"

definition MALLOC_MAX :: u32 where
  "MALLOC_MAX = 0x01000000"

definition count_node :: "kheap \<Rightarrow> kheap" where
  "count_node s = s\<lparr>kmcount := kmcount s + 1\<rparr>"

definition kcore_free :: "core_header \<Rightarrow> kheap \<Rightarrow> kheap option" where
  "kcore_free ch s = map_option (\<lambda>c. s\<lparr>kcore := c\<rparr>) (core_free ch (kcore s))"

text \<open>Giving out \<open>sz\<close> bytes of the block \<open>p1\<close>; a null \<open>p1\<close> would be dereferenced.\<close>

definition kmalloc_take :: "u32 \<Rightarrow> u32 \<Rightarrow> kheap \<Rightarrow> (u32 \<times> kheap) option" where
  "kmalloc_take sz p1 s =
     (if p1 \<noteq> 0 \<and> sz < m_size s p1 then
        map_option (\<lambda>(p3, s).
          let s = count_node s in
          if p3 = 0 then (0, s)
          else let s = link_used p3 (split_block p1 p3 sz s) in (m_addr s p3, s)) (create_mem_list_node s)
      else if p1 = 0 then None
      else map_option (\<lambda>s. let s = link_used p1 (set_size p1 sz s) in (m_addr s p1, s)) (delete_avail_node p1 s))"

text \<open>New core for the heap, as a block of the available list; the flag tells whether the search is to
  be repeated (\<^verbatim>\<open>goto kmalloc_1\<close>).\<close>

definition kmalloc_add :: "core_header \<Rightarrow> kheap \<Rightarrow> (bool \<times> kheap) option" where
  "kmalloc_add chead s = Option.bind (create_mem_list_node s) (\<lambda>(p1, s).
     let s = count_node s in
     if p1 = 0 then map_option (Pair False) (kcore_free chead s)
     else map_option (Pair True)
       (insert_avail_node p1 (set_link p1 0 (set_size p1 (no_blocks chead * 4096) (set_addr p1 (phys_addr chead) s)))))"

definition kmalloc_extend :: "u32 \<Rightarrow> kheap \<Rightarrow> (bool \<times> kheap) option" where
  "kmalloc_extend sz s =
     Option.bind (core_alloc (uint ((sz + 4095) div 4096)) (kcore s)) (\<lambda>(chead, c).
       let s = s\<lparr>kcore := c\<rparr> in
       if no_blocks chead * 4096 < sz then
         if 0 < no_blocks chead then map_option (Pair False) (kcore_free chead s) else Some (False, s)
       else kmalloc_add chead s)"

partial_function (option) kmalloc_loop :: "u32 \<Rightarrow> kheap \<Rightarrow> (u32 \<times> kheap) option" where
  "kmalloc_loop sz s =
     Option.bind (best_fit s sz (avail_list s) (False, 0xefffffff, 0)) (\<lambda>(avl, hole, p1).
       if avl then kmalloc_take sz p1 s
       else Option.bind (kmalloc_extend sz s) (\<lambda>(again, s). if again then kmalloc_loop sz s else Some (0, s)))"

text \<open>\<^verbatim>\<open>kmalloc\<close> returns the address of the block, 0 when there is none; \<^verbatim>\<open>kmalloc_lock\<close> is held
  throughout.\<close>

definition kmalloc :: "u32 \<Rightarrow> kheap \<Rightarrow> (u32 \<times> kheap) option" where
  "kmalloc sz s = (if sz \<le> 0 then Some (0, s) else if MALLOC_MAX < sz then Some (0, s) else kmalloc_loop sz s)"

definition kfree :: "u32 \<Rightarrow> kheap \<Rightarrow> kheap option" where
  "kfree ptr s =
     (if ptr = 0 then Some s
      else Option.bind (used_find s ptr (used_list s) 0) (\<lambda>(p1, p2).
        if p1 \<noteq> 0 then insert_avail_node p1 (unlink_used p1 p2 s) else Some s))"

section \<open>The invariant\<close>

lemma kheap_cong [simp]:
  "heap_ok (s\<lparr>kcore := c\<rparr>) = heap_ok s" "heap_bytes (s\<lparr>kcore := c\<rparr>) = heap_bytes s" "blk (s\<lparr>kcore := c\<rparr>) = blk s"
  "heap_ok (s\<lparr>kmcount := k\<rparr>) = heap_ok s" "heap_bytes (s\<lparr>kmcount := k\<rparr>) = heap_bytes s" "blk (s\<lparr>kmcount := k\<rparr>) = blk s"
  by (rule heap_cong; simp)+

text \<open>\<open>bs\<close> is the free core, \<open>A\<close>, \<open>U\<close> and \<open>P\<close> are the nodes of available and used blocks and the node
  pages; \<open>B\<close> is memory taken from the core that the heap does not yet hold. Everything lies below the
  bound of the best-fit search.\<close>

definition kmem_ok :: "kheap \<Rightarrow> block list \<Rightarrow> u32 list \<Rightarrow> u32 list \<Rightarrow> u32 list \<Rightarrow> nat set \<Rightarrow> bool" where
  "kmem_ok s bs A U P B \<longleftrightarrow> heap_ok s A U P \<and> core_rep (kcore s) bs \<and> in_ram (kcore s) (free_bytes bs \<union> B) \<and>
     free_bytes bs \<inter> heap_bytes s A U P = {} \<and> free_bytes bs \<union> B \<subseteq> {..< 0xeffffffe} \<and>
     B \<inter> free_bytes bs = {} \<and> B \<inter> heap_bytes s A U P = {}"

definition big :: "block list \<Rightarrow> nat \<Rightarrow> bool" where
  "big bs k \<longleftrightarrow> (\<exists>p \<in> set (map snd bs). k \<le> p)"

lemma big_mono: "big bs k \<Longrightarrow> j \<le> k \<Longrightarrow> big bs j"
  using order_trans by (auto simp: big_def)

lemma big_Nil [simp]: "\<not> big [] k"
  by (simp add: big_def)

text \<open>Taking pages from the core.\<close>

lemma kcore_alloc:
  assumes k: "kmem_ok s bs A U P B" and n: "0 < n" "n < 2 ^ 20"
  obtains (empty) "bs = []" "core_alloc (int n) (kcore s) = Some (\<lparr>phys_addr = 0, no_blocks = 0\<rparr>, kcore s)"
  | (block) ch c bs' m where "core_alloc (int n) (kcore s) = Some (ch, c)" "block_ok (header_block ch)"
      "snd (header_block ch) = min n m" "big bs n \<Longrightarrow> n \<le> m" "no_blocks ch \<noteq> 0"
      "kmem_ok (s\<lparr>kcore := c\<rparr>) bs' A U P (B \<union> block_bytes (header_block ch))" "B \<inter> block_bytes (header_block ch) = {}"
      "\<And>k. 0 < k \<Longrightarrow> big bs (n + k) \<Longrightarrow> big bs' k"
proof (cases "bs = []")
  case True
  then show ?thesis using empty k total_pages_zero by (auto simp: kmem_ok_def)
next
  case False
  note kk = k[unfolded kmem_ok_def]
  obtain ch c bs' m where r: "core_alloc (int n) (kcore s) = Some (ch, c)" "core_rep c bs'" "same_ram (kcore s) c"
    "block_ok (header_block ch)" "snd (header_block ch) = min n m"
    "m < n \<Longrightarrow> \<forall>p \<in> set (map snd bs). p \<le> m"
    "free_bytes bs = free_bytes bs' \<union> block_bytes (header_block ch)" "free_bytes bs' \<inter> block_bytes (header_block ch) = {}"
    "\<And>k. 0 < k \<Longrightarrow> \<exists>p \<in> set (map snd bs). n + k \<le> p \<Longrightarrow> \<exists>p \<in> set (map snd bs'). k \<le> p"
    by (rule core_alloc_effect[of "kcore s" bs n]) (use kk False n in \<open>assumption | blast intro: that\<close>)+
  have same: "free_bytes bs' \<union> (B \<union> block_bytes (header_block ch)) = free_bytes bs \<union> B" using r(7) by auto
  have ram: "in_ram c (free_bytes bs' \<union> (B \<union> block_bytes (header_block ch)))"
    unfolding same in_ram_cong[OF r(3)] using kk by blast
  show ?thesis
  proof (rule block[where ch = ch and c = c and bs' = bs' and m = m, OF r(1,4,5)])
    show "n \<le> m" if "big bs n" using that r(6) by (force simp: big_def not_less[symmetric])
    show "no_blocks ch \<noteq> 0" using r(4) by (auto simp: block_ok_def header_block_def)
    show "kmem_ok (s\<lparr>kcore := c\<rparr>) bs' A U P (B \<union> block_bytes (header_block ch))"
      unfolding kmem_ok_def kheap_cong same using kk r(2,7,8) ram[unfolded same] by (intro conjI) auto
    show "B \<inter> block_bytes (header_block ch) = {}" using kk r(7) by auto
    show "big bs' k" if "0 < k" "big bs (n + k)" for k using r(9) that by (simp add: big_def)
  qed
qed

section \<open>Nodes\<close>

text \<open>One page from the core becomes a page of nodes.\<close>

definition new_node :: "kheap \<Rightarrow> block list \<Rightarrow> u32 list \<Rightarrow> u32 list \<Rightarrow> u32 list \<Rightarrow> nat set \<Rightarrow> (u32 \<times> kheap) option \<Rightarrow> bool" where
  "new_node s bs A U P B r \<longleftrightarrow> (\<exists>p s' bs' P'. r = Some (p, s') \<and> kmem_ok s' bs' A U P' B \<and>
     map (blk s') A = map (blk s) A \<and> map (blk s') U = map (blk s) U \<and>
     (p \<noteq> 0 \<longrightarrow> p \<notin> set (A @ U) \<and> unat p \<in> pages_bytes P') \<and> (\<forall>k. big bs (Suc k) \<longrightarrow> p \<noteq> 0 \<and> (0 < k \<longrightarrow> big bs' k)))"

lemma page_header:
  assumes "block_ok (header_block ch)" "snd (header_block ch) = min 1 m"
  shows "page_ok (phys_addr ch)" "block_bytes (header_block ch) = page_bytes (phys_addr ch)" "\<not> no_blocks ch < 1"
proof -
  have n: "unat (no_blocks ch) = 1" using assms by (auto simp: block_ok_def header_block_def min_def split: if_splits)
  then show "page_ok (phys_addr ch)" "block_bytes (header_block ch) = page_bytes (phys_addr ch)" "\<not> no_blocks ch < 1"
    using assms(1) by (auto simp: page_ok_def block_ok_def header_block_def block_bytes_def page_bytes_def word_less_nat_alt)
qed

lemma kmem_new_page:
  assumes k: "kmem_ok s bs A U P (B \<union> page_bytes q)" and q: "page_ok q" "B \<inter> page_bytes q = {}"
  defines "s' \<equiv> clear_page q (if P = [] then s\<lparr>malloc_info := q\<rparr> else s\<lparr>info_next := (info_next s)(last P := q)\<rparr>)"
  shows "kmem_ok s' bs A U (P @ [q]) B" "map (blk s') A = map (blk s) A" "map (blk s') U = map (blk s) U" "m_size s' q = 0"
    "q \<notin> set (A @ U)" "unat q \<in> pages_bytes (P @ [q])" "q \<noteq> 0"
proof -
  note kk = k[unfolded kmem_ok_def]
  have dis: "page_bytes q \<inter> heap_bytes s A U P = {}" using kk by auto
  have h: "heap_ok s A U P" using kk by blast
  note n = heap_new_page[OF h q(1) dis, folded s'_def]
  show "map (blk s') A = map (blk s) A" "map (blk s') U = map (blk s) U" "m_size s' q = 0" using n by blast+
  have "kcore s' = kcore s" by (simp add: s'_def clear_page_def Let_def)
  then show "kmem_ok s' bs A U (P @ [q]) B" unfolding kmem_ok_def n(4) using n(1) kk q(2)
    by (intro conjI) (auto intro: in_ram_mono)
  show "q \<noteq> 0" "unat q \<in> pages_bytes (P @ [q])" using q(1) by (auto simp: page_ok_def pages_bytes_def page_bytes_def)
  have "unat q \<in> page_bytes q" by (simp add: page_bytes_def)
  then show "q \<notin> set (A @ U)" using heap_okD(5)[OF h] dis by (auto simp: heap_bytes_def)
qed

lemma kmem_heap: "kmem_ok s bs A U P B \<Longrightarrow> heap_ok s A U P"
  by (simp add: kmem_ok_def)

lemma search_node_spec:
  assumes k: "kmem_ok s bs A U P B" and P: "P \<noteq> []"
  shows "new_node s bs A U P B (search_mem_list_node s)"
proof (cases rule: heap_node_search[OF kmem_heap[OF k]])
  case (1 p)
  then have "search_mem_list_node s = Some (p, s)" by (simp add: search_mem_list_node_def)
  then show ?thesis unfolding new_node_def using k 1 big_mono[of bs] by (intro exI[of _ p] exI[of _ s] exI[of _ bs] exI[of _ P]) auto
next
  case 2
  show ?thesis
  proof (cases rule: kcore_alloc[OF k, of 1])
    case 3
    then have "search_mem_list_node s = Some (0, s)" using 2 P by (simp add: search_mem_list_node_def)
    then show ?thesis unfolding new_node_def using k 3 by (intro exI[of _ 0] exI[of _ s] exI[of _ bs] exI[of _ P]) auto
  next
    case (4 ch c bs' m)
    note pg = page_header[OF 4(2,3)]
    let ?q = "phys_addr ch"
    have k1: "kmem_ok (s\<lparr>kcore := c\<rparr>) bs' A U P (B \<union> page_bytes ?q)" "B \<inter> page_bytes ?q = {}" using 4(6,7) pg(2) by auto
    note n = kmem_new_page[OF k1(1) pg(1) k1(2)]
    define s' where "s' = clear_page ?q (s\<lparr>kcore := c, info_next := (info_next s)(last P := ?q)\<rparr>)"
    have "search_mem_list_node s = Some (?q, s')" using 2 P 4(1) pg(3) by (simp add: search_mem_list_node_def Let_def s'_def)
    moreover have "kmem_ok s' bs' A U (P @ [?q]) B" "map (blk s') A = map (blk s) A" "map (blk s') U = map (blk s) U"
      using n(1-3) P by (simp_all add: s'_def)
    moreover have "\<forall>k. big bs (Suc k) \<longrightarrow> 0 < k \<longrightarrow> big bs' k" using 4(8) by simp
    ultimately show ?thesis unfolding new_node_def using n(5-7) by blast
  qed simp_all
qed

lemma create_node_spec:
  assumes k: "kmem_ok s bs A U P B"
  shows "new_node s bs A U P B (create_mem_list_node s)"
proof (cases "P = []")
  case False
  have "chain (info_next s) (malloc_info s) P" using k heap_okD(3) by (auto simp: kmem_ok_def)
  then have "malloc_info s \<noteq> 0" using False by (cases P) auto
  then show ?thesis using search_node_spec[OF k False] by (simp add: create_mem_list_node_def)
next
  case True
  have "chain (info_next s) (malloc_info s) P" using k heap_okD(3) by (auto simp: kmem_ok_def)
  then have m0: "malloc_info s = 0" using True by simp
  show ?thesis
  proof (cases rule: kcore_alloc[OF k, of 1])
    case 3
    then have "create_mem_list_node s = Some (0, s)" using m0 by (simp add: create_mem_list_node_def)
    then show ?thesis unfolding new_node_def using k 3 by (intro exI[of _ 0] exI[of _ s] exI[of _ bs] exI[of _ P]) auto
  next
    case (4 ch c bs' m)
    note pg = page_header[OF 4(2,3)]
    let ?q = "phys_addr ch"
    have k1: "kmem_ok (s\<lparr>kcore := c\<rparr>) bs' A U P (B \<union> page_bytes ?q)" "B \<inter> page_bytes ?q = {}" using 4(6,7) pg(2) by auto
    define s1 where "s1 = clear_page ?q (s\<lparr>kcore := c, malloc_info := ?q\<rparr>)"
    note n = kmem_new_page[OF k1(1) pg(1) k1(2)]
    have n1: "kmem_ok s1 bs' A U [?q] B" "map (blk s1) A = map (blk s) A" "map (blk s1) U = map (blk s) U" "m_size s1 ?q = 0"
      using n(1-4) True by (simp_all add: s1_def)
    have "malloc_info s1 = ?q" by (simp add: s1_def clear_page_def Let_def)
    note page_head_free[OF n(7) n1(4) this]
    then have "create_mem_list_node s = Some (?q, s1)"
      using m0 4(1) pg(3) by (simp add: create_mem_list_node_def search_mem_list_node_def Let_def s1_def)
    moreover have "\<forall>k. big bs (Suc k) \<longrightarrow> 0 < k \<longrightarrow> big bs' k" using 4(8) by simp
    ultimately show ?thesis unfolding new_node_def using n1 n(5-7) True by auto
  qed simp_all
qed

section \<open>Allocation\<close>

lemma kmem_count [simp]: "kmem_ok (s\<lparr>kmcount := k\<rparr>) = kmem_ok s" "kmem_ok (count_node s) = kmem_ok s" "blk (count_node s) = blk s"
  by (intro ext; simp add: kmem_ok_def count_node_def)+

lemma count_node_fields [simp]:
  "heap_ok (count_node s) = heap_ok s" "heap_bytes (count_node s) = heap_bytes s" "kcore (count_node s) = kcore s"
  by (simp_all add: count_node_def)

lemma kcore_more: "mem_info.more s' = mem_info.more s \<Longrightarrow> kcore s' = kcore s"
  by (cases s; cases s') simp

definition kmalloc_result :: "kheap \<Rightarrow> u32 list \<Rightarrow> u32 \<Rightarrow> bool \<Rightarrow> (u32 \<times> kheap) option \<Rightarrow> bool" where
  "kmalloc_result s U sz sure r \<longleftrightarrow> (\<exists>a s' bs' A' U' P'. r = Some (a, s') \<and> kmem_ok s' bs' A' U' P' {} \<and>
     map (blk s') U' = (if a = 0 then map (blk s) U else (unat a, unat sz) # map (blk s) U) \<and> (sure \<longrightarrow> a \<noteq> 0))"

lemma kmalloc_resultI:
  assumes "r = Some (a, s')" "kmem_ok s' bs' A' U' P' {}"
    "map (blk s') U' = (if a = 0 then map (blk s) U else (unat a, unat sz) # map (blk s) U)" "sure \<Longrightarrow> a \<noteq> 0"
  shows "kmalloc_result s U sz sure r"
  unfolding kmalloc_result_def using assms by blast

lemma kmalloc_result_mono:
  assumes "kmalloc_result s U sz sure r" "sure' \<Longrightarrow> sure" "map (blk s) U = map (blk t) U"
  shows "kmalloc_result t U sz sure' r"
  using assms(1,2) unfolding kmalloc_result_def assms(3) by blast

lemma kmalloc_take_split:
  assumes k: "kmem_ok s bs (X @ p1 # Y) U P {}" and sz: "sz \<noteq> 0" "sz < m_size s p1"
  shows "kmalloc_result s U sz (big bs 1) (kmalloc_take sz p1 s)"
proof -
  have p1: "p1 \<noteq> 0" using k chain_mid[of "m_next s" "avail_list s" X p1 Y] by (auto simp: kmem_ok_def heap_ok_def avail_def)
  obtain p3 s1 bs1 P1 where n: "create_mem_list_node s = Some (p3, s1)" "kmem_ok s1 bs1 (X @ p1 # Y) U P1 {}"
    "map (blk s1) (X @ p1 # Y) = map (blk s) (X @ p1 # Y)" "map (blk s1) U = map (blk s) U"
    "p3 \<noteq> 0 \<Longrightarrow> p3 \<notin> set ((X @ p1 # Y) @ U) \<and> unat p3 \<in> pages_bytes P1" "big bs (Suc 0) \<Longrightarrow> p3 \<noteq> 0"
    using create_node_spec[OF k] unfolding new_node_def by blast
  show ?thesis
  proof (cases "p3 = 0")
    case True
    then have r: "kmalloc_take sz p1 s = Some (0, count_node s1)" using p1 sz n(1) by (simp add: kmalloc_take_def Let_def)
    show ?thesis by (rule kmalloc_resultI[OF r, of bs1 "X @ p1 # Y" U P1]) (use n(2,4,6) True in \<open>simp_all del: map_eq_conv\<close>)
  next
    case False
    let ?c = "count_node s1"
    have cc: "heap_ok ?c (X @ p1 # Y) U P1" "m_size ?c = m_size s1" "m_addr ?c = m_addr s1" "kmem_ok ?c bs1 (X @ p1 # Y) U P1 {}"
      using n(2) by (simp_all add: kmem_ok_def count_node_def)
    have b1: "m_size s1 p1 = m_size s p1" "m_addr s1 p1 = m_addr s p1" using blk_size[OF n(3), of p1] by auto
    define s' where "s' = link_used p3 (split_block p1 p3 sz ?c)"
    have sz1: "sz < m_size ?c p1" and p3: "p3 \<notin> set (X @ p1 # Y) \<union> set U" "unat p3 \<in> pages_bytes P1"
      using sz(2) b1 cc(2) n(5) False by auto
    note sp = heap_split[OF cc(1) sz(1) sz1 p3(1) False p3(2), folded s'_def]
    have a: "m_addr s' p3 = m_addr s p1" using b1 cc(3) p3(1) by (auto simp: s'_def split_block_def Let_def)
    have nz: "m_addr s p1 \<noteq> 0" using k by (auto simp: kmem_ok_def heap_ok_def avail_def ranges_ok_append ranges_ok_Cons range_ok_def blk_def)
    have r: "kmalloc_take sz p1 s = Some (m_addr s p1, s')"
      using p1 sz(2) n(1) False a by (simp add: kmalloc_take_def Let_def s'_def)
    have "kmem_ok s' bs1 (X @ p1 # Y) (p3 # U) P1 {}"
      using cc(4) sp(1,3) kcore_more[OF sp(4)] by (simp add: kmem_ok_def)
    moreover have "map (blk s') (p3 # U) = (unat (m_addr s p1), unat sz) # map (blk s) U" using sp(2) n(4) cc(3) b1(2) by simp
    ultimately show ?thesis using nz by (intro kmalloc_resultI[OF r, of bs1 "X @ p1 # Y" "p3 # U" P1]) simp_all
  qed
qed

lemma kmalloc_take_exact:
  assumes k: "kmem_ok s bs (X @ p1 # Y) U P {}"
  shows "kmalloc_result s U (m_size s p1) True (kmalloc_take (m_size s p1) p1 s)"
proof -
  have h: "heap_ok s (X @ p1 # Y) U P" using k by (simp add: kmem_ok_def)
  have p1: "p1 \<noteq> 0" "m_addr s p1 \<noteq> 0" using k chain_mid[of "m_next s" "avail_list s" X p1 Y]
    by (auto simp: kmem_ok_def heap_ok_def avail_def ranges_ok_append ranges_ok_Cons range_ok_def blk_def)
  obtain g where g: "delete_node p1 s = Some g" "heap_ok (link_used p1 (set_size p1 (m_size s p1) g)) (X @ Y) (p1 # U) P"
    "map (blk (link_used p1 (set_size p1 (m_size s p1) g))) (p1 # U) = blk s p1 # map (blk s) U"
    "heap_bytes (link_used p1 (set_size p1 (m_size s p1) g)) (X @ Y) (p1 # U) P = heap_bytes s (X @ p1 # Y) U P"
    "mem_info.more g = mem_info.more s" using heap_take_whole[OF h] by (elim exE conjE) (rule that)
  define s' where "s' = link_used p1 (set_size p1 (m_size s p1) g)"
  have a: "m_addr s' p1 = m_addr s p1" using blk_size[of s' "p1 # U" s p1] g(3) by (simp add: s'_def del: list.map) (simp add: blk_def)
  have kc: "kcore s' = kcore s" using g(5) by (intro kcore_more) (simp add: s'_def)
  have r: "kmalloc_take (m_size s p1) p1 s = Some (m_addr s p1, s')"
    using p1 g(1) a by (simp add: kmalloc_take_def delete_avail_node_def Let_def s'_def)
  have "kmem_ok s' bs (X @ Y) (p1 # U) P {}" using k g(2,4) kc by (simp add: kmem_ok_def s'_def[symmetric])
  moreover have "map (blk s') (p1 # U) = (unat (m_addr s p1), unat (m_size s p1)) # map (blk s) U" using g(3) by (simp add: s'_def blk_def)
  ultimately show ?thesis using p1 by (intro kmalloc_resultI[OF r, of bs "X @ Y" "p1 # U" P]) simp_all
qed

lemma kmalloc_take_spec:
  assumes k: "kmem_ok s bs A U P {}" and p1: "p1 \<in> set A" and sz: "sz \<noteq> 0" "sz \<le> m_size s p1"
  shows "kmalloc_result s U sz (big bs 1) (kmalloc_take sz p1 s)"
proof -
  obtain X Y where A: "A = X @ p1 # Y" using p1 by (meson split_list)
  show ?thesis
  proof (cases "sz < m_size s p1")
    case True
    then show ?thesis using kmalloc_take_split k sz(1) by (simp add: A)
  next
    case False
    then have "sz = m_size s p1" using sz(2) by simp
    then show ?thesis using kmalloc_take_exact k by (fastforce simp: A kmalloc_result_def)
  qed
qed

lemma kcore_free_spec:
  assumes k: "kmem_ok s bs A U P (block_bytes (header_block ch))" and ok: "block_ok (header_block ch)"
  shows "\<exists>s' bs'. kcore_free ch s = Some s' \<and> kmem_ok s' bs' A U P {} \<and> blk s' = blk s"
proof -
  note kk = k[unfolded kmem_ok_def]
  have "is_valid_block (kcore s) ch" using kk ok by (intro in_ram_valid) (auto intro: in_ram_mono)
  then obtain c bs' where c: "core_free ch (kcore s) = Some c" "core_rep c bs'"
    "free_bytes bs' = free_bytes bs \<union> block_bytes (header_block ch)" "same_ram (kcore s) c"
    using core_free_spec[of "kcore s" bs ch] kk ok by blast
  have "kmem_ok (s\<lparr>kcore := c\<rparr>) bs' A U P {}"
    unfolding kmem_ok_def kheap_cong c(3) using kk c(2) in_ram_cong[OF c(4)] by auto
  then show ?thesis using c(1) by (auto simp: kcore_free_def)
qed

text \<open>The new block joins the available list.\<close>

lemma kmem_insert:
  assumes k: "kmem_ok s bs A U P (range_bytes (a, n))" and p: "p \<notin> set (A @ U)" "p \<noteq> 0" "unat p \<in> pages_bytes P"
    and b: "blk s p = (a, n)" "0 < a" "0 < n"
  shows "\<exists>s' A'. insert_avail_node p s = Some s' \<and> kmem_ok s' bs A' U P {} \<and> map (blk s') U = map (blk s) U \<and>
    bytes (map (blk s') A') = bytes (map (blk s) A) \<union> range_bytes (a, n)"
proof -
  note kk = k[unfolded kmem_ok_def]
  have "a + n - 1 \<in> range_bytes (a, n)" using b(3) by (auto simp: range_bytes_def)
  then have "a + n - 1 < 0xeffffffe" using kk by blast
  then have ok: "range_ok (blk s p)" using b by (simp add: range_ok_def)
  obtain g m A' where g: "insert_node p s = Some (g, m)" "heap_ok g A' U P" "only_nodes (insert p (set A)) s g"
    "heap_bytes g A' U P = heap_bytes s A U P \<union> range_bytes (a, n)" "map (blk g) U = map (blk s) U"
    "bytes (map (blk g) A') = bytes (map (blk s) A) \<union> range_bytes (a, n)"
    using heap_insert[of s A U P p] kk p ok b(1) by auto
  have kc: "kcore g = kcore s" using g(3) by (intro kcore_more) (simp add: only_nodes_def)
  have "kmem_ok g bs A' U P {}" unfolding kmem_ok_def g(4) kc using kk g(2) by (auto intro: in_ram_mono)
  then show ?thesis using g(1,5,6) by (auto simp: insert_avail_node_def simp del: map_eq_conv)
qed

definition pages_for :: "u32 \<Rightarrow> nat" where
  "pages_for sz = (unat sz + 4095) div 4096"

lemma pages_for:
  assumes "sz \<noteq> 0" "sz \<le> MALLOC_MAX"
  shows "uint ((sz + 4095) div 4096) = int (pages_for sz)" "0 < pages_for sz" "pages_for sz < 2 ^ 20"
    "unat sz \<le> 4096 * pages_for sz" "k < pages_for sz \<Longrightarrow> 4096 * k < unat sz"
proof -
  have b: "0 < unat sz" "unat sz \<le> 16777216" using assms by (simp_all add: unat_gt_0 MALLOC_MAX_def word_le_nat_alt)
  then have "unat (sz + 4095) = unat sz + 4095" by (subst unat_add_lem[THEN iffD1]) simp_all
  then have "unat ((sz + 4095) div 4096) = pages_for sz" by (simp add: unat_div pages_for_def)
  then show "uint ((sz + 4095) div 4096) = int (pages_for sz)" by (simp add: uint_nat)
  show "0 < pages_for sz" "pages_for sz < 2 ^ 20" "unat sz \<le> 4096 * pages_for sz" "k < pages_for sz \<Longrightarrow> 4096 * k < unat sz"
    using b unfolding pages_for_def by (simp_all add: div_greater_zero_iff)
qed

definition extended :: "kheap \<Rightarrow> block list \<Rightarrow> u32 list \<Rightarrow> u32 \<Rightarrow> (bool \<times> kheap) option \<Rightarrow> bool" where
  "extended s bs U sz r \<longleftrightarrow> (\<exists>again s' bs' A' P'. r = Some (again, s') \<and> kmem_ok s' bs' A' U P' {} \<and> map (blk s') U = map (blk s) U \<and>
     (again \<longrightarrow> (\<exists>x \<in> set A'. sz \<le> m_size s' x)) \<and> (big bs (pages_for sz + 2) \<longrightarrow> again \<and> big bs' 1))"

lemma extendedI:
  assumes "r = Some (again, s')" "kmem_ok s' bs' A' U P' {}" "map (blk s') U = map (blk s) U"
    "again \<Longrightarrow> \<exists>x \<in> set A'. sz \<le> m_size s' x" "big bs (pages_for sz + 2) \<Longrightarrow> again \<and> big bs' 1"
  shows "extended s bs U sz r"
  unfolding extended_def using assms by blast

lemma kmalloc_add_spec:
  assumes k: "kmem_ok s bs A U P (block_bytes (header_block ch))" and ok: "block_ok (header_block ch)"
    and sz: "unat sz \<le> 4096 * unat (no_blocks ch)" "unat (no_blocks ch) < 2 ^ 20"
  shows "\<exists>again s' bs' A' P'. kmalloc_add ch s = Some (again, s') \<and> kmem_ok s' bs' A' U P' {} \<and> map (blk s') U = map (blk s) U \<and>
       (again \<longrightarrow> (\<exists>x \<in> set A'. sz \<le> m_size s' x)) \<and> (big bs 2 \<longrightarrow> again \<and> big bs' 1)"
proof -
  obtain p s1 bs1 P1 where n: "create_mem_list_node s = Some (p, s1)" "kmem_ok s1 bs1 A U P1 (block_bytes (header_block ch))"
    "map (blk s1) A = map (blk s) A" "map (blk s1) U = map (blk s) U"
    "p \<noteq> 0 \<Longrightarrow> p \<notin> set (A @ U) \<and> unat p \<in> pages_bytes P1" "\<And>k. big bs (Suc k) \<Longrightarrow> p \<noteq> 0 \<and> (0 < k \<longrightarrow> big bs1 k)"
    using create_node_spec[OF k] unfolding new_node_def by blast
  show ?thesis
  proof (cases "p = 0")
    case True
    obtain s2 bs2 where f: "kcore_free ch (count_node s1) = Some s2" "kmem_ok s2 bs2 A U P1 {}" "blk s2 = blk s1"
      using kcore_free_spec[of "count_node s1" bs1 A U P1 ch] n(2) ok by auto
    have "map (blk s2) U = map (blk s) U" using n(4) f(3) by simp
    moreover have "\<not> big bs 2" using n(6)[of 1] True by (auto simp: numeral_2_eq_2)
    ultimately show ?thesis using n(1) True f(1,2) by (simp add: kmalloc_add_def Let_def del: map_eq_conv) blast
  next
    case False
    define s2 where "s2 = set_link p 0 (set_size p (no_blocks ch * 4096) (set_addr p (phys_addr ch) (count_node s1)))"
    have p: "p \<notin> set (A @ U)" "unat p \<in> pages_bytes P1" using n(5) False by auto
    have fr: "\<forall>x. x \<noteq> p \<longrightarrow> m_addr s2 x = m_addr s1 x \<and> m_size s2 x = m_size s1 x \<and> m_next s2 x = m_next s1 x"
      "malloc_info s2 = malloc_info s1" "info_next s2 = info_next s1" "avail_list s2 = avail_list s1" "used_list s2 = used_list s1"
      by (auto simp: s2_def count_node_def)
    have h1: "heap_ok s1 A U P1" using n(2) by (simp add: kmem_ok_def)
    note hf = heap_fresh_node[OF h1 p(1) fr]
    have "unat (no_blocks ch) * 4096 < 2 ^ 32" using sz(2) by simp
    then have "unat (no_blocks ch * 4096) = 4096 * unat (no_blocks ch)" by (simp add: unat_word_ariths)
    then have b: "blk s2 p = (unat (phys_addr ch), 4096 * unat (no_blocks ch))" by (simp add: blk_def s2_def)
    have rb: "range_bytes (unat (phys_addr ch), 4096 * unat (no_blocks ch)) = block_bytes (header_block ch)"
      by (simp add: range_bytes_def block_bytes_def header_block_def)
    have "kcore s2 = kcore s1" by (rule kcore_more[of s2 "count_node s1", simplified]) (simp add: s2_def)
    moreover have "heap_bytes s2 A U P1 = heap_bytes s1 A U P1" unfolding heap_bytes_def hf(2,3) ..
    ultimately have k2: "kmem_ok s2 bs1 A U P1 (range_bytes (unat (phys_addr ch), 4096 * unat (no_blocks ch)))"
      unfolding rb using n(2) hf(1) by (simp add: kmem_ok_def)
    obtain s3 A3 where i: "insert_avail_node p s2 = Some s3" "kmem_ok s3 bs1 A3 U P1 {}" "map (blk s3) U = map (blk s2) U"
      "bytes (map (blk s3) A3) = bytes (map (blk s2) A) \<union> range_bytes (unat (phys_addr ch), 4096 * unat (no_blocks ch))"
      using kmem_insert[OF k2 p(1) False p(2) b] ok by (auto simp: block_ok_def header_block_def)
    have "ranges_ok (map (blk s3) A3)" using i(2) by (simp add: kmem_ok_def heap_ok_def avail_def)
    then have "\<exists>r \<in> set (map (blk s3) A3). 4096 * unat (no_blocks ch) \<le> snd r"
      by (rule ranges_contiguous[of _ "unat (phys_addr ch)"]) (use i(4) ok in \<open>auto simp: block_ok_def header_block_def\<close>)
    then have "\<exists>x \<in> set A3. sz \<le> m_size s3 x" using sz(1) by (force simp: blk_def word_le_nat_alt)
    moreover have "map (blk s3) U = map (blk s) U" unfolding i(3) hf(3) n(4) ..
    moreover have "big bs 2 \<longrightarrow> big bs1 1" using n(6)[of 1] by (simp add: numeral_2_eq_2)
    ultimately show ?thesis using n(1) False i(1,2) by (simp add: kmalloc_add_def Let_def s2_def[symmetric] del: map_eq_conv) blast
  qed
qed

lemma kmalloc_extend_spec:
  assumes k: "kmem_ok s bs A U P {}" and sz: "sz \<noteq> 0" "sz \<le> MALLOC_MAX"
  shows "extended s bs U sz (kmalloc_extend sz s)"
proof -
  note pf = pages_for[OF sz]
  show ?thesis
  proof (cases rule: kcore_alloc[OF k pf(2,3)])
    case 1
    then have "kmalloc_extend sz s = Some (False, s)" using sz(1) pf(1) by (simp add: kmalloc_extend_def word_gt_0)
    then show ?thesis by (rule extendedI[OF _ k]) (use 1 in auto)
  next
    case (2 ch c bs' m)
    have nb: "unat (no_blocks ch) = min (pages_for sz) m" using 2(3) by (simp add: header_block_def)
    then have "unat (no_blocks ch) * 4096 < 2 ^ 32" using pf(3) by simp
    then have u: "unat (no_blocks ch * 4096) = 4096 * min (pages_for sz) m" by (simp add: unat_word_ariths nb)
    have k1: "kmem_ok (s\<lparr>kcore := c\<rparr>) bs' A U P (block_bytes (header_block ch))" using 2(6) by simp
    show ?thesis
    proof (cases "m < pages_for sz")
      case True
      then have lt: "no_blocks ch * 4096 < sz" using u pf(5)[of m] by (simp add: word_less_nat_alt)
      obtain s2 bs2 where f: "kcore_free ch (s\<lparr>kcore := c\<rparr>) = Some s2" "kmem_ok s2 bs2 A U P {}" "blk s2 = blk s"
        using kcore_free_spec[OF k1 2(2)] by auto
      have r: "kmalloc_extend sz s = Some (False, s2)" using pf(1) 2(1,5) lt f(1) by (simp add: kmalloc_extend_def word_gt_0)
      have "\<not> big bs (pages_for sz + 2)" using 2(4) True big_mono[of bs "pages_for sz + 2" "pages_for sz"] by auto
      then show ?thesis by (intro extendedI[OF r f(2)]) (simp_all add: f(3))
    next
      case False
      then have ge: "\<not> no_blocks ch * 4096 < sz" "unat sz \<le> 4096 * unat (no_blocks ch)" "unat (no_blocks ch) < 2 ^ 20"
        using u pf(3,4) nb by (simp_all add: word_less_nat_alt)
      have add: "kmalloc_extend sz s = kmalloc_add ch (s\<lparr>kcore := c\<rparr>)" using pf(1) 2(1) ge(1) by (simp add: kmalloc_extend_def)
      obtain again s' bs2 A' P' where e: "kmalloc_extend sz s = Some (again, s')" "kmem_ok s' bs2 A' U P' {}"
        "map (blk s') U = map (blk (s\<lparr>kcore := c\<rparr>)) U"
        "again \<longrightarrow> (\<exists>x \<in> set A'. sz \<le> m_size s' x)" "big bs' 2 \<longrightarrow> again \<and> big bs2 1"
        using kmalloc_add_spec[OF k1 2(2) ge(2,3)] unfolding add by blast
      show ?thesis by (rule extendedI[OF e(1-3)[unfolded kheap_cong]]) (use e(4,5) 2(8)[of 2] in auto)
    qed
  qed
qed

lemma kmalloc_loop_found:
  assumes k: "kmem_ok s bs A U P {}" and sz: "sz \<noteq> 0" and x: "x \<in> set A" "sz \<le> m_size s x"
  shows "kmalloc_result s U sz (big bs 1) (kmalloc_loop sz s)"
proof -
  have "avail s A" using k by (simp add: kmem_ok_def heap_ok_def)
  then show ?thesis
  proof (cases rule: best_fit_avail[where sz = sz])
    case (1 p3 hole)
    then have "kmalloc_loop sz s = kmalloc_take sz p3 s" by (subst kmalloc_loop.simps) simp
    then show ?thesis using kmalloc_take_spec[OF k 1(2) sz 1(3)] by simp
  next
    case 2
    then show ?thesis using x by (auto simp: not_le[symmetric])
  qed
qed

lemma kmalloc_loop_spec:
  assumes k: "kmem_ok s bs A U P {}" and sz: "sz \<noteq> 0" "sz \<le> MALLOC_MAX"
  shows "kmalloc_result s U sz (big bs (pages_for sz + 2)) (kmalloc_loop sz s)"
proof -
  have "avail s A" using k by (simp add: kmem_ok_def heap_ok_def)
  then show ?thesis
  proof (cases rule: best_fit_avail[where sz = sz])
    case (1 p3 hole)
    show ?thesis by (rule kmalloc_result_mono[OF kmalloc_loop_found[OF k sz(1) 1(2,3)]]) (auto intro: big_mono)
  next
    case 2
    obtain again s' bs' A' P' where e: "kmalloc_extend sz s = Some (again, s')" "kmem_ok s' bs' A' U P' {}" "map (blk s') U = map (blk s) U"
      "again \<Longrightarrow> \<exists>x \<in> set A'. sz \<le> m_size s' x" "big bs (pages_for sz + 2) \<Longrightarrow> again \<and> big bs' 1"
      using kmalloc_extend_spec[OF k sz] unfolding extended_def by blast
    have l: "kmalloc_loop sz s = (if again then kmalloc_loop sz s' else Some (0, s'))"
      by (subst kmalloc_loop.simps) (simp add: 2(1) e(1))
    show ?thesis
    proof (cases again)
      case True
      obtain x where "x \<in> set A'" "sz \<le> m_size s' x" using e(4) True by blast
      then have "kmalloc_result s' U sz (big bs' 1) (kmalloc_loop sz s)" using kmalloc_loop_found[OF e(2) sz(1)] l True by simp
      then show ?thesis by (rule kmalloc_result_mono) (use e(3,5) in \<open>simp_all del: map_eq_conv\<close>)
    next
      case False
      then have r: "kmalloc_loop sz s = Some (0, s')" using l by simp
      show ?thesis by (rule kmalloc_resultI[OF r e(2)]) (use e(3,5) False in \<open>simp_all del: map_eq_conv\<close>)
    qed
  qed
qed

section \<open>Properties\<close>

text \<open>The kernel heap as its users see it: free core, available bytes and used blocks.\<close>

definition kheap_state :: "kheap \<Rightarrow> block list \<Rightarrow> nat set \<Rightarrow> (nat \<times> nat) list \<Rightarrow> bool" where
  "kheap_state s bs F us \<longleftrightarrow> (\<exists>A U P. kmem_ok s bs A U P {} \<and> F = bytes (map (blk s) A) \<and> us = map (blk s) U)"

lemma kheap_state_disjoint:
  assumes "kheap_state s bs F us"
  shows "disjoint_sets (map range_bytes us)" "bytes us \<inter> F = {}" "bytes us \<inter> free_bytes bs = {}" "F \<inter> free_bytes bs = {}"
proof -
  obtain A U P where k: "kmem_ok s bs A U P {}" and F: "F = bytes (map (blk s) A)" and us: "us = map (blk s) U"
    using assms by (auto simp: kheap_state_def)
  have h: "heap_ok s A U P" and f: "free_bytes bs \<inter> heap_bytes s A U P = {}" using k by (auto simp: kmem_ok_def)
  note d = heap_okD[OF h]
  show "disjoint_sets (map range_bytes us)" using d(8) by (simp add: us used_ranges_def comp_def)
  show "bytes us \<inter> F = {}" "bytes us \<inter> free_bytes bs = {}" "F \<inter> free_bytes bs = {}" using d(11) f by (auto simp: us F heap_bytes_def)
qed

lemma kmalloc_spec:
  assumes "kheap_state s bs F us" "0 < sz" "sz \<le> MALLOC_MAX"
  shows "\<exists>a s' bs' F' us'. kmalloc sz s = Some (a, s') \<and> kheap_state s' bs' F' us' \<and>
    (if a = 0 then us' = us \<and> \<not> (\<exists>p \<in> set (map snd bs). (unat sz + 4095) div 4096 + 2 \<le> p)
     else us' = (unat a, unat sz) # us \<and> range_bytes (unat a, unat sz) \<inter> (bytes us \<union> F' \<union> free_bytes bs') = {})"
proof -
  obtain A U P where k: "kmem_ok s bs A U P {}" and us: "us = map (blk s) U" using assms(1) by (auto simp: kheap_state_def)
  have nz: "sz \<noteq> 0" using assms(2) by auto
  obtain a s' bs' A' U' P' where r: "kmalloc_loop sz s = Some (a, s')" "kmem_ok s' bs' A' U' P' {}"
    "map (blk s') U' = (if a = 0 then map (blk s) U else (unat a, unat sz) # map (blk s) U)" "big bs (pages_for sz + 2) \<longrightarrow> a \<noteq> 0"
    using kmalloc_loop_spec[OF k nz assms(3)] unfolding kmalloc_result_def by blast
  have km: "kmalloc sz s = Some (a, s')" using r(1) assms(2,3) nz by (auto simp: kmalloc_def)
  have st: "kheap_state s' bs' (bytes (map (blk s') A')) (if a = 0 then us else (unat a, unat sz) # us)"
    unfolding kheap_state_def us r(3)[symmetric] using r(2) by blast
  note dj = kheap_state_disjoint[OF st]
  have "if a = 0 then (if a = 0 then us else (unat a, unat sz) # us) = us \<and> \<not> (\<exists>p \<in> set (map snd bs). (unat sz + 4095) div 4096 + 2 \<le> p)
     else (if a = 0 then us else (unat a, unat sz) # us) = (unat a, unat sz) # us \<and>
       range_bytes (unat a, unat sz) \<inter> (bytes us \<union> bytes (map (blk s') A') \<union> free_bytes bs') = {}"
    using r(4) dj by (cases "a = 0") (auto simp: big_def pages_for_def bytes_def)
  with km st show ?thesis by blast
qed

text \<open>C7: \<^verbatim>\<open>kmalloc\<close> returns. It gives a block of the requested size that overlaps no block in use, no
  available memory and no free core, and leaves the blocks in use as they are; or it returns the null
  pointer, which it does not when the core has a free block with two pages more than the request
  needs (two pages may go into nodes).\<close>

theorem kmalloc_correct:
  assumes "kheap_state s bs F us" "0 < sz" "sz \<le> MALLOC_MAX"
  shows "\<exists>a s' bs' F' us'. kmalloc sz s = Some (a, s') \<and> kheap_state s' bs' F' us' \<and>
    (if a = 0 then us' = us \<and> \<not> (\<exists>p \<in> set (map snd bs). (unat sz + 4095) div 4096 + 2 \<le> p)
     else us' = (unat a, unat sz) # us \<and> range_bytes (unat a, unat sz) \<inter> (bytes us \<union> F' \<union> free_bytes bs') = {})"
  by (rule kmalloc_spec[OF assms])

lemma kfree_found:
  assumes k: "kmem_ok s bs A (X @ p # Z) P {}" and find: "used_find s (m_addr s p) (used_list s) 0 = Some (p, if X = [] then 0 else last X)"
  shows "\<exists>s'. kfree (m_addr s p) s = Some s' \<and>
    kheap_state s' bs (bytes (map (blk s) A) \<union> range_bytes (blk s p)) (map (blk s) (X @ Z))"
proof -
  have h: "heap_ok s A (X @ p # Z) P" using k by (simp add: kmem_ok_def)
  obtain g' m A' where i: "insert_node p (unlink_used p (if X = [] then 0 else last X) s) = Some (g', m)" "heap_ok g' A' (X @ Z) P"
    "mem_info.more g' = mem_info.more s" "heap_bytes g' A' (X @ Z) P \<subseteq> heap_bytes s A (X @ p # Z) P"
    "map (blk g') (X @ Z) = map (blk s) (X @ Z)" "bytes (map (blk g') A') = bytes (map (blk s) A) \<union> range_bytes (blk s p)"
    using heap_release[OF h] by (elim exE conjE) (rule that)
  let ?s = "g'\<lparr>kmcount := kmcount g' - m\<rparr>"
  have "m_addr s p \<noteq> 0" "p \<noteq> 0" using heap_unlink(5,7)[OF h] by (auto simp: range_ok_def blk_def)
  then have r: "kfree (m_addr s p) s = Some ?s" using find i(1) by (simp add: kfree_def insert_avail_node_def)
  have k': "kmem_ok ?s bs A' (X @ Z) P {}" using k i(2,4) kcore_more[OF i(3)] unfolding kmem_count by (auto simp: kmem_ok_def)
  have "bytes (map (blk s) A) \<union> range_bytes (blk s p) = bytes (map (blk ?s) A')" "map (blk s) (X @ Z) = map (blk ?s) (X @ Z)"
    using i(5,6) by (simp_all only: kheap_cong)
  with k' have "kheap_state ?s bs (bytes (map (blk s) A) \<union> range_bytes (blk s p)) (map (blk s) (X @ Z))"
    unfolding kheap_state_def by blast
  with r show ?thesis by blast
qed

text \<open>C17: \<^verbatim>\<open>kfree\<close> of the address of a block in use removes exactly this block from the used blocks and
  makes its bytes available again; of any other address it changes nothing.\<close>

theorem kfree_correct:
  assumes "kheap_state s bs F us"
  shows "\<exists>s' F' us'. kfree ptr s = Some s' \<and> kheap_state s' bs F' us' \<and>
    (if \<exists>n. (unat ptr, n) \<in> set us
     then \<exists>n xs ys. us = xs @ (unat ptr, n) # ys \<and> us' = xs @ ys \<and> F' = F \<union> range_bytes (unat ptr, n)
     else s' = s \<and> F' = F \<and> us' = us)"
proof -
  obtain A U P where k: "kmem_ok s bs A U P {}" and F: "F = bytes (map (blk s) A)" and us: "us = map (blk s) U"
    using assms by (auto simp: kheap_state_def)
  show ?thesis
  proof (cases rule: used_find_block[OF kmem_heap[OF k], of ptr])
    case 1
    then have "kfree ptr s = Some s" by (simp add: kfree_def)
    then show ?thesis using assms 1(2) us by auto
  next
    case (2 X p Z)
    have f: "used_find s (m_addr s p) (used_list s) 0 = Some (p, if X = [] then 0 else last X)" using 2(2,4) by simp
    obtain s' where r: "kfree ptr s = Some s'"
      "kheap_state s' bs (F \<union> range_bytes (unat ptr, unat (m_size s p))) (map (blk s) X @ map (blk s) Z)"
      using kfree_found[OF k[unfolded 2(1)] f] F 2(2) by (auto simp: blk_def[of s p])
    have us2: "us = map (blk s) X @ (unat ptr, unat (m_size s p)) # map (blk s) Z" using 2(1,2) by (simp add: us blk_def)
    then have ex: "\<exists>n. (unat ptr, n) \<in> set us" by auto
    show ?thesis unfolding if_P[OF ex] using r us2 by blast
  qed
qed

text \<open>A heap before the first allocation: all memory is free core.\<close>

definition kheap_example :: kheap where
  "kheap_example = \<lparr>m_addr = \<lambda>_. 0, m_size = \<lambda>_. 0, m_next = \<lambda>_. 0, malloc_info = 0, info_next = \<lambda>_. 0, avail_list = 0,
     used_list = 0, kmcount = 0, kcore = core_example\<rparr>"

lemma kheap_example_state: "kheap_state kheap_example [(0x100000, 16)] {} []"
proof -
  have "kmem_ok kheap_example [(0x100000, 16)] [] [] [] {}"
    using core_example_rep core_example_ram
    by (auto simp: kmem_ok_def kheap_example_def heap_ok_def avail_def heap_bytes_def pages_bytes_def block_bytes_def used_ranges_def)
  then show ?thesis unfolding kheap_state_def by force
qed

theorem kmalloc_correct_witness:
  "\<exists>a s' bs' F'. kmalloc 100 kheap_example = Some (a, s') \<and> a \<noteq> 0 \<and> kheap_state s' bs' F' [(unat a, 100)]"
  using kmalloc_correct[OF kheap_example_state, of 100] by (auto simp: MALLOC_MAX_def split: if_splits)

theorem kfree_correct_witness:
  "\<exists>a s' s'' bs F. kmalloc 100 kheap_example = Some (a, s') \<and> kfree a s' = Some s'' \<and> kheap_state s'' bs F []"
proof -
  obtain a s' bs F where k: "kmalloc 100 kheap_example = Some (a, s')" "kheap_state s' bs F [(unat a, 100)]"
    using kmalloc_spec[OF kheap_example_state, of 100] by (auto simp: MALLOC_MAX_def split: if_splits)
  then show ?thesis using kfree_correct[OF k(2), of a] by (auto simp: Cons_eq_append_conv)
qed

end
