(* ===== verification/Umalloc.thy ===== *)
theory Umalloc
  imports Heap_Lists
begin

text \<open>The heap of a process (\<^verbatim>\<open>lib/malloc.c\<close>): \<^verbatim>\<open>malloc\<close>, \<^verbatim>\<open>free\<close>, \<^verbatim>\<open>calloc\<close> and \<^verbatim>\<open>realloc\<close>, on the block lists of
  \<^verbatim>\<open>Heap_Lists\<close>. The memory comes from the system call \<^verbatim>\<open>brk\<close>, which moves the end of the data segment and is
  a parameter of the operations; what they need of it is \<open>brk_ok\<close>. Every operation runs as a whole, as it
  does under \<^verbatim>\<open>__malloc_mutex\<close>. The lemmas show that blocks in use never overlap and keep their contents,
  and what a request of size 0 does to the lists.\<close>

section \<open>Definitions\<close>

text \<open>The heap of a process. \<open>ukernel\<close> is the state of the kernel as far as the system call
  \<^verbatim>\<open>brk_internal\<close> is concerned, which is a parameter \<open>sys\<close> of the operations; \<open>udata\<close> is the
  memory of the blocks.\<close>

record 'k uheap = mem_info +
  enddataaddr :: u32
  ukernel :: 'k
  udata :: "u32 \<Rightarrow> u8"

type_synonym 'k brk_call = "'k \<Rightarrow> u32 \<Rightarrow> int \<times> 'k"

definition brk :: "'k brk_call \<Rightarrow> u32 \<Rightarrow> 'k uheap \<Rightarrow> int \<times> 'k uheap" where
  "brk sys endaddr s = (let (retval, k) = sys (ukernel s) endaddr in (retval, s\<lparr>ukernel := k\<rparr>))"

definition uinsert_avail_node :: "u32 \<Rightarrow> 'k uheap \<Rightarrow> 'k uheap option" where
  "uinsert_avail_node p s = map_option fst (insert_node p s)"

definition udelete_avail_node :: "u32 \<Rightarrow> 'k uheap \<Rightarrow> 'k uheap option" where
  "udelete_avail_node p s = delete_node p s"

text \<open>The last node of the available list, whose block is given back to the system when it is a page
  or more and ends at the end of the data segment; an empty list is dereferenced.\<close>

partial_function (option) last_avail :: "'k uheap \<Rightarrow> u32 \<Rightarrow> u32 option" where
  "last_avail s m1 = (if m_next s m1 \<noteq> 0 then last_avail s (m_next s m1) else Some m1)"

definition ucheck_release_core :: "'k brk_call \<Rightarrow> 'k uheap \<Rightarrow> 'k uheap option" where
  "ucheck_release_core sys s =
     (if avail_list s = 0 then None
      else map_option (\<lambda>m1.
        if 0x1000 \<le> m_size s m1 \<and> m_addr s m1 + m_size s m1 = enddataaddr s + 1 then
          let (_, s) = brk sys (m_addr s m1 - 1) s;
              s = set_size m1 0 (s\<lparr>enddataaddr := m_addr s m1 - 1\<rparr>)
          in if avail_list s = m1 then s\<lparr>avail_list := 0\<rparr> else s
        else s) (last_avail s (avail_list s)))"

definition usearch_mem_list_node :: "'k brk_call \<Rightarrow> 'k uheap \<Rightarrow> (u32 \<times> 'k uheap) option" where
  "usearch_mem_list_node sys s =
     map_option (\<lambda>r. case r of
         Inl p1 \<Rightarrow> (p1, s)
       | Inr ptr2 \<Rightarrow>
           let (r, s) = brk sys (enddataaddr s + 4096) s in
           if r < 0 then (0, s)
           else let ptr1 = enddataaddr s + 1; s = s\<lparr>enddataaddr := enddataaddr s + 4096\<rparr>
                in (ptr1, clear_page ptr1 (s\<lparr>info_next := (info_next s)(ptr2 := ptr1)\<rparr>)))
       (node_search s (malloc_info s) 0)"

definition ucreate_mem_list_node :: "'k brk_call \<Rightarrow> 'k uheap \<Rightarrow> (u32 \<times> 'k uheap) option" where
  "ucreate_mem_list_node sys s =
     (if malloc_info s = 0 then
        let (r, s) = brk sys 0 s;
            s = s\<lparr>enddataaddr := word_of_int r\<rparr>;
            (r, s) = brk sys (enddataaddr s + 4096) s
        in if r < 0 then Some (0, s)
           else let q = enddataaddr s + 1
                in usearch_mem_list_node sys (clear_page q (s\<lparr>malloc_info := q, enddataaddr := enddataaddr s + 4096\<rparr>))
      else usearch_mem_list_node sys s)"

definition UMALLOC_MAX :: u32 where
  "UMALLOC_MAX = 0x2000000"

definition malloc_take :: "'k brk_call \<Rightarrow> u32 \<Rightarrow> u32 \<Rightarrow> 'k uheap \<Rightarrow> (u32 \<times> 'k uheap) option" where
  "malloc_take sys sz p1 s =
     (if p1 \<noteq> 0 \<and> sz < m_size s p1 then
        map_option (\<lambda>(p3, s).
          if p3 = 0 then (0, s)
          else let s = link_used p3 (split_block p1 p3 sz s) in (m_addr s p3, s)) (ucreate_mem_list_node sys s)
      else if p1 = 0 then None
      else map_option (\<lambda>s. let s = link_used p1 (set_size p1 sz s) in (m_addr s p1, s)) (udelete_avail_node p1 s))"

text \<open>The data segment grows by the requested size; the flag tells whether the search is to be repeated.\<close>

definition malloc_extend :: "'k brk_call \<Rightarrow> u32 \<Rightarrow> 'k uheap \<Rightarrow> (bool \<times> 'k uheap) option" where
  "malloc_extend sys sz s =
     (let s = (if enddataaddr s = 0 then let (r, s) = brk sys 0 s in s\<lparr>enddataaddr := word_of_int r\<rparr> else s);
          (r, s) = brk sys (enddataaddr s + sz) s
      in if r < 0 then Some (False, s)
         else let mem = enddataaddr s + 1; s = s\<lparr>enddataaddr := enddataaddr s + sz\<rparr>
              in Option.bind (ucreate_mem_list_node sys s) (\<lambda>(p1, s).
                   if p1 = 0 then let (_, s) = brk sys (mem - 1) s in Some (False, s\<lparr>enddataaddr := mem - 1\<rparr>)
                   else map_option (Pair True) (uinsert_avail_node p1 (set_link p1 0 (set_size p1 sz (set_addr p1 mem s))))))"

partial_function (option) malloc_loop :: "'k brk_call \<Rightarrow> u32 \<Rightarrow> 'k uheap \<Rightarrow> (u32 \<times> 'k uheap) option" where
  "malloc_loop sys sz s =
     Option.bind (best_fit s sz (avail_list s) (False, 0xefffffff, 0)) (\<lambda>(avl, hole, p1).
       if avl then malloc_take sys sz p1 s
       else Option.bind (malloc_extend sys sz s) (\<lambda>(again, s). if again then malloc_loop sys sz s else Some (0, s)))"

definition malloc :: "'k brk_call \<Rightarrow> u32 \<Rightarrow> 'k uheap \<Rightarrow> (u32 \<times> 'k uheap) option" where
  "malloc sys sz s = (if UMALLOC_MAX < sz then Some (0, s) else malloc_loop sys sz s)"

definition free :: "u32 \<Rightarrow> 'k uheap \<Rightarrow> 'k uheap option" where
  "free ptr s =
     (if ptr = 0 then Some s
      else Option.bind (used_find s ptr (used_list s) 0) (\<lambda>(p1, p2).
        if p1 \<noteq> 0 then uinsert_avail_node p1 (unlink_used p1 p2 s) else Some s))"

text \<open>\<^verbatim>\<open>bzero\<close> and \<^verbatim>\<open>bcopy\<close> on the memory of the blocks; \<^verbatim>\<open>bcopy\<close> copies byte by byte, upwards.\<close>

definition zero_byte :: "u32 \<Rightarrow> nat \<Rightarrow> (u32 \<Rightarrow> u8) \<Rightarrow> u32 \<Rightarrow> u8" where
  "zero_byte ptr i d = d(ptr + word_of_nat i := 0)"

definition copy_byte :: "u32 \<Rightarrow> u32 \<Rightarrow> nat \<Rightarrow> (u32 \<Rightarrow> u8) \<Rightarrow> u32 \<Rightarrow> u8" where
  "copy_byte src dest i d = d(dest + word_of_nat i := d (src + word_of_nat i))"

definition ubzero :: "u32 \<Rightarrow> u32 \<Rightarrow> 'k uheap \<Rightarrow> 'k uheap" where
  "ubzero ptr n s = s\<lparr>udata := fold (zero_byte ptr) [0 ..< unat n] (udata s)\<rparr>"

definition ubcopy :: "u32 \<Rightarrow> u32 \<Rightarrow> u32 \<Rightarrow> 'k uheap \<Rightarrow> 'k uheap" where
  "ubcopy src dest n s =
     s\<lparr>udata := fold (copy_byte src dest) [0 ..< unat n] (udata s)\<rparr>"

definition calloc :: "'k brk_call \<Rightarrow> u32 \<Rightarrow> u32 \<Rightarrow> 'k uheap \<Rightarrow> (u32 \<times> 'k uheap) option" where
  "calloc sys nmemb sz s =
     (let totsize = nmemb * sz in
      map_option (\<lambda>(ptr, s). (ptr, if ptr \<noteq> 0 then ubzero ptr totsize s else s)) (malloc sys totsize s))"

text \<open>When \<^verbatim>\<open>malloc\<close> fails, the old block is copied to the null pointer: no defined result.\<close>

definition realloc_size :: "u32 \<Rightarrow> 'k uheap \<Rightarrow> u32 option" where
  "realloc_size ptr s =
     (if ptr \<noteq> 0 then map_option (\<lambda>(p1, _). if p1 \<noteq> 0 then m_size s p1 else 0) (used_find s ptr (used_list s) 0) else Some 0)"

definition realloc :: "'k brk_call \<Rightarrow> u32 \<Rightarrow> u32 \<Rightarrow> 'k uheap \<Rightarrow> (u32 \<times> 'k uheap) option" where
  "realloc sys ptr sz s =
     Option.bind (realloc_size ptr s) (\<lambda>osize.
       if osize < sz then
         Option.bind (malloc sys sz s) (\<lambda>(ptr1, s).
           if 0 < osize
           then if ptr1 = 0 then None else map_option (Pair ptr1) (free ptr (ubcopy ptr ptr1 osize s))
           else Some (ptr1, s))
       else Some (ptr, s))"

text \<open>The wrappers of the other two memory calls, which leave the heap alone.\<close>

definition primalloc :: "'k brk_call \<Rightarrow> u32 \<Rightarrow> 'k uheap \<Rightarrow> u32 \<times> 'k uheap" where
  "primalloc primalloc_internal sz s =
     (let (retval, k) = primalloc_internal (ukernel s) sz in (word_of_int retval, s\<lparr>ukernel := k\<rparr>))"

definition prifree :: "('k \<Rightarrow> u32 \<Rightarrow> u32 \<Rightarrow> int \<times> 'k) \<Rightarrow> u32 \<Rightarrow> u32 \<Rightarrow> 'k uheap \<Rightarrow> int \<times> 'k uheap" where
  "prifree prifree_internal addr sz s =
     (let (retval, k) = prifree_internal (ukernel s) addr sz in (retval, s\<lparr>ukernel := k\<rparr>))"

section \<open>The system call\<close>

text \<open>What the library relies on: \<open>cur\<close> is the end of the data segment, which \<^verbatim>\<open>brk_internal(NULL)\<close>
  returns and every successful call with another argument sets to that argument (\<^verbatim>\<open>syscall_brk\<close>); the data
  segment lies below the stack. Nothing is said about where a failing call leaves the end. An address more than \<^verbatim>\<open>2^31\<close>
  above the end, which \<^verbatim>\<open>syscall_brk\<close> takes for one below it, is never asked for by the library: a request is at
  most \<^verbatim>\<open>MALLOC_MAX\<close>.\<close>

definition brk_ok :: "'k brk_call \<Rightarrow> ('k \<Rightarrow> u32) \<Rightarrow> ('k \<Rightarrow> bool) \<Rightarrow> bool" where
  "brk_ok sys cur ki \<longleftrightarrow> (\<forall>k. ki k \<longrightarrow> cur k \<noteq> 0 \<and> cur k < 0xeffffffe \<and> sys k 0 = (sint (cur k), k) \<and>
     (\<forall>e r k'. e \<noteq> 0 \<longrightarrow> sys k e = (r, k') \<longrightarrow> ki k' \<and> (0 \<le> r \<longrightarrow> cur k' = e)))"

text \<open>The calls succeed up to the address \<open>lim\<close>.\<close>

definition brk_grants :: "'k brk_call \<Rightarrow> ('k \<Rightarrow> bool) \<Rightarrow> nat \<Rightarrow> bool" where
  "brk_grants sys ki lim \<longleftrightarrow> (\<forall>k e. ki k \<longrightarrow> e \<noteq> 0 \<longrightarrow> unat e \<le> lim \<longrightarrow> 0 \<le> fst (sys k e))"

lemma brk_zero: "brk_ok sys cur ki \<Longrightarrow> ki (ukernel s) \<Longrightarrow> brk sys 0 s = (sint (cur (ukernel s)), s)"
  by (simp add: brk_ok_def brk_def)

lemma brk_call:
  assumes "brk_ok sys cur ki" "ki (ukernel s)" "e \<noteq> 0"
  obtains r k where "brk sys e s = (r, s\<lparr>ukernel := k\<rparr>)" "ki k" "0 \<le> r \<Longrightarrow> cur k = e" "cur k < 0xeffffffe"
    "\<And>lim. brk_grants sys ki lim \<Longrightarrow> unat e \<le> lim \<Longrightarrow> 0 \<le> r"
proof -
  obtain r k where s: "sys (ukernel s) e = (r, k)" by fastforce
  then have k: "ki k" "0 \<le> r \<Longrightarrow> cur k = e" using assms by (auto simp: brk_ok_def)
  show thesis
  proof (rule that[of r k])
    show "cur k < 0xeffffffe" using assms(1) k(1) by (auto simp: brk_ok_def)
    show "0 \<le> r" if "brk_grants sys ki lim" "unat e \<le> lim" for lim
      using that assms(2,3) s by (metis brk_grants_def fst_conv)
  qed (use s k in \<open>auto simp: brk_def\<close>)
qed

section \<open>The invariant\<close>

lemma uheap_cong [simp]:
  "heap_ok (s\<lparr>enddataaddr := e\<rparr>) = heap_ok s" "heap_bytes (s\<lparr>enddataaddr := e\<rparr>) = heap_bytes s" "blk (s\<lparr>enddataaddr := e\<rparr>) = blk s"
  "heap_ok (s\<lparr>ukernel := k\<rparr>) = heap_ok s" "heap_bytes (s\<lparr>ukernel := k\<rparr>) = heap_bytes s" "blk (s\<lparr>ukernel := k\<rparr>) = blk s"
  "heap_ok (s\<lparr>udata := d\<rparr>) = heap_ok s" "heap_bytes (s\<lparr>udata := d\<rparr>) = heap_bytes s" "blk (s\<lparr>udata := d\<rparr>) = blk s"
  by (rule heap_cong; simp)+

lemma uheap_more: "mem_info.more s' = mem_info.more s \<Longrightarrow> enddataaddr s' = enddataaddr s \<and> ukernel s' = ukernel s \<and> udata s' = udata s"
  by (cases s; cases s') simp

text \<open>The heap lies in the data segment, up to \<open>enddataaddr\<close>; \<open>B\<close> is memory obtained from the system
  that is not yet a block.\<close>

definition umem_ok :: "('k \<Rightarrow> bool) \<Rightarrow> 'k uheap \<Rightarrow> u32 list \<Rightarrow> u32 list \<Rightarrow> u32 list \<Rightarrow> nat set \<Rightarrow> bool" where
  "umem_ok ki s A U P B \<longleftrightarrow> heap_ok s A U P \<and> ki (ukernel s) \<and> enddataaddr s < 0xeffffffe \<and>
     heap_bytes s A U P \<union> B \<subseteq> {.. unat (enddataaddr s)} \<and> B \<inter> heap_bytes s A U P = {}"

lemma umem_heap: "umem_ok ki s A U P B \<Longrightarrow> heap_ok s A U P"
  by (simp add: umem_ok_def)

text \<open>The data segment grows by \<open>n\<close> bytes.\<close>

lemma brk_grow:
  assumes b: "brk_ok sys cur ki" and k: "umem_ok ki s A U P B" and e: "enddataaddr s \<noteq> 0" and n: "n \<noteq> 0" "n \<le> UMALLOC_MAX"
  obtains (fail) r k where "brk sys (enddataaddr s + n) s = (r, s\<lparr>ukernel := k\<rparr>)" "r < 0" "umem_ok ki (s\<lparr>ukernel := k\<rparr>) A U P B"
      "\<And>lim. brk_grants sys ki lim \<Longrightarrow> lim < unat (enddataaddr s) + unat n"
  | (grown) r k where "brk sys (enddataaddr s + n) s = (r, s\<lparr>ukernel := k\<rparr>)" "\<not> r < 0" "cur k = enddataaddr s + n"
      "unat (enddataaddr s + n) = unat (enddataaddr s) + unat n" "unat (enddataaddr s + 1) = unat (enddataaddr s) + 1"
      "umem_ok ki (s\<lparr>ukernel := k, enddataaddr := enddataaddr s + n\<rparr>) A U P (B \<union> range_bytes (unat (enddataaddr s + 1), unat n))"
      "B \<inter> range_bytes (unat (enddataaddr s + 1), unat n) = {}"
proof -
  have lt: "unat (enddataaddr s) < 0xeffffffe" "unat n \<le> 0x2000000"
    using k n(2) by (simp_all add: umem_ok_def UMALLOC_MAX_def word_less_nat_alt word_le_nat_alt)
  have u: "unat (enddataaddr s + n) = unat (enddataaddr s) + unat n" "unat (enddataaddr s + 1) = unat (enddataaddr s) + 1"
    using lt by (simp_all add: unat_word_ariths)
  have "enddataaddr s + n \<noteq> 0" using u(1) e by (metis add_is_0 unat_eq_zero)
  then obtain r k' where c: "brk sys (enddataaddr s + n) s = (r, s\<lparr>ukernel := k'\<rparr>)" "ki k'" "0 \<le> r \<Longrightarrow> cur k' = enddataaddr s + n"
    "cur k' < 0xeffffffe" "\<And>lim. brk_grants sys ki lim \<Longrightarrow> unat (enddataaddr s + n) \<le> lim \<Longrightarrow> 0 \<le> r"
    using brk_call[OF b, of s "enddataaddr s + n"] k by (auto simp: umem_ok_def)
  show thesis
  proof (cases "r < 0")
    case True
    then show ?thesis using fail[OF c(1)] k c(2,5) u(1) by (force simp: umem_ok_def not_less[symmetric])
  next
    case False
    have sub: "heap_bytes s A U P \<union> B \<subseteq> {.. unat (enddataaddr s)}" using k by (simp add: umem_ok_def)
    have "umem_ok ki (s\<lparr>ukernel := k', enddataaddr := enddataaddr s + n\<rparr>) A U P (B \<union> range_bytes (unat (enddataaddr s + 1), unat n))"
      using k c(2-4) False sub u by (auto simp: umem_ok_def range_bytes_def)
    moreover have "B \<inter> range_bytes (unat (enddataaddr s + 1), unat n) = {}" using sub u by (auto simp: range_bytes_def)
    ultimately show ?thesis using grown[OF c(1)] False c(3) u by auto
  qed
qed

section \<open>Nodes\<close>

definition unode :: "'k brk_call \<Rightarrow> ('k \<Rightarrow> bool) \<Rightarrow> 'k uheap \<Rightarrow> u32 list \<Rightarrow> u32 list \<Rightarrow> u32 list \<Rightarrow> nat set \<Rightarrow> (u32 \<times> 'k uheap) option \<Rightarrow> bool" where
  "unode sys ki s A U P B r \<longleftrightarrow> (\<exists>p s' P'. r = Some (p, s') \<and> umem_ok ki s' A U P' B \<and>
     map (blk s') A = map (blk s) A \<and> map (blk s') U = map (blk s) U \<and> udata s' = udata s \<and>
     (if p = 0 then P' = P \<and> enddataaddr s' = enddataaddr s else p \<notin> set (A @ U) \<and> unat p \<in> pages_bytes P') \<and>
     unat (enddataaddr s') \<le> unat (enddataaddr s) + 4096 \<and>
     (\<forall>lim. brk_grants sys ki lim \<longrightarrow> unat (enddataaddr s) + 4096 \<le> lim \<longrightarrow> p \<noteq> 0))"

lemma unodeI:
  assumes "r = Some (p, s')" "umem_ok ki s' A U P' B" "map (blk s') A = map (blk s) A" "map (blk s') U = map (blk s) U" "udata s' = udata s"
    "if p = 0 then P' = P \<and> enddataaddr s' = enddataaddr s else p \<notin> set (A @ U) \<and> unat p \<in> pages_bytes P'"
    "unat (enddataaddr s') \<le> unat (enddataaddr s) + 4096"
    "\<And>lim. brk_grants sys ki lim \<Longrightarrow> unat (enddataaddr s) + 4096 \<le> lim \<Longrightarrow> p \<noteq> 0"
  shows "unode sys ki s A U P B r"
  unfolding unode_def using assms by blast

lemma unodeE:
  assumes "unode sys ki s A U P B r"
  obtains p s' P' where "r = Some (p, s')" "umem_ok ki s' A U P' B" "map (blk s') A = map (blk s) A" "map (blk s') U = map (blk s) U"
    "udata s' = udata s" "p = 0 \<Longrightarrow> P' = P \<and> enddataaddr s' = enddataaddr s" "p \<noteq> 0 \<Longrightarrow> p \<notin> set (A @ U) \<and> unat p \<in> pages_bytes P'"
    "unat (enddataaddr s') \<le> unat (enddataaddr s) + 4096"
    "\<And>lim. brk_grants sys ki lim \<Longrightarrow> unat (enddataaddr s) + 4096 \<le> lim \<Longrightarrow> p \<noteq> 0"
proof -
  obtain p s' P' where n: "r = Some (p, s')" "umem_ok ki s' A U P' B" "map (blk s') A = map (blk s) A" "map (blk s') U = map (blk s) U"
    "udata s' = udata s" "if p = 0 then P' = P \<and> enddataaddr s' = enddataaddr s else p \<notin> set (A @ U) \<and> unat p \<in> pages_bytes P'"
    "unat (enddataaddr s') \<le> unat (enddataaddr s) + 4096"
    "\<forall>lim. brk_grants sys ki lim \<longrightarrow> unat (enddataaddr s) + 4096 \<le> lim \<longrightarrow> p \<noteq> 0"
    using assms unfolding unode_def by (elim exE conjE) (rule that)
  show thesis by (rule that[OF n(1-5) _ _ n(7)]) (use n(6,8) in \<open>simp_all split: if_splits\<close>)
qed

text \<open>The last 4096 bytes of the data segment become a page of nodes.\<close>

lemma page_range: "page_bytes q = range_bytes (unat q, 4096)"
  by (simp add: page_bytes_def range_bytes_def)

lemma umem_new_page:
  assumes k: "umem_ok ki s A U P (B \<union> range_bytes (unat q, unat (4096 :: u32)))" and q: "q \<noteq> 0" "B \<inter> range_bytes (unat q, unat (4096 :: u32)) = {}"
  defines "s' \<equiv> clear_page q (if P = [] then s\<lparr>malloc_info := q\<rparr> else s\<lparr>info_next := (info_next s)(last P := q)\<rparr>)"
  shows "umem_ok ki s' A U (P @ [q]) B" "map (blk s') A = map (blk s) A" "map (blk s') U = map (blk s) U" "m_size s' q = 0"
    "q \<notin> set (A @ U)" "unat q \<in> pages_bytes (P @ [q])" "enddataaddr s' = enddataaddr s" "udata s' = udata s"
proof -
  note kk = k[unfolded umem_ok_def]
  have h: "heap_ok s A U P" and dis: "page_bytes q \<inter> heap_bytes s A U P = {}" using kk by (auto simp: page_range)
  have "unat q + 4095 \<in> range_bytes (unat q, unat (4096 :: u32))" by (simp add: range_bytes_def)
  then have "unat q + 4095 \<le> unat (enddataaddr s)" using kk by blast
  then have pg: "page_ok q" using kk q(1) by (auto simp: page_ok_def word_less_nat_alt)
  note n = heap_new_page[OF h pg dis, folded s'_def]
  show "map (blk s') A = map (blk s) A" "map (blk s') U = map (blk s) U" "m_size s' q = 0" using n by blast+
  have m: "enddataaddr s' = enddataaddr s" "ukernel s' = ukernel s" "udata s' = udata s" using uheap_more[OF n(5)] by auto
  then show "enddataaddr s' = enddataaddr s" "udata s' = udata s" by auto
  show "umem_ok ki s' A U (P @ [q]) B" unfolding umem_ok_def n(4) m using n(1) kk q(2) by (auto simp: page_range)
  have "unat q \<in> page_bytes q" by (simp add: page_bytes_def)
  then show "q \<notin> set (A @ U)" "unat q \<in> pages_bytes (P @ [q])"
    using heap_okD(5)[OF h] dis by (auto simp: heap_bytes_def pages_bytes_def)
qed

lemma page_max [simp]: "(4096 :: u32) \<le> UMALLOC_MAX"
  by (simp add: UMALLOC_MAX_def)

lemma usearch_node_spec:
  assumes b: "brk_ok sys cur ki" and k: "umem_ok ki s A U P B" and P: "P \<noteq> []" "enddataaddr s \<noteq> 0"
  shows "unode sys ki s A U P B (usearch_mem_list_node sys s)"
proof (cases rule: heap_node_search[OF umem_heap[OF k]])
  case (1 p)
  then have r: "usearch_mem_list_node sys s = Some (p, s)" by (simp add: usearch_mem_list_node_def)
  show ?thesis by (rule unodeI[OF r k]) (use 1 in auto)
next
  case 2
  show ?thesis
  proof (cases rule: brk_grow[OF b k P(2), of 4096])
    case (3 r k')
    then have r: "usearch_mem_list_node sys s = Some (0, s\<lparr>ukernel := k'\<rparr>)" using 2 P by (simp add: usearch_mem_list_node_def)
    show ?thesis by (rule unodeI[OF r 3(3)]) (use 3(4) in \<open>auto simp: not_le[symmetric]\<close>)
  next
    case (4 r k')
    let ?q = "enddataaddr s + 1"
    have q: "?q \<noteq> 0" using 4(5) by auto
    note n = umem_new_page[OF 4(6) q 4(7)]
    define s' where "s' = clear_page ?q (s\<lparr>ukernel := k', enddataaddr := enddataaddr s + 4096, info_next := (info_next s)(last P := ?q)\<rparr>)"
    have r: "usearch_mem_list_node sys s = Some (?q, s')" using 2 P 4(1,2) by (simp add: usearch_mem_list_node_def Let_def s'_def)
    have n': "umem_ok ki s' A U (P @ [?q]) B" "map (blk s') A = map (blk s) A" "map (blk s') U = map (blk s) U"
      "enddataaddr s' = enddataaddr s + 4096" "udata s' = udata s" using n(1-3,7,8) P by (simp_all add: s'_def)
    show ?thesis by (rule unodeI[OF r n'(1-3,5)]) (use q n(5,6) n'(4) 4(4) in auto)
  qed simp_all
qed

lemma ucreate_node_spec:
  assumes b: "brk_ok sys cur ki" and k: "umem_ok ki s A U P B" and e: "enddataaddr s \<noteq> 0" and P: "P = [] \<Longrightarrow> cur (ukernel s) = enddataaddr s"
  shows "unode sys ki s A U P B (ucreate_mem_list_node sys s)"
proof (cases "P = []")
  case False
  have "chain (info_next s) (malloc_info s) P" using k heap_okD(3) by (auto simp: umem_ok_def)
  then have "malloc_info s \<noteq> 0" using False by (cases P) auto
  then show ?thesis using usearch_node_spec[OF b k False e] by (simp add: ucreate_mem_list_node_def)
next
  case True
  have "chain (info_next s) (malloc_info s) P" using k heap_okD(3) by (auto simp: umem_ok_def)
  then have m0: "malloc_info s = 0" using True by simp
  have "ki (ukernel s)" using k by (simp add: umem_ok_def)
  then have b0: "brk sys 0 s = (sint (enddataaddr s), s)" using brk_zero[OF b] P[OF True] by simp
  show ?thesis
  proof (cases rule: brk_grow[OF b k e, of 4096])
    case (3 r k')
    then have r: "ucreate_mem_list_node sys s = Some (0, s\<lparr>ukernel := k'\<rparr>)" using m0 b0 by (simp add: ucreate_mem_list_node_def)
    show ?thesis by (rule unodeI[OF r 3(3)]) (use 3(4) in \<open>auto simp: not_le[symmetric]\<close>)
  next
    case (4 r k')
    let ?q = "enddataaddr s + 1"
    have q: "?q \<noteq> 0" using 4(5) by auto
    note n = umem_new_page[OF 4(6) q 4(7)]
    define s1 where "s1 = clear_page ?q (s\<lparr>ukernel := k', enddataaddr := enddataaddr s + 4096, malloc_info := ?q\<rparr>)"
    have n': "umem_ok ki s1 A U (P @ [?q]) B" "map (blk s1) A = map (blk s) A" "map (blk s1) U = map (blk s) U" "m_size s1 ?q = 0"
      "enddataaddr s1 = enddataaddr s + 4096" "udata s1 = udata s" using n(1-4,7,8) True by (simp_all add: s1_def)
    have mi: "malloc_info s1 = ?q" by (simp add: s1_def clear_page_def Let_def)
    note f = page_head_free[OF q n'(4) mi]
    have s1: "clear_page ?q (s\<lparr>ukernel := k', malloc_info := ?q, enddataaddr := enddataaddr s + 4096\<rparr>) = s1"
      unfolding s1_def by (rule arg_cong[where f = "clear_page ?q"]) (cases s, simp)
    have r: "ucreate_mem_list_node sys s = Some (?q, s1)"
      using m0 b0 4(1,2) f by (simp add: ucreate_mem_list_node_def usearch_mem_list_node_def Let_def s1)
    show ?thesis by (rule unodeI[OF r n'(1-3,6)]) (use q n(5,6) n'(5) 4(4) in auto)
  qed simp_all
qed

section \<open>Allocation\<close>

definition umalloc_result :: "('k \<Rightarrow> bool) \<Rightarrow> 'k uheap \<Rightarrow> u32 list \<Rightarrow> u32 \<Rightarrow> bool \<Rightarrow> (u32 \<times> 'k uheap) option \<Rightarrow> bool" where
  "umalloc_result ki s U sz sure r \<longleftrightarrow> (\<exists>a s' A' U' P'. r = Some (a, s') \<and> umem_ok ki s' A' U' P' {} \<and> udata s' = udata s \<and>
     map (blk s') U' = (if a = 0 then map (blk s) U else (unat a, unat sz) # map (blk s) U) \<and> (sure \<longrightarrow> a \<noteq> 0))"

lemma umalloc_resultI:
  assumes "r = Some (a, s')" "umem_ok ki s' A' U' P' {}" "udata s' = udata s"
    "map (blk s') U' = (if a = 0 then map (blk s) U else (unat a, unat sz) # map (blk s) U)" "sure \<Longrightarrow> a \<noteq> 0"
  shows "umalloc_result ki s U sz sure r"
  unfolding umalloc_result_def using assms by blast

lemma umalloc_result_mono:
  assumes "umalloc_result ki s U sz sure r" "sure' \<Longrightarrow> sure" "map (blk s) U = map (blk t) U" "udata s = udata t"
  shows "umalloc_result ki t U sz sure' r"
  using assms(1,2) unfolding umalloc_result_def assms(3,4) by blast

lemma avail_node:
  assumes "umem_ok ki s (X @ p1 # Y) U P B"
  shows "p1 \<noteq> 0" "m_addr s p1 \<noteq> 0" "P \<noteq> []" "enddataaddr s \<noteq> 0"
proof -
  note d = heap_okD[OF umem_heap[OF assms]]
  show "p1 \<noteq> 0" "m_addr s p1 \<noteq> 0" using d(1) chain_mid[of "m_next s" "avail_list s" X p1 Y]
    by (auto simp: avail_def ranges_ok_append ranges_ok_Cons range_ok_def blk_def)
  show P: "P \<noteq> []" using d(5) by (auto simp: pages_bytes_def)
  then obtain q where "q \<in> set P" by (cases P) auto
  then have "page_ok q" "unat q \<in> heap_bytes s (X @ p1 # Y) U P" using d(7) by (auto simp: heap_bytes_def pages_bytes_def page_bytes_def)
  then show "enddataaddr s \<noteq> 0" using assms by (auto simp: umem_ok_def page_ok_def unat_eq_zero)
qed

lemma malloc_take_split:
  assumes b: "brk_ok sys cur ki" and k: "umem_ok ki s (X @ p1 # Y) U P {}" and sz: "sz \<noteq> 0" "sz < m_size s p1"
  shows "umalloc_result ki s U sz (\<exists>lim. brk_grants sys ki lim \<and> unat (enddataaddr s) + 4096 \<le> lim) (malloc_take sys sz p1 s)"
proof -
  note p1 = avail_node[OF k]
  have "unode sys ki s (X @ p1 # Y) U P {} (ucreate_mem_list_node sys s)" by (rule ucreate_node_spec[OF b k p1(4)]) (use p1(3) in simp)
  then obtain p3 s1 P1 where n: "ucreate_mem_list_node sys s = Some (p3, s1)" "umem_ok ki s1 (X @ p1 # Y) U P1 {}"
    "map (blk s1) (X @ p1 # Y) = map (blk s) (X @ p1 # Y)" "map (blk s1) U = map (blk s) U" "udata s1 = udata s"
    "p3 \<noteq> 0 \<Longrightarrow> p3 \<notin> set ((X @ p1 # Y) @ U) \<and> unat p3 \<in> pages_bytes P1"
    "\<And>lim. brk_grants sys ki lim \<Longrightarrow> unat (enddataaddr s) + 4096 \<le> lim \<Longrightarrow> p3 \<noteq> 0"
    by (rule unodeE) (rule that; assumption)
  show ?thesis
  proof (cases "p3 = 0")
    case True
    then have r: "malloc_take sys sz p1 s = Some (0, s1)" using p1 sz n(1) by (simp add: malloc_take_def Let_def)
    show ?thesis by (rule umalloc_resultI[OF r n(2,5)]) (use n(4,7) True in \<open>auto simp del: map_eq_conv\<close>)
  next
    case False
    have b1: "m_size s1 p1 = m_size s p1" "m_addr s1 p1 = m_addr s p1" using blk_size[OF n(3), of p1] by auto
    define s' where "s' = link_used p3 (split_block p1 p3 sz s1)"
    have sz1: "sz < m_size s1 p1" and p3: "p3 \<notin> set (X @ p1 # Y) \<union> set U" "unat p3 \<in> pages_bytes P1"
      using sz(2) b1 n(6) False by auto
    note sp = heap_split[OF umem_heap[OF n(2)] sz(1) sz1 p3(1) False p3(2), folded s'_def]
    have a: "m_addr s' p3 = m_addr s p1" using b1 p3(1) by (auto simp: s'_def split_block_def Let_def)
    have r: "malloc_take sys sz p1 s = Some (m_addr s p1, s')"
      using p1 sz(2) n(1) False a by (simp add: malloc_take_def Let_def s'_def)
    have "umem_ok ki s' (X @ p1 # Y) (p3 # U) P1 {}" using n(2) sp(1,3) uheap_more[OF sp(4)] by (simp add: umem_ok_def)
    moreover have "map (blk s') (p3 # U) = (unat (m_addr s p1), unat sz) # map (blk s) U" using sp(2) n(4) b1(2) by simp
    ultimately show ?thesis using p1(2) n(5) uheap_more[OF sp(4)] by (intro umalloc_resultI[OF r, of _ "X @ p1 # Y" "p3 # U" P1]) simp_all
  qed
qed

lemma malloc_take_exact:
  assumes k: "umem_ok ki s (X @ p1 # Y) U P {}"
  shows "umalloc_result ki s U (m_size s p1) True (malloc_take sys (m_size s p1) p1 s)"
proof -
  note h = umem_heap[OF k] and p1 = avail_node[OF k]
  obtain g where g: "delete_node p1 s = Some g" "heap_ok (link_used p1 (set_size p1 (m_size s p1) g)) (X @ Y) (p1 # U) P"
    "map (blk (link_used p1 (set_size p1 (m_size s p1) g))) (p1 # U) = blk s p1 # map (blk s) U"
    "heap_bytes (link_used p1 (set_size p1 (m_size s p1) g)) (X @ Y) (p1 # U) P = heap_bytes s (X @ p1 # Y) U P"
    "mem_info.more g = mem_info.more s" using heap_take_whole[OF h] by (elim exE conjE) (rule that)
  define s' where "s' = link_used p1 (set_size p1 (m_size s p1) g)"
  have a: "m_addr s' p1 = m_addr s p1" using blk_size[of s' "p1 # U" s p1] g(3) by (simp add: s'_def del: list.map) (simp add: blk_def)
  have m: "enddataaddr s' = enddataaddr s \<and> ukernel s' = ukernel s \<and> udata s' = udata s" using g(5) by (intro uheap_more) (simp add: s'_def)
  have r: "malloc_take sys (m_size s p1) p1 s = Some (m_addr s p1, s')"
    using p1 g(1) a by (simp add: malloc_take_def udelete_avail_node_def Let_def s'_def)
  have "umem_ok ki s' (X @ Y) (p1 # U) P {}" using k g(2,4) m by (simp add: umem_ok_def s'_def[symmetric])
  moreover have "map (blk s') (p1 # U) = (unat (m_addr s p1), unat (m_size s p1)) # map (blk s) U" using g(3) by (simp add: s'_def blk_def)
  ultimately show ?thesis using p1 m by (intro umalloc_resultI[OF r, of _ "X @ Y" "p1 # U" P]) simp_all
qed

lemma malloc_loop_found:
  assumes b: "brk_ok sys cur ki" and k: "umem_ok ki s A U P {}" and sz: "sz \<noteq> 0" and x: "x \<in> set A" "sz \<le> m_size s x"
  shows "umalloc_result ki s U sz (\<exists>lim. brk_grants sys ki lim \<and> unat (enddataaddr s) + 4096 \<le> lim) (malloc_loop sys sz s)"
proof -
  have "avail s A" using k by (simp add: umem_ok_def heap_ok_def)
  then show ?thesis
  proof (cases rule: best_fit_avail[where sz = sz])
    case (1 p1 hole)
    then have l: "malloc_loop sys sz s = malloc_take sys sz p1 s" by (subst malloc_loop.simps) simp
    obtain X Y where A: "A = X @ p1 # Y" using 1(2) by (meson split_list)
    show ?thesis
    proof (cases "sz < m_size s p1")
      case True
      then show ?thesis unfolding l using malloc_take_split[OF b k[unfolded A] sz] by simp
    next
      case False
      then have "sz = m_size s p1" using 1(3) by simp
      then show ?thesis unfolding l using umalloc_result_mono[OF malloc_take_exact[OF k[unfolded A]]] by simp
    qed
  next
    case 2
    then show ?thesis using x by (auto simp: not_le[symmetric])
  qed
qed

text \<open>The new block joins the available list.\<close>

lemma umem_insert:
  assumes k: "umem_ok ki s A U P (range_bytes (a, n))" and p: "p \<notin> set (A @ U)" "p \<noteq> 0" "unat p \<in> pages_bytes P"
    and b: "blk s p = (a, n)" "0 < a" "0 < n"
  shows "\<exists>s' A'. uinsert_avail_node p s = Some s' \<and> umem_ok ki s' A' U P {} \<and> map (blk s') U = map (blk s) U \<and>
    bytes (map (blk s') A') = bytes (map (blk s) A) \<union> range_bytes (a, n) \<and> udata s' = udata s \<and> enddataaddr s' = enddataaddr s"
proof -
  note kk = k[unfolded umem_ok_def]
  have "a + n - 1 \<in> range_bytes (a, n)" using b(3) by (auto simp: range_bytes_def)
  then have "a + n - 1 \<le> unat (enddataaddr s)" using kk by blast
  then have ok: "range_ok (blk s p)" using b kk by (auto simp: range_ok_def word_less_nat_alt)
  obtain g m A' where g: "insert_node p s = Some (g, m)" "heap_ok g A' U P" "only_nodes (insert p (set A)) s g"
    "heap_bytes g A' U P = heap_bytes s A U P \<union> range_bytes (a, n)" "map (blk g) U = map (blk s) U"
    "bytes (map (blk g) A') = bytes (map (blk s) A) \<union> range_bytes (a, n)"
    using heap_insert[of s A U P p] kk p ok b(1) by auto
  have m: "enddataaddr g = enddataaddr s" "ukernel g = ukernel s" "udata g = udata s" using g(3) uheap_more[of g s] by (auto simp: only_nodes_def)
  have "umem_ok ki g A' U P {}" unfolding umem_ok_def g(4) m using kk g(2) by auto
  then show ?thesis using g(1,5,6) m by (auto simp: uinsert_avail_node_def simp del: map_eq_conv)
qed

definition data_end :: "('k \<Rightarrow> u32) \<Rightarrow> 'k uheap \<Rightarrow> u32" where
  "data_end cur s = (if enddataaddr s = 0 then cur (ukernel s) else enddataaddr s)"

definition uextended :: "'k brk_call \<Rightarrow> ('k \<Rightarrow> u32) \<Rightarrow> ('k \<Rightarrow> bool) \<Rightarrow> 'k uheap \<Rightarrow> u32 list \<Rightarrow> u32 \<Rightarrow> (bool \<times> 'k uheap) option \<Rightarrow> bool" where
  "uextended sys cur ki s U sz r \<longleftrightarrow> (\<exists>again s' A' P'. r = Some (again, s') \<and> umem_ok ki s' A' U P' {} \<and> map (blk s') U = map (blk s) U \<and>
     udata s' = udata s \<and> (again \<longrightarrow> (\<exists>x \<in> set A'. sz \<le> m_size s' x)) \<and>
     (\<forall>lim. brk_grants sys ki lim \<longrightarrow> unat (data_end cur s) + unat sz + 8192 \<le> lim \<longrightarrow> again \<and> unat (enddataaddr s') + 4096 \<le> lim))"

lemma uextendedI:
  assumes "r = Some (again, s')" "umem_ok ki s' A' U P' {}" "map (blk s') U = map (blk s) U" "udata s' = udata s"
    "again \<Longrightarrow> \<exists>x \<in> set A'. sz \<le> m_size s' x"
    "\<And>lim. brk_grants sys ki lim \<Longrightarrow> unat (data_end cur s) + unat sz + 8192 \<le> lim \<Longrightarrow> again \<and> unat (enddataaddr s') + 4096 \<le> lim"
  shows "uextended sys cur ki s U sz r"
  unfolding uextended_def using assms by blast

text \<open>The new block gets a node \<open>p\<close> and becomes available.\<close>

lemma malloc_new_block:
  assumes k: "umem_ok ki s A U P (range_bytes (unat mem, unat sz))" and p: "p \<notin> set (A @ U)" "p \<noteq> 0" "unat p \<in> pages_bytes P"
    and b: "mem \<noteq> 0" "sz \<noteq> 0"
  shows "\<exists>s' A'. uinsert_avail_node p (set_link p 0 (set_size p sz (set_addr p mem s))) = Some s' \<and> umem_ok ki s' A' U P {} \<and>
    map (blk s') U = map (blk s) U \<and> udata s' = udata s \<and> enddataaddr s' = enddataaddr s \<and> (\<exists>x \<in> set A'. sz \<le> m_size s' x)"
proof -
  define s2 where "s2 = set_link p 0 (set_size p sz (set_addr p mem s))"
  have fr: "\<forall>x. x \<noteq> p \<longrightarrow> m_addr s2 x = m_addr s x \<and> m_size s2 x = m_size s x \<and> m_next s2 x = m_next s x"
    "malloc_info s2 = malloc_info s" "info_next s2 = info_next s" "avail_list s2 = avail_list s" "used_list s2 = used_list s"
    by (auto simp: s2_def)
  note hf = heap_fresh_node[OF umem_heap[OF k] p(1) fr]
  have m: "enddataaddr s2 = enddataaddr s" "ukernel s2 = ukernel s" "udata s2 = udata s" using uheap_more[of s2 s] by (auto simp: s2_def)
  have "heap_bytes s2 A U P = heap_bytes s A U P" unfolding heap_bytes_def hf(2,3) ..
  then have k2: "umem_ok ki s2 A U P (range_bytes (unat mem, unat sz))" using k hf(1) m by (simp add: umem_ok_def)
  have bl: "blk s2 p = (unat mem, unat sz)" by (simp add: blk_def s2_def)
  have nz: "0 < unat mem" "0 < unat sz" using b by (simp_all add: unat_gt_0)
  obtain s3 A3 where i: "uinsert_avail_node p s2 = Some s3" "umem_ok ki s3 A3 U P {}" "map (blk s3) U = map (blk s2) U"
    "bytes (map (blk s3) A3) = bytes (map (blk s2) A) \<union> range_bytes (unat mem, unat sz)" "udata s3 = udata s2" "enddataaddr s3 = enddataaddr s2"
    using umem_insert[OF k2 p bl nz] by (elim exE conjE) (rule that)
  have "ranges_ok (map (blk s3) A3)" using i(2) by (simp add: umem_ok_def heap_ok_def avail_def)
  then have "\<exists>r \<in> set (map (blk s3) A3). unat sz \<le> snd r"
    by (rule ranges_contiguous[of _ "unat mem"]) (use i(4) nz in auto)
  then have "\<exists>x \<in> set A3. sz \<le> m_size s3 x" by (force simp: blk_def word_le_nat_alt)
  moreover have "map (blk s3) U = map (blk s) U" unfolding i(3) hf(3) ..
  ultimately show ?thesis using i(1,2,5,6) m unfolding s2_def[symmetric] by (simp del: map_eq_conv) blast
qed

lemma malloc_extend_started:
  assumes b: "brk_ok sys cur ki" and k: "umem_ok ki s A U P {}" and e: "enddataaddr s \<noteq> 0" and sz: "sz \<noteq> 0" "sz \<le> UMALLOC_MAX"
  shows "uextended sys cur ki s U sz (malloc_extend sys sz s)"
proof (cases rule: brk_grow[OF b k e sz])
  case (1 r k')
  then have r: "malloc_extend sys sz s = Some (False, s\<lparr>ukernel := k'\<rparr>)" using e by (simp add: malloc_extend_def)
  show ?thesis by (rule uextendedI[OF r 1(3)]) (use 1(4) e in \<open>force simp: data_end_def not_le[symmetric]\<close>)+
next
  case (2 r k')
  let ?e = "enddataaddr s + sz" and ?mem = "enddataaddr s + 1"
  let ?s = "s\<lparr>ukernel := k', enddataaddr := ?e\<rparr>"
  have k1: "umem_ok ki ?s A U P (range_bytes (unat ?mem, unat sz))" using 2(6) by simp
  have nz: "enddataaddr ?s \<noteq> 0" "?mem \<noteq> 0" using 2(4,5) e by (auto simp: unat_eq_zero[symmetric])
  have cu: "cur (ukernel ?s) = enddataaddr ?s" using 2(3) by simp
  have "unode sys ki ?s A U P (range_bytes (unat ?mem, unat sz)) (ucreate_mem_list_node sys ?s)"
    by (rule ucreate_node_spec[OF b k1 nz(1)]) (rule cu)
  then obtain p s1 P1 where n: "ucreate_mem_list_node sys ?s = Some (p, s1)" "umem_ok ki s1 A U P1 (range_bytes (unat ?mem, unat sz))"
    "map (blk s1) A = map (blk ?s) A" "map (blk s1) U = map (blk ?s) U" "udata s1 = udata ?s"
    "p = 0 \<Longrightarrow> P1 = P \<and> enddataaddr s1 = enddataaddr ?s" "p \<noteq> 0 \<Longrightarrow> p \<notin> set (A @ U) \<and> unat p \<in> pages_bytes P1"
    "unat (enddataaddr s1) \<le> unat (enddataaddr ?s) + 4096"
    "\<And>lim. brk_grants sys ki lim \<Longrightarrow> unat (enddataaddr ?s) + 4096 \<le> lim \<Longrightarrow> p \<noteq> 0" by (rule unodeE) (rule that; assumption)
  have mU: "map (blk s1) U = map (blk s) U" and mA: "map (blk s1) A = map (blk s) A" using n(3,4) by simp_all
  show ?thesis
  proof (cases "p = 0")
    case True
    have i1: "ki (ukernel s1)" using n(2) by (simp add: umem_ok_def)
    obtain r2 k2 where c: "brk sys (enddataaddr s) s1 = (r2, s1\<lparr>ukernel := k2\<rparr>)" "ki k2"
      by (rule brk_call[OF b i1 e]) (rule that)
    have r: "malloc_extend sys sz s = Some (False, s1\<lparr>ukernel := k2, enddataaddr := enddataaddr s\<rparr>)"
      using e 2(1,2) n(1) True c(1) by (simp add: malloc_extend_def Let_def)
    have "heap_bytes s1 A U P = heap_bytes s A U P" unfolding heap_bytes_def mU mA ..
    then have k': "umem_ok ki (s1\<lparr>ukernel := k2, enddataaddr := enddataaddr s\<rparr>) A U P {}"
      using n(2,6) True k c(2) by (simp add: umem_ok_def)
    show ?thesis by (rule uextendedI[OF r k']) (use n(5,9) True mU 2(4) e in \<open>force simp: data_end_def simp del: map_eq_conv\<close>)+
  next
    case False
    have p: "p \<notin> set (A @ U)" "unat p \<in> pages_bytes P1" using n(7) False by auto
    obtain s3 A3 where i: "uinsert_avail_node p (set_link p 0 (set_size p sz (set_addr p ?mem s1))) = Some s3" "umem_ok ki s3 A3 U P1 {}"
      "map (blk s3) U = map (blk s1) U" "udata s3 = udata s1" "enddataaddr s3 = enddataaddr s1" "\<exists>x \<in> set A3. sz \<le> m_size s3 x"
      using malloc_new_block[OF n(2) p(1) False p(2) nz(2) sz(1)] by (elim exE conjE) (rule that)
    have r: "malloc_extend sys sz s = Some (True, s3)" using e 2(1,2) n(1) False i(1) by (simp add: malloc_extend_def Let_def)
    have m3: "map (blk s3) U = map (blk s) U" "udata s3 = udata s" "unat (enddataaddr s3) \<le> unat (data_end cur s) + unat sz + 4096"
      using i(3,4,5) mU n(5,8) 2(4) e by (simp_all add: data_end_def del: map_eq_conv)
    show ?thesis by (rule uextendedI[OF r i(2) m3(1,2)]) (use i(6) m3(3) in auto)
  qed
qed

lemma malloc_extend_spec:
  assumes b: "brk_ok sys cur ki" and k: "umem_ok ki s A U P {}" and sz: "sz \<noteq> 0" "sz \<le> UMALLOC_MAX"
  shows "uextended sys cur ki s U sz (malloc_extend sys sz s)"
proof -
  let ?s = "s\<lparr>enddataaddr := data_end cur s\<rparr>"
  have i: "ki (ukernel s)" using k by (simp add: umem_ok_def)
  then have c: "cur (ukernel s) \<noteq> 0" "cur (ukernel s) < 0xeffffffe" using b by (auto simp: brk_ok_def)
  then have e: "data_end cur s \<noteq> 0" "data_end cur ?s = data_end cur s" by (auto simp: data_end_def)
  have "umem_ok ki ?s A U P {}" using k c by (auto simp: umem_ok_def data_end_def)
  from malloc_extend_started[OF b this _ sz] have "uextended sys cur ki ?s U sz (malloc_extend sys sz ?s)" using e by simp
  moreover have "malloc_extend sys sz ?s = malloc_extend sys sz s"
    using brk_zero[OF b i] c e by (simp add: malloc_extend_def data_end_def)
  ultimately show ?thesis unfolding uextended_def e(2) by simp
qed

lemma malloc_loop_spec:
  assumes b: "brk_ok sys cur ki" and k: "umem_ok ki s A U P {}" and sz: "sz \<noteq> 0" "sz \<le> UMALLOC_MAX"
  shows "umalloc_result ki s U sz (\<exists>lim. brk_grants sys ki lim \<and> unat (data_end cur s) + unat sz + 8192 \<le> lim) (malloc_loop sys sz s)"
    (is "umalloc_result _ _ _ _ ?sure _")
proof -
  have "avail s A" using k by (simp add: umem_ok_def heap_ok_def)
  then show ?thesis
  proof (cases rule: best_fit_avail[where sz = sz])
    case (1 p3 hole)
    have "enddataaddr s \<noteq> 0" using avail_node(4) k 1(2) by (metis split_list)
    then show ?thesis by (intro umalloc_result_mono[OF malloc_loop_found[OF b k sz(1) 1(2,3)]]) (auto simp: data_end_def)
  next
    case 2
    obtain again s' A' P' where e: "malloc_extend sys sz s = Some (again, s')" "umem_ok ki s' A' U P' {}" "map (blk s') U = map (blk s) U"
      "udata s' = udata s" "again \<longrightarrow> (\<exists>x \<in> set A'. sz \<le> m_size s' x)"
      "\<forall>lim. brk_grants sys ki lim \<longrightarrow> unat (data_end cur s) + unat sz + 8192 \<le> lim \<longrightarrow> again \<and> unat (enddataaddr s') + 4096 \<le> lim"
      using malloc_extend_spec[OF b k sz] unfolding uextended_def by (elim exE conjE) (rule that)
    have l: "malloc_loop sys sz s = (if again then malloc_loop sys sz s' else Some (0, s'))"
      by (subst malloc_loop.simps) (simp add: 2(1) e(1))
    show ?thesis
    proof (cases again)
      case True
      obtain x where x: "x \<in> set A'" "sz \<le> m_size s' x" using e(5) True by blast
      have "malloc_loop sys sz s = malloc_loop sys sz s'" using l True by simp
      then show ?thesis using e(6) by (simp only:) (rule umalloc_result_mono[OF malloc_loop_found[OF b e(2) sz(1) x] _ e(3,4)], blast)
    next
      case False
      then have r: "malloc_loop sys sz s = Some (0, s')" using l by simp
      show ?thesis by (rule umalloc_resultI[OF r e(2,4)]) (use e(3,6) False in \<open>auto simp del: map_eq_conv\<close>)
    qed
  qed
qed

section \<open>Properties\<close>

text \<open>The heap as the program sees it: available bytes and used blocks.\<close>

definition uheap_state :: "('k \<Rightarrow> bool) \<Rightarrow> 'k uheap \<Rightarrow> nat set \<Rightarrow> (nat \<times> nat) list \<Rightarrow> bool" where
  "uheap_state ki s F us \<longleftrightarrow> (\<exists>A U P. umem_ok ki s A U P {} \<and> F = bytes (map (blk s) A) \<and> us = map (blk s) U)"

lemma uheap_state_disjoint:
  assumes "uheap_state ki s F us"
  shows "disjoint_sets (map range_bytes us)" "bytes us \<inter> F = {}"
proof -
  obtain A U P where k: "umem_ok ki s A U P {}" and F: "F = bytes (map (blk s) A)" and us: "us = map (blk s) U"
    using assms by (auto simp: uheap_state_def)
  note d = heap_okD[OF umem_heap[OF k]]
  show "disjoint_sets (map range_bytes us)" using d(8) by (simp add: us used_ranges_def comp_def)
  show "bytes us \<inter> F = {}" using d(11) by (simp add: us F)
qed

lemma malloc_spec:
  assumes b: "brk_ok sys cur ki" and st: "uheap_state ki s F us" and sz: "0 < sz" "sz \<le> UMALLOC_MAX"
  shows "\<exists>a s' F' us'. malloc sys sz s = Some (a, s') \<and> uheap_state ki s' F' us' \<and> udata s' = udata s \<and>
    (if a = 0 then us' = us \<and> \<not> (\<exists>lim. brk_grants sys ki lim \<and> unat (data_end cur s) + unat sz + 8192 \<le> lim)
     else us' = (unat a, unat sz) # us \<and> range_bytes (unat a, unat sz) \<inter> (bytes us \<union> F') = {})"
proof -
  obtain A U P where k: "umem_ok ki s A U P {}" and us: "us = map (blk s) U" using st by (auto simp: uheap_state_def)
  have nz: "sz \<noteq> 0" using sz(1) by auto
  obtain a s' A' U' P' where r: "malloc_loop sys sz s = Some (a, s')" "umem_ok ki s' A' U' P' {}" "udata s' = udata s"
    "map (blk s') U' = (if a = 0 then map (blk s) U else (unat a, unat sz) # map (blk s) U)"
    "(\<exists>lim. brk_grants sys ki lim \<and> unat (data_end cur s) + unat sz + 8192 \<le> lim) \<longrightarrow> a \<noteq> 0"
    using malloc_loop_spec[OF b k nz sz(2)] unfolding umalloc_result_def by (elim exE conjE) (rule that)
  have km: "malloc sys sz s = Some (a, s')" using r(1) sz(2) by (auto simp: malloc_def)
  have st': "uheap_state ki s' (bytes (map (blk s') A')) (if a = 0 then us else (unat a, unat sz) # us)"
    unfolding uheap_state_def us r(4)[symmetric] using r(2) by blast
  show ?thesis
  proof (cases "a = 0")
    case True
    then show ?thesis using km st' r(3,5) by auto
  next
    case False
    then have st2: "uheap_state ki s' (bytes (map (blk s') A')) ((unat a, unat sz) # us)" using st' by simp
    have "range_bytes (unat a, unat sz) \<inter> (bytes us \<union> bytes (map (blk s') A')) = {}"
      using uheap_state_disjoint[OF st2] by (auto simp: bytes_def)
    then show ?thesis using km st2 r(3) False by auto
  qed
qed

text \<open>C8: \<^verbatim>\<open>malloc\<close> returns. It gives a block of the requested size that overlaps no block in use and no
  available memory, and changes neither the blocks in use nor their contents; or it returns the null
  pointer, which it does not when the system lets the data segment grow by the request and two pages
  for nodes.\<close>

theorem malloc_correct:
  assumes "brk_ok sys cur ki" "uheap_state ki s F us" "0 < sz" "sz \<le> UMALLOC_MAX"
  shows "\<exists>a s' F' us'. malloc sys sz s = Some (a, s') \<and> uheap_state ki s' F' us' \<and> udata s' = udata s \<and>
    (if a = 0 then us' = us \<and> \<not> (\<exists>lim. brk_grants sys ki lim \<and> unat (data_end cur s) + unat sz + 8192 \<le> lim)
     else us' = (unat a, unat sz) # us \<and> range_bytes (unat a, unat sz) \<inter> (bytes us \<union> F') = {})"
  by (rule malloc_spec[OF assms])

lemma free_found:
  assumes k: "umem_ok ki s A (X @ p # Z) P {}" and find: "used_find s (m_addr s p) (used_list s) 0 = Some (p, if X = [] then 0 else last X)"
  shows "\<exists>s'. free (m_addr s p) s = Some s' \<and> udata s' = udata s \<and>
    uheap_state ki s' (bytes (map (blk s) A) \<union> range_bytes (blk s p)) (map (blk s) (X @ Z))"
proof -
  note h = umem_heap[OF k]
  obtain g' m A' where i: "insert_node p (unlink_used p (if X = [] then 0 else last X) s) = Some (g', m)" "heap_ok g' A' (X @ Z) P"
    "mem_info.more g' = mem_info.more s" "heap_bytes g' A' (X @ Z) P \<subseteq> heap_bytes s A (X @ p # Z) P"
    "map (blk g') (X @ Z) = map (blk s) (X @ Z)" "bytes (map (blk g') A') = bytes (map (blk s) A) \<union> range_bytes (blk s p)"
    using heap_release[OF h] by (elim exE conjE) (rule that)
  note m = uheap_more[OF i(3)]
  have "m_addr s p \<noteq> 0" "p \<noteq> 0" using heap_unlink(5,7)[OF h] by (auto simp: range_ok_def blk_def)
  then have r: "free (m_addr s p) s = Some g'" using find i(1) by (simp add: free_def uinsert_avail_node_def)
  have "umem_ok ki g' A' (X @ Z) P {}" using k i(2,4) m by (auto simp: umem_ok_def)
  then have "uheap_state ki g' (bytes (map (blk s) A) \<union> range_bytes (blk s p)) (map (blk s) (X @ Z))"
    unfolding uheap_state_def i(5)[symmetric] i(6)[symmetric] by blast
  with r m show ?thesis by blast
qed

lemma free_spec:
  assumes "uheap_state ki s F us"
  shows "\<exists>s' F' us'. free ptr s = Some s' \<and> uheap_state ki s' F' us' \<and> udata s' = udata s \<and>
    (if \<exists>n. (unat ptr, n) \<in> set us
     then \<exists>n xs ys. us = xs @ (unat ptr, n) # ys \<and> us' = xs @ ys \<and> F' = F \<union> range_bytes (unat ptr, n)
     else s' = s \<and> F' = F \<and> us' = us)"
proof -
  obtain A U P where k: "umem_ok ki s A U P {}" and F: "F = bytes (map (blk s) A)" and us: "us = map (blk s) U"
    using assms by (auto simp: uheap_state_def)
  show ?thesis
  proof (cases rule: used_find_block[OF umem_heap[OF k], of ptr])
    case 1
    then have "free ptr s = Some s" by (simp add: free_def)
    then show ?thesis using assms 1(2) us by auto
  next
    case (2 X p Z)
    have f: "used_find s (m_addr s p) (used_list s) 0 = Some (p, if X = [] then 0 else last X)" using 2(2,4) by simp
    obtain s' where r: "free ptr s = Some s'" "udata s' = udata s"
      "uheap_state ki s' (F \<union> range_bytes (unat ptr, unat (m_size s p))) (map (blk s) X @ map (blk s) Z)"
      using free_found[OF k[unfolded 2(1)] f] F 2(2) by (auto simp: blk_def[of s p])
    have us2: "us = map (blk s) X @ (unat ptr, unat (m_size s p)) # map (blk s) Z" using 2(1,2) by (simp add: us blk_def)
    then have ex: "\<exists>n. (unat ptr, n) \<in> set us" by auto
    show ?thesis unfolding if_P[OF ex] using r us2 by blast
  qed
qed

text \<open>C18: \<^verbatim>\<open>free\<close> of the address of a block in use removes exactly this block from the used blocks and
  makes its bytes available again; of any other address it changes nothing.\<close>

theorem free_correct:
  assumes "uheap_state ki s F us"
  shows "\<exists>s' F' us'. free ptr s = Some s' \<and> uheap_state ki s' F' us' \<and> udata s' = udata s \<and>
    (if \<exists>n. (unat ptr, n) \<in> set us
     then \<exists>n xs ys. us = xs @ (unat ptr, n) # ys \<and> us' = xs @ ys \<and> F' = F \<union> range_bytes (unat ptr, n)
     else s' = s \<and> F' = F \<and> us' = us)"
  by (rule free_spec[OF assms])

section \<open>Copying and clearing\<close>

lemma offset_eq:
  fixes a b :: u32
  assumes u: "unat (word_of_nat m :: u32) = m"
  shows "(a = b + word_of_nat m) = (unat (a - b) = m)"
proof -
  have "(a = b + word_of_nat m) = (a - b = word_of_nat m)" by (auto simp: algebra_simps)
  then show ?thesis by (simp add: word_unat_eq_iff[of "a - b"] u)
qed

lemma byte_at:
  "copy_byte src dest i d a = (if a = dest + word_of_nat i then d (src + word_of_nat i) else d a)"
  "zero_byte ptr i d a = (if a = ptr + word_of_nat i then 0 else d a)"
  by (simp_all add: copy_byte_def zero_byte_def)

lemma fold_copy:
  fixes d :: "u32 \<Rightarrow> u8"
  assumes "m \<le> n" "\<And>i j. i < n \<Longrightarrow> j < n \<Longrightarrow> src + word_of_nat i \<noteq> dest + word_of_nat j" "n \<le> 2 ^ 32"
  shows "\<forall>a. fold (copy_byte src dest) [0 ..< m] d a = (if unat (a - dest) < m then d (src + (a - dest)) else d a)"
  using assms(1)
proof (induction m)
  case (Suc m)
  define D where "D = fold (copy_byte src dest) [0 ..< m] d"
  have IH: "D a = (if unat (a - dest) < m then d (src + (a - dest)) else d a)" for a
    unfolding D_def using Suc.IH Suc_leD[OF Suc.prems] by blast
  have step: "fold (copy_byte src dest) [0 ..< Suc m] d a = (if a = dest + word_of_nat m then D (src + word_of_nat m) else D a)" for a
    by (simp only: upt_Suc_append[OF le0] fold_append fold_simps comp_apply byte_at D_def)
  have nd: "\<not> unat (src + word_of_nat m - dest) < m"
  proof
    assume "unat (src + word_of_nat m - dest) < m"
    moreover have "src + word_of_nat m = dest + word_of_nat (unat (src + word_of_nat m - dest))" by simp
    ultimately show False using assms(2)[of m "unat (src + word_of_nat m - dest)"] Suc.prems by simp
  qed
  have u: "unat (word_of_nat m :: u32) = m" using Suc.prems assms(3) by (simp add: unat_of_nat)
  show ?case unfolding step using nd u by (auto simp: IH less_Suc_eq offset_eq[OF u, symmetric])
qed simp

lemma fold_zero:
  fixes d :: "u32 \<Rightarrow> u8"
  assumes "m \<le> 2 ^ 32"
  shows "\<forall>a. fold (zero_byte ptr) [0 ..< m] d a = (if unat (a - ptr) < m then 0 else d a)"
  using assms
proof (induction m)
  case (Suc m)
  define D where "D = fold (zero_byte ptr) [0 ..< m] d"
  have IH: "D a = (if unat (a - ptr) < m then 0 else d a)" for a unfolding D_def using Suc.IH Suc_leD[OF Suc.prems] by blast
  have step: "fold (zero_byte ptr) [0 ..< Suc m] d a = (if a = ptr + word_of_nat m then 0 else D a)" for a
    by (simp only: upt_Suc_append[OF le0] fold_append fold_simps comp_apply byte_at D_def)
  have u: "unat (word_of_nat m :: u32) = m" using Suc.prems by (simp add: unat_of_nat)
  show ?case unfolding step by (auto simp: IH less_Suc_eq offset_eq[OF u, symmetric])
qed simp

text \<open>Blocks of the heap as address ranges.\<close>

lemma block_offset:
  fixes a :: u32
  assumes "unat a + n \<le> 2 ^ 32" "i < n"
  shows "unat (a + word_of_nat i) = unat a + i"
proof -
  have u: "unat (word_of_nat i :: u32) = i" using assms by (simp add: unat_of_nat)
  show ?thesis using assms u by (subst unat_add_lem[THEN iffD1]) simp_all
qed

lemma ubcopy_block:
  assumes "range_bytes (unat src, unat n) \<inter> range_bytes (unat dest, unat n) = {}"
    "unat src + unat n \<le> 2 ^ 32" "unat dest + unat n \<le> 2 ^ 32"
  shows "i < unat n \<Longrightarrow> udata (ubcopy src dest n s) (dest + word_of_nat i) = udata s (src + word_of_nat i)"
    "unat a \<notin> range_bytes (unat dest, unat n) \<Longrightarrow> udata (ubcopy src dest n s) a = udata s a"
proof -
  have dis: "src + word_of_nat i \<noteq> dest + word_of_nat j" if ij: "i < unat n" "j < unat n" for i j
  proof
    assume "src + word_of_nat i = dest + word_of_nat j"
    then have "unat src + i = unat dest + j" using block_offset[OF assms(2) ij(1)] block_offset[OF assms(3) ij(2)] by simp
    moreover have "unat src + i \<in> range_bytes (unat src, unat n)" "unat dest + j \<in> range_bytes (unat dest, unat n)"
      using ij by (auto simp: range_bytes_def)
    ultimately show False using assms(1) by auto
  qed
  have n32: "unat n \<le> 2 ^ 32" using assms(2) by simp
  note f = fold_copy[OF order_refl dis n32, of "udata s"]
  show "udata (ubcopy src dest n s) (dest + word_of_nat i) = udata s (src + word_of_nat i)" if "i < unat n"
  proof -
    have "unat (word_of_nat i :: u32) = i" using that n32 by (simp add: unat_of_nat)
    then show ?thesis using f that by (simp add: ubcopy_def)
  qed
  show "udata (ubcopy src dest n s) a = udata s a" if out: "unat a \<notin> range_bytes (unat dest, unat n)"
  proof -
    have "\<not> unat (a - dest) < unat n"
    proof
      assume lt: "unat (a - dest) < unat n"
      have "unat a = unat (dest + word_of_nat (unat (a - dest)))" by simp
      also have "\<dots> = unat dest + unat (a - dest)" by (rule block_offset[OF assms(3) lt])
      finally show False using out lt by (simp add: range_bytes_def)
    qed
    then show ?thesis using f by (simp add: ubcopy_def)
  qed
qed

lemma uheap_state_data: "uheap_state ki (s\<lparr>udata := d\<rparr>) = uheap_state ki s"
  by (intro ext) (simp add: uheap_state_def umem_ok_def)

lemma uheap_state_copy [simp]: "uheap_state ki (ubcopy src dest n s) = uheap_state ki s" "uheap_state ki (ubzero src n s) = uheap_state ki s"
  by (simp_all add: ubcopy_def ubzero_def uheap_state_data)

lemma uheap_state_range:
  assumes "uheap_state ki s F us" "(a, n) \<in> set us"
  shows "0 < a" "0 < n" "a + n < 0xefffffff"
  using assms heap_okD(6) by (fastforce simp: uheap_state_def umem_ok_def range_ok_def)+

lemma realloc_size_spec:
  assumes st: "uheap_state ki s F us" and n: "(unat ptr, n) \<in> set us"
  shows "\<exists>osize. realloc_size ptr s = Some osize \<and> (unat ptr, unat osize) \<in> set us"
proof -
  obtain A U P where k: "umem_ok ki s A U P {}" and us: "us = map (blk s) U" using st by (auto simp: uheap_state_def)
  have p0: "ptr \<noteq> 0" using uheap_state_range(1)[OF st n] by auto
  show ?thesis
  proof (cases rule: used_find_block[OF umem_heap[OF k], of ptr])
    case 1
    then show ?thesis using n us by blast
  next
    case (2 X p Z)
    then have "realloc_size ptr s = Some (m_size s p)" using p0 by (simp add: realloc_size_def)
    moreover have "(unat ptr, unat (m_size s p)) \<in> set us" using 2(1,2) by (simp add: us blk_def)
    ultimately show ?thesis by blast
  qed
qed

lemma disjoint_starts:
  assumes "disjoint_sets (map range_bytes us)" "(a, n) \<in> set us" "(a, m) \<in> set us" "0 < n" "0 < m"
  shows "n = m"
proof (rule ccontr)
  assume "n \<noteq> m"
  moreover obtain i where i: "i < length us" "us ! i = (a, n)" using assms(2) by (auto simp: in_set_conv_nth)
  moreover obtain j where j: "j < length us" "us ! j = (a, m)" using assms(3) by (auto simp: in_set_conv_nth)
  ultimately have "i < j \<or> j < i" by (metis linorder_neqE_nat prod.inject)
  then have "range_bytes (a, n) \<inter> range_bytes (a, m) = {}"
    using i j sorted_wrt_nth_less[OF assms(1)[unfolded disjoint_sets_def], of i j] sorted_wrt_nth_less[OF assms(1)[unfolded disjoint_sets_def], of j i]
    by auto
  then show False using assms(4,5) by (auto simp: range_bytes_def)
qed

text \<open>Copying a block in use into the larger new block \<open>a\<close> and releasing it.\<close>

lemma realloc_move:
  assumes st: "uheap_state ki s F us" "(unat ptr, n) \<in> set us" and n: "unat osize = n" "n < unat sz"
    and st1: "uheap_state ki s1 F1 ((unat a, unat sz) # us)" "udata s1 = udata s"
  shows "\<exists>s' F' xs ys. free ptr (ubcopy ptr a osize s1) = Some s' \<and> us = xs @ (unat ptr, n) # ys \<and>
    uheap_state ki s' F' ((unat a, unat sz) # xs @ ys) \<and> (\<forall>i < n. udata s' (a + word_of_nat i) = udata s (ptr + word_of_nat i)) \<and>
    (\<forall>x. unat x \<in> bytes us \<longrightarrow> udata s' x = udata s x)"
proof -
  note rg = uheap_state_range[OF st] and dj = uheap_state_disjoint[OF st(1)] uheap_state_disjoint[OF st1(1)]
  let ?c = "ubcopy ptr a osize s1"
  have new: "range_bytes (unat a, unat sz) \<inter> bytes us = {}" using dj(3) by (auto simp: bytes_def)
  have sub: "range_bytes (unat ptr, n) \<subseteq> bytes us" "range_bytes (unat a, n) \<subseteq> range_bytes (unat a, unat sz)"
    using st(2) n(2) by (auto simp: bytes_def range_bytes_def)
  have sz1: "unat a + unat sz < 0xefffffff" using uheap_state_range(3)[OF st1(1), of "unat a" "unat sz"] by simp
  have "range_bytes (unat ptr, n) \<inter> range_bytes (unat a, n) = {}" using sub new by blast
  then have cpre: "range_bytes (unat ptr, unat osize) \<inter> range_bytes (unat a, unat osize) = {}"
    "unat ptr + unat osize \<le> 2 ^ 32" "unat a + unat osize \<le> 2 ^ 32" using sz1 n rg(3) by simp_all
  note cp = ubcopy_block[OF cpre, of _ s1, unfolded n(1) st1(2)]
  have "unat a \<in> range_bytes (unat a, n)" "unat ptr \<in> range_bytes (unat ptr, n)" using rg(2) by (simp_all add: range_bytes_def)
  then have ap: "unat a \<noteq> unat ptr" using new sub by (metis disjoint_iff subsetD)
  have stc: "uheap_state ki ?c F1 ((unat a, unat sz) # us)" using st1(1) by simp
  have ex: "\<exists>k. (unat ptr, k) \<in> set ((unat a, unat sz) # us)" using st(2) by auto
  obtain s' F' us' k xs ys where f: "free ptr ?c = Some s'" "uheap_state ki s' F' us'" "udata s' = udata ?c"
    "(unat a, unat sz) # us = xs @ (unat ptr, k) # ys" "us' = xs @ ys"
    using free_spec[OF stc, of ptr] unfolding if_P[OF ex] by (elim exE conjE) (rule that)
  obtain xs' where xs: "xs = (unat a, unat sz) # xs'" "us = xs' @ (unat ptr, k) # ys" using f(4) ap by (cases xs) auto
  have "(unat ptr, k) \<in> set us" using xs(2) by simp
  then have kn: "k = n" using disjoint_starts[OF dj(1) _ st(2)] uheap_state_range(2)[OF st(1)] rg(2) by blast
  have d1: "\<forall>i < n. udata s' (a + word_of_nat i) = udata s (ptr + word_of_nat i)" using cp(1) f(3) by simp
  have "udata s' x = udata s x" if "unat x \<in> bytes us" for x
  proof -
    have "unat x \<notin> range_bytes (unat a, n)" using that new sub(2) by blast
    then show ?thesis using cp(2)[of x] f(3) by simp
  qed
  moreover have "uheap_state ki s' F' ((unat a, unat sz) # xs' @ ys)" using f(2,5) xs(1) by simp
  ultimately show ?thesis using f(1) xs(2) kn d1 by blast
qed

text \<open>C19: \<^verbatim>\<open>realloc\<close> of a block in use that is large enough returns the block as it is. Otherwise it
  returns a new block of the requested size with the contents of the old one, which is released; the other
  blocks and their contents stay as they are. When no new block can be had there is no defined result:
  the contents are copied to the null pointer.\<close>

theorem realloc_correct:
  assumes b: "brk_ok sys cur ki" and st: "uheap_state ki s F us" and n: "(unat ptr, n) \<in> set us" and sz: "sz \<le> UMALLOC_MAX"
  shows "if unat sz \<le> n then realloc sys ptr sz s = Some (ptr, s)
    else if \<exists>s1. malloc sys sz s = Some (0, s1) then realloc sys ptr sz s = None
    else \<exists>a s' F' xs ys. realloc sys ptr sz s = Some (a, s') \<and> a \<noteq> 0 \<and> us = xs @ (unat ptr, n) # ys \<and>
      uheap_state ki s' F' ((unat a, unat sz) # xs @ ys) \<and> (\<forall>i < n. udata s' (a + word_of_nat i) = udata s (ptr + word_of_nat i)) \<and>
      (\<forall>x. unat x \<in> bytes us \<longrightarrow> udata s' x = udata s x)"
proof -
  note rg = uheap_state_range[OF st n] and dj = uheap_state_disjoint[OF st]
  obtain osize where o: "realloc_size ptr s = Some osize" "(unat ptr, unat osize) \<in> set us" using realloc_size_spec[OF st n] by blast
  have on: "unat osize = n" by (rule disjoint_starts[OF dj(1) o(2) n]) (use rg uheap_state_range[OF st o(2)] in auto)
  have o0: "0 < osize" using on rg(2) by (simp add: word_less_nat_alt)
  show ?thesis
  proof (cases "unat sz \<le> n")
    case True
    then show ?thesis using o(1) on by (simp add: realloc_def word_less_nat_alt)
  next
    case False
    then have lt: "osize < sz" "n < unat sz" using on by (simp_all add: word_less_nat_alt)
    then have s0: "0 < sz" using o0 by (meson order.strict_trans)
    obtain a s1 F1 us1 where m: "malloc sys sz s = Some (a, s1)" "uheap_state ki s1 F1 us1" "udata s1 = udata s"
      "if a = 0 then us1 = us \<and> \<not> (\<exists>lim. brk_grants sys ki lim \<and> unat (data_end cur s) + unat sz + 8192 \<le> lim)
       else us1 = (unat a, unat sz) # us \<and> range_bytes (unat a, unat sz) \<inter> (bytes us \<union> F1) = {}"
      using malloc_spec[OF b st s0 sz] by (elim exE conjE) (rule that)
    have re: "realloc sys ptr sz s = (if a = 0 then None else map_option (Pair a) (free ptr (ubcopy ptr a osize s1)))"
      using o(1) o0 lt(1) m(1) by (simp add: realloc_def)
    show ?thesis
    proof (cases "a = 0")
      case True
      then show ?thesis using re m(1) False by simp
    next
      case a: False
      then have "uheap_state ki s1 F1 ((unat a, unat sz) # us)" using m(2,4) by simp
      note mv = realloc_move[OF st n on lt(2) this m(3)]
      have "\<not> (\<exists>s1. malloc sys sz s = Some (0, s1))" using m(1) a by simp
      then show ?thesis using False a re mv by auto
    qed
  qed
qed

text \<open>\<^verbatim>\<open>calloc\<close> clears the block that it returns; its size is the product modulo 2^32.\<close>

lemma calloc_zeroed:
  assumes b: "brk_ok sys cur ki" and st: "uheap_state ki s F us" and sz: "0 < nmemb * sz" "nmemb * sz \<le> UMALLOC_MAX"
  shows "\<exists>a s' F' us'. calloc sys nmemb sz s = Some (a, s') \<and> uheap_state ki s' F' us' \<and>
    (if a = 0 then us' = us else us' = (unat a, unat (nmemb * sz)) # us \<and> (\<forall>i < unat (nmemb * sz). udata s' (a + word_of_nat i) = 0))"
proof -
  obtain a s1 F1 us1 where m: "malloc sys (nmemb * sz) s = Some (a, s1)" "uheap_state ki s1 F1 us1"
    "if a = 0 then us1 = us \<and> \<not> (\<exists>lim. brk_grants sys ki lim \<and> unat (data_end cur s) + unat (nmemb * sz) + 8192 \<le> lim)
     else us1 = (unat a, unat (nmemb * sz)) # us \<and> range_bytes (unat a, unat (nmemb * sz)) \<inter> (bytes us \<union> F1) = {}"
    using malloc_spec[OF b st sz] by (elim exE conjE) (rule that)
  have c: "calloc sys nmemb sz s = Some (a, if a \<noteq> 0 then ubzero a (nmemb * sz) s1 else s1)" using m(1) by (simp add: calloc_def Let_def)
  have "udata (ubzero a (nmemb * sz) s1) (a + word_of_nat i) = 0" if "i < unat (nmemb * sz)" for i
  proof -
    have n: "unat (nmemb * sz) \<le> 2 ^ 32" using sz(2) by (simp add: UMALLOC_MAX_def word_le_nat_alt)
    then have "unat (word_of_nat i :: u32) = i" using that by (simp add: unat_of_nat)
    then show ?thesis using fold_zero[OF n, of a "udata s1"] that by (simp add: ubzero_def)
  qed
  then show ?thesis using c m(2,3) by (intro exI[of _ a]) (auto split: if_splits)
qed

section \<open>Requests of size zero\<close>

text \<open>A block is split while an unused node is at hand.\<close>

lemma malloc_splits:
  assumes av: "avail s A" "A \<noteq> []" "\<forall>x \<in> set A. sz < m_size s x" and mi: "malloc_info s \<noteq> 0" and sz: "sz \<le> UMALLOC_MAX"
    and nd: "node_search s (malloc_info s) 0 = Some (Inl p)" "p \<noteq> 0" "p \<notin> set A"
  shows "\<exists>p1 \<in> set A. malloc sys sz s = Some (m_addr s p1, link_used p (split_block p1 p sz s))"
proof (cases rule: best_fit_avail[OF av(1), where sz = sz])
  case (1 p1 hole)
  have p1: "p1 \<noteq> 0" "p1 \<noteq> p" using lseg_nz[of "m_next s" "avail_list s" A 0] av(1) 1(2) nd(3) by (auto simp: avail_def)
  have "ucreate_mem_list_node sys s = Some (p, s)" using mi nd(1) by (simp add: ucreate_mem_list_node_def usearch_mem_list_node_def)
  then have "malloc_take sys sz p1 s = Some (m_addr s p1, link_used p (split_block p1 p sz s))"
    using p1 av(3) 1(2) nd(2) by (simp add: malloc_take_def split_block_def Let_def)
  then have "malloc sys sz s = Some (m_addr s p1, link_used p (split_block p1 p sz s))"
    using sz 1(1) by (auto simp: malloc_def malloc_loop.simps[of sys sz s] not_less[symmetric])
  then show ?thesis using 1(2) by blast
next
  case 2
  then show ?thesis using av(2,3) by (cases A) (auto simp: less_le_not_le)
qed

text \<open>C28: A request of size 0 leaves the node of its block unused, so that the next request takes the
  same node and makes it its own successor in the list of used blocks: from then on \<^verbatim>\<open>free\<close> of any other
  address does not return.\<close>

theorem malloc_zero_free_hangs:
  assumes h: "heap_ok s A U P" and A: "A \<noteq> []" "\<forall>x \<in> set A. sz < m_size s x" and sz: "0 < sz" "sz \<le> UMALLOC_MAX"
    and p: "node_search s (malloc_info s) 0 = Some (Inl p)"
  shows "\<exists>a s1 b s2. malloc sys 0 s = Some (a, s1) \<and> malloc sys sz s1 = Some (b, s2) \<and> used_list s2 = p \<and> m_next s2 p = p \<and>
    (\<forall>c. c \<noteq> 0 \<longrightarrow> c \<noteq> b \<longrightarrow> free c s2 = None)"
proof -
  note d = heap_okD[OF h]
  obtain q where q: "q \<in> set P" "p \<in> set (page_nodes q)" "m_size s p = 0" using node_search_correct[OF d(3), of 0] p by auto
  have p0: "p \<noteq> 0" using page_nodes_in[OF d(7)[OF q(1)] q(2)] by simp
  have pA: "p \<notin> set A" using d(13)[of p] q(3) by auto
  have mi: "malloc_info s \<noteq> 0" using p by (auto simp: node_search.simps[of s 0])
  have A0: "\<forall>x \<in> set A. 0 < m_size s x" using A(2) sz(1) by (auto intro: order.strict_trans)
  obtain p1 where m1: "p1 \<in> set A" "malloc sys 0 s = Some (m_addr s p1, link_used p (split_block p1 p 0 s))"
    using malloc_splits[OF d(1) A(1) A0 mi _ p p0 pA, of sys] by auto
  define s1 where "s1 = link_used p (split_block p1 p 0 s)"
  have f1: "m_size s1 = m_size s" "info_next s1 = info_next s" "malloc_info s1 = malloc_info s" "avail_list s1 = avail_list s"
    "\<And>x. x \<noteq> p \<Longrightarrow> m_addr s1 x = m_addr s x \<and> m_next s1 x = m_next s x" "used_list s1 = p"
    using m1(1) pA q(3) by (auto simp: s1_def split_block_def Let_def fun_eq_iff)
  have fA: "m_addr s1 x = m_addr s x \<and> m_next s1 x = m_next s x" if "x \<in> set A" for x using that pA by (intro f1(5)) auto
  have "map (blk s1) A = map (blk s) A" using f1(1) fA by (intro map_blk_cong) auto
  moreover have "chain (m_next s1) (avail_list s) A = chain (m_next s) (avail_list s) A" by (rule lseg_cong) (use fA in auto)
  ultimately have av1: "avail s1 A" using d(1) f1(4) by (simp add: avail_def del: map_eq_conv)
  have p': "node_search s1 (malloc_info s1) 0 = Some (Inl p)" using node_search_cong[OF d(3) f1(1,2)] p f1(3) by simp
  obtain p2 where m2: "p2 \<in> set A" "malloc sys sz s1 = Some (m_addr s1 p2, link_used p (split_block p2 p sz s1))"
    using malloc_splits[OF av1 A(1) _ _ sz(2) p' p0 pA, of sys] A(2) mi f1(1,3) by auto
  define s2 where "s2 = link_used p (split_block p2 p sz s1)"
  have p2: "p2 \<noteq> p" using m2(1) pA by auto
  have f2: "used_list s2 = p" "m_next s2 p = p" "m_addr s2 p = m_addr s1 p2" using p2 f1(6) by (simp_all add: s2_def split_block_def Let_def)
  have "free c s2 = None" if c: "c \<noteq> 0" "c \<noteq> m_addr s1 p2" for c
  proof -
    have "used_find s2 c (used_list s2) 0 = None" using used_find_cycle[of s2 c p 0] f2 p0 c(2) by (cases "used_find s2 c p 0") auto
    then show ?thesis using c(1) by (simp add: free_def)
  qed
  then show ?thesis using m1(2) m2(2) f2 unfolding s1_def s2_def by blast
qed

section \<open>An example\<close>

text \<open>A system that lets the data segment grow up to the limit, and a heap with one available block of
  100 bytes.\<close>

definition brk_example :: "u32 \<Rightarrow> u32 \<Rightarrow> int \<times> u32" where
  "brk_example k e = (if e = 0 then (sint k, k) else if e < 0xeffffffe then (0, e) else (- 1, k))"

definition brk_valid :: "u32 \<Rightarrow> bool" where
  "brk_valid k \<longleftrightarrow> k \<noteq> 0 \<and> k < 0xeffffffe"

definition uheap_example :: "u32 uheap" where
  "uheap_example = \<lparr>m_addr = (\<lambda>_. 0)(0x1000 := 0x2000), m_size = (\<lambda>_. 0)(0x1000 := 100), m_next = \<lambda>_. 0, malloc_info = 0x1000,
     info_next = \<lambda>_. 0, avail_list = 0x1000, used_list = 0, enddataaddr = 0x3000, ukernel = 0x3000, udata = \<lambda>_. 7\<rparr>"

lemma brk_example_ok: "brk_ok brk_example (\<lambda>k. k) brk_valid"
  by (auto simp: brk_ok_def brk_example_def brk_valid_def split: if_splits)

lemma brk_example_grants: "brk_grants brk_example brk_valid 0xeffffffd"
  by (auto simp: brk_grants_def brk_example_def word_less_nat_alt)

lemma uheap_example_ok: "umem_ok brk_valid uheap_example [0x1000] [] [0x1000] {}"
  by (auto simp: umem_ok_def heap_ok_def avail_def heap_bytes_def pages_bytes_def page_bytes_def page_ok_def used_ranges_def
      ranges_ok_def range_ok_def blk_def brk_valid_def uheap_example_def disjoint_sets_def range_bytes_def)

lemma uheap_example_state: "uheap_state brk_valid uheap_example {0x2000 ..< 0x2064} []"
proof -
  have "{0x2000 ..< 0x2064} = bytes (map (blk uheap_example) [0x1000])" by (simp add: blk_def uheap_example_def range_bytes_def)
  then show ?thesis unfolding uheap_state_def using uheap_example_ok by (metis list.map(1))
qed

lemma example_sure: "\<exists>lim. brk_grants brk_example brk_valid lim \<and> unat (data_end (\<lambda>k. k) uheap_example) + 5000 + 8192 \<le> lim"
  using brk_example_grants by (auto simp: data_end_def uheap_example_def)

text \<open>A request that needs the data segment to grow.\<close>

theorem malloc_correct_witness:
  "\<exists>a s' F'. malloc brk_example 5000 uheap_example = Some (a, s') \<and> a \<noteq> 0 \<and> uheap_state brk_valid s' F' [(unat a, 5000)]"
  using malloc_correct[OF brk_example_ok uheap_example_state, of 5000] example_sure
  by (auto simp: UMALLOC_MAX_def split: if_splits)

lemma malloc_example:
  obtains a s' F' where "malloc brk_example 5000 uheap_example = Some (a, s')" "uheap_state brk_valid s' F' [(unat a, 5000)]"
  using malloc_spec[OF brk_example_ok uheap_example_state, of 5000] example_sure
  by (auto simp: UMALLOC_MAX_def split: if_splits)

theorem free_correct_witness:
  "\<exists>a s' s'' F. malloc brk_example 5000 uheap_example = Some (a, s') \<and> free a s' = Some s'' \<and> uheap_state brk_valid s'' F []"
proof (rule malloc_example)
  fix a s' F' assume k: "malloc brk_example 5000 uheap_example = Some (a, s')" "uheap_state brk_valid s' F' [(unat a, 5000)]"
  then show ?thesis using free_correct[OF k(2), of a] by (auto simp: Cons_eq_append_conv)
qed

theorem realloc_correct_witness:
  "\<exists>a s'. malloc brk_example 5000 uheap_example = Some (a, s') \<and> realloc brk_example a 10 s' = Some (a, s')"
proof (rule malloc_example)
  fix a s' F' assume k: "malloc brk_example 5000 uheap_example = Some (a, s')" "uheap_state brk_valid s' F' [(unat a, 5000)]"
  then show ?thesis using realloc_correct[OF brk_example_ok k(2), of a 5000 10] by (simp add: UMALLOC_MAX_def)
qed

theorem malloc_zero_free_hangs_witness:
  "\<exists>a s1 b s2. malloc brk_example 0 uheap_example = Some (a, s1) \<and> malloc brk_example 10 s1 = Some (b, s2) \<and>
    (\<forall>c. c \<noteq> 0 \<longrightarrow> c \<noteq> b \<longrightarrow> free c s2 = None)"
proof -
  have "page_nodes 0x1000 = 0x1000 # 0x100c # map (\<lambda>i. 0x1000 + 12 * word_of_nat i) [Suc (Suc 0) ..< 341]"
    unfolding page_nodes_def by (subst upt_conv_Cons, simp, subst upt_conv_Cons, simp) (simp del: upt_rec_numeral upt_Suc)
  then have "node_search uheap_example (malloc_info uheap_example) 0 = Some (Inl 0x100c)"
    by (subst node_search.simps) (simp add: uheap_example_def)
  moreover have "\<forall>x \<in> set [0x1000]. 10 < m_size uheap_example x" by (simp add: uheap_example_def)
  ultimately show ?thesis
    using malloc_zero_free_hangs[OF umem_heap[OF uheap_example_ok], of 10 "0x100c" brk_example] by (auto simp: UMALLOC_MAX_def)
qed

end
