(* ===== verification/Cluster_Table.thy ===== *)
theory Cluster_Table
  imports Kernel_Prelude
begin

text \<open>The interface between the chains of clusters that make up files and directories and the table that
  stores, for each cluster, its successor. What the file system does with a chain (release it, take a
  cluster out, add one at the end) is proved here once for any such table; \<^verbatim>\<open>Fat12\<close> provides it with
  the packed table of \<^verbatim>\<open>base/fat12.c\<close>.\<close>

unbundle bit_operations_syntax

section \<open>Chains of clusters\<close>

definition entries :: "int set" where
  "entries = {0 ..< 3072}"

lemma finite_entries [simp]: "finite entries"
  by (simp add: entries_def)

text \<open>The clusters of a file in a table \<open>f\<close>, from \<open>c\<close> to the end mark.\<close>

fun cl_chain :: "(int \<Rightarrow> u16) \<Rightarrow> u16 \<Rightarrow> int list \<Rightarrow> bool" where
  "cl_chain f c [] \<longleftrightarrow> 0xff8 \<le> c"
| "cl_chain f c (x # xs) \<longleftrightarrow> x = uint c \<and> 2 \<le> x \<and> x < 3072 \<and> cl_chain f (f x) xs"

lemma cl_chain_entries: "cl_chain f c cs \<Longrightarrow> x \<in> set cs \<Longrightarrow> x \<in> entries \<and> 2 \<le> x"
  by (induction cs arbitrary: c) (auto simp: entries_def)

lemma cl_chain_cong: "(\<And>x. x \<in> set cs \<Longrightarrow> g x = f x) \<Longrightarrow> cl_chain g c cs = cl_chain f c cs"
  by (induction cs arbitrary: c) auto

lemma cl_chain_unique: "cl_chain f c cs \<Longrightarrow> cl_chain f c ds \<Longrightarrow> cs = ds"
proof (induction cs arbitrary: c ds)
  case Nil
  then show ?case by (cases ds) (auto simp: word_le_def)
next
  case (Cons x xs)
  then show ?case by (cases ds) (auto simp: word_le_def)
qed

lemma cl_chain_suffix: "cl_chain f c (xs @ x # ys) \<Longrightarrow> cl_chain f (f x) ys"
  by (induction xs arbitrary: c) auto

lemma cl_chain_distinct: "cl_chain f c cs \<Longrightarrow> distinct cs"
proof (induction cs arbitrary: c)
  case (Cons x xs)
  have "x \<notin> set xs"
  proof
    assume "x \<in> set xs"
    then obtain as bs where xs: "xs = as @ x # bs" by (meson split_list)
    have c: "cl_chain f (f x) xs" using Cons.prems by auto
    then have "cl_chain f (f x) bs" using cl_chain_suffix[of f "f x" as x bs] xs by simp
    with c have "xs = bs" by (rule cl_chain_unique)
    then have "length bs = length as + Suc (length bs)" using xs by (metis length_append length_Cons)
    then show False by simp
  qed
  then show ?case using Cons by auto
qed simp

lemma cl_chain_relink:
  assumes "cl_chain f c (xs @ p # cl # ys)" "distinct (xs @ p # cl # ys)"
    "\<And>d. d \<in> set (xs @ p # ys) \<Longrightarrow> g d = (if d = p then f cl else f d)"
  shows "cl_chain g c (xs @ p # ys)"
  using assms
proof (induction xs arbitrary: c)
  case Nil
  then have "cl_chain g (f cl) ys = cl_chain f (f cl) ys" by (intro cl_chain_cong) auto
  then show ?case using Nil by auto
next
  case (Cons x xs)
  then show ?case by auto
qed

lemma cl_chain_extend:
  assumes "cl_chain f c (xs @ [p])" "n \<notin> set (xs @ [p])" "2 \<le> n" "n < 3072" "0xff8 \<le> f n"
    "\<And>d. d \<in> set (xs @ [p, n]) \<Longrightarrow> g d = (if d = p then word_of_int n else f d)" "distinct (xs @ [p])"
  shows "cl_chain g c (xs @ [p, n])"
  using assms
proof (induction xs arbitrary: c)
  case Nil
  moreover have "uint (word_of_int n :: u16) = n" using assms(3,4) by (simp add: uint_word_of_int)
  ultimately show ?case by auto
next
  case (Cons x xs)
  then show ?case by auto
qed

section \<open>The interface\<close>

text \<open>\<open>s'\<close> holds the entries \<open>f\<close> and agrees with \<open>s\<close> in everything else.\<close>

definition table_upd :: "('s \<Rightarrow> bool) \<Rightarrow> ('s \<Rightarrow> int \<Rightarrow> u16) \<Rightarrow> ('s \<Rightarrow> 's \<Rightarrow> bool) \<Rightarrow> 's \<Rightarrow> 's \<Rightarrow> (int \<Rightarrow> u16) \<Rightarrow> bool" where
  "table_upd ok look same s s' f \<longleftrightarrow> ok s' \<and> (\<forall>d \<in> entries. look s' d = f d) \<and> same s s'"

locale cluster_table =
  fixes ok :: "'s \<Rightarrow> bool"
    and look :: "'s \<Rightarrow> int \<Rightarrow> u16"
    and same :: "'s \<Rightarrow> 's \<Rightarrow> bool"
    and store :: "'s \<Rightarrow> int \<Rightarrow> u16 \<Rightarrow> 's option"
  assumes same_trans: "same s t \<Longrightarrow> same t u \<Longrightarrow> same s u"
    and look_bits: "ok s \<Longrightarrow> c \<in> entries \<Longrightarrow> look s c AND 0xfff = look s c"
    and store: "ok s \<Longrightarrow> c \<in> entries \<Longrightarrow> \<exists>s'. store s c v = Some s' \<and> table_upd ok look same s s' ((look s)(c := v AND 0xfff))"
begin

lemma upd_trans:
  assumes "table_upd ok look same s t f" "table_upd ok look same t u g" "\<And>d. d \<in> entries \<Longrightarrow> g d = h d"
  shows "table_upd ok look same s u h"
  using assms same_trans by (auto simp: table_upd_def)

lemma clear_entry:
  assumes "ok s" "c \<in> entries"
  shows "\<exists>s'. store s c 0 = Some s' \<and> table_upd ok look same s s' ((look s)(c := 0))"
  using store[OF assms, of 0] by simp

lemma clear_head:
  assumes "ok s" "cl_chain (look s) c (x # xs)"
  shows "\<exists>s'. store s x 0 = Some s' \<and> table_upd ok look same s s' ((look s)(x := 0)) \<and> cl_chain (look s') (look s x) xs"
proof -
  have x: "x \<in> entries" "x \<notin> set xs" and ch: "cl_chain (look s) (look s x) xs"
    using assms(2) cl_chain_distinct[OF assms(2)] by (auto simp: entries_def)
  obtain s' where s: "store s x 0 = Some s'" "table_upd ok look same s s' ((look s)(x := 0))" using clear_entry[OF assms(1) x(1)] by blast
  have "look s' y = look s y" if "y \<in> set xs" for y
    using s(2) x(2) that cl_chain_entries[OF ch that] by (auto simp: table_upd_def)
  then have "cl_chain (look s') (look s x) xs" using ch cl_chain_cong[of xs "look s'" "look s"] by simp
  with s show ?thesis by blast
qed

lemma unlink_cluster:
  assumes "ok s" "cl_chain (look s) c (xs @ p # cl # ys)"
  shows "\<exists>t u. store s p (look s cl) = Some t \<and> store t cl 0 = Some u \<and>
    table_upd ok look same s u ((look s)(p := look s cl, cl := 0)) \<and> cl_chain (look u) c (xs @ p # ys)"
proof -
  note nd = cl_chain_distinct[OF assms(2)] and en = cl_chain_entries[OF assms(2)]
  have pc: "p \<in> entries" "cl \<in> entries" "p \<noteq> cl" using en nd by auto
  obtain t where t: "store s p (look s cl) = Some t" "table_upd ok look same s t ((look s)(p := look s cl))"
    using store[OF assms(1) pc(1), of "look s cl"] look_bits[OF assms(1) pc(2)] by auto
  then have "ok t" by (simp add: table_upd_def)
  then obtain u where u: "store t cl 0 = Some u" "table_upd ok look same t u ((look t)(cl := 0))" using clear_entry pc(2) by blast
  have su: "table_upd ok look same s u ((look s)(p := look s cl, cl := 0))"
    by (rule upd_trans[OF t(2) u(2)]) (use t(2) pc in \<open>auto simp: table_upd_def\<close>)
  have "cl_chain (look u) c (xs @ p # ys)"
    by (rule cl_chain_relink[OF assms(2) nd]) (use su nd en in \<open>auto simp: table_upd_def\<close>)
  with t(1) u(1) su show ?thesis by blast
qed

lemma extend_chain:
  assumes "ok s" "cl_chain (look s) c (xs @ [p])" "n \<notin> set (xs @ [p])" "2 \<le> n" "n < 3072" "0xff8 \<le> look s n"
  shows "\<exists>t. store s p (word_of_int n) = Some t \<and> table_upd ok look same s t ((look s)(p := word_of_int n)) \<and>
    cl_chain (look t) c (xs @ [p, n])"
proof -
  note nd = cl_chain_distinct[OF assms(2)] and en = cl_chain_entries[OF assms(2)]
  have p: "p \<in> entries" and n: "n \<in> entries" using en assms(4,5) by (auto simp: entries_def)
  have "(word_of_int n :: u16) AND mask 12 = word_of_int n"
    using assms(4,5) by (simp add: take_bit_eq_mask[symmetric] word_uint_eq_iff unsigned_take_bit_eq uint_word_of_int take_bit_int_eq_self)
  moreover have "(mask 12 :: u16) = 0xfff" by (simp add: mask_eq_exp_minus_1)
  ultimately obtain t where t: "store s p (word_of_int n) = Some t" "table_upd ok look same s t ((look s)(p := word_of_int n))"
    using store[OF assms(1) p, of "word_of_int n"] by auto
  have "cl_chain (look t) c (xs @ [p, n])"
    by (rule cl_chain_extend[OF assms(2-6) _ nd]) (use t(2) n en in \<open>auto simp: table_upd_def\<close>)
  with t show ?thesis by blast
qed

end

end
