(* ===== verification/Fat12.thy ===== *)
theory Fat12
  imports Datetime C_Strings Cluster_Table
begin

text \<open>
  The FAT12 file system (\<^verbatim>\<open>src/base/fat12.c\<close>): the allocation table of 12-bit entries and the chains of
  clusters kept in it, the names of directory entries and their time stamps.  A volume is the record of
  \<^verbatim>\<open>struct fat12_fsdata\<close> without its lock; reading or writing outside of the array of the table has no
  defined result.  The table meets the contract \<open>cluster_table\<close>, and what the operations do to the chains
  of the files rests on the lemmas of that contract.
\<close>

unbundle bit_operations_syntax

section \<open>State\<close>

record fat12_fsdata =
  bps :: int
  spc :: int
  resect :: int
  nfat :: int
  spt :: int
  heads :: int
  no_tracks :: int
  total_sect :: int
  no_rootdir_ent :: int
  no_sect_fat :: int
  fat :: "u8 list"

record fat_dirent =
  d_name :: "int list"
  d_attrib :: u8
  d_res :: "int list"
  d_time :: u16
  d_date :: u16
  start_cluster :: int
  fsize :: u32

section \<open>The table\<close>

text \<open>Entries of 12 bits: two entries share three bytes. An index outside of the array has no defined
  result.\<close>

definition fat_index :: "int \<Rightarrow> int" where
  "fat_index clno = c_div (clno * 3) 2"

definition in_fat :: "fat12_fsdata \<Rightarrow> int \<Rightarrow> bool" where
  "in_fat fs clno \<longleftrightarrow> 0 \<le> fat_index clno \<and> nat (fat_index clno) + 1 < length (fat fs)"

definition get_clval12 :: "fat12_fsdata \<Rightarrow> int \<Rightarrow> u16 option" where
  "get_clval12 fs clno =
     (if in_fat fs clno then
        let i = nat (fat_index clno);
            val1 = ucast (fat fs ! i) :: u16;
            val2 = ucast (fat fs ! (i + 1)) :: u16;
            val = val1 OR push_bit 8 val2
        in Some (if clno mod 2 = 0 then val AND 0x0fff else drop_bit 4 val AND 0x0fff)
      else None)"

definition set_clval12 :: "fat12_fsdata \<Rightarrow> int \<Rightarrow> u16 \<Rightarrow> fat12_fsdata option" where
  "set_clval12 fs clno val =
     (if in_fat fs clno then
        let i = nat (fat_index clno); f = fat fs in
        Some (fs\<lparr>fat :=
          if clno mod 2 = 0
          then f[i := ucast (val AND 0xff), i + 1 := (f ! (i + 1) AND 0xf0) OR ucast (drop_bit 8 val AND 0x000f)]
          else f[i := (f ! i AND 0x0f) OR ucast (push_bit 4 val AND 0x00f0), i + 1 := ucast (drop_bit 4 val AND 0x00ff)]\<rparr>)
      else None)"

text \<open>Blocks of the root directory have the numbers -12 to 1.\<close>

definition next_cluster_12 :: "fat12_fsdata \<Rightarrow> int \<Rightarrow> u16 option" where
  "next_cluster_12 fs clno =
     (if clno < 1 then Some (word_of_int (clno + 1))
      else if clno = 1 then Some 0xfff
      else if 2 \<le> clno \<and> clno \<le> 0xff6 then get_clval12 fs clno
      else Some 0)"

text \<open>The search of \<^verbatim>\<open>alloc_block12\<close> from entry \<open>i\<close> on; \<open>n\<close> is the number of entries.\<close>

function alloc_from :: "fat12_fsdata \<Rightarrow> int \<Rightarrow> int \<Rightarrow> (u32 \<times> fat12_fsdata) option" where
  "alloc_from fs n i =
     (if i < n then
        case get_clval12 fs i of
          None \<Rightarrow> None
        | Some clval \<Rightarrow> if clval = 0 then map_option (Pair (word_of_int i)) (set_clval12 fs i 0x0fff) else alloc_from fs n (i + 1)
      else Some (0, fs))"
  by pat_completeness auto
termination by (relation "measure (\<lambda>(fs, n, i). nat (n - i))") auto

declare alloc_from.simps [simp del]

definition alloc_block12 :: "fat12_fsdata \<Rightarrow> (u32 \<times> fat12_fsdata) option" where
  "alloc_block12 fs = (if spc fs = 0 then None else alloc_from fs (c_div (total_sect fs) (spc fs)) 2)"

definition free_block12 :: "fat12_fsdata \<Rightarrow> u32 \<Rightarrow> fat12_fsdata option" where
  "free_block12 fs blk = set_clval12 fs (sint blk) 0"

partial_function (option) free_cluster_chain :: "fat12_fsdata \<Rightarrow> u16 \<Rightarrow> fat12_fsdata option" where
  "free_cluster_chain fs clno =
     (if 0xff8 \<le> clno then Some fs
      else Option.bind (next_cluster_12 fs (uint clno)) (\<lambda>next_clno.
        Option.bind (set_clval12 fs (uint clno) 0) (\<lambda>fs. free_cluster_chain fs next_clno)))"

text \<open>The predecessor of the cluster \<open>cl\<close> in the chain.\<close>

partial_function (option) chain_pred :: "fat12_fsdata \<Rightarrow> int \<Rightarrow> u16 \<Rightarrow> u16 \<Rightarrow> u16 option" where
  "chain_pred fs cl prev_cl cur_cl =
     (if uint cur_cl \<noteq> cl then Option.bind (next_cluster_12 fs (uint cur_cl)) (chain_pred fs cl cur_cl) else Some prev_cl)"

definition delete_cluster_from_chain :: "fat_dirent \<Rightarrow> int \<Rightarrow> fat12_fsdata \<Rightarrow> fat12_fsdata option" where
  "delete_cluster_from_chain pardent cl fs =
     (if cl < 2 then Some fs
      else let prev_cl = word_of_int (start_cluster pardent) in
        Option.bind (next_cluster_12 fs (uint prev_cl)) (\<lambda>cur_cl.
        Option.bind (chain_pred fs cl prev_cl cur_cl) (\<lambda>prev_cl.
        Option.bind (next_cluster_12 fs cl) (\<lambda>nxt.
        Option.bind (set_clval12 fs (uint prev_cl) nxt) (\<lambda>fs. set_clval12 fs cl 0)))))"

text \<open>The step of \<^verbatim>\<open>fat12_vop_write\<close> from one cluster of a file to the next, which is allocated at the end of the
  chain; the error is \<^verbatim>\<open>ENO_DISK_SPACE\<close>.\<close>

definition write_next_cluster :: "fat12_fsdata \<Rightarrow> u16 \<Rightarrow> ((int + u16) \<times> fat12_fsdata) option" where
  "write_next_cluster fs cur_cluster =
     Option.bind (next_cluster_12 fs (uint cur_cluster)) (\<lambda>next_cl.
       if 0xff8 \<le> next_cl then
         Option.bind (alloc_block12 fs) (\<lambda>(blk, fs).
           let next_cl = ucast blk :: u16 in
           if next_cl = 0 then Some (Inl (- 41), fs)
           else map_option (\<lambda>fs. (Inr next_cl, fs)) (set_clval12 fs (uint cur_cluster) next_cl))
       else Some (Inr next_cl, fs))"

text \<open>The free, bad and used entries that \<^verbatim>\<open>fat12_vfs_statvfs\<close> counts, and the fields it sets.\<close>

function count_clusters :: "fat12_fsdata \<Rightarrow> int \<Rightarrow> int \<Rightarrow> int \<times> int \<times> int \<Rightarrow> (int \<times> int \<times> int) option" where
  "count_clusters fs n i cnt =
     (if i < n then
        case get_clval12 fs i of
          None \<Rightarrow> None
        | Some clval \<Rightarrow> count_clusters fs n (i + 1)
            (case cnt of (free, bad, used) \<Rightarrow>
               if clval = 0 then (free + 1, bad, used) else if clval = 0xff7 then (free, bad + 1, used) else (free, bad, used + 1))
      else Some cnt)"
  by pat_completeness auto
termination by (relation "measure (\<lambda>(fs, n, i, cnt). nat (n - i))") auto

declare count_clusters.simps [simp del]

record vfsinfo =
  fs_device :: int
  fs_spc :: int
  fs_totalinodes :: int
  fs_freeinodes :: int
  fs_totalspace :: int
  fs_resspace :: int
  fs_badspace :: int
  fs_usedspace :: int

definition fat12_vfs_statvfs :: "fat12_fsdata \<Rightarrow> vfsinfo option" where
  "fat12_vfs_statvfs fs =
     map_option (\<lambda>(free, bad, used).
       \<lparr>fs_device = 0, fs_spc = 1, fs_totalinodes = 0, fs_freeinodes = 0, fs_totalspace = total_sect fs,
        fs_resspace = 1 + nfat fs * no_sect_fat fs + c_div (no_rootdir_ent fs) 16, fs_badspace = bad, fs_usedspace = used\<rparr>)
       (count_clusters fs (total_sect fs - 33 + 2) 2 (0, 0, 0))"

section \<open>Names\<close>

text \<open>A name without its terminator; \<open>char_at\<close> is the access to the terminated array. \<open>dest\<close> is the
  array of 11 characters that is filled.\<close>

definition char_at :: "int list \<Rightarrow> nat \<Rightarrow> int" where
  "char_at s i = (if i < length s then s ! i else 0)"

definition convert_ext :: "int list \<Rightarrow> nat \<Rightarrow> int list \<Rightarrow> int \<times> int list" where
  "convert_ext s i dest =
     (let ext = take 3 (drop i s);
          dest = take 8 dest @ map toupper ext @ replicate (3 - length ext) 32
      in if char_at s (i + length ext) \<noteq> 0 then (- 1, dest) else (1, dest))"

definition convert_name :: "int list \<Rightarrow> int list \<Rightarrow> int \<times> int list" where
  "convert_name source dest =
     (let s = dropWhile (\<lambda>c. c = 32) source in
      if char_at s 0 = 0 then (- 1, dest)
      else
        let base = takeWhile (\<lambda>c. c \<noteq> 46) (take 8 s); i = length base;
            dest = map toupper base @ drop i dest
        in if i = 8 \<and> char_at s 8 \<noteq> 46 \<and> char_at s 8 \<noteq> 0 then (- 1, dest)
           else if char_at s i = 0 then (1, take i dest @ replicate (11 - i) 32)
           else if char_at s i = 46 then convert_ext s (i + 1) (take i dest @ replicate (8 - i) 32 @ drop 8 dest)
           else convert_ext s i dest)"

text \<open>The name that \<^verbatim>\<open>fat12_vop_readdir\<close> makes of an entry.\<close>

definition entry_name :: "int list \<Rightarrow> int list" where
  "entry_name nm =
     takeWhile (\<lambda>c. c \<noteq> 32) (take 8 nm) @
     (if nm ! 8 \<noteq> 32 then 46 # takeWhile (\<lambda>c. c \<noteq> 32) (drop 8 (take 11 nm)) else [])"

text \<open>The entries that \<^verbatim>\<open>fat12_vop_readdir\<close> passes over: unused, deleted, or part of a long name.\<close>

definition readdir_skips :: "fat_dirent \<Rightarrow> bool" where
  "readdir_skips dent \<longleftrightarrow> d_name dent ! 0 = 0 \<or> word_of_int (d_name dent ! 0) = (0xE5 :: u8) \<or> d_attrib dent = 0x0f"

section \<open>Attributes\<close>

text \<open>Time and date of an entry, as they are packed by \<^verbatim>\<open>mark_time_date\<close> and unpacked by
  \<^verbatim>\<open>fat12_vop_getattr\<close>.\<close>

definition pack_time :: "date_time \<Rightarrow> u16" where
  "pack_time dt = word_of_int (push_bit 11 (hours dt) OR push_bit 5 (minutes dt) OR c_div (seconds dt) 2)"

definition pack_date :: "date_time \<Rightarrow> u16" where
  "pack_date dt = word_of_int (push_bit 9 (year dt - 1980) OR push_bit 5 (month dt) OR date dt)"

definition mark_time_date :: "u32 \<Rightarrow> fat_dirent \<Rightarrow> fat_dirent option" where
  "mark_time_date secs dent = map_option (\<lambda>dt. dent\<lparr>d_time := pack_time dt, d_date := pack_date dt\<rparr>) (secs_to_date secs)"

definition entry_date :: "fat_dirent \<Rightarrow> date_time" where
  "entry_date dent =
     \<lparr>seconds = uint (d_time dent AND 0x1f) * 2, minutes = uint (drop_bit 5 (d_time dent AND 0x7e0)),
      hours = uint (drop_bit 11 (d_time dent AND 0xf800)), date = uint (d_date dent AND 0x1f),
      month = uint (drop_bit 5 (d_date dent AND 0x1e0)), year = uint (drop_bit 9 (d_date dent AND 0xfe00)) + 1980\<rparr>"

definition fat12_vop_trunc :: "u32 \<Rightarrow> fat_dirent \<Rightarrow> fat12_fsdata \<Rightarrow> (fat_dirent \<times> fat12_fsdata) option" where
  "fat12_vop_trunc secs dentp fs =
     Option.bind (if fsize dentp \<noteq> 0 then free_cluster_chain fs (word_of_int (start_cluster dentp)) else Some fs) (\<lambda>fs.
     map_option (\<lambda>dentp. (dentp, fs)) (mark_time_date secs (dentp\<lparr>start_cluster := 0, fsize := 0\<rparr>)))"

section \<open>The table as a function\<close>

definition fat_ok :: "fat12_fsdata \<Rightarrow> bool" where
  "fat_ok fs \<longleftrightarrow> length (fat fs) = 9 * 512"

definition clval :: "fat12_fsdata \<Rightarrow> int \<Rightarrow> u16" where
  "clval fs c = the (get_clval12 fs c)"

lemma fat_index_entries:
  assumes "c \<in> entries"
  shows "fat_index c = c * 3 div 2" "0 \<le> fat_index c" "nat (fat_index c) + 1 < 9 * 512"
proof -
  show "fat_index c = c * 3 div 2" using assms by (simp add: entries_def fat_index_def c_div_nonneg)
  then show "0 \<le> fat_index c" "nat (fat_index c) + 1 < 9 * 512" using assms by (auto simp: entries_def)
qed

lemma in_fat_entries: "fat_ok fs \<Longrightarrow> c \<in> entries \<Longrightarrow> in_fat fs c"
  using fat_index_entries[of c] by (simp add: in_fat_def fat_ok_def)

lemma get_clval: "fat_ok fs \<Longrightarrow> c \<in> entries \<Longrightarrow> get_clval12 fs c = Some (clval fs c)"
  using in_fat_entries[of fs c] by (simp add: clval_def get_clval12_def Let_def)

lemma mask_numerals: "(0xfff :: u16) = mask 12" "(0xff :: u16) = mask 8" "(0xf :: u16) = mask 4" "(0xf :: u8) = mask 4"
  "(0xf0 :: u8) = push_bit 4 (mask 4)" "(0xf0 :: u16) = push_bit 4 (mask 4)"
  by (simp_all add: mask_eq_exp_minus_1)

lemma pack_even:
  fixes v :: u16 and b :: u8
  shows "(ucast (ucast (v AND 0xff) :: u8) OR push_bit 8 (ucast ((b AND 0xf0) OR ucast (drop_bit 8 v AND 0x000f)))) AND 0x0fff = v AND 0x0fff"
  unfolding mask_numerals by (rule bit_word_eqI) (auto simp: bit_simps)

lemma pack_odd:
  fixes v :: u16 and b :: u8
  shows "drop_bit 4 (ucast ((b AND 0x0f) OR ucast (push_bit 4 v AND 0x00f0)) OR push_bit 8 (ucast (ucast (drop_bit 4 v AND 0x00ff) :: u8))) AND 0x0fff = v AND 0x0fff"
  unfolding mask_numerals by (rule bit_word_eqI) (auto simp: bit_simps, metis le_add_diff_inverse not_less)

lemma pack_even_next:
  fixes v :: u16 and b b' :: u8
  shows "drop_bit 4 (ucast ((b AND 0xf0) OR ucast (drop_bit 8 v AND 0x000f)) OR push_bit 8 (ucast b' :: u16)) AND 0x0fff =
    drop_bit 4 (ucast b OR push_bit 8 (ucast b')) AND 0x0fff"
  unfolding mask_numerals by (rule bit_word_eqI) (auto simp: bit_simps dest: bit_imp_le_length)

lemma pack_odd_prev:
  fixes v :: u16 and b b' :: u8
  shows "(ucast b' OR push_bit 8 (ucast ((b AND 0x0f) OR ucast (push_bit 4 v AND 0x00f0)) :: u16)) AND 0x0fff =
    (ucast b' OR push_bit 8 (ucast b)) AND 0x0fff"
  unfolding mask_numerals by (rule bit_word_eqI) (auto simp: bit_simps dest: bit_imp_le_length)

text \<open>The entries by number of the pair that shares three bytes.\<close>

lemma entry_cases:
  assumes "c \<in> entries"
  obtains (even) k where "k < 1536" "c = int (2 * k)" | (odd) k where "k < 1536" "c = int (2 * k + 1)"
proof (cases "even (nat c)")
  case True
  then show ?thesis using assms even[of "nat c div 2"] by (auto simp: entries_def)
next
  case False
  then show ?thesis using assms odd[of "nat c div 2"] by (auto simp: entries_def elim!: oddE)
qed

lemma clval_bytes:
  assumes "fat_ok fs" "k < 1536"
  shows "clval fs (int (2 * k)) = (ucast (fat fs ! (3 * k)) OR push_bit 8 (ucast (fat fs ! (3 * k + 1)))) AND 0x0fff"
    "clval fs (int (2 * k + 1)) = drop_bit 4 (ucast (fat fs ! (3 * k + 1)) OR push_bit 8 (ucast (fat fs ! (3 * k + 2)))) AND 0x0fff"
proof -
  have e: "int (2 * k) \<in> entries" "int (2 * k + 1) \<in> entries" using assms(2) by (auto simp: entries_def)
  have i: "nat (fat_index (int (2 * k))) = 3 * k" "nat (fat_index (int (2 * k + 1))) = 3 * k + 1"
    using fat_index_entries(1)[OF e(1)] fat_index_entries(1)[OF e(2)] by (simp_all add: nat_div_distrib)
  show "clval fs (int (2 * k)) = (ucast (fat fs ! (3 * k)) OR push_bit 8 (ucast (fat fs ! (3 * k + 1)))) AND 0x0fff"
    using in_fat_entries[OF assms(1) e(1)] i(1) by (simp add: clval_def get_clval12_def Let_def)
  show "clval fs (int (2 * k + 1)) = drop_bit 4 (ucast (fat fs ! (3 * k + 1)) OR push_bit 8 (ucast (fat fs ! (3 * k + 2)))) AND 0x0fff"
    using in_fat_entries[OF assms(1) e(2)] i(2) by (simp add: clval_def get_clval12_def Let_def)
qed

lemma set_clval_bytes:
  assumes "fat_ok fs" "k < 1536"
  shows "set_clval12 fs (int (2 * k)) v = Some (fs\<lparr>fat := (fat fs)[3 * k := ucast (v AND 0xff),
      3 * k + 1 := (fat fs ! (3 * k + 1) AND 0xf0) OR ucast (drop_bit 8 v AND 0x000f)]\<rparr>)"
    "set_clval12 fs (int (2 * k + 1)) v = Some (fs\<lparr>fat := (fat fs)[3 * k + 1 := (fat fs ! (3 * k + 1) AND 0x0f) OR ucast (push_bit 4 v AND 0x00f0),
      3 * k + 2 := ucast (drop_bit 4 v AND 0x00ff)]\<rparr>)"
proof -
  have e: "int (2 * k) \<in> entries" "int (2 * k + 1) \<in> entries" using assms(2) by (auto simp: entries_def)
  have i: "nat (fat_index (int (2 * k))) = 3 * k" "nat (fat_index (int (2 * k + 1))) = 3 * k + 1"
    using fat_index_entries(1)[OF e(1)] fat_index_entries(1)[OF e(2)] by (simp_all add: nat_div_distrib)
  show "set_clval12 fs (int (2 * k)) v = Some (fs\<lparr>fat := (fat fs)[3 * k := ucast (v AND 0xff),
      3 * k + 1 := (fat fs ! (3 * k + 1) AND 0xf0) OR ucast (drop_bit 8 v AND 0x000f)]\<rparr>)"
    using in_fat_entries[OF assms(1) e(1)] i(1) by (simp add: set_clval12_def Let_def)
  show "set_clval12 fs (int (2 * k + 1)) v = Some (fs\<lparr>fat := (fat fs)[3 * k + 1 := (fat fs ! (3 * k + 1) AND 0x0f) OR ucast (push_bit 4 v AND 0x00f0),
      3 * k + 2 := ucast (drop_bit 4 v AND 0x00ff)]\<rparr>)"
    using in_fat_entries[OF assms(1) e(2)] i(2) by (simp add: set_clval12_def Let_def)
qed

text \<open>Writing an entry changes this entry only.\<close>

definition same_disk :: "fat12_fsdata \<Rightarrow> fat12_fsdata \<Rightarrow> bool" where
  "same_disk fs fs' \<longleftrightarrow> fs' = fs\<lparr>fat := fat fs'\<rparr>"

abbreviation fat_upd :: "fat12_fsdata \<Rightarrow> fat12_fsdata \<Rightarrow> (int \<Rightarrow> u16) \<Rightarrow> bool" where
  "fat_upd \<equiv> table_upd fat_ok clval same_disk"

lemma same_disk_trans: "same_disk a b \<Longrightarrow> same_disk b c \<Longrightarrow> same_disk a c"
  unfolding same_disk_def by (metis fat12_fsdata.surjective fat12_fsdata.update_convs(11))

lemma clval_even_upd:
  fixes v :: u16
  assumes "fat_ok fs" "k < 1536" "d \<in> entries"
  defines "fs' \<equiv> fs\<lparr>fat := (fat fs)[3 * k := ucast (v AND 0xff), 3 * k + 1 := (fat fs ! (3 * k + 1) AND 0xf0) OR ucast (drop_bit 8 v AND 0x000f)]\<rparr>"
  shows "fat_ok fs'" "clval fs' d = (if d = int (2 * k) then v AND 0xfff else clval fs d)"
proof -
  show ok: "fat_ok fs'" using assms(1) by (simp add: fat_ok_def fs'_def)
  have len: "length (fat fs) = 4608" using assms(1) by (simp add: fat_ok_def)
  from assms(3) show "clval fs' d = (if d = int (2 * k) then v AND 0xfff else clval fs d)"
  proof (cases rule: entry_cases)
    case (even l)
    show ?thesis unfolding even(2) clval_bytes(1)[OF ok even(1)] clval_bytes(1)[OF assms(1) even(1)]
      using assms(2) len pack_even[of v] by (cases "l = k") (auto simp: fs'_def nth_list_update)
  next
    case (odd l)
    show ?thesis unfolding odd(2) clval_bytes(2)[OF ok odd(1)] clval_bytes(2)[OF assms(1) odd(1)]
      using assms(2) len pack_even_next[of _ v] by (cases "l = k") (auto simp: fs'_def nth_list_update)
  qed
qed

lemma clval_odd_upd:
  fixes v :: u16
  assumes "fat_ok fs" "k < 1536" "d \<in> entries"
  defines "fs' \<equiv> fs\<lparr>fat := (fat fs)[3 * k + 1 := (fat fs ! (3 * k + 1) AND 0x0f) OR ucast (push_bit 4 v AND 0x00f0),
    3 * k + 2 := ucast (drop_bit 4 v AND 0x00ff)]\<rparr>"
  shows "fat_ok fs'" "clval fs' d = (if d = int (2 * k + 1) then v AND 0xfff else clval fs d)"
proof -
  show ok: "fat_ok fs'" using assms(1) by (simp add: fat_ok_def fs'_def)
  have len: "length (fat fs) = 4608" using assms(1) by (simp add: fat_ok_def)
  from assms(3) show "clval fs' d = (if d = int (2 * k + 1) then v AND 0xfff else clval fs d)"
  proof (cases rule: entry_cases)
    case (even l)
    show ?thesis unfolding even(2) clval_bytes(1)[OF ok even(1)] clval_bytes(1)[OF assms(1) even(1)]
      using assms(2) len pack_odd_prev[of _ _ v] by (cases "l = k") (auto simp: fs'_def nth_list_update)
  next
    case (odd l)
    show ?thesis unfolding odd(2) clval_bytes(2)[OF ok odd(1)] clval_bytes(2)[OF assms(1) odd(1)]
      using assms(2) len pack_odd[of _ v] by (cases "l = k") (auto simp: fs'_def nth_list_update)
  qed
qed

lemma set_clval:
  assumes "fat_ok fs" "c \<in> entries"
  obtains fs' where "set_clval12 fs c v = Some fs'" "fat_upd fs fs' ((clval fs)(c := v AND 0xfff))"
  using assms(2)
proof (cases rule: entry_cases)
  case (even k)
  show ?thesis
    by (rule that[OF set_clval_bytes(1)[OF assms(1) even(1), folded even(2)]])
      (use clval_even_upd[OF assms(1) even(1)] assms(2) in \<open>auto simp: table_upd_def same_disk_def even(2)\<close>)
next
  case (odd k)
  show ?thesis
    by (rule that[OF set_clval_bytes(2)[OF assms(1) odd(1), folded odd(2)]])
      (use clval_odd_upd[OF assms(1) odd(1)] assms(2) in \<open>auto simp: table_upd_def same_disk_def odd(2)\<close>)
qed

lemma clval_mask: "fat_ok fs \<Longrightarrow> c \<in> entries \<Longrightarrow> clval fs c AND 0xfff = clval fs c"
  using in_fat_entries[of fs c] by (simp add: clval_def get_clval12_def Let_def and.assoc)

text \<open>The packed table provides the interface.\<close>

interpretation fat: cluster_table fat_ok clval same_disk set_clval12
proof unfold_locales
  show "same_disk s u" if "same_disk s t" "same_disk t u" for s t u by (rule same_disk_trans[OF that])
  show "clval s c AND 0xfff = clval s c" if "fat_ok s" "c \<in> entries" for s c by (rule clval_mask[OF that])
  show "\<exists>s'. set_clval12 s c v = Some s' \<and> fat_upd s s' ((clval s)(c := v AND 0xfff))" if "fat_ok s" "c \<in> entries" for s c v
    by (rule set_clval[OF that]) blast
qed

text \<open>C29: The table of 12-bit entries behaves like an array of clusters: what is stored for a cluster is
  read back, and no other entry changes although two entries share three bytes.\<close>

theorem fat_entry_roundtrip:
  assumes "fat_ok fs" "c \<in> entries" "d \<in> entries" "v \<le> 0xfff"
  shows "\<exists>fs'. set_clval12 fs c v = Some fs' \<and> fat_ok fs' \<and> get_clval12 fs' d = (if d = c then Some v else get_clval12 fs d)"
proof -
  obtain fs' where s: "set_clval12 fs c v = Some fs'" "fat_upd fs fs' ((clval fs)(c := v AND 0xfff))" by (rule set_clval[OF assms(1,2)])
  have "uint v < 2 ^ 12" using assms(4) by (simp add: word_le_def)
  then have "v AND 0xfff = v" unfolding mask_numerals
    by (simp add: take_bit_eq_mask[symmetric] word_uint_eq_iff unsigned_take_bit_eq take_bit_int_eq_self)
  then show ?thesis using s get_clval[OF assms(1,3)] get_clval[of fs' d] assms(3) by (auto simp: table_upd_def)
qed

section \<open>Allocation\<close>

lemma alloc_from_spec:
  assumes "fat_ok fs" "2 \<le> i" "n \<le> 3072"
  shows "if \<exists>c. i \<le> c \<and> c < n \<and> clval fs c = 0
    then \<exists>c fs'. alloc_from fs n i = Some (word_of_int c, fs') \<and> i \<le> c \<and> c < n \<and> clval fs c = 0 \<and> (\<forall>d. i \<le> d \<and> d < c \<longrightarrow> clval fs d \<noteq> 0) \<and>
      fat_upd fs fs' ((clval fs)(c := 0xfff))
    else alloc_from fs n i = Some (0, fs)"
  using assms(2)
proof (induction "nat (n - i)" arbitrary: i)
  case 0
  then have "\<not> (\<exists>c. i \<le> c \<and> c < n \<and> clval fs c = 0)" "\<not> i < n" by auto
  then show ?case by (simp only: if_False alloc_from.simps[of fs n i])
next
  case (Suc x)
  then have e: "i \<in> entries" "i < n" using assms(3) by (auto simp: entries_def)
  note g = get_clval[OF assms(1) e(1)]
  show ?case
  proof (cases "clval fs i = 0")
    case True
    obtain fs' where s: "set_clval12 fs i 0xfff = Some fs'" "fat_upd fs fs' ((clval fs)(i := 0xfff AND 0xfff))"
      by (rule set_clval[OF assms(1) e(1)])
    then have "alloc_from fs n i = Some (word_of_int i, fs')" using g True e(2) by (simp add: alloc_from.simps[of fs n i])
    moreover have ex: "\<exists>c. i \<le> c \<and> c < n \<and> clval fs c = 0" using True e(2) by blast
    ultimately show ?thesis unfolding if_P[OF ex] using True e(2) s(2) by (intro exI[of _ i] exI[of _ fs'] conjI) auto
  next
    case False
    then have a: "alloc_from fs n i = alloc_from fs n (i + 1)" using g e(2) by (simp add: alloc_from.simps[of fs n i])
    have IH: "if \<exists>c. i + 1 \<le> c \<and> c < n \<and> clval fs c = 0
      then \<exists>c fs'. alloc_from fs n (i + 1) = Some (word_of_int c, fs') \<and> i + 1 \<le> c \<and> c < n \<and> clval fs c = 0 \<and>
        (\<forall>d. i + 1 \<le> d \<and> d < c \<longrightarrow> clval fs d \<noteq> 0) \<and> fat_upd fs fs' ((clval fs)(c := 0xfff))
      else alloc_from fs n (i + 1) = Some (0, fs)" using Suc by (intro Suc.hyps(1)) auto
    have up: "(i \<le> d) = (d = i \<or> i + 1 \<le> d)" for d by auto
    show ?thesis
    proof (cases "\<exists>c. i + 1 \<le> c \<and> c < n \<and> clval fs c = 0")
      case some: True
      then obtain c fs' where c: "alloc_from fs n (i + 1) = Some (word_of_int c, fs')" "i + 1 \<le> c" "c < n" "clval fs c = 0"
        "\<forall>d. i + 1 \<le> d \<and> d < c \<longrightarrow> clval fs d \<noteq> 0" "fat_upd fs fs' ((clval fs)(c := 0xfff))"
        using IH by (simp only: if_True) blast
      have ex: "\<exists>c. i \<le> c \<and> c < n \<and> clval fs c = 0" using c(2-4) by (intro exI[of _ c]) simp
      have "\<forall>d. i \<le> d \<and> d < c \<longrightarrow> clval fs d \<noteq> 0" using c(5) False unfolding up by blast
      then show ?thesis unfolding if_P[OF ex] a using c by (intro exI[of _ c] exI[of _ fs']) simp
    next
      case none: False
      then have no: "\<not> (\<exists>c. i \<le> c \<and> c < n \<and> clval fs c = 0)" using False unfolding up by auto
      show ?thesis unfolding if_not_P[OF no] a using IH none by (simp only: if_False)
    qed
  qed
qed

text \<open>The bound of the search in \<^verbatim>\<open>alloc_block12\<close>. The sectors before the data area are counted as well, so the
  last 31 numbers below it name no sector of the disk; \<^verbatim>\<open>fat12_vfs_statvfs\<close> stops at
  \<^verbatim>\<open>total_sect - 33 + 2\<close>.\<close>

definition clusters :: "fat12_fsdata \<Rightarrow> int" where
  "clusters fs = c_div (total_sect fs) (spc fs)"

lemma alloc_block12_spec:
  assumes "fat_ok fs" "0 < spc fs" "clusters fs \<le> 3072"
  shows "if \<exists>c. 2 \<le> c \<and> c < clusters fs \<and> clval fs c = 0
    then \<exists>c fs'. alloc_block12 fs = Some (word_of_int c, fs') \<and> 2 \<le> c \<and> c < clusters fs \<and> clval fs c = 0 \<and>
      (\<forall>d. 2 \<le> d \<and> d < c \<longrightarrow> clval fs d \<noteq> 0) \<and> fat_upd fs fs' ((clval fs)(c := 0xfff))
    else alloc_block12 fs = Some (0, fs)"
proof -
  have a: "alloc_block12 fs = alloc_from fs (clusters fs) 2" using assms(2) by (simp add: alloc_block12_def clusters_def)
  show ?thesis unfolding a by (rule alloc_from_spec[OF assms(1) order_refl assms(3)])
qed

text \<open>C31: \<^verbatim>\<open>alloc_block12\<close> returns the first free cluster, marked as the end of a chain, with every other
  entry unchanged; or 0, with nothing changed, when no cluster is free.\<close>

theorem alloc_block12_correct:
  assumes "fat_ok fs" "0 < spc fs" "clusters fs \<le> 3072"
  shows "if \<exists>c. 2 \<le> c \<and> c < clusters fs \<and> clval fs c = 0
    then \<exists>c fs'. alloc_block12 fs = Some (word_of_int c, fs') \<and> 2 \<le> c \<and> c < clusters fs \<and> clval fs c = 0 \<and>
      (\<forall>d. 2 \<le> d \<and> d < c \<longrightarrow> clval fs d \<noteq> 0) \<and> fat_upd fs fs' ((clval fs)(c := 0xfff))
    else alloc_block12 fs = Some (0, fs)"
  by (rule alloc_block12_spec[OF assms])

section \<open>Chains\<close>

lemma next_cluster_chain:
  assumes "fat_ok fs" "2 \<le> x" "x < 3072"
  shows "next_cluster_12 fs x = Some (clval fs x)"
  using assms get_clval[of fs x] by (simp add: next_cluster_12_def entries_def)

text \<open>C32: \<^verbatim>\<open>free_cluster_chain\<close> ends on the chain of a file, frees exactly the clusters of the chain and
  changes no other entry.\<close>

theorem free_cluster_chain_correct:
  assumes "fat_ok fs" "cl_chain (clval fs) c cs"
  shows "\<exists>fs'. free_cluster_chain fs c = Some fs' \<and> fat_upd fs fs' (\<lambda>d. if d \<in> set cs then 0 else clval fs d)"
  using assms
proof (induction cs arbitrary: c fs)
  case Nil
  then show ?case by (subst free_cluster_chain.simps) (auto simp: table_upd_def same_disk_def)
next
  case (Cons x xs)
  then have x: "x = uint c" "2 \<le> x" "x < 3072" by auto
  have lt: "\<not> 0xff8 \<le> c" using x by (simp add: word_le_def)
  obtain fs1 where s: "set_clval12 fs x 0 = Some fs1" "fat_upd fs fs1 ((clval fs)(x := 0))" "cl_chain (clval fs1) (clval fs x) xs"
    using fat.clear_head[OF Cons.prems] by blast
  then have "fat_ok fs1" by (simp add: table_upd_def)
  from Cons.IH[OF this s(3)] obtain fs' where f: "free_cluster_chain fs1 (clval fs x) = Some fs'"
    "fat_upd fs1 fs' (\<lambda>d. if d \<in> set xs then 0 else clval fs1 d)" by blast
  have "free_cluster_chain fs c = Some fs'"
    using lt next_cluster_chain[OF Cons.prems(1) x(2,3)] s(1) f(1) x(1) by (subst free_cluster_chain.simps) simp
  moreover have "fat_upd fs fs' (\<lambda>d. if d \<in> set (x # xs) then 0 else clval fs d)"
    by (rule fat.upd_trans[OF s(2) f(2)]) (use s(2) in \<open>auto simp: table_upd_def\<close>)
  ultimately show ?case by blast
qed

text \<open>What an entry may hold as a link: an end mark, or the number of an entry that is not marked bad. In a
  sound table every entry but the two reserved ones, which hold the media byte, is marked bad or holds such a
  link.\<close>

definition link_ok :: "fat12_fsdata \<Rightarrow> u16 \<Rightarrow> bool" where
  "link_ok fs v \<longleftrightarrow> 0xff8 \<le> v \<or> v < 3072 \<and> (2 \<le> uint v \<longrightarrow> clval fs (uint v) \<noteq> 0xff7)"

definition fat_sound :: "fat12_fsdata \<Rightarrow> bool" where
  "fat_sound fs \<longleftrightarrow> fat_ok fs \<and> (\<forall>c \<in> entries. 2 \<le> c \<longrightarrow> clval fs c = 0xff7 \<or> link_ok fs (clval fs c))"

lemma link_entry: "v < (3072 :: u16) \<Longrightarrow> uint v \<in> entries"
  by (simp add: entries_def word_less_def)

lemma link_ok_cong:
  assumes "link_ok fs v" "\<And>d. d \<in> entries \<Longrightarrow> 2 \<le> d \<Longrightarrow> clval fs' d = 0xff7 \<Longrightarrow> clval fs d = 0xff7"
  shows "link_ok fs' v"
  using assms link_entry by (auto simp: link_ok_def)

lemma fat_sound_upd:
  assumes "fat_sound fs" "fat_upd fs fs' f"
    "\<And>d. d \<in> entries \<Longrightarrow> 2 \<le> d \<Longrightarrow> f d = clval fs d \<or> link_ok fs (f d) \<and> f d \<noteq> 0xff7"
  shows "fat_sound fs'"
proof -
  have ok: "fat_ok fs'" and v: "\<And>d. d \<in> entries \<Longrightarrow> clval fs' d = f d" using assms(2) by (auto simp: table_upd_def)
  have "clval fs d = 0xff7" if "d \<in> entries" "2 \<le> d" "clval fs' d = 0xff7" for d using assms(3)[OF that(1,2)] v[OF that(1)] that(3) by auto
  then have lk: "link_ok fs' w" if "link_ok fs w" for w using link_ok_cong[OF that] by blast
  have "clval fs' c = 0xff7 \<or> link_ok fs' (clval fs' c)" if "c \<in> entries" "2 \<le> c" for c
    using assms(1,3) v[OF that(1)] that lk unfolding fat_sound_def by metis
  then show ?thesis using ok by (simp add: fat_sound_def)
qed

lemma link_ok_zero: "link_ok fs 0" "link_ok fs 0xfff"
  by (simp_all add: link_ok_def word_less_def word_le_def)

text \<open>What a release leaves: some entries are cleared and the rest is as before; no bad mark is lost.\<close>

definition some_freed :: "fat12_fsdata \<Rightarrow> fat12_fsdata \<Rightarrow> bool" where
  "some_freed fs fs' \<longleftrightarrow> same_disk fs fs' \<and> (\<forall>d \<in> entries. clval fs' d = clval fs d \<or> clval fs' d = 0) \<and>
     (\<forall>d \<in> entries. 2 \<le> d \<and> clval fs d = 0xff7 \<longrightarrow> clval fs' d = 0xff7)"

lemma free_from_one: "fat_ok fs \<Longrightarrow> \<exists>fs'. free_cluster_chain fs 1 = Some fs' \<and> fat_upd fs fs' ((clval fs)(1 := 0))"
proof -
  assume ok: "fat_ok fs"
  have e: "1 \<in> entries" by (simp add: entries_def)
  obtain fs1 where s: "set_clval12 fs 1 0 = Some fs1" "fat_upd fs fs1 ((clval fs)(1 := 0))" using fat.clear_entry[OF ok e] by blast
  have "free_cluster_chain fs1 0xfff = Some fs1" by (subst free_cluster_chain.simps) simp
  then have "free_cluster_chain fs 1 = Some fs1" using s(1) by (subst free_cluster_chain.simps) (simp add: next_cluster_12_def word_le_def)
  then show ?thesis using s(2) by auto
qed

lemma free_from_zero: "fat_ok fs \<Longrightarrow> \<exists>fs'. free_cluster_chain fs 0 = Some fs' \<and> fat_upd fs fs' ((clval fs)(0 := 0, 1 := 0))"
proof -
  assume ok: "fat_ok fs"
  have e: "0 \<in> entries" by (simp add: entries_def)
  obtain fs1 where s: "set_clval12 fs 0 0 = Some fs1" "fat_upd fs fs1 ((clval fs)(0 := 0))" using fat.clear_entry[OF ok e] by blast
  then have "fat_ok fs1" by (simp add: table_upd_def)
  then obtain fs2 where f: "free_cluster_chain fs1 1 = Some fs2" "fat_upd fs1 fs2 ((clval fs1)(1 := 0))" using free_from_one by blast
  have "free_cluster_chain fs 0 = Some fs2" using s(1) f(1) by (subst free_cluster_chain.simps) (simp add: next_cluster_12_def word_le_def)
  moreover have "fat_upd fs fs2 ((clval fs)(0 := 0, 1 := 0))"
    by (rule fat.upd_trans[OF s(2) f(2)]) (use s(2) in \<open>auto simp: table_upd_def\<close>)
  ultimately show ?thesis by blast
qed

lemma some_freed_clear:
  assumes "fat_upd fs fs1 ((clval fs)(x := 0))" "x < 2 \<or> clval fs x \<noteq> 0xff7" "some_freed fs1 fs'"
  shows "some_freed fs fs'" "x \<in> entries \<Longrightarrow> clval fs' x = 0"
proof -
  have v: "clval fs1 d = (if d = x then 0 else clval fs d)" if "d \<in> entries" for d using assms(1) that by (simp add: table_upd_def)
  have "clval fs' d = clval fs d \<or> clval fs' d = 0" if "d \<in> entries" for d
    using assms(3) v[OF that] that unfolding some_freed_def by (metis (full_types))
  moreover have "clval fs' d = 0xff7" if "d \<in> entries" "2 \<le> d" "clval fs d = 0xff7" for d
    using assms(2,3) v[OF that(1)] that unfolding some_freed_def by (metis not_less)
  moreover have "same_disk fs fs1" "same_disk fs1 fs'" using assms(1,3) by (simp_all add: table_upd_def some_freed_def)
  then have "same_disk fs fs'" by (rule same_disk_trans)
  ultimately show "some_freed fs fs'" by (simp add: some_freed_def)
  show "clval fs' x = 0" if "x \<in> entries" using assms(3) v[OF that] that by (auto simp: some_freed_def)
qed

lemma some_freed_reserved:
  assumes "fat_upd fs fs' f" "\<And>d. d \<in> entries \<Longrightarrow> f d = clval fs d \<or> f d = 0 \<and> d < 2"
  shows "some_freed fs fs'"
  using assms by (fastforce simp: some_freed_def table_upd_def)

text \<open>C33: \<^verbatim>\<open>free_cluster_chain\<close> returns on every sound table, whether or not the entries form a chain (also on a
  cycle: a freed entry leads to the number 0 and from there to the end), and from every link. It frees the
  cluster it starts with, clears entries and changes none otherwise, loses no bad mark, and leaves the table
  sound.\<close>

theorem free_cluster_chain_returns:
  assumes "fat_sound fs" "link_ok fs c"
  shows "\<exists>fs'. free_cluster_chain fs c = Some fs' \<and> fat_sound fs' \<and> some_freed fs fs' \<and>
    (c < 3072 \<longrightarrow> clval fs' (uint c) = 0)"
  using assms
proof (induction "card {d \<in> entries. clval fs d \<noteq> 0}" arbitrary: fs c rule: less_induct)
  case less
  have ok: "fat_ok fs" using less.prems by (simp add: fat_sound_def)
  have sound: "fat_sound fs'" if "fat_upd fs fs' f" "\<And>d. d \<in> entries \<Longrightarrow> f d = clval fs d \<or> f d = 0" for fs' f
    by (rule fat_sound_upd[OF less.prems(1) that(1)]) (use that(2) link_ok_zero in fastforce)
  have "uint c = 0 \<or> uint c = 1 \<or> 2 \<le> uint c" using uint_ge_0[of c] by linarith
  then consider "0xff8 \<le> c" | "c = 0" | "c = 1" | "2 \<le> uint c" "uint c < 3072" "\<not> 0xff8 \<le> c"
    using less.prems(2) by (auto simp: link_ok_def word_le_def word_less_def word_uint_eq_iff)
  then show ?case
  proof cases
    case 1
    then have "\<not> c < 3072" by (simp add: word_le_def word_less_def)
    then show ?thesis using 1 less.prems by (subst free_cluster_chain.simps) (simp add: some_freed_def same_disk_def)
  next
    case 2
    obtain fs' where f: "free_cluster_chain fs 0 = Some fs'" "fat_upd fs fs' ((clval fs)(0 := 0, 1 := 0))" using free_from_zero[OF ok] by blast
    have "fat_sound fs'" "some_freed fs fs'" "clval fs' 0 = 0"
      using sound[OF f(2)] some_freed_reserved[OF f(2)] f(2) by (auto simp: table_upd_def entries_def)
    then show ?thesis using 2 f(1) by simp
  next
    case 3
    obtain fs' where f: "free_cluster_chain fs 1 = Some fs'" "fat_upd fs fs' ((clval fs)(1 := 0))" using free_from_one[OF ok] by blast
    have "fat_sound fs'" "some_freed fs fs'" "clval fs' 1 = 0"
      using sound[OF f(2)] some_freed_reserved[OF f(2)] f(2) by (auto simp: table_upd_def entries_def)
    then show ?thesis using 3 f(1) by simp
  next
    case 4
    have e: "uint c \<in> entries" using 4 by (simp add: entries_def)
    have nb: "clval fs (uint c) \<noteq> 0xff7" using less.prems(2) 4 by (simp add: link_ok_def)
    obtain fs1 where s: "set_clval12 fs (uint c) 0 = Some fs1" "fat_upd fs fs1 ((clval fs)(uint c := 0))" using fat.clear_entry[OF ok e] by blast
    have st: "free_cluster_chain fs c = free_cluster_chain fs1 (clval fs (uint c))"
      using 4(3) next_cluster_chain[OF ok 4(1,2)] s(1) by (subst free_cluster_chain.simps) simp
    have s1: "fat_sound fs1" "fat_ok fs1" using sound[OF s(2)] s(2) by (auto simp: table_upd_def)
    have v: "clval fs1 d = (if d = uint c then 0 else clval fs d)" if "d \<in> entries" for d using s(2) that by (simp add: table_upd_def)
    have "\<exists>fs'. free_cluster_chain fs1 (clval fs (uint c)) = Some fs' \<and> fat_sound fs' \<and> some_freed fs1 fs'"
    proof (cases "clval fs (uint c) = 0")
      case True
      obtain fs2 where f: "free_cluster_chain fs1 0 = Some fs2" "fat_upd fs1 fs2 ((clval fs1)(0 := 0, 1 := 0))" using free_from_zero[OF s1(2)] by blast
      have "fat_sound fs2" by (rule fat_sound_upd[OF s1(1) f(2)]) simp
      then show ?thesis using True f(1) some_freed_reserved[OF f(2)] by auto
    next
      case False
      have "{d \<in> entries. clval fs1 d \<noteq> 0} = {d \<in> entries. clval fs d \<noteq> 0} - {uint c}" using v by (auto split: if_splits)
      then have "{d \<in> entries. clval fs1 d \<noteq> 0} \<subset> {d \<in> entries. clval fs d \<noteq> 0}" using e False by auto
      then have "card {d \<in> entries. clval fs1 d \<noteq> 0} < card {d \<in> entries. clval fs d \<noteq> 0}" by (rule psubset_card_mono[rotated]) simp
      moreover have "link_ok fs (clval fs (uint c))" using less.prems(1) e 4(1) nb by (auto simp: fat_sound_def)
      then have "link_ok fs1 (clval fs (uint c))" by (rule link_ok_cong) (use v in \<open>auto split: if_splits\<close>)
      ultimately show ?thesis using less.hyps s1(1) by blast
    qed
    then show ?thesis unfolding st using some_freed_clear[OF s(2)] nb e by blast
  qed
qed

text \<open>Freeing the chain of a file without clusters, as \<^verbatim>\<open>fat12_vop_remove\<close> does for an empty file, clears the
  two reserved entries at the start of the table.\<close>

theorem free_empty_file_clears_reserved:
  assumes "fat_ok fs"
  shows "\<exists>fs'. free_cluster_chain fs 0 = Some fs' \<and> get_clval12 fs' 0 = Some 0 \<and> get_clval12 fs' 1 = Some 0"
proof -
  obtain fs' where f: "free_cluster_chain fs 0 = Some fs'" "fat_upd fs fs' ((clval fs)(0 := 0, 1 := 0))" using free_from_zero[OF assms] by blast
  then show ?thesis using get_clval[of fs' 0] get_clval[of fs' 1] by (auto simp: table_upd_def entries_def)
qed

lemma chain_pred_spec:
  assumes "fat_ok fs" "cl_chain (clval fs) cur (xs @ cl # ys)" "cl \<notin> set xs"
  shows "chain_pred fs cl prev cur = Some (if xs = [] then prev else word_of_int (last xs))"
  using assms(2,3)
proof (induction xs arbitrary: prev cur)
  case Nil
  then show ?case by (subst chain_pred.simps) simp
next
  case (Cons x xs)
  then have x: "x = uint cur" "2 \<le> x" "x < 3072" "x \<noteq> cl" "cl_chain (clval fs) (clval fs x) (xs @ cl # ys)" by auto
  have "chain_pred fs cl prev cur = chain_pred fs cl cur (clval fs x)"
    using x next_cluster_chain[OF assms(1) x(2,3)] by (subst chain_pred.simps) simp
  also have "\<dots> = Some (if xs = [] then cur else word_of_int (last xs))" using Cons.IH[OF x(5)] Cons.prems(2) by simp
  finally show ?case using x(1) by simp
qed

text \<open>C34: \<^verbatim>\<open>delete_cluster_from_chain\<close> takes a cluster behind the first one out of the chain of a directory,
  which keeps its other clusters in order, and marks the cluster as free; no other entry changes.\<close>

theorem delete_cluster_correct:
  assumes "fat_ok fs" "cl_chain (clval fs) (word_of_int (start_cluster dent)) (xs @ p # cl # ys)"
  shows "\<exists>fs'. delete_cluster_from_chain dent cl fs = Some fs' \<and> cl_chain (clval fs') (word_of_int (start_cluster dent)) (xs @ p # ys) \<and>
    fat_upd fs fs' ((clval fs)(p := clval fs cl, cl := 0))"
proof -
  let ?s = "word_of_int (start_cluster dent) :: u16"
  note ch = assms(2) and nd = cl_chain_distinct[OF assms(2)]
  have pc: "p \<in> entries" "cl \<in> entries" "2 \<le> p" "2 \<le> cl" "p \<noteq> cl" using cl_chain_entries[OF ch] nd by auto
  have up: "uint (word_of_int p :: u16) = p" "p < 3072" "cl < 3072"
    using pc by (auto simp: entries_def uint_word_of_int)
  have hd: "uint ?s = hd (xs @ [p])" "2 \<le> uint ?s" "uint ?s < 3072" using ch by (cases xs; force)+
  have rest: "cl_chain (clval fs) (clval fs (uint ?s)) (tl (xs @ [p]) @ cl # ys)" using ch hd(1) by (cases xs) auto
  have "cl \<notin> set (tl (xs @ [p]))" using nd by (cases xs) auto
  from chain_pred_spec[OF assms(1) rest this]
  have "chain_pred fs cl ?s (clval fs (uint ?s)) = Some (if tl (xs @ [p]) = [] then ?s else word_of_int (last (tl (xs @ [p]))))" .
  also have "\<dots> = Some (word_of_int p)" using hd(1) by (cases xs) (auto simp: word_uint_eq_iff up(1))
  finally have pr: "chain_pred fs cl ?s (clval fs (uint ?s)) = Some (word_of_int p)" .
  obtain fs1 fs2 where s: "set_clval12 fs p (clval fs cl) = Some fs1" "set_clval12 fs1 cl 0 = Some fs2"
    "fat_upd fs fs2 ((clval fs)(p := clval fs cl, cl := 0))" "cl_chain (clval fs2) ?s (xs @ p # ys)"
    using fat.unlink_cluster[OF assms] by blast
  have "delete_cluster_from_chain dent cl fs = Some fs2"
    using pc(4) next_cluster_chain[OF assms(1) hd(2,3)] next_cluster_chain[OF assms(1) pc(4) up(3)] pr s(1,2) up(1)
    by (simp add: delete_cluster_from_chain_def Let_def)
  with s(3,4) show ?thesis by blast
qed

lemma free_not_in_chain: "cl_chain f c cs \<Longrightarrow> f n = 0 \<Longrightarrow> n \<notin> set cs"
proof
  assume a: "cl_chain f c cs" "f n = 0" "n \<in> set cs"
  then obtain xs ys where "cs = xs @ n # ys" by (meson split_list)
  then have "cl_chain f 0 ys" using a cl_chain_suffix[of f c xs n ys] by simp
  then show False by (cases ys) (auto simp: word_le_def)
qed

text \<open>C30: A write at the end of a file adds the first free cluster below the bound of the code
  (\<^verbatim>\<open>total_sect / spc\<close>) to the chain of the file and leaves the chain of every other file as it is; without a
  free cluster below the bound nothing changes and \<^verbatim>\<open>ENO_DISK_SPACE\<close> is returned.\<close>

theorem write_next_cluster_correct:
  assumes "fat_ok fs" "0 < spc fs" "clusters fs \<le> 3072" "cl_chain (clval fs) c (xs @ [uint p])"
  shows "if \<exists>n. 2 \<le> n \<and> n < clusters fs \<and> clval fs n = 0
    then \<exists>n fs'. write_next_cluster fs p = Some (Inr (word_of_int n), fs') \<and> 2 \<le> n \<and> n < clusters fs \<and> clval fs n = 0 \<and>
      (\<forall>d. 2 \<le> d \<and> d < n \<longrightarrow> clval fs d \<noteq> 0) \<and>
      cl_chain (clval fs') c (xs @ [uint p, n]) \<and> fat_upd fs fs' ((clval fs)(n := 0xfff, uint p := word_of_int n)) \<and>
      (\<forall>d ys. cl_chain (clval fs) d ys \<and> uint p \<notin> set ys \<longrightarrow> cl_chain (clval fs') d ys)
    else write_next_cluster fs p = Some (Inl (- 41), fs)"
proof -
  have last: "0xff8 \<le> clval fs (uint p)" using cl_chain_suffix[OF assms(4)[folded append_Cons]] by simp
  have p: "2 \<le> uint p" "uint p < 3072" using cl_chain_entries[OF assms(4), of "uint p"] by (auto simp: entries_def)
  note nx = next_cluster_chain[OF assms(1) p]
  show ?thesis
  proof (cases "\<exists>n. 2 \<le> n \<and> n < clusters fs \<and> clval fs n = 0")
    case False
    then have "alloc_block12 fs = Some (0, fs)" using alloc_block12_spec[OF assms(1-3)] by (simp only: if_False)
    then show ?thesis unfolding if_not_P[OF False] using nx last by (simp add: write_next_cluster_def Let_def)
  next
    case True
    then obtain n fs1 where a: "alloc_block12 fs = Some (word_of_int n, fs1)" "2 \<le> n" "n < clusters fs" "clval fs n = 0"
      "fat_upd fs fs1 ((clval fs)(n := 0xfff))" "\<forall>d. 2 \<le> d \<and> d < n \<longrightarrow> clval fs d \<noteq> 0" using alloc_block12_spec[OF assms(1-3)] by (simp only: if_True) blast
    have n: "n < 3072" "n \<in> entries" using a(2,3) assms(3) by (auto simp: entries_def)
    have u: "ucast (word_of_int n :: u32) = (word_of_int n :: u16)" "(word_of_int n :: u16) \<noteq> 0"
      using a(2) n(1) by (simp_all add: word_uint_eq_iff uint_word_of_int unsigned_ucast_eq take_bit_int_eq_self)
    have out: "n \<notin> set ys" if "cl_chain (clval fs) d ys" for d ys by (rule free_not_in_chain[OF that a(4)])
    have keep: "cl_chain (clval fs1) d ys" if "cl_chain (clval fs) d ys" for d ys
      using that out[OF that] a(5) cl_chain_entries[OF that] by (subst cl_chain_cong[of _ _ "clval fs"]) (auto simp: table_upd_def)
    have ok1: "fat_ok fs1" "0xff8 \<le> clval fs1 n" using a(5) n(2) by (auto simp: table_upd_def)
    obtain fs2 where s: "set_clval12 fs1 (uint p) (word_of_int n) = Some fs2" "fat_upd fs1 fs2 ((clval fs1)(uint p := word_of_int n))"
      "cl_chain (clval fs2) c (xs @ [uint p, n])"
      using fat.extend_chain[OF ok1(1) keep[OF assms(4)] out[OF assms(4)] a(2) n(1) ok1(2)] by blast
    have up: "fat_upd fs fs2 ((clval fs)(n := 0xfff, uint p := word_of_int n))"
      by (rule fat.upd_trans[OF a(5) s(2)]) (use a(5) in \<open>auto simp: table_upd_def\<close>)
    have "cl_chain (clval fs2) d ys" if "cl_chain (clval fs) d ys" "uint p \<notin> set ys" for d ys
      using keep[OF that(1)] that(2) s(2) cl_chain_entries[OF that(1)]
      by (subst cl_chain_cong[of _ _ "clval fs1"]) (auto simp: table_upd_def)
    moreover have "write_next_cluster fs p = Some (Inr (word_of_int n), fs2)" using nx last a(1) u s(1) by (simp add: write_next_cluster_def Let_def)
    ultimately show ?thesis unfolding if_P[OF True] using a(2,3,4,6) s(3) up by blast
  qed
qed

section \<open>Names and dates\<close>

text \<open>A base of one to eight characters and an extension of at most three, without dots and spaces.\<close>

definition plain_chars :: "int list \<Rightarrow> bool" where
  "plain_chars s \<longleftrightarrow> (\<forall>c \<in> set s. c \<noteq> 0 \<and> c \<noteq> 46 \<and> c \<noteq> 32)"

definition file_name :: "int list \<Rightarrow> int list \<Rightarrow> int list" where
  "file_name b e = b @ (if e = [] then [] else 46 # e)"

lemma takeWhile_base: "plain_chars b \<Longrightarrow> length b \<le> 8 \<Longrightarrow> takeWhile (\<lambda>c. c \<noteq> 46) (take 8 (file_name b e)) = b"
proof -
  assume a: "plain_chars b" "length b \<le> 8"
  have "take 8 (file_name b e) = b @ take (8 - length b) (if e = [] then [] else 46 # e)" using a(2) by (simp add: file_name_def)
  moreover have "takeWhile (\<lambda>c. c \<noteq> 46) (b @ take (8 - length b) (if e = [] then [] else 46 # e)) = b"
    using a(1) by (subst takeWhile_append2) (auto simp: plain_chars_def take_Cons split: nat.split)
  ultimately show ?thesis by simp
qed

lemma convert_name_spec:
  assumes "plain_chars b" "plain_chars e" "b \<noteq> []" "length b \<le> 8" "length e \<le> 3" "length dest = 11"
  shows "convert_name (file_name b e) dest =
    (1, map toupper b @ replicate (8 - length b) 32 @ map toupper e @ replicate (3 - length e) 32)"
proof -
  let ?s = "file_name b e"
  obtain c b' where b: "b = c # b'" "c \<noteq> 32" "c \<noteq> 0" using assms(1,3) by (cases b) (auto simp: plain_chars_def)
  have dr: "dropWhile (\<lambda>c. c = 32) ?s = ?s" "char_at ?s 0 \<noteq> 0" using b by (simp_all add: file_name_def char_at_def)
  note tw = takeWhile_base[OF assms(1,4), of e]
  have at: "char_at ?s (length b) = (if e = [] then 0 else 46)" by (simp add: file_name_def char_at_def nth_append)
  have at8: "\<not> (length b = 8 \<and> char_at ?s 8 \<noteq> 46 \<and> char_at ?s 8 \<noteq> 0)" using at by auto
  show ?thesis
  proof (cases "e = []")
    case True
    then show ?thesis using dr tw at at8 assms(4) by (simp add: convert_name_def Let_def replicate_add[symmetric])
  next
    case False
    have ext: "drop (length b + 1) ?s = e" "char_at ?s (length b + 1 + length e) = 0" using False by (simp_all add: file_name_def char_at_def)
    have "convert_ext ?s (length b + 1) (map toupper b @ replicate (8 - length b) 32 @ drop 8 dest) =
      (1, map toupper b @ replicate (8 - length b) 32 @ map toupper e @ replicate (3 - length e) 32)"
      using ext assms(4,5) by (simp add: convert_ext_def Let_def)
    then show ?thesis using dr tw at at8 False assms(4,6) by (simp add: convert_name_def Let_def)
  qed
qed

lemma toupper_plain: "c \<noteq> 32 \<Longrightarrow> toupper c \<noteq> 32"
  by (simp add: toupper_def)

lemma toupper_deleted: "toupper c = 0 \<longleftrightarrow> c = 0" "word_of_int (toupper c) = (0xE5 :: u8) \<longleftrightarrow> word_of_int c = (0xE5 :: u8)"
  by (auto simp: toupper_def word_uint_eq_iff uint_word_of_int)

lemma takeWhile_pad: "\<forall>c \<in> set xs. c \<noteq> (32 :: int) \<Longrightarrow> takeWhile (\<lambda>c. c \<noteq> 32) (xs @ replicate k 32) = xs"
proof (induction xs)
  case Nil
  then show ?case by (cases k) simp_all
qed simp

text \<open>C35: \<^verbatim>\<open>convert_name\<close> accepts every name of one to eight characters with an extension of at most three in which
  there is no blank and no further dot. The entry that it makes is listed by \<^verbatim>\<open>fat12_vop_readdir\<close> under the same
  name in capitals; unless the name starts with the mark of deleted entries (byte \<^verbatim>\<open>0xE5\<close>) or the attribute is the
  one of long names, the entry is not passed over.\<close>

theorem convert_name_roundtrip:
  assumes "plain_chars b" "plain_chars e" "b \<noteq> []" "length b \<le> 8" "length e \<le> 3" "length dest = 11"
  shows "\<exists>nm. convert_name (file_name b e) dest = (1, nm) \<and> length nm = 11 \<and> entry_name nm = map toupper (file_name b e) \<and>
    (\<forall>dent. readdir_skips (dent\<lparr>d_name := nm\<rparr>) \<longleftrightarrow> word_of_int (hd b) = (0xE5 :: u8) \<or> d_attrib dent = 0x0f)"
proof -
  define B E where be: "B = map toupper b @ replicate (8 - length b) 32" "E = map toupper e @ replicate (3 - length e) 32"
  define nm where "nm = B @ E"
  have l: "length B = 8" "length E = 3" using assms(4,5) by (simp_all add: be)
  have tw: "takeWhile (\<lambda>c. c \<noteq> 32) (map toupper s @ replicate k 32) = map toupper s" if "plain_chars s" for s k
    using that toupper_plain by (intro takeWhile_pad) (simp add: plain_chars_def)
  have parts: "take 8 nm = B" "drop 8 (take 11 nm) = E" "length nm = 11" "nm ! 8 = E ! 0" using l by (simp_all add: nm_def nth_append)
  have n8: "(nm ! 8 \<noteq> 32) = (e \<noteq> [])" unfolding parts(4) be(2) using assms(2) by (cases e) (simp_all add: plain_chars_def toupper_plain)
  have "toupper 46 = 46" by (simp add: toupper_def)
  then have "entry_name nm = map toupper (file_name b e)"
    unfolding entry_name_def parts(1,2) n8 be tw[OF assms(1)] tw[OF assms(2)] by (simp add: file_name_def)
  moreover have "nm ! 0 = toupper (hd b)" "hd b \<noteq> 0" using assms(1,3) by (cases b; simp add: nm_def be plain_chars_def)+
  then have "readdir_skips (dent\<lparr>d_name := nm\<rparr>) \<longleftrightarrow> word_of_int (hd b) = (0xE5 :: u8) \<or> d_attrib dent = 0x0f" for dent
    by (simp add: readdir_skips_def toupper_deleted)
  ultimately show ?thesis using convert_name_spec[OF assms] parts(3) by (auto simp: nm_def be)
qed

lemma convert_name_rejects:
  assumes "plain_chars s" "8 < length s"
  shows "fst (convert_name s dest) = - 1"
proof -
  obtain c s' where s: "s = c # s'" "c \<noteq> 32" "c \<noteq> 0" using assms by (cases s) (auto simp: plain_chars_def)
  have "takeWhile (\<lambda>c. c \<noteq> 46) (take 8 s) = take 8 s" using assms(1) by (auto simp: takeWhile_eq_all_conv plain_chars_def dest: in_set_takeD)
  moreover have "s ! 8 \<noteq> 46" "s ! 8 \<noteq> 0" using assms nth_mem[of 8 s] by (auto simp: plain_chars_def)
  moreover have "dropWhile (\<lambda>c. c = 32) s = s" "char_at s 0 \<noteq> 0" using s by (simp_all add: char_at_def)
  ultimately show ?thesis using assms(2) by (simp add: convert_name_def Let_def char_at_def del: takeWhile_eq_all_conv)
qed

definition stamp_range :: "date_time \<Rightarrow> bool" where
  "stamp_range dt \<longleftrightarrow> 0 \<le> seconds dt \<and> seconds dt < 60 \<and> 0 \<le> minutes dt \<and> minutes dt < 60 \<and> 0 \<le> hours dt \<and> hours dt < 24 \<and>
     1 \<le> date dt \<and> date dt \<le> 31 \<and> 1 \<le> month dt \<and> month dt \<le> 12 \<and> 1980 \<le> year dt \<and> year dt < 2108"

lemma or_disjoint: "0 \<le> b \<Longrightarrow> b < 2 ^ n \<Longrightarrow> push_bit n a OR b = a * 2 ^ n + (b :: int)"
proof -
  assume "0 \<le> b" "b < 2 ^ n"
  then have b: "take_bit n b = b" by (simp add: take_bit_int_eq_self)
  have "push_bit n a AND take_bit n b = 0" by (rule bit_eqI) (auto simp: bit_simps)
  then have "push_bit n a + b = push_bit n a OR b" using disjunctive_add_eq_or[of "push_bit n a" b] b by simp
  then show ?thesis by (simp add: push_bit_eq_mult)
qed

lemma uint_field:
  fixes w :: u16
  assumes "m = push_bit k (mask n)"
  shows "uint (drop_bit k (w AND m)) = uint w div 2 ^ k mod 2 ^ n"
proof -
  have "drop_bit k (w AND push_bit k (mask n)) = take_bit n (drop_bit k w)"
    by (rule bit_word_eqI) (auto simp: bit_simps dest: bit_imp_le_length)
  then have "unat (drop_bit k (w AND m)) = take_bit n (drop_bit k (unat w))"
    unfolding assms by (simp only: unsigned_take_bit_eq unat_drop_bit_eq)
  then have "unat (drop_bit k (w AND m)) = unat w div 2 ^ k mod 2 ^ n" by (simp only: take_bit_eq_mod drop_bit_eq_div)
  then show ?thesis by (simp only: uint_nat zdiv_int zmod_int of_nat_power of_nat_numeral)
qed

lemma stamp_masks: "(0x7e0 :: u16) = push_bit 5 (mask 6)" "(0xf800 :: u16) = push_bit 11 (mask 5)" "(0x1e0 :: u16) = push_bit 5 (mask 4)"
  "(0xfe00 :: u16) = push_bit 9 (mask 7)" "(0x1f :: u16) = push_bit 0 (mask 5)"
  by (simp_all add: mask_eq_exp_minus_1)

lemma entry_date_fields:
  "entry_date d = \<lparr>seconds = uint (d_time d) mod 32 * 2, minutes = uint (d_time d) div 32 mod 64, hours = uint (d_time d) div 2048 mod 32,
     date = uint (d_date d) mod 32, month = uint (d_date d) div 32 mod 16, year = uint (d_date d) div 512 mod 128 + 1980\<rparr>"
proof -
  have low: "uint (w AND 0x1f) = uint w mod 32" for w :: u16
  proof -
    have "uint (drop_bit 0 (w AND 0x1f)) = uint w div 2 ^ 0 mod 2 ^ 5" by (rule uint_field[OF stamp_masks(5)])
    then show ?thesis by (simp only: drop_bit_0 id_apply power_0 div_by_1) simp
  qed
  have pow: "(2 :: int) ^ 5 = 32" "(2 :: int) ^ 6 = 64" "(2 :: int) ^ 11 = 2048" "(2 :: int) ^ 4 = 16" "(2 :: int) ^ 9 = 512" "(2 :: int) ^ 7 = 128"
    by simp_all
  show ?thesis unfolding entry_date_def low uint_field[OF stamp_masks(1)] uint_field[OF stamp_masks(2)] uint_field[OF stamp_masks(3)]
    uint_field[OF stamp_masks(4)] pow ..
qed

lemma or_fields:
  assumes "0 \<le> b" "b < 2 ^ m" "0 \<le> c" "c < 2 ^ n" "n \<le> k" "m = k - n"
  shows "push_bit k a OR (push_bit n b OR c) = a * 2 ^ k + (b * 2 ^ n + (c :: int))"
proof -
  have "b + 1 \<le> 2 ^ m" using assms(2) by simp
  then have "(b + 1) * 2 ^ n \<le> 2 ^ m * 2 ^ n" by (rule mult_right_mono) simp
  also have "(2 :: int) ^ m * 2 ^ n = 2 ^ k" using assms(5,6) by (simp add: power_add[symmetric])
  finally have "b * 2 ^ n + c < 2 ^ k" using assms(4) by (simp add: algebra_simps)
  then show ?thesis using or_disjoint[OF assms(3,4)] or_disjoint[of "b * 2 ^ n + c" k a] assms(1,3) by simp
qed

lemma uint16_id: "0 \<le> x \<Longrightarrow> x < 65536 \<Longrightarrow> uint (word_of_int x :: u16) = x"
  by (simp add: uint_word_of_int)

lemma pack_fields:
  assumes "stamp_range dt"
  shows "uint (pack_time dt) = hours dt * 2048 + minutes dt * 32 + seconds dt div 2"
    "uint (pack_date dt) = (year dt - 1980) * 512 + month dt * 32 + date dt"
proof -
  have r: "0 \<le> seconds dt" "seconds dt < 60" "0 \<le> minutes dt" "minutes dt < 60" "0 \<le> hours dt" "hours dt < 24"
    "0 \<le> date dt" "date dt \<le> 31" "0 \<le> month dt" "month dt \<le> 12" "1980 \<le> year dt" "year dt < 2108"
    using assms by (simp_all add: stamp_range_def)
  have s: "c_div (seconds dt) 2 = seconds dt div 2" using r by (simp add: c_div_nonneg)
  have t: "push_bit 11 (hours dt) OR (push_bit 5 (minutes dt) OR seconds dt div 2) = hours dt * 2 ^ 11 + (minutes dt * 2 ^ 5 + seconds dt div 2)"
    by (rule or_fields[where m = 6]) (use r in simp_all)
  have "0 \<le> hours dt * 2048 + (minutes dt * 32 + seconds dt div 2)" "hours dt * 2048 + (minutes dt * 32 + seconds dt div 2) < 65536"
    using r by auto
  then show "uint (pack_time dt) = hours dt * 2048 + minutes dt * 32 + seconds dt div 2"
    unfolding pack_time_def or.assoc s t by (subst uint16_id) simp_all
  have d: "push_bit 9 (year dt - 1980) OR (push_bit 5 (month dt) OR date dt) = (year dt - 1980) * 2 ^ 9 + (month dt * 2 ^ 5 + date dt)"
    by (rule or_fields[where m = 4]) (use r in simp_all)
  have "0 \<le> (year dt - 1980) * 512 + (month dt * 32 + date dt)" "(year dt - 1980) * 512 + (month dt * 32 + date dt) < 65536"
    using r by auto
  then show "uint (pack_date dt) = (year dt - 1980) * 512 + month dt * 32 + date dt"
    unfolding pack_date_def or.assoc d by (subst uint16_id) simp_all
qed

lemma field_parts:
  fixes a b c M N :: int
  assumes "0 \<le> c" "c < N" "0 \<le> b" "b < M"
  shows "(a * (M * N) + b * N + c) mod N = c" "(a * (M * N) + b * N + c) div N mod M = b" "(a * (M * N) + b * N + c) div (M * N) = a"
proof -
  have x: "a * (M * N) + b * N + c = c + N * (b + M * a)" by (simp add: algebra_simps)
  have d: "(a * (M * N) + b * N + c) div N = b + M * a" unfolding x using assms by (subst div_mult_self2) simp_all
  show "(a * (M * N) + b * N + c) mod N = c" unfolding x using assms by (subst mod_mult_self2) simp_all
  show "(a * (M * N) + b * N + c) div N mod M = b" unfolding d using assms by (subst mod_mult_self2) simp_all
  have "(a * (M * N) + b * N + c) div (N * M) = (a * (M * N) + b * N + c) div N div M" using assms by (intro zdiv_zmult2_eq) simp
  also have "\<dots> = a" unfolding d using assms by (subst div_mult_self2) simp_all
  finally show "(a * (M * N) + b * N + c) div (M * N) = a" by (simp add: mult.commute)
qed

text \<open>C36: The time stamp that \<^verbatim>\<open>mark_time_date\<close> packs into an entry is unpacked by \<^verbatim>\<open>fat12_vop_getattr\<close> with the
  seconds rounded down to an even number.\<close>

theorem time_stamp_roundtrip:
  assumes "secs_to_date secs = Some dt" "stamp_range dt"
  shows "\<exists>d'. mark_time_date secs d = Some d' \<and> entry_date d' = dt\<lparr>seconds := seconds dt - seconds dt mod 2\<rparr>"
proof -
  note p = pack_fields[OF assms(2)]
  have r: "0 \<le> seconds dt" "seconds dt < 60" "0 \<le> minutes dt" "minutes dt < 60" "0 \<le> hours dt" "hours dt < 24"
    "0 \<le> date dt" "date dt \<le> 31" "0 \<le> month dt" "month dt \<le> 12" "1980 \<le> year dt" "year dt < 2108"
    using assms(2) by (simp_all add: stamp_range_def)
  let ?d = "d\<lparr>d_time := pack_time dt, d_date := pack_date dt\<rparr>"
  have e: "seconds dt div 2 * 2 = seconds dt - seconds dt mod 2" by (simp add: minus_mod_eq_div_mult)
  have t: "uint (pack_time dt) mod 32 = seconds dt div 2" "uint (pack_time dt) div 32 mod 64 = minutes dt"
    "uint (pack_time dt) div 2048 = hours dt"
    using field_parts[of "seconds dt div 2" 32 "minutes dt" 64 "hours dt"] r unfolding p(1) by simp_all
  have u: "uint (pack_date dt) mod 32 = date dt" "uint (pack_date dt) div 32 mod 16 = month dt" "uint (pack_date dt) div 512 = year dt - 1980"
    using field_parts[of "date dt" 32 "month dt" 16 "year dt - 1980"] r unfolding p(2) by simp_all
  have "entry_date ?d = dt\<lparr>seconds := seconds dt - seconds dt mod 2\<rparr>" unfolding entry_date_fields using r by (simp add: t u e)
  then show ?thesis using assms(1) by (simp add: mark_time_date_def)
qed

section \<open>Sound tables\<close>

lemma free_block12_spec:
  assumes "fat_ok fs" "c \<in> entries"
  obtains fs' where "free_block12 fs (word_of_int c) = Some fs'" "fat_upd fs fs' ((clval fs)(c := 0))"
proof -
  have "uint (word_of_int c :: u32) = c" using assms(2) by (simp add: entries_def uint_word_of_int)
  then have "sint (word_of_int c :: u32) = c" using assms(2) by (simp add: entries_def sint_uint signed_take_bit_int_eq_self)
  then show ?thesis using fat.clear_entry[OF assms] that by (auto simp: free_block12_def)
qed

lemma alloc_block12_sound:
  assumes "fat_sound fs" "0 < spc fs" "clusters fs \<le> 3072"
  obtains c fs' where "alloc_block12 fs = Some (word_of_int c, fs')" "fat_sound fs'"
    "c = 0 \<and> fs' = fs \<or> 2 \<le> c \<and> c < clusters fs \<and> clval fs c = 0 \<and> fat_upd fs fs' ((clval fs)(c := 0xfff))"
proof -
  have ok: "fat_ok fs" using assms(1) by (simp add: fat_sound_def)
  show ?thesis
  proof (cases "\<exists>c. 2 \<le> c \<and> c < clusters fs \<and> clval fs c = 0")
    case True
    from alloc_block12_spec[OF ok assms(2,3), unfolded if_P[OF True]] obtain c fs' where a: "alloc_block12 fs = Some (word_of_int c, fs')"
      "2 \<le> c" "c < clusters fs" "clval fs c = 0" "fat_upd fs fs' ((clval fs)(c := 0xfff))" by blast
    have "fat_sound fs'" by (rule fat_sound_upd[OF assms(1) a(5)]) (simp add: link_ok_zero)
    then show ?thesis using that[OF a(1)] a(2-5) by simp
  next
    case False
    from alloc_block12_spec[OF ok assms(2,3), unfolded if_not_P[OF False]] show ?thesis using that[of 0 fs] assms(1) by simp
  qed
qed

lemma alloc_then_free:
  assumes "fat_upd fs fs' ((clval fs)(c := 0xfff))" "clval fs c = 0" "c \<in> entries"
  shows "\<exists>fs''. free_block12 fs' (word_of_int c) = Some fs'' \<and> fat_upd fs fs'' (clval fs)"
proof -
  have "fat_ok fs'" using assms(1) by (simp add: table_upd_def)
  from free_block12_spec[OF this assms(3)] obtain fs'' where f: "free_block12 fs' (word_of_int c) = Some fs''"
    "fat_upd fs' fs'' ((clval fs')(c := 0))" by blast
  have "fat_upd fs fs'' (clval fs)" by (rule fat.upd_trans[OF assms(1) f(2)]) (use assms(1,2) in \<open>auto simp: table_upd_def\<close>)
  with f(1) show ?thesis by blast
qed

text \<open>What the step of a write from the cluster \<open>p\<close> returns.\<close>

definition write_step_result :: "fat12_fsdata \<Rightarrow> u16 \<Rightarrow> (int + u16) \<times> fat12_fsdata \<Rightarrow> bool" where
  "write_step_result fs p = (\<lambda>(r, fs'). case r of
       Inl e \<Rightarrow> e = - 41 \<and> fs' = fs
     | Inr n \<Rightarrow> clval fs' (uint p) = n \<and>
         (if 0xff8 \<le> clval fs (uint p) then clval fs (uint n) = 0 \<and> fat_upd fs fs' ((clval fs)(uint n := 0xfff, uint p := n)) else fs' = fs))"

lemma write_next_cluster_sound:
  assumes "fat_sound fs" "0 < spc fs" "clusters fs \<le> 3072" "2 \<le> uint p" "uint p < 3072"
  shows "\<exists>r fs'. write_next_cluster fs p = Some (r, fs') \<and> write_step_result fs p (r, fs') \<and> fat_sound fs'"
proof -
  have ok: "fat_ok fs" using assms(1) by (simp add: fat_sound_def)
  have e: "uint p \<in> entries" using assms(4,5) by (simp add: entries_def)
  obtain c fs1 where a: "alloc_block12 fs = Some (word_of_int c, fs1)" "fat_sound fs1"
    "c = 0 \<and> fs1 = fs \<or> 2 \<le> c \<and> c < clusters fs \<and> clval fs c = 0 \<and> fat_upd fs fs1 ((clval fs)(c := 0xfff))"
    by (rule alloc_block12_sound[OF assms(1-3)])
  have nx: "next_cluster_12 fs (uint p) = Some (clval fs (uint p))" by (rule next_cluster_chain[OF ok assms(4,5)])
  consider "\<not> 0xff8 \<le> clval fs (uint p)" | "0xff8 \<le> clval fs (uint p)" "c = 0" | "0xff8 \<le> clval fs (uint p)" "c \<noteq> 0" by blast
  then show ?thesis
  proof cases
    case 1
    then show ?thesis using nx assms(1) by (simp add: write_next_cluster_def write_step_result_def)
  next
    case 2
    then show ?thesis using nx a assms(1) by (simp add: write_next_cluster_def write_step_result_def)
  next
    case 3
    then have c: "2 \<le> c" "c < 3072" "clval fs c = 0" "fat_upd fs fs1 ((clval fs)(c := 0xfff))" using a(3) assms(3) by auto
    define n where "n = (ucast (word_of_int c :: u32) :: u16)"
    have n: "uint n = c" using c by (simp add: n_def unsigned_ucast_eq uint_word_of_int take_bit_eq_mod)
    have ok1: "fat_ok fs1" using a(2) by (simp add: fat_sound_def)
    obtain fs3 where w: "set_clval12 fs1 (uint p) n = Some fs3" "fat_upd fs1 fs3 ((clval fs1)(uint p := n AND 0xfff))" by (rule set_clval[OF ok1 e])
    have na: "n AND 0xfff = n" unfolding mask_numerals using n c
      by (simp add: take_bit_eq_mask[symmetric] word_uint_eq_iff unsigned_take_bit_eq take_bit_int_eq_self)
    have up: "fat_upd fs fs3 ((clval fs)(uint n := 0xfff, uint p := n))"
      by (rule fat.upd_trans[OF c(4) w(2)]) (use c(4) na n in \<open>auto simp: table_upd_def\<close>)
    have "clval fs1 c = 0xfff" using c by (simp add: table_upd_def entries_def)
    then have "link_ok fs1 n" "n \<noteq> 0xff7" using n c by (auto simp: link_ok_def word_less_def)
    then have "fat_sound fs3" using na by (intro fat_sound_upd[OF a(2) w(2)]) simp
    moreover have "n \<noteq> 0" using n c by (auto simp: word_uint_eq_iff)
    then have "write_next_cluster fs p = Some (Inr n, fs3)" using nx a(1) w(1) 3 by (simp add: write_next_cluster_def n_def)
    moreover have "clval fs3 (uint p) = n" using up e by (simp add: table_upd_def)
    then have "write_step_result fs p (Inr n, fs3)" using up 3(1) c(3) n by (simp add: write_step_result_def)
    ultimately show ?thesis by blast
  qed
qed

text \<open>C38: The table operations keep a table sound (every entry is marked bad, an end mark, or the number of an entry
  that is not bad) and do nothing but their work. Freeing clears exactly the entry of the block; allocating takes an entry
  that was free, or fails with the table unchanged, and freeing the block that was allocated restores every entry; the step
  of a write follows the link of its cluster with the table unchanged, or links a cluster that was free, or fails with the
  table unchanged.\<close>

theorem fat_operations_sound:
  assumes "fat_sound fs" "0 < spc fs" "clusters fs \<le> 3072" "2 \<le> uint p" "uint p < 3072"
  shows "(\<exists>fs'. free_block12 fs (word_of_int (uint p)) = Some fs' \<and> fat_upd fs fs' ((clval fs)(uint p := 0)) \<and> fat_sound fs') \<and>
    (\<exists>c fs'. alloc_block12 fs = Some (word_of_int c, fs') \<and> fat_sound fs' \<and>
      (c = 0 \<and> fs' = fs \<or>
       2 \<le> c \<and> c < clusters fs \<and> clval fs c = 0 \<and> fat_upd fs fs' ((clval fs)(c := 0xfff)) \<and>
       (\<exists>fs''. free_block12 fs' (word_of_int c) = Some fs'' \<and> fat_upd fs fs'' (clval fs)))) \<and>
    (\<exists>r fs'. write_next_cluster fs p = Some (r, fs') \<and> write_step_result fs p (r, fs') \<and> fat_sound fs')"
proof -
  have ok: "fat_ok fs" using assms(1) by (simp add: fat_sound_def)
  have e: "uint p \<in> entries" using assms(4,5) by (simp add: entries_def)
  obtain fs2 where f: "free_block12 fs (word_of_int (uint p)) = Some fs2" "fat_upd fs fs2 ((clval fs)(uint p := 0))"
    by (rule free_block12_spec[OF ok e])
  have "fat_sound fs2" by (rule fat_sound_upd[OF assms(1) f(2)]) (simp add: link_ok_zero)
  moreover obtain c fs1 where a: "alloc_block12 fs = Some (word_of_int c, fs1)" "fat_sound fs1"
    "c = 0 \<and> fs1 = fs \<or> 2 \<le> c \<and> c < clusters fs \<and> clval fs c = 0 \<and> fat_upd fs fs1 ((clval fs)(c := 0xfff))"
    by (rule alloc_block12_sound[OF assms(1-3)])
  moreover have "\<exists>fs''. free_block12 fs1 (word_of_int c) = Some fs'' \<and> fat_upd fs fs'' (clval fs)"
    if "2 \<le> c \<and> c < clusters fs \<and> clval fs c = 0 \<and> fat_upd fs fs1 ((clval fs)(c := 0xfff))"
    using alloc_then_free[of fs fs1 c] that assms(3) by (simp add: entries_def)
  ultimately show ?thesis using f write_next_cluster_sound[OF assms] by blast
qed

section \<open>Witnesses\<close>

text \<open>A volume with one file in the clusters 2, 3 and 4, and the entry of the file.\<close>

definition fat_example :: fat12_fsdata where
  "fat_example = \<lparr>bps = 512, spc = 1, resect = 1, nfat = 2, spt = 18, heads = 2, no_tracks = 80, total_sect = 2880,
     no_rootdir_ent = 224, no_sect_fat = 9,
     fat = [0xf0, 0xff, 0xff, 0x03, 0x40, 0x00, 0xff, 0x0f] @ replicate 4600 0\<rparr>"

definition dirent_example :: fat_dirent where
  "dirent_example = \<lparr>d_name = replicate 11 65, d_attrib = 0, d_res = replicate 10 0, d_time = 0, d_date = 0, start_cluster = 2, fsize = 1536\<rparr>"

lemma fat_example_ok: "fat_ok fat_example" "clusters fat_example = 2880" "spc fat_example = 1"
  by (simp_all add: fat_ok_def fat_example_def clusters_def c_div_nonneg)

lemma fat_example_bytes:
  "fat fat_example ! 3 = 3" "fat fat_example ! 4 = 0x40" "fat fat_example ! 5 = 0" "fat fat_example ! 6 = 0xff" "fat fat_example ! 7 = 0x0f"
  "fat fat_example ! 8 = 0"
  by (simp_all add: fat_example_def nth_append del: append_Cons)

lemma fat_example_clval:
  "clval fat_example 2 = 3" "clval fat_example 3 = 4" "clval fat_example 4 = 0xfff" "clval fat_example 5 = 0"
  using clval_bytes[OF fat_example_ok(1), of 1] clval_bytes[OF fat_example_ok(1), of 2] by (simp_all add: fat_example_bytes)

lemma fat_example_chain: "cl_chain (clval fat_example) 2 [2, 3, 4]"
  by (simp add: fat_example_clval)

theorem fat_entry_roundtrip_witness:
  "\<exists>fs'. set_clval12 fat_example 3 0xabc = Some fs' \<and> fat_ok fs' \<and> get_clval12 fs' 2 = Some 3"
  using fat_entry_roundtrip[of fat_example 3 2 "0xabc"] get_clval[of fat_example 2] fat_example_ok(1)
  by (simp add: entries_def fat_example_clval word_le_def)

theorem alloc_block12_correct_witness:
  "\<exists>c fs'. alloc_block12 fat_example = Some (word_of_int c, fs') \<and> 2 \<le> c \<and> clval fat_example c = 0 \<and> fat_upd fat_example fs' ((clval fat_example)(c := 0xfff))"
proof -
  have "\<exists>c. 2 \<le> c \<and> c < clusters fat_example \<and> clval fat_example c = 0"
    by (rule exI[of _ 5]) (simp add: fat_example_clval fat_example_ok)
  then show ?thesis using alloc_block12_correct[OF fat_example_ok(1)] by (simp only: fat_example_ok if_True) force
qed

theorem free_cluster_chain_correct_witness:
  "\<exists>fs'. free_cluster_chain fat_example 2 = Some fs' \<and> fat_upd fat_example fs' (\<lambda>d. if d \<in> {2, 3, 4} then 0 else clval fat_example d)"
  using free_cluster_chain_correct[OF fat_example_ok(1) fat_example_chain] by simp

theorem free_empty_file_clears_reserved_witness:
  "\<exists>fs'. free_cluster_chain fat_example 0 = Some fs' \<and> get_clval12 fs' 0 = Some 0 \<and> get_clval12 fs' 1 = Some 0"
  by (rule free_empty_file_clears_reserved[OF fat_example_ok(1)])

theorem delete_cluster_correct_witness:
  "\<exists>fs'. delete_cluster_from_chain dirent_example 3 fat_example = Some fs' \<and> cl_chain (clval fs') 2 [2, 4]"
proof -
  have "cl_chain (clval fat_example) (word_of_int (start_cluster dirent_example)) ([] @ 2 # 3 # [4])"
    using fat_example_chain by (simp add: dirent_example_def)
  from delete_cluster_correct[OF fat_example_ok(1) this] show ?thesis by (auto simp: dirent_example_def)
qed

theorem write_next_cluster_correct_witness:
  "\<exists>fs'. write_next_cluster fat_example 4 = Some (Inr 5, fs') \<and> cl_chain (clval fs') 2 [2, 3, 4, 5]"
proof -
  have "cl_chain (clval fat_example) 2 ([2, 3] @ [uint (4 :: u16)])" using fat_example_chain by simp
  note w = write_next_cluster_correct[OF fat_example_ok(1) _ _ this]
  have ex: "\<exists>n. 2 \<le> n \<and> n < clusters fat_example \<and> clval fat_example n = 0"
    by (rule exI[of _ 5]) (simp add: fat_example_clval fat_example_ok)
  have "0 < spc fat_example" "clusters fat_example \<le> 3072" by (simp_all add: fat_example_ok)
  from w[OF this, unfolded if_P[OF ex]] obtain n fs' where r: "write_next_cluster fat_example 4 = Some (Inr (word_of_int n), fs')"
    "2 \<le> n" "clval fat_example n = 0" "\<forall>d. 2 \<le> d \<and> d < n \<longrightarrow> clval fat_example d \<noteq> 0" "cl_chain (clval fs') 2 ([2, 3] @ [uint (4 :: u16), n])"
    by blast
  have "\<not> 5 < n" using r(4) fat_example_clval(4) by auto
  moreover have "n \<noteq> 2" "n \<noteq> 3" "n \<noteq> 4" using r(3) fat_example_clval by auto
  ultimately have "n = 5" using r(2) by linarith
  then show ?thesis using r(1,5) by auto
qed

theorem convert_name_roundtrip_witness:
  "\<exists>nm. convert_name [97, 46, 99] (replicate 11 0) = (1, nm) \<and> length nm = 11 \<and> entry_name nm = [65, 46, 67] \<and>
    \<not> readdir_skips (dirent_example\<lparr>d_name := nm\<rparr>)"
proof -
  obtain nm where "convert_name [97, 46, 99] (replicate 11 0) = (1, nm)" "length nm = 11" "entry_name nm = [65, 46, 67]"
    "readdir_skips (dirent_example\<lparr>d_name := nm\<rparr>) \<longleftrightarrow> word_of_int 97 = (0xE5 :: u8) \<or> d_attrib dirent_example = 0x0f"
    using convert_name_roundtrip[of "[97]" "[99]" "replicate 11 0"] by (auto simp: plain_chars_def file_name_def toupper_def)
  then show ?thesis by (simp add: dirent_example_def)
qed

text \<open>The same volume with cluster 6 marked bad.\<close>

definition fat_bad :: fat12_fsdata where
  "fat_bad = fat_example\<lparr>fat := [0xf0, 0xff, 0xff, 0x03, 0x40, 0x00, 0xff, 0x0f, 0x00, 0xf7, 0x0f] @ replicate 4597 0\<rparr>"

lemma fat_bad_ok: "fat_ok fat_bad" "clusters fat_bad = 2880" "spc fat_bad = 1"
  by (simp_all add: fat_ok_def fat_bad_def fat_example_def clusters_def c_div_nonneg)

lemma fat_bad_bytes:
  "fat fat_bad ! 3 = 3" "fat fat_bad ! 4 = 0x40" "fat fat_bad ! 5 = 0" "fat fat_bad ! 6 = 0xff" "fat fat_bad ! 7 = 0x0f"
  "fat fat_bad ! 8 = 0" "fat fat_bad ! 9 = 0xf7" "fat fat_bad ! 10 = 0x0f" "10 < n \<Longrightarrow> n < 4608 \<Longrightarrow> fat fat_bad ! n = 0"
  by (simp_all add: fat_bad_def nth_append del: append_Cons)

lemma fat_bad_clval:
  "clval fat_bad 2 = 3" "clval fat_bad 3 = 4" "clval fat_bad 4 = 0xfff" "clval fat_bad 5 = 0" "clval fat_bad 6 = 0xff7"
  "clval fat_bad 7 = 0" "7 < c \<Longrightarrow> c \<in> entries \<Longrightarrow> clval fat_bad c = 0"
proof -
  note b = clval_bytes[OF fat_bad_ok(1)]
  show "clval fat_bad 2 = 3" "clval fat_bad 3 = 4" "clval fat_bad 4 = 0xfff" "clval fat_bad 5 = 0" "clval fat_bad 6 = 0xff7"
    "clval fat_bad 7 = 0" using b[of 1] b[of 2] b[of 3] by (simp_all add: fat_bad_bytes)
  show "clval fat_bad c = 0" if "7 < c" "c \<in> entries"
    using that(2,1) by (cases rule: entry_cases) (simp_all only: b, simp_all add: fat_bad_bytes)
qed

lemma fat_bad_sound: "fat_sound fat_bad"
proof -
  have "clval fat_bad c = 0xff7 \<or> link_ok fat_bad (clval fat_bad c)" if "c \<in> entries" "2 \<le> c" for c
  proof -
    have "c = 2 \<or> c = 3 \<or> c = 4 \<or> c = 5 \<or> c = 6 \<or> c = 7 \<or> 7 < c" using that(2) by linarith
    then show ?thesis using fat_bad_clval that(1) by (elim disjE) (simp_all add: link_ok_def word_less_def word_le_def)
  qed
  then show ?thesis using fat_bad_ok(1) by (simp add: fat_sound_def)
qed

theorem free_cluster_chain_returns_witness:
  "\<exists>fs'. free_cluster_chain fat_bad 2 = Some fs' \<and> fat_sound fs' \<and> clval fs' 2 = 0 \<and> clval fs' 6 = 0xff7"
proof -
  have "link_ok fat_bad 2" by (simp add: link_ok_def word_less_def fat_bad_clval)
  from free_cluster_chain_returns[OF fat_bad_sound this] show ?thesis
    by (auto simp: some_freed_def entries_def fat_bad_clval word_less_def)
qed

theorem time_stamp_roundtrip_witness:
  "\<exists>d'. mark_time_date 1000000001 dirent_example = Some d' \<and>
     entry_date d' = \<lparr>seconds = 40, minutes = 46, hours = 1, date = 9, month = 9, year = 2001\<rparr>"
proof -
  let ?dt = "\<lparr>seconds = 41, minutes = 46, hours = 1, date = 9, month = 9, year = 2001\<rparr>"
  have "secs_to_date 1000000001 = Some ?dt" by code_simp
  from time_stamp_roundtrip[OF this, of dirent_example] show ?thesis by (simp add: stamp_range_def)
qed

theorem fat_operations_sound_witness:
  "(\<exists>fs'. free_block12 fat_bad 4 = Some fs' \<and> fat_upd fat_bad fs' ((clval fat_bad)(4 := 0)) \<and> fat_sound fs') \<and>
   (\<exists>r fs'. write_next_cluster fat_bad 4 = Some (r, fs') \<and> write_step_result fat_bad 4 (r, fs') \<and> fat_sound fs')"
proof -
  have "0 < spc fat_bad" "clusters fat_bad \<le> 3072" by (simp_all add: fat_bad_ok)
  from fat_operations_sound[OF fat_bad_sound this, of 4] show ?thesis by simp
qed

end
