(* ===== verification/Buffer_Cache.thy ===== *)
theory Buffer_Cache
  imports Dlist_Heap
begin

text \<open>
  The buffer cache (\<^verbatim>\<open>src/base/fs.c\<close>, \<^verbatim>\<open>src/include/buffers.h\<close>): the array of buffer headers with the free list, the hash
  chains and the write queue threaded through it.  A header is named by its index.  The operations run under
  \<^verbatim>\<open>buffer_cache_lock\<close>; a call of \<^verbatim>\<open>event_sleep\<close> ends the modelled call with the event it waits for, and
  \<^verbatim>\<open>event_wakeup\<close> is recorded in \<open>woken\<close>.  A request to the floppy thread is a parameter: it waits for the controller, and the
  buffer is busy meanwhile, so that no other thread changes it.

  \<open>cache_ok\<close> is the invariant of the lists and \<open>block_data\<close> the abstraction: a disk as a function from blocks to contents.  Writing,
  reading and flushing are shown to be update, lookup and a step without effect on this function.
\<close>

unbundle bit_operations_syntax

section \<open>State\<close>

record buffer_header =
  blockno :: u32
  hash_q_next :: "nat option"
  hash_q_prev :: "nat option"
  free_list_next :: "nat option"
  free_list_prev :: "nat option"
  write_q_next :: "nat option"
  buff :: "u8 list"
  device :: int
  flags :: u8
  io_status :: int

datatype cache_event = Brelse_event | Release_event nat | Sync_event

record 'd cache =
  buffers :: "nat \<Rightarrow> buffer_header"
  hash_queue_buffers :: "nat \<Rightarrow> nat option"
  free_buff_list_head :: "nat option"
  free_buff_list_tail :: "nat option"
  delayed_write_q_head :: "nat option"
  delayed_write_q_tail :: "nat option"
  woken :: "cache_event list"
  floppy :: 'd

definition MAX_BUFFERS :: nat where "MAX_BUFFERS = 30"

definition BUFF_HASHNUMBER :: nat where "BUFF_HASHNUMBER = 7"

definition BUFF_BUSY :: u8 where "BUFF_BUSY = 0x01"

definition BUFF_DATAVALID :: u8 where "BUFF_DATAVALID = 0x02"

definition BUFF_WRITEDELAY :: u8 where "BUFF_WRITEDELAY = 0x04"

definition set_buf :: "nat \<Rightarrow> (buffer_header \<Rightarrow> buffer_header) \<Rightarrow> 'd cache \<Rightarrow> 'd cache" where
  "set_buf b f s = s\<lparr>buffers := (buffers s)(b := f (buffers s b))\<rparr>"

definition event_log :: "cache_event list \<Rightarrow> 'd cache \<Rightarrow> 'd cache" where
  "event_log es s = s\<lparr>woken := woken s @ es\<rparr>"

section \<open>Lists\<close>

definition init_buffer :: "nat \<Rightarrow> buffer_header \<Rightarrow> buffer_header" where
  "init_buffer i b = b\<lparr>hash_q_prev := None, hash_q_next := None,
     free_list_next := if i < MAX_BUFFERS - 1 then Some (i + 1) else None,
     free_list_prev := if i > 0 then Some (i - 1) else None, write_q_next := None, flags := 0\<rparr>"

text \<open>The array of chains as a function; all of its entries are cleared.\<close>

definition initialize_buffer_cache :: "'d cache \<Rightarrow> 'd cache" where
  "initialize_buffer_cache s = s\<lparr>hash_queue_buffers := (\<lambda>_. None),
     buffers := (\<lambda>i. if i < MAX_BUFFERS then init_buffer i (buffers s i) else buffers s i),
     free_buff_list_head := Some 0, free_buff_list_tail := Some (MAX_BUFFERS - 1),
     delayed_write_q_head := None, delayed_write_q_tail := None\<rparr>"

definition enqueue_to_hashlist :: "nat \<Rightarrow> nat \<Rightarrow> 'd cache \<Rightarrow> 'd cache" where
  "enqueue_to_hashlist hash b s =
     (let old = hash_queue_buffers s hash;
          s = set_buf b (\<lambda>x. x\<lparr>hash_q_next := old, hash_q_prev := None\<rparr>) s;
          s = (case old of None \<Rightarrow> s | Some c \<Rightarrow> set_buf c (\<lambda>x. x\<lparr>hash_q_prev := Some b\<rparr>) s)
      in s\<lparr>hash_queue_buffers := (hash_queue_buffers s)(hash := Some b)\<rparr>)"

definition delete_from_hashlist :: "nat \<Rightarrow> nat \<Rightarrow> 'd cache \<Rightarrow> 'd cache" where
  "delete_from_hashlist hash b s =
     (let n = hash_q_next (buffers s b); p = hash_q_prev (buffers s b) in
      if p = None \<and> n = None then s
      else
        let s = (case p of Some p \<Rightarrow> set_buf p (\<lambda>x. x\<lparr>hash_q_next := n\<rparr>) s
                 | None \<Rightarrow> s\<lparr>hash_queue_buffers := (hash_queue_buffers s)(hash := n)\<rparr>)
        in case n of Some n \<Rightarrow> set_buf n (\<lambda>x. x\<lparr>hash_q_prev := p\<rparr>) s | None \<Rightarrow> s)"

text \<open>A store through a null pointer has no defined result.\<close>

definition delete_from_freelist :: "nat \<Rightarrow> 'd cache \<Rightarrow> 'd cache option" where
  "delete_from_freelist b s =
     (let n = free_list_next (buffers s b); p = free_list_prev (buffers s b) in
      Option.bind
        (if free_buff_list_head s \<noteq> Some b then map_option (\<lambda>p. set_buf p (\<lambda>x. x\<lparr>free_list_next := n\<rparr>) s) p
         else Some (s\<lparr>free_buff_list_head := n\<rparr>)) (\<lambda>s.
      if free_buff_list_tail s \<noteq> Some b then map_option (\<lambda>n. set_buf n (\<lambda>x. x\<lparr>free_list_prev := p\<rparr>) s) n
      else Some (s\<lparr>free_buff_list_tail := p\<rparr>)))"

definition append_to_freelist :: "nat \<Rightarrow> 'd cache \<Rightarrow> 'd cache" where
  "append_to_freelist b s =
     (let tl = free_buff_list_tail s;
          s = set_buf b (\<lambda>x. x\<lparr>free_list_next := None, free_list_prev := tl\<rparr>) s;
          s = (case tl of Some t \<Rightarrow> set_buf t (\<lambda>x. x\<lparr>free_list_next := Some b\<rparr>) s | None \<Rightarrow> s\<lparr>free_buff_list_head := Some b\<rparr>)
      in s\<lparr>free_buff_list_tail := Some b\<rparr>)"

definition prepend_to_freelist :: "nat \<Rightarrow> 'd cache \<Rightarrow> 'd cache" where
  "prepend_to_freelist b s =
     (let hd = free_buff_list_head s;
          s = set_buf b (\<lambda>x. x\<lparr>free_list_next := hd, free_list_prev := None\<rparr>) s;
          s = (case hd of Some h \<Rightarrow> set_buf h (\<lambda>x. x\<lparr>free_list_prev := Some b\<rparr>) s | None \<Rightarrow> s)
      in s\<lparr>free_buff_list_head := Some b\<rparr>)"

definition append_to_write_queue :: "nat \<Rightarrow> 'd cache \<Rightarrow> 'd cache" where
  "append_to_write_queue b s =
     (let s = set_buf b (\<lambda>x. x\<lparr>write_q_next := None\<rparr>) s in
      case delayed_write_q_tail s of
        Some t \<Rightarrow> set_buf t (\<lambda>x. x\<lparr>write_q_next := Some b\<rparr>) s
      | None \<Rightarrow> s\<lparr>delayed_write_q_head := Some b, delayed_write_q_tail := Some b\<rparr>)"

section \<open>Buffers\<close>

definition hash_of :: "u32 \<Rightarrow> nat" where
  "hash_of blkno = unat blkno mod BUFF_HASHNUMBER"

partial_function (option) hash_search :: "(nat \<Rightarrow> buffer_header) \<Rightarrow> int \<Rightarrow> u32 \<Rightarrow> nat option \<Rightarrow> nat option option" where
  "hash_search bs dev blk p =
     (if p = None then Some None
      else let b = the p in
        if device (bs b) = dev \<and> blockno (bs b) = blk then Some (Some b) else hash_search bs dev blk (hash_q_next (bs b)))"

definition reassign :: "int \<Rightarrow> u32 \<Rightarrow> buffer_header \<Rightarrow> buffer_header" where
  "reassign dev blk x = x\<lparr>blockno := blk, device := dev, flags := (flags x OR BUFF_BUSY) AND NOT BUFF_DATAVALID\<rparr>"

text \<open>One round of the loop of \<^verbatim>\<open>getblk\<close> under \<^verbatim>\<open>buffer_cache_lock\<close>: a buffer for the caller, the event on which
  it goes to sleep, or another round.\<close>

datatype getblk_result = Got nat | Sleep cache_event | Again

definition getblk_round :: "int \<Rightarrow> u32 \<Rightarrow> 'd cache \<Rightarrow> (getblk_result \<times> 'd cache) option" where
  "getblk_round dev blk s =
     Option.bind (hash_search (buffers s) dev blk (hash_queue_buffers s (hash_of blk))) (\<lambda>found.
     case found of
       Some b \<Rightarrow>
         if flags (buffers s b) AND BUFF_BUSY \<noteq> 0 then Some (Sleep (Release_event b), s)
         else map_option (Pair (Got b)) (delete_from_freelist b (set_buf b (\<lambda>x. x\<lparr>flags := flags x OR BUFF_BUSY\<rparr>) s))
     | None \<Rightarrow>
         case free_buff_list_head s of
           None \<Rightarrow> Some (Sleep Brelse_event, event_log [Sync_event] s)
         | Some b \<Rightarrow>
             map_option (\<lambda>s.
               if flags (buffers s b) AND BUFF_WRITEDELAY \<noteq> 0 then (Again, append_to_write_queue b s)
               else
                 let s = delete_from_hashlist (hash_of (blockno (buffers s b))) b s;
                     s = set_buf b (reassign dev blk) s
                 in (Got b, enqueue_to_hashlist (hash_of blk) b s))
             (delete_from_freelist b s))"

partial_function (option) getblk :: "int \<Rightarrow> u32 \<Rightarrow> 'd cache \<Rightarrow> (getblk_result \<times> 'd cache) option" where
  "getblk dev blk s =
     Option.bind (getblk_round dev blk s) (\<lambda>r. if fst r = Again then getblk dev blk (snd r) else Some r)"

definition brelease :: "nat \<Rightarrow> 'd cache \<Rightarrow> 'd cache" where
  "brelease b s =
     (let s = (if flags (buffers s b) AND BUFF_DATAVALID \<noteq> 0 then append_to_freelist b s else prepend_to_freelist b s);
          s = set_buf b (\<lambda>x. x\<lparr>flags := flags x AND NOT BUFF_BUSY\<rparr>) s
      in event_log [Brelse_event, Release_event b] s)"

text \<open>The floppy driver is the parameter \<open>rd\<close>, which gives the status of a read request and the contents of
  the buffer after it, and \<open>wr\<close>, which gives the status of a write request and the new state of the device.\<close>

definition bread :: "('d \<Rightarrow> int \<Rightarrow> u32 \<Rightarrow> int \<times> u8 list) \<Rightarrow> int \<Rightarrow> u32 \<Rightarrow> 'd cache \<Rightarrow> (getblk_result \<times> 'd cache) option" where
  "bread rd dev blk s =
     map_option (\<lambda>(r, s).
       case r of
         Got b \<Rightarrow>
           if flags (buffers s b) AND BUFF_DATAVALID \<noteq> 0 then (r, s)
           else (r, case rd (floppy s) dev blk of (status, data) \<Rightarrow>
             set_buf b (\<lambda>x. if status \<ge> 0 then x\<lparr>buff := data, flags := flags x OR BUFF_DATAVALID, io_status := 0\<rparr>
                            else x\<lparr>buff := data, io_status := status\<rparr>) s)
       | _ \<Rightarrow> (r, s)) (getblk dev blk s)"

text \<open>The result is \<^verbatim>\<open>EDISK_READ\<close>, or 1 with the data, or the event on which the caller sleeps.\<close>

definition read_block :: "('d \<Rightarrow> int \<Rightarrow> u32 \<Rightarrow> int \<times> u8 list) \<Rightarrow> int \<Rightarrow> u32 \<Rightarrow> 'd cache
    \<Rightarrow> ((cache_event + int \<times> u8 list option) \<times> 'd cache) option" where
  "read_block rd dev blk s =
     Option.bind (bread rd dev blk s) (\<lambda>(r, s).
       case r of
         Got b \<Rightarrow> let h = buffers s b in
           Some (Inr (if io_status h \<noteq> 0 then (- 33, None) else (1, Some (buff h))), brelease b s)
       | Sleep e \<Rightarrow> Some (Inl e, s)
       | Again \<Rightarrow> None)"

definition write_block :: "int \<Rightarrow> u32 \<Rightarrow> u8 list \<Rightarrow> 'd cache \<Rightarrow> ((cache_event + int) \<times> 'd cache) option" where
  "write_block dev blk data s =
     Option.bind (getblk dev blk s) (\<lambda>(r, s).
       case r of
         Got b \<Rightarrow> Some (Inr 1, brelease b
           (set_buf b (\<lambda>x. x\<lparr>buff := data, flags := flags x OR BUFF_WRITEDELAY OR BUFF_DATAVALID\<rparr>) s))
       | Sleep e \<Rightarrow> Some (Inl e, s)
       | Again \<Rightarrow> None)"

text \<open>\<^verbatim>\<open>flush_buffers\<close>: writing one buffer, the buffers of the write queue, and all buffers that are marked.\<close>

definition flush_one :: "('d \<Rightarrow> int \<Rightarrow> u32 \<Rightarrow> u8 list \<Rightarrow> int \<times> 'd) \<Rightarrow> nat \<Rightarrow> 'd cache \<Rightarrow> (cache_event option \<times> 'd cache) option" where
  "flush_one wr i s =
     Option.bind (getblk (device (buffers s i)) (blockno (buffers s i)) s) (\<lambda>(r, s).
       case r of
         Got b \<Rightarrow> let h = buffers s b; d = snd (wr (floppy s) (device h) (blockno h) (buff h)) in
           Some (None, brelease b (set_buf b (\<lambda>x. x\<lparr>flags := flags x AND NOT BUFF_WRITEDELAY\<rparr>) (s\<lparr>floppy := d\<rparr>)))
       | Sleep e \<Rightarrow> Some (Some e, s)
       | Again \<Rightarrow> None)"

partial_function (option) flush_queue :: "('d \<Rightarrow> int \<Rightarrow> u32 \<Rightarrow> u8 list \<Rightarrow> int \<times> 'd) \<Rightarrow> nat option \<Rightarrow> 'd cache
    \<Rightarrow> (cache_event option \<times> 'd cache) option" where
  "flush_queue wr p s =
     (if p = None then Some (None, s)
      else let b1 = the p in Option.bind (flush_one wr b1 s) (\<lambda>r.
        if fst r \<noteq> None then Some r
        else flush_queue wr (write_q_next (buffers (snd r) b1)) (set_buf b1 (\<lambda>x. x\<lparr>write_q_next := None\<rparr>) (snd r))))"

primrec flush_marked :: "('d \<Rightarrow> int \<Rightarrow> u32 \<Rightarrow> u8 list \<Rightarrow> int \<times> 'd) \<Rightarrow> nat list \<Rightarrow> 'd cache \<Rightarrow> (cache_event option \<times> 'd cache) option" where
  "flush_marked wr [] s = Some (None, s)"
| "flush_marked wr (i # is) s =
     (if flags (buffers s i) AND BUFF_WRITEDELAY \<noteq> 0
      then Option.bind (flush_one wr i s) (\<lambda>(e, s). if e \<noteq> None then Some (e, s) else flush_marked wr is s)
      else flush_marked wr is s)"

definition flush_buffers :: "('d \<Rightarrow> int \<Rightarrow> u32 \<Rightarrow> u8 list \<Rightarrow> int \<times> 'd) \<Rightarrow> 'd cache \<Rightarrow> (cache_event option \<times> 'd cache) option" where
  "flush_buffers wr s =
     Option.bind (flush_queue wr (delayed_write_q_head s) (s\<lparr>delayed_write_q_head := None, delayed_write_q_tail := None\<rparr>)) (\<lambda>(e, s).
     if e \<noteq> None then Some (e, s) else flush_marked wr [0..<MAX_BUFFERS] s)"


section \<open>Flags\<close>

abbreviation busy :: "buffer_header \<Rightarrow> bool" where
  "busy h \<equiv> flags h AND BUFF_BUSY \<noteq> 0"

abbreviation valid :: "buffer_header \<Rightarrow> bool" where
  "valid h \<equiv> flags h AND BUFF_DATAVALID \<noteq> 0"

abbreviation delayed :: "buffer_header \<Rightarrow> bool" where
  "delayed h \<equiv> flags h AND BUFF_WRITEDELAY \<noteq> 0"

lemma flag_masks: "BUFF_BUSY = push_bit 0 1" "BUFF_DATAVALID = push_bit 1 1" "BUFF_WRITEDELAY = push_bit 2 1"
  by (simp_all add: BUFF_BUSY_def BUFF_DATAVALID_def BUFF_WRITEDELAY_def)

lemma flag_test: "x AND push_bit n 1 = 0 \<longleftrightarrow> \<not> bit (x :: u8) n"
proof
  assume "x AND push_bit n 1 = 0"
  then have "\<not> bit (x AND push_bit n 1) n" by simp
  then show "\<not> bit x n" by (auto simp: bit_simps dest: bit_imp_le_length)
next
  assume "\<not> bit x n"
  then show "x AND push_bit n 1 = 0" by (intro bit_word_eqI) (auto simp: bit_simps)
qed

lemma flag_tests [simp]:
  "f AND BUFF_BUSY = 0 \<longleftrightarrow> \<not> bit f 0" "f AND BUFF_DATAVALID = 0 \<longleftrightarrow> \<not> bit f 1" "f AND BUFF_WRITEDELAY = 0 \<longleftrightarrow> \<not> bit f 2"
  unfolding flag_masks by (rule flag_test)+

lemma flag_bit: "m < 8 \<Longrightarrow> bit (push_bit m 1 :: u8) n \<longleftrightarrow> n = m"
  by (auto simp: bit_simps)

lemma flag_bits [simp]:
  "bit BUFF_BUSY n \<longleftrightarrow> n = 0" "bit BUFF_DATAVALID n \<longleftrightarrow> n = 1" "bit BUFF_WRITEDELAY n \<longleftrightarrow> n = 2"
  unfolding flag_masks by (rule flag_bit; simp)+

lemma flag_updates [simp]:
  "bit (f OR g :: u8) n \<longleftrightarrow> bit f n \<or> bit g n" "n < 8 \<Longrightarrow> bit (f AND NOT g :: u8) n \<longleftrightarrow> bit f n \<and> \<not> bit g n"
  by (simp_all add: bit_simps)

lemma flag_nonzero [simp]: "BUFF_BUSY \<noteq> 0" "BUFF_DATAVALID \<noteq> 0" "BUFF_WRITEDELAY \<noteq> 0"
  by (simp_all add: BUFF_BUSY_def BUFF_DATAVALID_def BUFF_WRITEDELAY_def)

section \<open>Links\<close>

abbreviation fnext :: "'d cache \<Rightarrow> nat \<Rightarrow> nat option" where "fnext s \<equiv> \<lambda>b. free_list_next (buffers s b)"

abbreviation fprev :: "'d cache \<Rightarrow> nat \<Rightarrow> nat option" where "fprev s \<equiv> \<lambda>b. free_list_prev (buffers s b)"

abbreviation hnext :: "'d cache \<Rightarrow> nat \<Rightarrow> nat option" where "hnext s \<equiv> \<lambda>b. hash_q_next (buffers s b)"

abbreviation hprev :: "'d cache \<Rightarrow> nat \<Rightarrow> nat option" where "hprev s \<equiv> \<lambda>b. hash_q_prev (buffers s b)"

abbreviation free_list :: "'d cache \<Rightarrow> nat list \<Rightarrow> bool" where
  "free_list s F \<equiv> dll (fnext s) (fprev s) (free_buff_list_head s) F (free_buff_list_tail s)"

definition hash_lists :: "'d cache \<Rightarrow> (nat \<Rightarrow> nat list) \<Rightarrow> bool" where
  "hash_lists s H \<longleftrightarrow> (\<exists>qt. dl_queues (hnext s) (hprev s) (hash_queue_buffers s) qt H)"

text \<open>What the operations on one family of lists leave alone.\<close>

definition bdata :: "buffer_header \<Rightarrow> u32 \<times> u8 list \<times> int \<times> u8 \<times> int" where
  "bdata h = (blockno h, buff h, device h, flags h, io_status h)"

definition rest_same :: "'d cache \<Rightarrow> 'd cache \<Rightarrow> bool" where
  "rest_same s s' \<longleftrightarrow> delayed_write_q_head s' = delayed_write_q_head s \<and> delayed_write_q_tail s' = delayed_write_q_tail s \<and>
     floppy s' = floppy s"

definition free_frame :: "'d cache \<Rightarrow> 'd cache \<Rightarrow> bool" where
  "free_frame s s' \<longleftrightarrow> (\<forall>c. bdata (buffers s' c) = bdata (buffers s c) \<and> write_q_next (buffers s' c) = write_q_next (buffers s c)) \<and>
     hnext s' = hnext s \<and> hprev s' = hprev s \<and> hash_queue_buffers s' = hash_queue_buffers s \<and> rest_same s s'"

definition hash_frame :: "'d cache \<Rightarrow> 'd cache \<Rightarrow> bool" where
  "hash_frame s s' \<longleftrightarrow> (\<forall>c. bdata (buffers s' c) = bdata (buffers s c) \<and> write_q_next (buffers s' c) = write_q_next (buffers s c)) \<and>
     fnext s' = fnext s \<and> fprev s' = fprev s \<and> free_buff_list_head s' = free_buff_list_head s \<and>
     free_buff_list_tail s' = free_buff_list_tail s \<and> rest_same s s'"

lemmas frame_defs = free_frame_def hash_frame_def rest_same_def bdata_def set_buf_def

text \<open>The first and the last element of a list are told by their links.\<close>

lemma dll_ends:
  assumes "dll nx pv h xs l" "b \<in> set xs"
  shows "h = Some b \<longleftrightarrow> pv b = None" "l = Some b \<longleftrightarrow> nx b = None"
proof -
  from assms(2) obtain as bs where xs: "xs = as @ b # bs" by (auto simp: in_set_conv_decomp)
  with assms(1) obtain m where d: "b \<notin> set as" "b \<notin> set bs" "dls nx pv None h as m (Some b)" "pv b = m" "dls nx pv (Some b) (nx b) bs l None"
    by (auto simp: dll_def dls_append)
  show "h = Some b \<longleftrightarrow> pv b = None" using dls_head[OF d(3)] dls_last[OF d(3)] d(1,4) hd_in_set[of as] by (auto split: if_splits)
  show "l = Some b \<longleftrightarrow> nx b = None" using dls_head[OF d(5)] dls_last[OF d(5)] d(2) last_in_set[of bs] by (auto split: if_splits)
qed

lemma dll_neighbours:
  assumes "dll nx pv h xs l" "b \<in> set xs"
  shows "pv b \<noteq> Some b" "nx b \<noteq> Some b" "pv b = Some c \<Longrightarrow> nx b \<noteq> Some c"
    "pv b = Some c \<Longrightarrow> c \<in> set xs" "nx b = Some c \<Longrightarrow> c \<in> set xs"
proof -
  from assms(2) obtain as bs where xs: "xs = as @ b # bs" by (auto simp: in_set_conv_decomp)
  with assms(1) obtain m where d: "b \<notin> set as" "b \<notin> set bs" "set as \<inter> set bs = {}" "dls nx pv None h as m (Some b)" "pv b = m" "dls nx pv (Some b) (nx b) bs l None"
    by (auto simp: dll_def dls_append)
  have p: "pv b = (if as = [] then None else Some (last as))" using dls_last[OF d(4)] d(5) by simp
  have n: "nx b = (if bs = [] then None else Some (hd bs))" using dls_head[OF d(6)] .
  show "pv b \<noteq> Some b" "nx b \<noteq> Some b" using p n d(1,2) last_in_set[of as] hd_in_set[of bs] by (auto split: if_splits)
  have "c \<in> set as" if "pv b = Some c" using that p last_in_set[of as] by (auto split: if_splits)
  moreover have "c \<in> set bs" if "nx b = Some c" using that n hd_in_set[of bs] by (auto split: if_splits)
  ultimately show "pv b = Some c \<Longrightarrow> nx b \<noteq> Some c" "pv b = Some c \<Longrightarrow> c \<in> set xs" "nx b = Some c \<Longrightarrow> c \<in> set xs"
    using d(3) xs by auto
qed

lemma delete_from_freelist_ok:
  assumes "free_list s F" "b \<in> set F"
  obtains s' where "delete_from_freelist b s = Some s'" "free_list s' (remove1 b F)" "free_frame s s'"
proof -
  let ?s1 = "if free_buff_list_head s \<noteq> Some b then set_buf (the (fprev s b)) (\<lambda>x. x\<lparr>free_list_next := fnext s b\<rparr>) s
    else s\<lparr>free_buff_list_head := fnext s b\<rparr>"
  define s' where "s' = (if free_buff_list_tail s \<noteq> Some b then set_buf (the (fnext s b)) (\<lambda>x. x\<lparr>free_list_prev := fprev s b\<rparr>) ?s1
    else ?s1\<lparr>free_buff_list_tail := fprev s b\<rparr>)"
  note e = dll_ends[OF assms] and nb = dll_neighbours[OF assms]
  have d: "delete_from_freelist b s = Some s'"
    using e by (auto simp: delete_from_freelist_def s'_def Let_def set_buf_def)
  have l: "fnext s' = next_unlink (fnext s) (fprev s) b" "fprev s' = prev_unlink (fnext s) (fprev s) b"
    using e nb by (auto simp: s'_def next_unlink_def prev_unlink_def set_buf_def fun_eq_iff split: option.splits)
  have h: "free_buff_list_head s' = (if fprev s b = None then fnext s b else free_buff_list_head s)"
    "free_buff_list_tail s' = (if fnext s b = None then fprev s b else free_buff_list_tail s)"
    using e by (auto simp: s'_def set_buf_def)
  have "free_list s' (remove1 b F)" unfolding l h by (rule dll_unlink[OF assms]) (rule refl)+
  moreover have "free_frame s s'" by (auto simp: s'_def frame_defs fun_eq_iff)
  ultimately show ?thesis using d that by blast
qed

lemma append_to_freelist_ok:
  assumes "free_list s F" "b \<notin> set F"
  shows "free_list (append_to_freelist b s) (F @ [b])" "free_frame s (append_to_freelist b s)"
proof -
  let ?s = "append_to_freelist b s"
  have t: "free_buff_list_tail s \<noteq> Some b" using dll_tail[OF assms(1)] assms(2) last_in_set[of F] by (auto split: if_splits)
  have l: "fnext ?s = next_append (fnext s) (free_buff_list_tail s) b" "fprev ?s = (fprev s)(b := free_buff_list_tail s)"
    "free_buff_list_head ?s = (if free_buff_list_tail s = None then Some b else free_buff_list_head s)" "free_buff_list_tail ?s = Some b"
    using t by (auto simp: append_to_freelist_def Let_def next_append_def set_buf_def fun_eq_iff split: option.splits)
  show "free_list ?s (F @ [b])" unfolding l by (rule dll_append[OF assms])
  show "free_frame s ?s" by (auto simp: append_to_freelist_def Let_def frame_defs fun_eq_iff split: option.splits)
qed

text \<open>In front of an empty list the tail is not set.\<close>

lemma prepend_to_freelist_ok:
  assumes "free_list s F" "b \<notin> set F" "F \<noteq> []"
  shows "free_list (prepend_to_freelist b s) (b # F)" "free_frame s (prepend_to_freelist b s)"
proof -
  let ?s = "prepend_to_freelist b s"
  have t: "free_buff_list_head s \<noteq> Some b" "free_buff_list_head s \<noteq> None" using dll_head[OF assms(1)] assms(2,3) hd_in_set[of F] by auto
  have l: "fnext ?s = (fnext s)(b := free_buff_list_head s)" "fprev ?s = prev_push (fprev s) (free_buff_list_head s) b"
    "free_buff_list_head ?s = Some b" "free_buff_list_tail ?s = (if free_buff_list_head s = None then Some b else free_buff_list_tail s)"
    using t by (auto simp: prepend_to_freelist_def Let_def prev_push_def set_buf_def fun_eq_iff split: option.splits)
  show "free_list ?s (b # F)" unfolding l by (rule dll_push[OF assms(1,2)])
  show "free_frame s ?s" by (auto simp: prepend_to_freelist_def Let_def frame_defs fun_eq_iff split: option.splits)
qed

text \<open>A buffer that is alone in its chain is not taken out of it.\<close>

lemma delete_from_hashlist_ok:
  assumes "hash_lists s H" "b \<in> set (H h)" "H h \<noteq> [b]"
  shows "hash_lists (delete_from_hashlist h b s) (H(h := remove1 b (H h)))" "hash_frame s (delete_from_hashlist h b s)"
    "c \<notin> set (H h) \<Longrightarrow> hnext (delete_from_hashlist h b s) c = hnext s c \<and> hprev (delete_from_hashlist h b s) c = hprev s c"
proof -
  obtain qt where q: "dl_queues (hnext s) (hprev s) (hash_queue_buffers s) qt H" using assms(1) by (auto simp: hash_lists_def)
  note D = dl_queuesD[OF q, of h]
  let ?s = "delete_from_hashlist h b s"
  note nb = dll_neighbours[OF D assms(2)]
  have ne: "\<not> (hprev s b = None \<and> hnext s b = None)"
  proof
    assume a: "hprev s b = None \<and> hnext s b = None"
    then have "hash_queue_buffers s h = Some b" using dll_ends[OF D assms(2)] by simp
    then obtain ys where "H h = b # ys" using dll_head[OF D] by (cases "H h") auto
    then have "H h = [b]" using D a by (cases ys) (auto simp: dll_def)
    then show False using assms(3) by simp
  qed
  have l: "hnext ?s = next_unlink (hnext s) (hprev s) b" "hprev ?s = prev_unlink (hnext s) (hprev s) b"
    "hash_queue_buffers ?s = (if hprev s b = None then (hash_queue_buffers s)(h := hnext s b) else hash_queue_buffers s)"
    using ne nb by (auto simp: delete_from_hashlist_def Let_def next_unlink_def prev_unlink_def set_buf_def fun_eq_iff split: option.splits)
  have "dl_queues (hnext ?s) (hprev ?s) (hash_queue_buffers ?s) (if hnext s b = None then qt(h := hprev s b) else qt) (H(h := remove1 b (H h)))"
    unfolding l by (rule dl_queues_unlink[OF q assms(2)]) (rule refl)+
  then show "hash_lists ?s (H(h := remove1 b (H h)))" unfolding hash_lists_def by blast
  show "hash_frame s ?s" by (auto simp: delete_from_hashlist_def Let_def frame_defs fun_eq_iff split: option.splits)
  show "c \<notin> set (H h) \<Longrightarrow> hnext ?s c = hnext s c \<and> hprev ?s c = hprev s c"
    using fun_cong[OF l(1), of c] fun_cong[OF l(2), of c] nb(4,5) by (auto simp: next_unlink_def prev_unlink_def split: option.splits)
qed

lemma delete_unhashed: "hnext s b = None \<Longrightarrow> hprev s b = None \<Longrightarrow> delete_from_hashlist h b s = s"
  by (simp add: delete_from_hashlist_def)

lemma enqueue_to_hashlist_ok:
  assumes "hash_lists s H" "\<And>g. b \<notin> set (H g)"
  shows "hash_lists (enqueue_to_hashlist h b s) (H(h := b # H h))" "hash_frame s (enqueue_to_hashlist h b s)"
    "c \<notin> set (H h) \<Longrightarrow> c \<noteq> b \<Longrightarrow> hnext (enqueue_to_hashlist h b s) c = hnext s c \<and> hprev (enqueue_to_hashlist h b s) c = hprev s c"
proof -
  obtain qt where q: "dl_queues (hnext s) (hprev s) (hash_queue_buffers s) qt H" using assms(1) by (auto simp: hash_lists_def)
  let ?s = "enqueue_to_hashlist h b s"
  have t: "hash_queue_buffers s h \<noteq> Some b" using dll_head[OF dl_queuesD[OF q, of h]] assms(2)[of h] hd_in_set[of "H h"] by (auto split: if_splits)
  have l: "hnext ?s = (hnext s)(b := hash_queue_buffers s h)" "hprev ?s = prev_push (hprev s) (hash_queue_buffers s h) b"
    "hash_queue_buffers ?s = (hash_queue_buffers s)(h := Some b)"
    using t by (auto simp: enqueue_to_hashlist_def Let_def prev_push_def set_buf_def fun_eq_iff split: option.splits)
  have "dl_queues (hnext ?s) (hprev ?s) (hash_queue_buffers ?s) (if hash_queue_buffers s h = None then qt(h := Some b) else qt) (H(h := b # H h))"
    unfolding l by (rule dl_queues_push[OF q assms(2)])
  then show "hash_lists ?s (H(h := b # H h))" unfolding hash_lists_def by blast
  show "hash_frame s ?s" by (auto simp: enqueue_to_hashlist_def Let_def frame_defs fun_eq_iff split: option.splits)
  have "hash_queue_buffers s h = Some c \<Longrightarrow> c \<in> set (H h)" using dll_head[OF dl_queuesD[OF q, of h]] by (auto split: if_splits)
  then show "c \<notin> set (H h) \<Longrightarrow> c \<noteq> b \<Longrightarrow> hnext ?s c = hnext s c \<and> hprev ?s c = hprev s c"
    using fun_cong[OF l(1), of c] fun_cong[OF l(2), of c] by (auto simp: prev_push_def split: option.splits)
qed

text \<open>The search of a chain.\<close>

lemma hash_search_dls:
  "dls nx pv p h xs l None \<Longrightarrow> (\<And>b. nx b = hash_q_next (bs b)) \<Longrightarrow>
   hash_search bs dev blk h = Some (find (\<lambda>b. device (bs b) = dev \<and> blockno (bs b) = blk) xs)"
proof (induction xs arbitrary: p h)
  case Nil
  then show ?case by (subst hash_search.simps) simp
next
  case (Cons x xs)
  then have "hash_search bs dev blk (nx x) = Some (find (\<lambda>b. device (bs b) = dev \<and> blockno (bs b) = blk) xs)" by auto
  then show ?case using Cons.prems by (subst hash_search.simps) auto
qed

lemma hash_search_ok:
  assumes "hash_lists s H"
  shows "hash_search (buffers s) dev blk (hash_queue_buffers s h) =
    Some (find (\<lambda>b. device (buffers s b) = dev \<and> blockno (buffers s b) = blk) (H h))"
proof -
  obtain qt where "dl_queues (hnext s) (hprev s) (hash_queue_buffers s) qt H" using assms by (auto simp: hash_lists_def)
  then show ?thesis using dl_queuesD[of _ _ _ _ H h] by (force simp: dll_def intro: hash_search_dls)
qed

lemma hash_lists_distinct:
  assumes "hash_lists s H"
  shows "distinct (H h)" "b \<in> set (H h) \<Longrightarrow> b \<in> set (H g) \<Longrightarrow> g = h"
proof -
  obtain qt where q: "dl_queues (hnext s) (hprev s) (hash_queue_buffers s) qt H" using assms by (auto simp: hash_lists_def)
  show "distinct (H h)" by (rule dll_distinct[OF dl_queuesD[OF q]])
  show "b \<in> set (H h) \<Longrightarrow> b \<in> set (H g) \<Longrightarrow> g = h" using dl_queues_disjoint[OF q] by metis
qed

section \<open>Invariant\<close>

text \<open>The free list holds exactly the buffers that are not busy; a buffer is on the chain of its block number; no block has two
  buffers; a buffer on no chain is empty; data that are to be written are valid.\<close>

definition cache_ok :: "'d cache \<Rightarrow> nat list \<Rightarrow> (nat \<Rightarrow> nat list) \<Rightarrow> bool" where
  "cache_ok s F H \<longleftrightarrow> free_list s F \<and> hash_lists s H \<and>
     (\<forall>b. b \<in> set F \<longleftrightarrow> b < MAX_BUFFERS \<and> \<not> busy (buffers s b)) \<and>
     (\<forall>h b. b \<in> set (H h) \<longrightarrow> b < MAX_BUFFERS \<and> hash_of (blockno (buffers s b)) = h) \<and>
     (\<forall>h b c. b \<in> set (H h) \<and> c \<in> set (H h) \<and> blockno (buffers s b) = blockno (buffers s c) \<and>
        device (buffers s b) = device (buffers s c) \<longrightarrow> b = c) \<and>
     (\<forall>b < MAX_BUFFERS. (\<forall>h. b \<notin> set (H h)) \<longrightarrow> hnext s b = None \<and> hprev s b = None \<and> \<not> valid (buffers s b)) \<and>
     (\<forall>b < MAX_BUFFERS. delayed (buffers s b) \<longrightarrow> valid (buffers s b))"

lemma cache_okD:
  assumes "cache_ok s F H"
  shows "free_list s F" "hash_lists s H" "b \<in> set F \<longleftrightarrow> b < MAX_BUFFERS \<and> \<not> busy (buffers s b)"
    "b \<in> set (H h) \<Longrightarrow> b < MAX_BUFFERS \<and> hash_of (blockno (buffers s b)) = h"
    "b \<in> set (H h) \<Longrightarrow> c \<in> set (H h) \<Longrightarrow> blockno (buffers s b) = blockno (buffers s c) \<Longrightarrow>
      device (buffers s b) = device (buffers s c) \<Longrightarrow> b = c"
    "b < MAX_BUFFERS \<Longrightarrow> (\<And>h. b \<notin> set (H h)) \<Longrightarrow> hnext s b = None \<and> hprev s b = None \<and> \<not> valid (buffers s b)"
    "b < MAX_BUFFERS \<Longrightarrow> delayed (buffers s b) \<Longrightarrow> valid (buffers s b)"
  using assms unfolding cache_ok_def by blast+

lemma cache_okI:
  assumes "free_list s F" "hash_lists s H" "\<And>b. b \<in> set F \<longleftrightarrow> b < MAX_BUFFERS \<and> \<not> busy (buffers s b)"
    "\<And>b h. b \<in> set (H h) \<Longrightarrow> b < MAX_BUFFERS \<and> hash_of (blockno (buffers s b)) = h"
    "\<And>b c h. b \<in> set (H h) \<Longrightarrow> c \<in> set (H h) \<Longrightarrow> blockno (buffers s b) = blockno (buffers s c) \<Longrightarrow>
      device (buffers s b) = device (buffers s c) \<Longrightarrow> b = c"
    "\<And>b. b < MAX_BUFFERS \<Longrightarrow> (\<And>h. b \<notin> set (H h)) \<Longrightarrow> hnext s b = None \<and> hprev s b = None \<and> \<not> valid (buffers s b)"
    "\<And>b. b < MAX_BUFFERS \<Longrightarrow> delayed (buffers s b) \<Longrightarrow> valid (buffers s b)"
  shows "cache_ok s F H"
  unfolding cache_ok_def using assms by blast

text \<open>A change of the data of one buffer leaves the lists as they are.\<close>

definition data_frame :: "nat \<Rightarrow> 'd cache \<Rightarrow> 'd cache \<Rightarrow> bool" where
  "data_frame b s s' \<longleftrightarrow> fnext s' = fnext s \<and> fprev s' = fprev s \<and> hnext s' = hnext s \<and> hprev s' = hprev s \<and>
     free_buff_list_head s' = free_buff_list_head s \<and> free_buff_list_tail s' = free_buff_list_tail s \<and>
     hash_queue_buffers s' = hash_queue_buffers s \<and> (\<forall>c. c \<noteq> b \<longrightarrow> bdata (buffers s' c) = bdata (buffers s c))"

lemma frame_lists:
  "free_frame s s' \<Longrightarrow> hash_lists s' H = hash_lists s H" "hash_frame s s' \<Longrightarrow> free_list s' F = free_list s F"
  "data_frame b s s' \<Longrightarrow> hash_lists s' H = hash_lists s H" "data_frame b s s' \<Longrightarrow> free_list s' F = free_list s F"
  unfolding free_frame_def hash_frame_def data_frame_def hash_lists_def by simp_all

lemma bdata_eq:
  "bdata h = bdata k \<longleftrightarrow> blockno h = blockno k \<and> buff h = buff k \<and> device h = device k \<and> flags h = flags k \<and> io_status h = io_status k"
  by (auto simp: bdata_def)

section \<open>The contents of a block\<close>

text \<open>\<open>sect\<close> gives the sectors of the device. The contents of a block are those of the valid buffer that holds it, or else
  those of the sector.\<close>

definition holds :: "'d cache \<Rightarrow> int \<Rightarrow> u32 \<Rightarrow> nat \<Rightarrow> bool" where
  "holds s dev blk b \<longleftrightarrow> valid (buffers s b) \<and> device (buffers s b) = dev \<and> blockno (buffers s b) = blk"

definition block_data :: "('d \<Rightarrow> int \<Rightarrow> u32 \<Rightarrow> u8 list) \<Rightarrow> 'd cache \<Rightarrow> int \<Rightarrow> u32 \<Rightarrow> u8 list" where
  "block_data sect s dev blk =
     (case find (holds s dev blk) [0..<MAX_BUFFERS] of Some b \<Rightarrow> buff (buffers s b) | None \<Rightarrow> sect (floppy s) dev blk)"

text \<open>Buffers that are valid and not marked agree with the device.\<close>

definition coherent :: "('d \<Rightarrow> int \<Rightarrow> u32 \<Rightarrow> u8 list) \<Rightarrow> 'd cache \<Rightarrow> bool" where
  "coherent sect s \<longleftrightarrow> (\<forall>b < MAX_BUFFERS. valid (buffers s b) \<and> \<not> delayed (buffers s b) \<longrightarrow>
     buff (buffers s b) = sect (floppy s) (device (buffers s b)) (blockno (buffers s b)))"

lemma valid_hashed:
  assumes "cache_ok s F H" "b < MAX_BUFFERS" "valid (buffers s b)"
  shows "b \<in> set (H (hash_of (blockno (buffers s b))))"
proof -
  obtain h where "b \<in> set (H h)" using cache_okD(6)[OF assms(1,2)] assms(3) by blast
  then show ?thesis using cache_okD(4)[OF assms(1)] by blast
qed

lemma holds_unique:
  assumes "cache_ok s F H" "holds s d k b" "holds s d k c" "b < MAX_BUFFERS" "c < MAX_BUFFERS"
  shows "b = c"
  using assms valid_hashed[OF assms(1), of b] valid_hashed[OF assms(1), of c] cache_okD(5)[OF assms(1)] by (auto simp: holds_def)

lemma block_data_held:
  assumes "cache_ok s F H" "b < MAX_BUFFERS" "holds s d k b"
  shows "block_data sect s d k = buff (buffers s b)"
proof -
  have "find (holds s d k) [0..<MAX_BUFFERS] \<noteq> None" using assms(2,3) by (auto simp: find_None_iff)
  then obtain c where c: "find (holds s d k) [0..<MAX_BUFFERS] = Some c" by auto
  then have "holds s d k c" "c < MAX_BUFFERS" by (auto simp: find_Some_iff)
  then have "c = b" using holds_unique[OF assms(1)] assms by blast
  with c show ?thesis by (simp add: block_data_def)
qed

lemma block_data_free:
  assumes "\<And>b. b < MAX_BUFFERS \<Longrightarrow> \<not> holds s d k b"
  shows "block_data sect s d k = sect (floppy s) d k"
proof -
  have "find (holds s d k) [0..<MAX_BUFFERS] = None" using assms by (auto simp: find_None_iff)
  then show ?thesis by (simp add: block_data_def)
qed

section \<open>getblk\<close>

text \<open>The buffer \<open>b\<close> now belongs to the caller; all others are as they were.\<close>

definition granted :: "'d cache \<Rightarrow> 'd cache \<Rightarrow> int \<Rightarrow> u32 \<Rightarrow> nat \<Rightarrow> bool" where
  "granted s s' dev blk b \<longleftrightarrow> b < MAX_BUFFERS \<and> busy (buffers s' b) \<and> device (buffers s' b) = dev \<and> blockno (buffers s' b) = blk \<and>
     (\<forall>c. c \<noteq> b \<longrightarrow> bdata (buffers s' c) = bdata (buffers s c)) \<and> rest_same s s' \<and> io_status (buffers s' b) = io_status (buffers s b) \<and>
     (if valid (buffers s' b) then valid (buffers s b) \<and> device (buffers s b) = dev \<and> blockno (buffers s b) = blk \<and>
        buff (buffers s' b) = buff (buffers s b) \<and> (delayed (buffers s' b) = delayed (buffers s b))
      else \<not> delayed (buffers s b) \<and> \<not> delayed (buffers s' b) \<and> (\<forall>c < MAX_BUFFERS. \<not> holds s dev blk c))"

lemma getblk_hit:
  assumes ok: "cache_ok s F H" and b: "b \<in> set (H (hash_of blk))" "device (buffers s b) = dev" "blockno (buffers s b) = blk" "\<not> busy (buffers s b)"
  obtains s' where "getblk dev blk s = Some (Got b, s')" "cache_ok s' (remove1 b F) H" "granted s s' dev blk b"
proof -
  let ?h = "hash_of blk" and ?P = "\<lambda>b. device (buffers s b) = dev \<and> blockno (buffers s b) = blk"
  have "find ?P (H ?h) \<noteq> None" using b by (auto simp: find_None_iff)
  then obtain c where c: "find ?P (H ?h) = Some c" by auto
  then have "c \<in> set (H ?h)" "?P c" by (auto simp: find_Some_iff)
  then have "c = b" using cache_okD(5)[OF ok] b by blast
  with c have f: "hash_search (buffers s) dev blk (hash_queue_buffers s ?h) = Some (Some b)" using hash_search_ok[OF cache_okD(2)[OF ok]] by simp
  have bl: "b < MAX_BUFFERS" using cache_okD(4)[OF ok b(1)] by simp
  have bF: "b \<in> set F" using cache_okD(3)[OF ok] bl b(4) by blast
  define s1 where "s1 = set_buf b (\<lambda>x. x\<lparr>flags := flags x OR BUFF_BUSY\<rparr>) s"
  have d1: "data_frame b s s1" by (auto simp: s1_def set_buf_def data_frame_def fun_eq_iff)
  obtain s' where s': "delete_from_freelist b s1 = Some s'" "free_list s' (remove1 b F)" "free_frame s1 s'"
    using delete_from_freelist_ok[of s1 F b] bF cache_okD(1)[OF ok] frame_lists(4)[OF d1] by blast
  have r: "getblk_round dev blk s = Some (Got b, s')" using f b(4) s'(1) by (simp add: getblk_round_def s1_def)
  then have g: "getblk dev blk s = Some (Got b, s')" by (subst getblk.simps) simp
  have D: "bdata (buffers s' c) = bdata (if c = b then (buffers s b)\<lparr>flags := flags (buffers s b) OR BUFF_BUSY\<rparr> else buffers s c)" for c
    using s'(3) by (simp add: free_frame_def s1_def set_buf_def)
  have hl: "hash_lists s' H" using frame_lists(1)[OF s'(3)] frame_lists(3)[OF d1] cache_okD(2)[OF ok] by simp
  have hs: "hnext s' = hnext s" "hprev s' = hprev s" using s'(3) d1 by (simp_all add: free_frame_def data_frame_def)
  have "cache_ok s' (remove1 b F) H"
  proof (rule cache_okI)
    fix c show "c \<in> set (remove1 b F) \<longleftrightarrow> c < MAX_BUFFERS \<and> \<not> busy (buffers s' c)"
      using cache_okD(3)[OF ok, of c] dll_distinct[OF cache_okD(1)[OF ok]] D[of c] by (auto simp: bdata_eq split: if_splits)
  qed (use s'(2) hl hs cache_okD(4-7)[OF ok] D in \<open>auto simp: bdata_eq fun_eq_iff split: if_splits\<close>)
  moreover have "granted s s' dev blk b"
  proof -
    have Db: "device (buffers s' b) = dev" "blockno (buffers s' b) = blk" "flags (buffers s' b) = flags (buffers s b) OR BUFF_BUSY"
      "buff (buffers s' b) = buff (buffers s b)" "io_status (buffers s' b) = io_status (buffers s b)" using D[of b] b by (simp_all add: bdata_eq)
    have "rest_same s s'" using s'(3) by (simp add: free_frame_def rest_same_def s1_def set_buf_def)
    moreover have "\<not> holds s dev blk c" if v: "\<not> valid (buffers s b)" "c < MAX_BUFFERS" for c
    proof
      assume "holds s dev blk c"
      then have c: "valid (buffers s c)" "device (buffers s c) = dev" "blockno (buffers s c) = blk" by (simp_all add: holds_def)
      have "b = c" using cache_okD(5)[OF ok b(1)] valid_hashed[OF ok v(2) c(1)] c(2,3) b(2,3) by metis
      then show False using v(1) c(1) by simp
    qed
    ultimately show ?thesis using bl b(2,3) D Db cache_okD(7)[OF ok bl] by (auto simp: granted_def)
  qed
  ultimately show ?thesis using g that by blast
qed


text \<open>Taking a buffer off its chain, when it is on one, and putting it under a new number on another.\<close>

lemma rehash_ok:
  assumes hl: "hash_lists s H" and home: "\<And>h. b \<in> set (H h) \<Longrightarrow> h = h0 \<and> H h \<noteq> [b]"
    and un: "(\<And>h. b \<notin> set (H h)) \<Longrightarrow> hnext s b = None \<and> hprev s b = None"
  defines "H1 \<equiv> H(h0 := remove1 b (H h0))" and "s1 \<equiv> delete_from_hashlist h0 b s"
  shows "hash_lists s1 H1" "hash_frame s s1" "\<And>h. b \<notin> set (H1 h)"
    "(\<And>h. c \<notin> set (H h)) \<Longrightarrow> hnext s1 c = hnext s c \<and> hprev s1 c = hprev s c"
proof -
  note hd = hash_lists_distinct(1)[OF hl]
  have "hash_lists s1 H1 \<and> hash_frame s s1 \<and> (\<forall>c. (\<forall>h. c \<notin> set (H h)) \<longrightarrow> hnext s1 c = hnext s c \<and> hprev s1 c = hprev s c)"
  proof (cases "b \<in> set (H h0)")
    case True
    have "H h0 \<noteq> [b]" using home[OF True] by simp
    from delete_from_hashlist_ok[OF hl True this] show ?thesis unfolding H1_def s1_def by blast
  next
    case False
    then have "\<And>h. b \<notin> set (H h)" using home by blast
    then have "s1 = s" "H1 = H" using un False by (simp_all add: s1_def H1_def delete_unhashed remove1_idem)
    then show ?thesis using hl by (simp add: hash_frame_def rest_same_def)
  qed
  then show "hash_lists s1 H1" "hash_frame s s1" "(\<And>h. c \<notin> set (H h)) \<Longrightarrow> hnext s1 c = hnext s c \<and> hprev s1 c = hprev s c" by blast+
  show "b \<notin> set (H1 h)" for h using home hd[of h0] by (auto simp: H1_def)
qed

text \<open>The buffer with new data on the chain \<open>h\<close>.\<close>

definition recycle :: "nat \<Rightarrow> nat \<Rightarrow> (buffer_header \<Rightarrow> buffer_header) \<Rightarrow> 'd cache \<Rightarrow> 'd cache" where
  "recycle h b f s = enqueue_to_hashlist h b (set_buf b f (delete_from_hashlist (hash_of (blockno (buffers s b))) b s))"

lemma recycle_ok:
  assumes hl: "hash_lists s H" and home: "\<And>g. b \<in> set (H g) \<Longrightarrow> g = hash_of (blockno (buffers s b)) \<and> H g \<noteq> [b]"
    and un: "(\<And>g. b \<notin> set (H g)) \<Longrightarrow> hnext s b = None \<and> hprev s b = None"
    and f: "\<And>s :: 'd cache. data_frame b s (set_buf b f s)" "\<And>x y. bdata x = bdata y \<Longrightarrow> bdata (f x) = bdata (f y)"
  obtains H' where "hash_lists (recycle h b f s) H'" "\<And>g. set (H' g) = (if g = h then {b} else {}) \<union> (set (H g) - {b})"
    "\<And>F. free_list (recycle h b f s) F = free_list s F" "\<And>c. c \<noteq> b \<Longrightarrow> bdata (buffers (recycle h b f s) c) = bdata (buffers s c)"
    "bdata (buffers (recycle h b f s) b) = bdata (f (buffers s b))" "rest_same s (recycle h b f (s :: 'd cache))"
    "\<And>c. (\<And>g. c \<notin> set (H' g)) \<Longrightarrow> hnext (recycle h b f s) c = hnext s c \<and> hprev (recycle h b f s) c = hprev s c"
proof -
  let ?old = "hash_of (blockno (buffers s b))"
  define s2 H1 where d: "s2 = delete_from_hashlist ?old b s" "H1 = H(?old := remove1 b (H ?old))"
  have r: "hash_lists s2 H1" "hash_frame s s2" "\<And>g. b \<notin> set (H1 g)"
    "\<And>c. (\<And>g. c \<notin> set (H g)) \<Longrightarrow> hnext s2 c = hnext s c \<and> hprev s2 c = hprev s c"
    using rehash_ok[OF hl home un] unfolding d by blast+
  let ?s3 = "set_buf b f s2" and ?s' = "recycle h b f s"
  have s': "?s' = enqueue_to_hashlist h b ?s3" by (simp add: recycle_def d)
  have "hash_lists ?s3 H1" using frame_lists(3)[OF f(1)] r(1) by blast
  note e = enqueue_to_hashlist_ok[OF this r(3), where h = h, folded s']
  have H1: "set (H1 g) = set (H g) - {b}" for g
    using r(3)[of g] hash_lists_distinct(1)[OF hl, of g] home[of g] by (auto simp: d(2))
  have H': "set ((H1(h := b # H1 h)) g) = (if g = h then {b} else {}) \<union> (set (H g) - {b})" for g by (simp add: H1)
  have D: "bdata (buffers s2 c) = bdata (buffers s c)" "bdata (buffers ?s' c) = bdata (buffers ?s3 c)" for c
    using r(2) e(2) by (simp_all add: hash_frame_def)
  have D': "bdata (buffers ?s' c) = (if c = b then bdata (f (buffers s b)) else bdata (buffers s c))" for c
    using D[of c] f(2)[OF D(1)[of b]] by (simp add: set_buf_def reassign_def)
  have fl: "free_list ?s' F = free_list s F" for F using frame_lists(2)[OF e(2)] frame_lists(4)[OF f(1)[of s2]] frame_lists(2)[OF r(2)] by simp
  have rs: "rest_same s ?s'" using r(2) e(2) by (simp add: hash_frame_def rest_same_def set_buf_def reassign_def)
  have un': "hnext ?s' c = hnext s c \<and> hprev ?s' c = hprev s c" if "\<And>g. c \<notin> set ((H1(h := b # H1 h)) g)" for c
  proof -
    have "c \<noteq> b" using that[of h] by auto
    then have H: "c \<notin> set (H g)" for g using that[of g] unfolding H' by simp
    then have c: "c \<notin> set (H1 h)" by (simp add: H1)
    have "hnext ?s3 = hnext s2" "hprev ?s3 = hprev s2" using f(1)[of s2] by (simp_all add: data_frame_def)
    then show ?thesis using e(3)[OF c \<open>c \<noteq> b\<close>] r(4)[OF H] by (simp add: fun_eq_iff)
  qed
  show ?thesis by (rule that[OF e(1) H' fl _ _ rs un']) (simp_all add: D')
qed

lemma recycle_cache_ok:
  assumes ok: "cache_ok s F H" and F: "F = b # F'" and s1: "free_list s1 F'" "free_frame s s1" and home: "\<And>h. H h \<noteq> [b]"
    and new: "\<And>c. c \<in> set (H (hash_of blk)) \<Longrightarrow> \<not> (device (buffers s c) = dev \<and> blockno (buffers s c) = blk)"
    and clean: "\<not> delayed (buffers s b)"
  defines "f \<equiv> reassign dev blk"
  obtains H' where "cache_ok (recycle (hash_of blk) b f s1) F' H'" "b \<in> set (H' (hash_of blk))" "rest_same s (recycle (hash_of blk) b f s1)"
    "\<forall>c. bdata (buffers (recycle (hash_of blk) b f s1) c) = bdata (if c = b then f (buffers s b) else buffers s c)"
proof -
  let ?h = "hash_of blk" and ?s = "recycle (hash_of blk) b f s1"
  have bl: "b < MAX_BUFFERS" "\<not> busy (buffers s b)" "distinct F" using cache_okD(3)[OF ok, of b] F dll_distinct[OF cache_okD(1)[OF ok]] by auto
  have e1: "hnext s1 = hnext s" "hprev s1 = hprev s" "bdata (buffers s1 c) = bdata (buffers s c)" "rest_same s s1" for c
    using s1(2) by (simp_all add: free_frame_def)
  have "hash_lists s1 H" using frame_lists(1)[OF s1(2)] cache_okD(2)[OF ok] by simp
  moreover have "g = hash_of (blockno (buffers s1 b)) \<and> H g \<noteq> [b]" if "b \<in> set (H g)" for g
    using cache_okD(4)[OF ok that] home e1(3)[of b] by (simp add: bdata_eq)
  moreover have "hnext s1 b = None \<and> hprev s1 b = None" if "\<And>g. b \<notin> set (H g)"
    using cache_okD(6)[OF ok bl(1) that] e1(1,2) by (simp add: fun_eq_iff)
  moreover have "data_frame b t (set_buf b f t)" for t :: "'a cache" by (auto simp: f_def reassign_def set_buf_def reassign_def data_frame_def fun_eq_iff)
  moreover have fc: "bdata x = bdata y \<Longrightarrow> bdata (f x) = bdata (f y)" for x y by (simp add: f_def reassign_def bdata_eq)
  ultimately obtain H' where r: "hash_lists ?s H'" "\<And>g. set (H' g) = (if g = ?h then {b} else {}) \<union> (set (H g) - {b})"
    "\<And>F. free_list ?s F = free_list s1 F" "\<And>c. c \<noteq> b \<Longrightarrow> bdata (buffers ?s c) = bdata (buffers s1 c)"
    "bdata (buffers ?s b) = bdata (f (buffers s1 b))" "rest_same s1 ?s"
    "\<And>c. (\<And>g. c \<notin> set (H' g)) \<Longrightarrow> hnext ?s c = hnext s1 c \<and> hprev ?s c = hprev s1 c"
    by (rule recycle_ok[where h = ?h]) blast+
  have D: "bdata (buffers ?s c) = bdata (if c = b then f (buffers s b) else buffers s c)" for c
    using r(4)[of c] r(5) e1(3)[of c] fc[OF e1(3)[of b]] by simp
  have Dc: "bdata (buffers ?s c) = bdata (buffers s c)" if "c \<noteq> b" for c using D[of c] that by simp
  have Db: "device (buffers ?s b) = dev" "blockno (buffers ?s b) = blk" "flags (buffers ?s b) = (flags (buffers s b) OR BUFF_BUSY) AND NOT BUFF_DATAVALID"
    using D[of b] by (simp_all add: bdata_eq f_def reassign_def)
  have other: "\<not> (device (buffers ?s c) = dev \<and> blockno (buffers ?s c) = blk)" if "c \<in> set (H' ?h)" "c \<noteq> b" for c
    using new[of c] that Dc[OF that(2)] by (simp add: bdata_eq r(2))
  have "cache_ok ?s F' H'"
  proof (rule cache_okI)
    show "c \<in> set F' \<longleftrightarrow> c < MAX_BUFFERS \<and> \<not> busy (buffers ?s c)" for c
      using cache_okD(3)[OF ok, of c] F bl(3) Dc[of c] Db(3) by (cases "c = b") (auto simp: bdata_eq)
    show "c < MAX_BUFFERS \<and> hash_of (blockno (buffers ?s c)) = g" if "c \<in> set (H' g)" for c g
      using that cache_okD(4)[OF ok, of c g] Dc[of c] Db(2) bl(1) by (cases "c = b") (auto simp: bdata_eq r(2) split: if_splits)
    show "c = d" if cd: "c \<in> set (H' g)" "d \<in> set (H' g)" "blockno (buffers ?s c) = blockno (buffers ?s d)" "device (buffers ?s c) = device (buffers ?s d)" for c d g
    proof (cases "c = b \<or> d = b")
      case True
      then have "g = ?h" using cd(1,2) by (auto simp: r(2) split: if_splits)
      then show ?thesis using True cd other[of c] other[of d] Db(1,2) by metis
    next
      case False
      then have "c \<in> set (H g)" "d \<in> set (H g)" using cd(1,2) unfolding r(2) by (auto split: if_splits)
      moreover have "bdata (buffers ?s c) = bdata (buffers s c)" "bdata (buffers ?s d) = bdata (buffers s d)" using False Dc by auto
      ultimately show ?thesis using cache_okD(5)[OF ok] cd(3,4) unfolding bdata_eq by metis
    qed
    show "hnext ?s c = None \<and> hprev ?s c = None \<and> \<not> valid (buffers ?s c)" if c: "c < MAX_BUFFERS" "\<And>g. c \<notin> set (H' g)" for c
    proof -
      have nb: "c \<noteq> b" using c(2)[of ?h] unfolding r(2) by simp
      have nH: "c \<notin> set (H g)" for g using c(2)[of g] nb unfolding r(2) by simp
      show ?thesis using r(7)[OF c(2)] e1(1,2) cache_okD(6)[OF ok c(1) nH] Dc[OF nb] by (simp add: bdata_eq fun_eq_iff)
    qed
    show "valid (buffers ?s c)" if "c < MAX_BUFFERS" "delayed (buffers ?s c)" for c
      using that cache_okD(7)[OF ok, of c] Dc[of c] Db(3) clean by (cases "c = b") (auto simp: bdata_eq)
  qed (use r(1,3) s1(1) in simp_all)
  moreover have "rest_same s ?s" using e1(4) r(6) by (simp add: rest_same_def)
  moreover have "b \<in> set (H' ?h)" by (simp add: r(2))
  ultimately show ?thesis using that D by blast
qed

lemma getblk_miss:
  assumes ok: "cache_ok s F H" and new: "\<And>b. b \<in> set (H (hash_of blk)) \<Longrightarrow> \<not> (device (buffers s b) = dev \<and> blockno (buffers s b) = blk)"
    and F: "F = b # F'" and clean: "\<not> delayed (buffers s b)" and home: "\<And>h. H h \<noteq> [b]"
  obtains s' H' where "getblk dev blk s = Some (Got b, s')" "cache_ok s' F' H'" "granted s s' dev blk b" "b \<in> set (H' (hash_of blk))"
proof -
  let ?h = "hash_of blk" and ?f = "reassign dev blk"
  have "find (\<lambda>b. device (buffers s b) = dev \<and> blockno (buffers s b) = blk) (H ?h) = None" using new by (auto simp: find_None_iff)
  then have f: "hash_search (buffers s) dev blk (hash_queue_buffers s ?h) = Some None"
    using hash_search_ok[OF cache_okD(2)[OF ok], of dev blk ?h] by simp
  have hd: "free_buff_list_head s = Some b" "b \<in> set F" using dll_head[OF cache_okD(1)[OF ok]] F by simp_all
  obtain s1 where s1: "delete_from_freelist b s = Some s1" "free_list s1 F'" "free_frame s s1"
    using delete_from_freelist_ok[OF cache_okD(1)[OF ok] hd(2)] F by auto
  let ?s = "recycle ?h b ?f s1"
  obtain H' where r: "cache_ok ?s F' H'" "b \<in> set (H' ?h)" "rest_same s ?s" "\<forall>c. bdata (buffers ?s c) = bdata (if c = b then ?f (buffers s b) else buffers s c)"
    by (rule recycle_cache_ok[OF ok F s1(2,3) home new clean]) (assumption, rule that, assumption+)
  have b1: "flags (buffers s1 b) = flags (buffers s b)" using s1(3) by (simp add: free_frame_def bdata_eq)
  have "getblk_round dev blk s = Some (Got b, ?s)" using f hd(1) s1(1) clean b1 by (simp add: getblk_round_def recycle_def Let_def)
  then have g: "getblk dev blk s = Some (Got b, ?s)" by (subst getblk.simps) simp
  have "b < MAX_BUFFERS" using cache_okD(3)[OF ok] hd(2) by blast
  moreover have "\<not> holds s dev blk c" if "c < MAX_BUFFERS" for c using valid_hashed[OF ok that] new[of c] by (metis holds_def)
  ultimately have "granted s ?s dev blk b" using r(3,4) clean by (simp add: granted_def bdata_eq reassign_def)
  then show ?thesis using g r(1,2) that by blast
qed


text \<open>When \<^verbatim>\<open>getblk\<close> neither sleeps nor runs into a chain with one buffer: the block has a buffer that is not busy, or the first free
  buffer is clean and not alone on its chain.\<close>

definition getblk_ready :: "'d cache \<Rightarrow> nat list \<Rightarrow> (nat \<Rightarrow> nat list) \<Rightarrow> int \<Rightarrow> u32 \<Rightarrow> bool" where
  "getblk_ready s F H dev blk \<longleftrightarrow>
     (case find (\<lambda>b. device (buffers s b) = dev \<and> blockno (buffers s b) = blk) (H (hash_of blk)) of
        Some b \<Rightarrow> \<not> busy (buffers s b)
      | None \<Rightarrow> F \<noteq> [] \<and> \<not> delayed (buffers s (hd F)) \<and> (\<forall>h. H h \<noteq> [hd F]))"

lemma getblk_granted:
  assumes ok: "cache_ok s F H" and ready: "getblk_ready s F H dev blk"
  obtains b s' F' H' where "getblk dev blk s = Some (Got b, s')" "cache_ok s' F' H'" "granted s s' dev blk b" "b \<in> set (H' (hash_of blk))" "length F' = length F - 1"
proof (cases "find (\<lambda>b. device (buffers s b) = dev \<and> blockno (buffers s b) = blk) (H (hash_of blk))")
  case None
  then have new: "\<And>b. b \<in> set (H (hash_of blk)) \<Longrightarrow> \<not> (device (buffers s b) = dev \<and> blockno (buffers s b) = blk)" by (auto simp: find_None_iff)
  from None ready obtain b F' where F: "F = b # F'" and c: "\<not> delayed (buffers s b)" "\<And>h. H h \<noteq> [b]"
    by (cases F) (auto simp: getblk_ready_def)
  obtain s' H' where "getblk dev blk s = Some (Got b, s')" "cache_ok s' F' H'" "granted s s' dev blk b" "b \<in> set (H' (hash_of blk))"
    by (rule getblk_miss[OF ok new F c]) (assumption, blast)
  then show ?thesis using that F by simp
next
  case (Some b)
  then have b: "b \<in> set (H (hash_of blk))" "device (buffers s b) = dev" "blockno (buffers s b) = blk" by (auto simp: find_Some_iff)
  have nb: "\<not> busy (buffers s b)" using ready Some by (simp add: getblk_ready_def)
  have "b \<in> set F" using cache_okD(3)[OF ok, of b] cache_okD(4)[OF ok b(1)] nb by blast
  then have "length (remove1 b F) = length F - 1" by (simp add: length_remove1)
  then show ?thesis using getblk_hit[OF ok b nb] b(1) that by metis
qed

section \<open>Refinement of the block contents\<close>

text \<open>Steps that change neither contents nor marks.\<close>

definition same_contents :: "'d cache \<Rightarrow> 'd cache \<Rightarrow> bool" where
  "same_contents s s' \<longleftrightarrow> floppy s' = floppy s \<and> (\<forall>c. buff (buffers s' c) = buff (buffers s c) \<and> device (buffers s' c) = device (buffers s c) \<and>
     blockno (buffers s' c) = blockno (buffers s c) \<and> valid (buffers s' c) = valid (buffers s c) \<and> delayed (buffers s' c) = delayed (buffers s c))"

lemma same_contentsD:
  assumes "same_contents s s'"
  shows "block_data sect s' = block_data sect s" "coherent sect s' = coherent sect s"
proof -
  have h: "holds s' d k = holds s d k" for d k using assms by (simp add: fun_eq_iff holds_def same_contents_def)
  show "block_data sect s' = block_data sect s" using assms by (auto simp: fun_eq_iff block_data_def h same_contents_def split: option.splits)
  show "coherent sect s' = coherent sect s" using assms by (simp add: coherent_def same_contents_def)
qed

lemma holds_cong: "bdata (buffers s' c) = bdata (buffers s c) \<Longrightarrow> holds s' d k c = holds s d k c"
  by (simp add: holds_def bdata_eq)

lemma granted_holds:
  assumes "granted s s' dev blk b" "holds s' d k c"
  shows "holds s d k c" "buff (buffers s' c) = buff (buffers s c)"
  using assms by (cases "c = b"; auto simp: granted_def holds_def bdata_eq)+

lemma granted_contents:
  assumes ok: "cache_ok s F H" "cache_ok s' F' H'" and g: "granted s s' dev blk b" and co: "coherent sect s"
  shows "coherent sect s'" "block_data sect s' = block_data sect s"
proof -
  have fl: "floppy s' = floppy s" using g by (simp add: granted_def rest_same_def)
  have c: "bdata (buffers s' c) = bdata (buffers s c)" if "c \<noteq> b" for c using g that by (simp add: granted_def)
  show "coherent sect s'" unfolding coherent_def
  proof (intro allI impI)
    fix x assume x: "x < MAX_BUFFERS" "valid (buffers s' x) \<and> \<not> delayed (buffers s' x)"
    show "buff (buffers s' x) = sect (floppy s') (device (buffers s' x)) (blockno (buffers s' x))"
      using co x c[of x] g fl by (cases "x = b") (auto simp: coherent_def bdata_eq granted_def)
  qed
  show "block_data sect s' = block_data sect s"
  proof (intro ext)
    fix d k
    show "block_data sect s' d k = block_data sect s d k"
    proof (cases "\<exists>x < MAX_BUFFERS. holds s' d k x")
      case True
      then obtain x where x: "x < MAX_BUFFERS" "holds s' d k x" by blast
      then show ?thesis using block_data_held[OF ok(1) x(1)] block_data_held[OF ok(2) x] granted_holds[OF g x(2)] by simp
    next
      case False
      then have n: "block_data sect s' d k = sect (floppy s) d k" using block_data_free[of s' d k sect] fl by auto
      show ?thesis
      proof (cases "\<exists>x < MAX_BUFFERS. holds s d k x")
        case True
        then obtain x where x: "x < MAX_BUFFERS" "holds s d k x" by blast
        have no: "\<not> holds s' d k x" using False x(1) by blast
        then have "x = b" using x(2) holds_cong[OF c, of x d k] by blast
        then have "\<not> delayed (buffers s x)" using g x(2) no by (auto simp: granted_def holds_def split: if_splits)
        then show ?thesis using co x n block_data_held[OF ok(1) x] by (auto simp: coherent_def holds_def)
      qed (use n block_data_free[of s d k sect] in auto)
    qed
  qed
qed

text \<open>New data in a buffer that the caller has.\<close>

lemma cache_ok_data:
  assumes ok: "cache_ok s F H" and h: "\<exists>h. b \<in> set (H h)"
    and f: "data_frame b s s'" "blockno (buffers s' b) = blockno (buffers s b)" "device (buffers s' b) = device (buffers s b)"
      "busy (buffers s' b) = busy (buffers s b)" "delayed (buffers s' b) \<Longrightarrow> valid (buffers s' b)"
  shows "cache_ok s' F H"
proof -
  have c: "bdata (buffers s' c) = bdata (buffers s c)" if "c \<noteq> b" for c using f(1) that by (simp add: data_frame_def)
  then have d: "blockno (buffers s' c) = blockno (buffers s c)" "device (buffers s' c) = device (buffers s c)" "busy (buffers s' c) = busy (buffers s c)" for c
    using f(2-4) by (cases "c = b"; simp add: bdata_eq)+
  have e: "hnext s' = hnext s" "hprev s' = hprev s" using f(1) by (simp_all add: data_frame_def)
  show ?thesis
  proof (rule cache_okI)
    show "hnext s' c = None \<and> hprev s' c = None \<and> \<not> valid (buffers s' c)" if "c < MAX_BUFFERS" "\<And>h. c \<notin> set (H h)" for c
    proof -
      have "c \<noteq> b" using h that(2) by blast
      then show ?thesis using cache_okD(6)[OF ok that] c[of c] e by (simp add: bdata_eq fun_eq_iff)
    qed
    show "valid (buffers s' c)" if "c < MAX_BUFFERS" "delayed (buffers s' c)" for c
      using that cache_okD(7)[OF ok that(1)] c[of c] f(5) by (cases "c = b") (simp_all add: bdata_eq)
    show "c < MAX_BUFFERS \<and> hash_of (blockno (buffers s' c)) = g" if "c \<in> set (H g)" for c g using cache_okD(4)[OF ok that] d(1) by simp
    show "c = x" if "c \<in> set (H g)" "x \<in> set (H g)" "blockno (buffers s' c) = blockno (buffers s' x)" "device (buffers s' c) = device (buffers s' x)" for c x g
      using cache_okD(5)[OF ok that(1,2)] that(3,4) d by simp
  qed (use cache_okD(1-3)[OF ok] frame_lists(3,4)[OF f(1)] d(3) in simp_all)
qed


text \<open>Releasing a buffer: valid buffers at the end of the free list, others at the front.\<close>

lemma brelease_ok:
  assumes ok: "cache_ok s F H" and b: "b < MAX_BUFFERS" "busy (buffers s b)" "valid (buffers s b) \<or> F \<noteq> []"
  shows "cache_ok (brelease b s) (if valid (buffers s b) then F @ [b] else b # F) H" "same_contents s (brelease b s)"
    "busy (buffers (brelease b s) c) \<longleftrightarrow> busy (buffers s c) \<and> c \<noteq> b" "io_status (buffers (brelease b s) c) = io_status (buffers s c)"
    "delayed_write_q_head (brelease b s) = delayed_write_q_head s"
proof -
  let ?F = "if valid (buffers s b) then F @ [b] else b # F"
  define s1 where "s1 = (if valid (buffers s b) then append_to_freelist b s else prepend_to_freelist b s)"
  have "b \<notin> set F" using cache_okD(3)[OF ok] b(2) by blast
  then have f: "free_list s1 ?F" "free_frame s s1"
    using append_to_freelist_ok[OF cache_okD(1)[OF ok]] prepend_to_freelist_ok[OF cache_okD(1)[OF ok]] b(3) unfolding s1_def by presburger+
  let ?s = "brelease b s"
  have s': "?s = event_log [Brelse_event, Release_event b] (set_buf b (\<lambda>x. x\<lparr>flags := flags x AND NOT BUFF_BUSY\<rparr>) s1)"
    by (simp add: brelease_def Let_def s1_def)
  have l: "fnext ?s = fnext s1" "fprev ?s = fprev s1" "free_buff_list_head ?s = free_buff_list_head s1" "free_buff_list_tail ?s = free_buff_list_tail s1"
    "hnext ?s = hnext s" "hprev ?s = hprev s" "hash_queue_buffers ?s = hash_queue_buffers s" "floppy ?s = floppy s"
    "delayed_write_q_head ?s = delayed_write_q_head s"
    using f(2) by (auto simp: s' set_buf_def event_log_def free_frame_def rest_same_def fun_eq_iff)
  have e: "bdata (buffers s1 c) = bdata (buffers s c)" for c using f(2) by (simp add: free_frame_def)
  have D: "blockno (buffers ?s c) = blockno (buffers s c)" "buff (buffers ?s c) = buff (buffers s c)" "device (buffers ?s c) = device (buffers s c)"
    "io_status (buffers ?s c) = io_status (buffers s c)"
    "flags (buffers ?s c) = (if c = b then flags (buffers s b) AND NOT BUFF_BUSY else flags (buffers s c))" for c
    using e[of c] by (auto simp: s' set_buf_def event_log_def bdata_eq)
  have v: "valid (buffers ?s c) = valid (buffers s c)" "delayed (buffers ?s c) = delayed (buffers s c)" "busy (buffers ?s c) \<longleftrightarrow> busy (buffers s c) \<and> c \<noteq> b" for c
    by (auto simp: D(5))
  show "same_contents s ?s" using D v l(8) by (simp add: same_contents_def)
  show "busy (buffers ?s c) \<longleftrightarrow> busy (buffers s c) \<and> c \<noteq> b" "io_status (buffers ?s c) = io_status (buffers s c)"
    "delayed_write_q_head ?s = delayed_write_q_head s" by (fact v(3) D(4) l(9))+
  have "c \<in> set ?F \<longleftrightarrow> c < MAX_BUFFERS \<and> \<not> busy (buffers ?s c)" for c
    using cache_okD(3)[OF ok, of c] b(1) unfolding v(3) by auto
  moreover have "hash_lists ?s H" using cache_okD(2)[OF ok] unfolding hash_lists_def l .
  moreover have "free_list ?s ?F" unfolding l by (rule f(1))
  moreover have "hnext ?s c = None \<and> hprev ?s c = None \<and> \<not> valid (buffers ?s c)" if "c < MAX_BUFFERS" "\<And>h. c \<notin> set (H h)" for c
    using cache_okD(6)[OF ok that] fun_cong[OF l(5), of c] fun_cong[OF l(6), of c] v(1)[of c] by simp
  ultimately show "cache_ok ?s ?F H"
    using cache_okD(4,5,7)[OF ok] unfolding cache_ok_def D(1,3) v(1,2) by blast
qed

text \<open>Writing the data of a granted buffer.\<close>

lemma block_data_write:
  assumes ok: "cache_ok s' F' H'" and b: "b < MAX_BUFFERS" "holds s' dev blk b" "device (buffers s b) = dev" "blockno (buffers s b) = blk"
    and c: "\<And>c. c \<noteq> b \<Longrightarrow> bdata (buffers s' c) = bdata (buffers s c)" "floppy s' = floppy s"
  shows "block_data sect s' d k = (if d = dev \<and> k = blk then buff (buffers s' b) else block_data sect s d k)"
proof (cases "d = dev \<and> k = blk")
  case True
  then show ?thesis using block_data_held[OF ok b(1,2)] by simp
next
  case False
  then have nb: "\<not> holds s' d k b" "\<not> holds s d k b" using b by (auto simp: holds_def)
  have "holds s' d k x = holds s d k x" for x using nb holds_cong[OF c(1), of x d k] by (cases "x = b") auto
  then have h: "holds s' d k = holds s d k" by (rule ext)
  have e: "buff (buffers s' x) = buff (buffers s x)" if "find (holds s d k) [0..<MAX_BUFFERS] = Some x" for x
  proof -
    have "holds s d k x" using that by (auto simp: find_Some_iff)
    then have "x \<noteq> b" using nb by blast
    then show ?thesis using c(1) by (simp add: bdata_eq)
  qed
  then show ?thesis unfolding block_data_def h using False c(2) by (auto split: option.split)
qed

text \<open>C9: \<^verbatim>\<open>write_block\<close> changes the contents of exactly the named block, whatever buffer it takes, and keeps the lists of the
  cache, the marks and the agreement of the unmarked buffers with the disk; a clean buffer that is reused loses nothing.\<close>

theorem write_block_correct:
  assumes ok: "cache_ok s F H" "coherent sect s" and ready: "getblk_ready s F H dev blk"
  shows "\<exists>s' F' H'. write_block dev blk data s = Some (Inr 1, s') \<and> cache_ok s' F' H' \<and> coherent sect s' \<and>
    block_data sect s' = (\<lambda>d k. if d = dev \<and> k = blk then data else block_data sect s d k)"
proof -
  obtain b s1 F1 H1 where g: "getblk dev blk s = Some (Got b, s1)" "cache_ok s1 F1 H1" "granted s s1 dev blk b" "b \<in> set (H1 (hash_of blk))"
    by (rule getblk_granted[OF ok(1) ready]) blast
  note gc = granted_contents[OF ok(1) g(2,3) ok(2)]
  have b1: "b < MAX_BUFFERS" "busy (buffers s1 b)" "device (buffers s1 b) = dev" "blockno (buffers s1 b) = blk" using g(3) by (simp_all add: granted_def)
  define s2 where "s2 = set_buf b (\<lambda>x. x\<lparr>buff := data, flags := flags x OR BUFF_WRITEDELAY OR BUFF_DATAVALID\<rparr>) s1"
  have d: "data_frame b s1 s2" "floppy s2 = floppy s1" by (auto simp: s2_def set_buf_def data_frame_def fun_eq_iff)
  have e: "blockno (buffers s2 b) = blk" "device (buffers s2 b) = dev" "busy (buffers s2 b)" "valid (buffers s2 b)" "delayed (buffers s2 b)" "buff (buffers s2 b) = data"
    using b1 by (simp_all add: s2_def set_buf_def)
  have c: "bdata (buffers s2 c) = bdata (buffers s1 c)" if "c \<noteq> b" for c using d(1) that by (simp add: data_frame_def)
  have ok2: "cache_ok s2 F1 H1" by (rule cache_ok_data[OF g(2) _ d(1)]) (use g(4) e b1 in auto)
  have bd: "block_data sect s2 d k = (if d = dev \<and> k = blk then data else block_data sect s1 d k)" for d k
    using block_data_write[OF ok2 b1(1) _ b1(3,4) c d(2)] e by (simp add: holds_def)
  have co: "coherent sect s2" using gc(1) c e(5) d(2) unfolding coherent_def bdata_eq by metis
  have r: "cache_ok (brelease b s2) (F1 @ [b]) H1" "same_contents s2 (brelease b s2)" using brelease_ok[OF ok2 b1(1) e(3)] e(4) by simp_all
  have "write_block dev blk data s = Some (Inr 1, brelease b s2)" using g(1) by (simp add: write_block_def s2_def)
  moreover have "block_data sect (brelease b s2) = (\<lambda>d k. if d = dev \<and> k = blk then data else block_data sect s d k)"
    using same_contentsD(1)[OF r(2)] bd gc(2) by (simp add: fun_eq_iff)
  ultimately show ?thesis using r same_contentsD(2)[OF r(2)] co by blast
qed

text \<open>What is relied on of the floppy driver (\<^verbatim>\<open>floppy_read\<close> and \<^verbatim>\<open>floppy_write\<close> of \<^verbatim>\<open>base/fdc.c\<close> return a
  negative value on failure): a read request that succeeds leaves the sector in the buffer, a write request that succeeds
  leaves the data in the sector, and no write request changes another sector. Nothing is said of the sector after a failed
  write.\<close>

definition device_reads :: "('d \<Rightarrow> int \<Rightarrow> u32 \<Rightarrow> int \<times> u8 list) \<Rightarrow> ('d \<Rightarrow> int \<Rightarrow> u32 \<Rightarrow> u8 list) \<Rightarrow> bool" where
  "device_reads rd sect \<longleftrightarrow> (\<forall>f d k. 0 \<le> fst (rd f d k) \<longrightarrow> snd (rd f d k) = sect f d k)"

definition device_writes :: "('d \<Rightarrow> int \<Rightarrow> u32 \<Rightarrow> u8 list \<Rightarrow> int \<times> 'd) \<Rightarrow> ('d \<Rightarrow> int \<Rightarrow> u32 \<Rightarrow> u8 list) \<Rightarrow> bool" where
  "device_writes wr sect \<longleftrightarrow> (\<forall>f d k x. (0 \<le> fst (wr f d k x) \<longrightarrow> sect (snd (wr f d k x)) d k = x) \<and>
     (\<forall>d' k'. (d', k') \<noteq> (d, k) \<longrightarrow> sect (snd (wr f d k x)) d' k' = sect f d' k'))"

text \<open>The state after the read request of \<^verbatim>\<open>bread\<close>.\<close>

definition filled :: "('d \<Rightarrow> int \<Rightarrow> u32 \<Rightarrow> int \<times> u8 list) \<Rightarrow> int \<Rightarrow> u32 \<Rightarrow> nat \<Rightarrow> 'd cache \<Rightarrow> 'd cache" where
  "filled rd dev blk b s = (case rd (floppy s) dev blk of (status, data) \<Rightarrow>
     set_buf b (\<lambda>x. if status \<ge> 0 then x\<lparr>buff := data, flags := flags x OR BUFF_DATAVALID, io_status := 0\<rparr>
                    else x\<lparr>buff := data, io_status := status\<rparr>) s)"

lemma filled_ok:
  assumes ok: "cache_ok s F H" "coherent sect s" and dev: "device_reads rd sect"
    and b: "b < MAX_BUFFERS" "b \<in> set (H h)" "device (buffers s b) = dev" "blockno (buffers s b) = blk" "\<not> valid (buffers s b)"
  defines "s' \<equiv> filled rd dev blk b s" and "st \<equiv> fst (rd (floppy s) dev blk)"
  shows "cache_ok s' F H" "coherent sect s'" "block_data sect s' = block_data sect s" "valid (buffers s' b) \<longleftrightarrow> 0 \<le> st"
    "0 \<le> st \<Longrightarrow> buff (buffers s' b) = block_data sect s dev blk" "io_status (buffers s' b) = 0 \<longleftrightarrow> 0 \<le> st" "busy (buffers s' b) = busy (buffers s b)"
proof -
  obtain st0 x where r: "rd (floppy s) dev blk = (st0, x)" by (cases "rd (floppy s) dev blk")
  have st: "st = st0" by (simp add: st_def r)
  have nd: "\<not> delayed (buffers s b)" using cache_okD(7)[OF ok(1) b(1)] b(5) by blast
  have d: "data_frame b s s'" "floppy s' = floppy s" by (auto simp: s'_def filled_def r set_buf_def data_frame_def fun_eq_iff)
  have e: "blockno (buffers s' b) = blk" "device (buffers s' b) = dev" "busy (buffers s' b) = busy (buffers s b)" "valid (buffers s' b) \<longleftrightarrow> 0 \<le> st"
    "\<not> delayed (buffers s' b)" "buff (buffers s' b) = x" "io_status (buffers s' b) = 0 \<longleftrightarrow> 0 \<le> st"
    using b(3-5) nd by (auto simp: s'_def filled_def r st set_buf_def)
  have c: "bdata (buffers s' c) = bdata (buffers s c)" if "c \<noteq> b" for c using d(1) that by (simp add: data_frame_def)
  show ok': "cache_ok s' F H" by (rule cache_ok_data[OF ok(1) _ d(1)]) (use b e in auto)
  have x: "x = sect (floppy s) dev blk" if "0 \<le> st" using dev that r st unfolding device_reads_def by (metis fst_conv snd_conv)
  have no: "\<not> holds s dev blk y" if y: "y < MAX_BUFFERS" for y
  proof
    assume h: "holds s dev blk y"
    then have "y \<in> set (H (hash_of blk))" using valid_hashed[OF ok(1) y] by (simp add: holds_def)
    moreover have "b \<in> set (H (hash_of blk))" using b(2,4) cache_okD(4)[OF ok(1)] by blast
    ultimately have "y = b" using cache_okD(5)[OF ok(1)] h b(3,4) unfolding holds_def by metis
    then show False using h b(5) by (simp add: holds_def)
  qed
  then have bd: "block_data sect s dev blk = sect (floppy s) dev blk" by (rule block_data_free)
  show "coherent sect s'" using ok(2) c e(1,2,4,6) d(2) x unfolding coherent_def bdata_eq by metis
  show "block_data sect s' = block_data sect s"
  proof (cases "0 \<le> st")
    case True
    then show ?thesis using block_data_write[OF ok' b(1) _ b(3,4) c d(2)] e x bd by (auto simp: holds_def fun_eq_iff)
  next
    case False
    have "holds s' d k y = holds s d k y" for d k y
    proof (cases "y = b")
      case True
      then show ?thesis using False e(4) b(5) by (simp add: holds_def)
    qed (rule holds_cong[OF c])
    then have h: "holds s' d k = holds s d k" for d k by blast
    have "buff (buffers s' y) = buff (buffers s y)" if "find (holds s d k) [0..<MAX_BUFFERS] = Some y" for d k y
    proof -
      have "valid (buffers s y)" using that by (auto simp: find_Some_iff holds_def)
      then have "y \<noteq> b" using b(5) by blast
      then show ?thesis using c by (simp add: bdata_eq)
    qed
    then show ?thesis unfolding block_data_def h d(2) by (auto simp: fun_eq_iff split: option.split)
  qed
  show "valid (buffers s' b) \<longleftrightarrow> 0 \<le> st" "io_status (buffers s' b) = 0 \<longleftrightarrow> 0 \<le> st" "busy (buffers s' b) = busy (buffers s b)" by (fact e)+
  show "0 \<le> st \<Longrightarrow> buff (buffers s' b) = block_data sect s dev blk" using e(6) x bd by simp
qed

text \<open>C10: \<^verbatim>\<open>read_block\<close> returns the contents of the named block, from a valid buffer or from the disk, changes the contents of no
  block and keeps the cache consistent; when the disk cannot be read it returns \<^verbatim>\<open>EDISK_READ\<close>.\<close>

theorem read_block_correct:
  assumes ok: "cache_ok s F H" "coherent sect s" and ready: "getblk_ready s F H dev blk" and dev: "device_reads rd sect"
    and io: "\<And>b. b < MAX_BUFFERS \<Longrightarrow> holds s dev blk b \<Longrightarrow> io_status (buffers s b) = 0" and spare: "2 \<le> length F"
  shows "\<exists>s' F' H'. read_block rd dev blk s =
      Some (Inr (if (\<exists>b < MAX_BUFFERS. holds s dev blk b) \<or> 0 \<le> fst (rd (floppy s) dev blk) then (1, Some (block_data sect s dev blk)) else (- 33, None)), s') \<and>
    cache_ok s' F' H' \<and> coherent sect s' \<and> block_data sect s' = block_data sect s"
proof -
  obtain b s1 F1 H1 where g: "getblk dev blk s = Some (Got b, s1)" "cache_ok s1 F1 H1" "granted s s1 dev blk b" "b \<in> set (H1 (hash_of blk))"
    "length F1 = length F - 1" by (rule getblk_granted[OF ok(1) ready]) blast
  note gc = granted_contents[OF ok(1) g(2,3) ok(2)]
  have b1: "b < MAX_BUFFERS" "busy (buffers s1 b)" "device (buffers s1 b) = dev" "blockno (buffers s1 b) = blk" "floppy s1 = floppy s"
    "io_status (buffers s1 b) = io_status (buffers s b)" using g(3) by (simp_all add: granted_def rest_same_def)
  have F1: "F1 \<noteq> []" using g(5) spare by auto
  show ?thesis
  proof (cases "valid (buffers s1 b)")
    case True
    then have h: "holds s1 dev blk b" using b1 by (simp add: holds_def)
    from granted_holds[OF g(3) h] have hs: "holds s dev blk b" "buff (buffers s1 b) = buff (buffers s b)" by blast+
    then have "buff (buffers s1 b) = block_data sect s dev blk" "io_status (buffers s1 b) = 0"
      using block_data_held[OF ok(1) b1(1) hs(1)] io[OF b1(1) hs(1)] b1(6) by simp_all
    then have "read_block rd dev blk s = Some (Inr (1, Some (block_data sect s dev blk)), brelease b s1)"
      using g(1) True by (simp add: read_block_def bread_def)
    moreover have r: "cache_ok (brelease b s1) (F1 @ [b]) H1" "same_contents s1 (brelease b s1)" using brelease_ok[OF g(2) b1(1,2)] True by simp_all
    moreover have "\<exists>b < MAX_BUFFERS. holds s dev blk b" using hs(1) b1(1) by blast
    ultimately show ?thesis using same_contentsD[OF r(2)] gc by auto
  next
    case False
    let ?s = "filled rd dev blk b s1"
    note f = filled_ok[OF g(2) gc(1) dev b1(1) g(4) b1(3,4) False]
    have "\<not> (\<exists>b < MAX_BUFFERS. holds s dev blk b)" using g(3) False by (auto simp: granted_def)
    moreover have "bread rd dev blk s = Some (Got b, ?s)" using g(1) False b1(5) by (simp add: bread_def filled_def split: prod.split)
    ultimately have rb: "read_block rd dev blk s = Some (Inr (if (\<exists>b < MAX_BUFFERS. holds s dev blk b) \<or> 0 \<le> fst (rd (floppy s) dev blk)
        then (1, Some (block_data sect s dev blk)) else (- 33, None)), brelease b ?s)"
      using f(5,6) b1(5) gc(2) by (simp add: read_block_def Let_def)
    have r: "cache_ok (brelease b ?s) (if valid (buffers ?s b) then F1 @ [b] else b # F1) H1" "same_contents ?s (brelease b ?s)"
      using brelease_ok[OF f(1) b1(1)] f(7) b1(2) F1 by blast+
    show ?thesis by (intro exI conjI, rule rb, rule r(1)) (simp_all only: same_contentsD[OF r(2)] f(2,3) gc(2))
  qed
qed

section \<open>Flushing\<close>

text \<open>A sequence of write requests: the statuses and the device after them.\<close>

fun write_all :: "('d \<Rightarrow> int \<Rightarrow> u32 \<Rightarrow> u8 list \<Rightarrow> int \<times> 'd) \<Rightarrow> 'd \<Rightarrow> ((int \<times> u32) \<times> u8 list) list \<Rightarrow> int list \<times> 'd" where
  "write_all wr f [] = ([], f)"
| "write_all wr f (((d, k), x) # ws) =
     (let r = wr f d k x; rs = write_all wr (snd r) ws in (fst r # fst rs, snd rs))"

text \<open>The blocks and data of the marked buffers among \<open>is\<close>, and the blocks whose request fails when all marked buffers are
  written in order.\<close>

definition marked_among :: "'d cache \<Rightarrow> nat list \<Rightarrow> ((int \<times> u32) \<times> u8 list) list" where
  "marked_among s is = map (\<lambda>i. ((device (buffers s i), blockno (buffers s i)), buff (buffers s i))) (filter (\<lambda>i. delayed (buffers s i)) is)"

abbreviation marked :: "'d cache \<Rightarrow> ((int \<times> u32) \<times> u8 list) list" where
  "marked s \<equiv> marked_among s [0..<MAX_BUFFERS]"





text \<open>The data of the buffers is as before.\<close>

definition same_data :: "'d cache \<Rightarrow> 'd cache \<Rightarrow> bool" where
  "same_data s s' \<longleftrightarrow> (\<forall>c. device (buffers s' c) = device (buffers s c) \<and> blockno (buffers s' c) = blockno (buffers s c) \<and>
     buff (buffers s' c) = buff (buffers s c) \<and> valid (buffers s' c) = valid (buffers s c))"


text \<open>No buffer is in use and none waits in the write queue.\<close>

definition quiet :: "'d cache \<Rightarrow> bool" where
  "quiet s \<longleftrightarrow> (\<forall>b < MAX_BUFFERS. \<not> busy (buffers s b)) \<and> delayed_write_q_head s = None"

lemma flush_one_ok:
  assumes ok: "cache_ok s F H" "quiet s" and i: "i < MAX_BUFFERS" "delayed (buffers s i)"
  obtains s' F' where "flush_one wr i s = Some (None, s')" "cache_ok s' F' H" "quiet s'" "same_data s s'"
    "floppy s' = snd (wr (floppy s) (device (buffers s i)) (blockno (buffers s i)) (buff (buffers s i)))"
    "\<forall>c. delayed (buffers s' c) \<longleftrightarrow> delayed (buffers s c) \<and> c \<noteq> i"
proof -
  let ?d = "device (buffers s i)" and ?k = "blockno (buffers s i)"
  have v: "valid (buffers s i)" using cache_okD(7)[OF ok(1) i] .
  have h: "i \<in> set (H (hash_of ?k))" by (rule valid_hashed[OF ok(1) i(1) v])
  have nb: "\<not> busy (buffers s i)" using ok(2) i(1) by (simp add: quiet_def)
  obtain s1 where g: "getblk ?d ?k s = Some (Got i, s1)" "cache_ok s1 (remove1 i F) H" "granted s s1 ?d ?k i"
    by (rule getblk_hit[OF ok(1) h refl refl nb])
  have g1: "busy (buffers s1 i)" "device (buffers s1 i) = ?d" "blockno (buffers s1 i) = ?k" "delayed_write_q_head s1 = None"
    "valid (buffers s1 i)" "delayed (buffers s1 i)" "floppy s1 = floppy s"
    using g(3) ok(2) i v by (auto simp: granted_def rest_same_def quiet_def holds_def split: if_splits)
  have gb: "buff (buffers s1 i) = buff (buffers s i)" using granted_holds[OF g(3)] g1(2,3,5) by (simp add: holds_def)
  have o: "bdata (buffers s1 c) = bdata (buffers s c)" if "c \<noteq> i" for c using g(3) that by (simp add: granted_def)
  define s2 where "s2 = set_buf i (\<lambda>x. x\<lparr>flags := flags x AND NOT BUFF_WRITEDELAY\<rparr>)
      (s1\<lparr>floppy := snd (wr (floppy s1) (device (buffers s1 i)) (blockno (buffers s1 i)) (buff (buffers s1 i)))\<rparr>)"
  have D: "blockno (buffers s2 c) = blockno (buffers s1 c)" "device (buffers s2 c) = device (buffers s1 c)" "buff (buffers s2 c) = buff (buffers s1 c)"
    "busy (buffers s2 c) = busy (buffers s1 c)" "valid (buffers s2 c) = valid (buffers s1 c)" "delayed (buffers s2 c) \<longleftrightarrow> delayed (buffers s1 c) \<and> c \<noteq> i" for c
    by (auto simp: s2_def set_buf_def)
  have df: "data_frame i s1 s2" by (auto simp: s2_def set_buf_def data_frame_def fun_eq_iff)
  have ok2: "cache_ok s2 (remove1 i F) H" by (rule cache_ok_data[OF g(2) _ df]) (use i h D g1 in auto)
  have fl: "floppy s2 = snd (wr (floppy s) ?d ?k (buff (buffers s i)))" "delayed_write_q_head s2 = None" using g1 gb by (simp_all add: s2_def set_buf_def)
  have bv: "busy (buffers s2 i)" "valid (buffers s2 i)" using D g1 by blast+
  note r = brelease_ok[OF ok2 i(1) bv(1) disjI1[OF bv(2)]]
  have e: "flush_one wr i s = Some (None, brelease i s2)" using g(1) by (simp add: flush_one_def Let_def s2_def)
  have o1: "flags (buffers s1 c) = flags (buffers s c)" "device (buffers s1 c) = device (buffers s c)" "blockno (buffers s1 c) = blockno (buffers s c)"
    "buff (buffers s1 c) = buff (buffers s c)" if "c \<noteq> i" for c using o[OF that] by (simp_all add: bdata_eq)
  have q: "quiet (brelease i s2)" unfolding quiet_def r(3,5) D(4) using fl(2) ok(2) o1(1) unfolding quiet_def by metis
  have sc: "device (buffers (brelease i s2) c) = device (buffers s2 c)" "blockno (buffers (brelease i s2) c) = blockno (buffers s2 c)"
    "buff (buffers (brelease i s2) c) = buff (buffers s2 c)" "valid (buffers (brelease i s2) c) = valid (buffers s2 c)"
    "delayed (buffers (brelease i s2) c) = delayed (buffers s2 c)" "floppy (brelease i s2) = floppy s2" for c
    using r(2) unfolding same_contents_def by blast+
  have "same_data s (brelease i s2)" unfolding same_data_def sc D using g1 gb v o1 by metis
  moreover have "\<forall>c. delayed (buffers (brelease i s2) c) \<longleftrightarrow> delayed (buffers s c) \<and> c \<noteq> i" unfolding sc D using o1(1) by metis
  ultimately show ?thesis using that[OF e r(1) q] fl(1) sc(6) by simp
qed

lemma flush_marked_ok:
  assumes "cache_ok s F H" "quiet s" "set is \<subseteq> {..<MAX_BUFFERS}" "distinct is"
  shows "\<exists>s' F'. flush_marked wr is s = Some (None, s') \<and> cache_ok s' F' H \<and> same_data s s' \<and>
    floppy s' = snd (write_all wr (floppy s) (marked_among s is)) \<and> (\<forall>c. delayed (buffers s' c) \<longleftrightarrow> delayed (buffers s c) \<and> c \<notin> set is)"
  using assms
proof (induction "is" arbitrary: s F)
  case Nil
  then show ?case by (auto simp: same_data_def marked_among_def)
next
  case (Cons i js)
  show ?case
  proof (cases "delayed (buffers s i)")
    case True
    have "i < MAX_BUFFERS" using Cons.prems(3) by simp
    then obtain s1 F1 where o: "flush_one wr i s = Some (None, s1)" "cache_ok s1 F1 H" "quiet s1" "same_data s s1"
      "floppy s1 = snd (wr (floppy s) (device (buffers s i)) (blockno (buffers s i)) (buff (buffers s i)))"
      "\<forall>c. delayed (buffers s1 c) \<longleftrightarrow> delayed (buffers s c) \<and> c \<noteq> i" by (rule flush_one_ok[OF Cons.prems(1,2) _ True])
    have "marked_among s1 js = marked_among s js" using o(4,6) Cons.prems(4) unfolding marked_among_def
      by (intro map_cong filter_cong) (auto simp: same_data_def)
    then have m: "snd (write_all wr (floppy s) (marked_among s (i # js))) = snd (write_all wr (floppy s1) (marked_among s1 js))"
      using True o(5) by (simp add: marked_among_def Let_def)
    obtain s' F' where r: "flush_marked wr js s1 = Some (None, s')" "cache_ok s' F' H" "same_data s1 s'"
      "floppy s' = snd (write_all wr (floppy s1) (marked_among s1 js))" "\<forall>c. delayed (buffers s' c) \<longleftrightarrow> delayed (buffers s1 c) \<and> c \<notin> set js"
      using Cons.IH[OF o(2,3)] Cons.prems(3,4) by auto
    have "same_data s s'" using o(4) r(3) by (simp add: same_data_def)
    moreover have "flush_marked wr (i # js) s = Some (None, s')" using True o(1) r(1) by simp
    ultimately show ?thesis using r(2,4,5) o(6) m by auto
  next
    case False
    then have "marked_among s (i # js) = marked_among s js" by (simp add: marked_among_def)
    then show ?thesis using Cons.IH[OF Cons.prems(1,2)] Cons.prems(3,4) False by auto
  qed
qed

lemma flush_buffers_spec:
  assumes "cache_ok s F H" "quiet s"
  obtains s' F' where "flush_buffers wr s = Some (None, s')" "cache_ok s' F' H" "same_data s s'"
    "floppy s' = snd (write_all wr (floppy s) (marked s))" "marked s' = []"
proof -
  let ?s = "s\<lparr>delayed_write_q_head := None, delayed_write_q_tail := None\<rparr>"
  have "cache_ok ?s F H = cache_ok s F H" by (simp add: cache_ok_def hash_lists_def)
  then have "cache_ok ?s F H" "quiet ?s" "set [0..<MAX_BUFFERS] \<subseteq> {..<MAX_BUFFERS}" "distinct [0..<MAX_BUFFERS]"
    using assms by (auto simp: quiet_def)
  from flush_marked_ok[OF this, of wr] obtain s' F' where m: "flush_marked wr [0..<MAX_BUFFERS] ?s = Some (None, s')" "cache_ok s' F' H"
    "same_data ?s s'" "floppy s' = snd (write_all wr (floppy ?s) (marked ?s))" "\<forall>c. delayed (buffers s' c) \<longleftrightarrow> delayed (buffers ?s c) \<and> c \<notin> set [0..<MAX_BUFFERS]"
    by blast
  have "flush_buffers wr s = Some (None, s')" using m(1) assms(2) by (simp add: flush_buffers_def quiet_def flush_queue.simps)
  moreover have "same_data s s'" using m(3) by (simp add: same_data_def)
  moreover have "floppy s' = snd (write_all wr (floppy s) (marked s))" using m(4) by (simp add: marked_among_def)
  moreover have "marked s' = []" using m(5) by (simp add: marked_among_def)
  ultimately show ?thesis using that m(2) by blast
qed





text \<open>With a device that fails every request, \<^verbatim>\<open>flush_buffers\<close> still clears all marks: the data is then only in buffers
  that the next \<^verbatim>\<open>getblk\<close> may reuse.\<close>

lemma flush_ignores_failure:
  assumes "cache_ok s F H" "quiet s"
  shows "\<exists>s'. flush_buffers (\<lambda>f d k x. (- 1, f)) s = Some (None, s') \<and> floppy s' = floppy s \<and> marked s' = []"
proof -
  have "snd (write_all (\<lambda>f d k x. (- 1, f)) f ws) = f" for f :: 'a and ws
  proof (induction ws)
    case (Cons w ws)
    obtain d k x where "w = ((d, k), x)" by (metis prod.exhaust)
    then show ?case using Cons by (simp add: Let_def)
  qed simp
  then show ?thesis using flush_buffers_spec[OF assms, of "\<lambda>f d k x. (- 1, f)"] by metis
qed

section \<open>The cache at boot\<close>

lemma free_list_upto:
  assumes "\<And>i. i < n \<Longrightarrow> nx i = (if i < n - 1 then Some (i + 1) else None)" "\<And>i. i < n \<Longrightarrow> pv i = (if i > 0 then Some (i - 1) else None)" "0 < n"
  shows "dll nx pv (Some 0) [0..<n] (Some (n - 1))"
proof -
  have "dls nx pv (if k > 0 then Some (k - 1) else None) (Some k) [k..<n] (Some (n - 1)) None" if "k < n" for k
    using that
  proof (induction "n - k" arbitrary: k rule: less_induct)
    case less
    then have u: "[k..<n] = k # [Suc k..<n]" by (simp add: upt_conv_Cons)
    show ?case
    proof (cases "Suc k < n")
      case True
      then have "dls nx pv (Some k) (Some (Suc k)) [Suc k..<n] (Some (n - 1)) None" using less.hyps[of "Suc k"] less.prems by simp
      moreover have "k < n - 1" using True by simp
      ultimately show ?thesis using assms(1,2)[OF less.prems] by (simp add: u)
    next
      case False
      then have "n = Suc k" using less.prems by simp
      then show ?thesis using assms(1,2)[OF less.prems] by simp
    qed
  qed
  from this[of 0] assms(3) show ?thesis by (simp add: dll_def)
qed

lemma initialize_buffer_cache_ok:
  fixes s :: "'d cache"
  defines "s' \<equiv> initialize_buffer_cache s"
  shows "cache_ok s' [0..<MAX_BUFFERS] (\<lambda>_. [])" "coherent sect s'" "block_data sect s' = sect (floppy s)" "quiet s'"
proof -
  have b: "buffers s' i = init_buffer i (buffers s i)" if "i < MAX_BUFFERS" for i using that by (simp add: s'_def initialize_buffer_cache_def)
  have fl: "\<not> valid (buffers s' i)" "\<not> busy (buffers s' i)" "\<not> delayed (buffers s' i)" if "i < MAX_BUFFERS" for i
    using b[OF that] by (simp_all add: init_buffer_def)
  have h: "free_buff_list_head s' = Some 0" "free_buff_list_tail s' = Some (MAX_BUFFERS - 1)" "hash_queue_buffers s' = (\<lambda>_. None)" "floppy s' = floppy s"
    "delayed_write_q_head s' = None" by (simp_all add: s'_def initialize_buffer_cache_def)
  have f: "free_list s' [0..<MAX_BUFFERS]" unfolding h
    by (rule free_list_upto) (auto simp: b init_buffer_def MAX_BUFFERS_def)
  have "dl_queues (hnext s') (hprev s') (hash_queue_buffers s') (\<lambda>_. None) (\<lambda>_. [])" by (simp add: dl_queues_def h)
  then have hl: "hash_lists s' (\<lambda>_. [])" unfolding hash_lists_def by blast
  show "cache_ok s' [0..<MAX_BUFFERS] (\<lambda>_. [])"
    by (rule cache_okI) (use f hl fl b in \<open>auto simp: init_buffer_def\<close>)
  show "coherent sect s'" using fl by (simp add: coherent_def)
  have "\<not> holds s' d k i" if "i < MAX_BUFFERS" for d k i using fl(1)[OF that] by (simp add: holds_def)
  then show "block_data sect s' = sect (floppy s)" using block_data_free[of s' _ _ sect] h(4) by (simp add: fun_eq_iff)
  show "quiet s'" using fl h by (simp add: quiet_def)
qed

section \<open>Defects\<close>

lemma hash_search_loop:
  assumes "hash_q_next (bs b) = Some b" "\<not> (device (bs b) = dev \<and> blockno (bs b) = blk)"
  shows "hash_search bs dev blk (Some b) = None"
proof (rule ccontr)
  assume "hash_search bs dev blk (Some b) \<noteq> None"
  then obtain y where y: "hash_search bs dev blk (Some b) = Some y" by blast
  have "bs' = bs \<and> p = Some b \<and> dev' = dev \<and> blk' = blk \<longrightarrow> False" if "hash_search bs' dev' blk' p = Some y" for bs' dev' blk' p
    by (rule hash_search.raw_induct[OF _ that]) (use assms in \<open>fastforce split: if_splits\<close>)
  then show False using y by blast
qed

text \<open>C40: \<^verbatim>\<open>delete_from_hashlist\<close> takes a buffer that is alone on its chain for one that is on no chain. When such a buffer is
  reused for a block with the same hash number it becomes its own successor, and the next search of the chain for another block does
  not end.\<close>

theorem recycled_chain_hangs:
  assumes ok: "cache_ok s (b # F) H" and clean: "\<not> delayed (buffers s b)" and alone: "H h = [b]" "hash_of blk = h" "hash_of blk2 = h"
    and new: "\<not> (device (buffers s b) = dev \<and> blockno (buffers s b) = blk)" "(dev2, blk2) \<noteq> (dev, blk)"
  shows "\<exists>s'. getblk dev blk s = Some (Got b, s') \<and> getblk dev2 blk2 s' = None"
proof -
  have hb: "hash_queue_buffers s h = Some b" "hnext s b = None" "hprev s b = None"
  proof -
    obtain qt where "dl_queues (hnext s) (hprev s) (hash_queue_buffers s) qt H" using cache_okD(2)[OF ok] by (auto simp: hash_lists_def)
    from dl_queuesD[OF this, of h] show "hash_queue_buffers s h = Some b" "hnext s b = None" "hprev s b = None" by (auto simp: alone(1) dll_def)
  qed
  have f: "hash_search (buffers s) dev blk (hash_queue_buffers s (hash_of blk)) = Some None"
    using hash_search_ok[OF cache_okD(2)[OF ok], of dev blk h] alone new(1) by simp
  have hd: "free_buff_list_head s = Some b" using dll_head[OF cache_okD(1)[OF ok]] by simp
  obtain s1 where s1: "delete_from_freelist b s = Some s1" "free_frame s s1" using delete_from_freelist_ok[OF cache_okD(1)[OF ok], of b] by auto
  have e: "hnext s1 b = None" "hprev s1 b = None" "hash_queue_buffers s1 = hash_queue_buffers s" "flags (buffers s1 b) = flags (buffers s b)"
    using s1(2) hb by (auto simp: free_frame_def fun_eq_iff bdata_eq)
  define s' where "s' = enqueue_to_hashlist h b (set_buf b (reassign dev blk) s1)"
  have "getblk_round dev blk s = Some (Got b, s')"
    using f hd s1(1) clean e delete_unhashed[OF e(1,2)] alone(2) by (simp add: getblk_round_def s'_def Let_def)
  then have g: "getblk dev blk s = Some (Got b, s')" by (subst getblk.simps) simp
  have l: "hash_q_next (buffers s' b) = Some b" "hash_queue_buffers s' h = Some b" "device (buffers s' b) = dev" "blockno (buffers s' b) = blk"
    using e(3) hb(1) by (simp_all add: s'_def enqueue_to_hashlist_def Let_def set_buf_def reassign_def)
  have "hash_search (buffers s') dev2 blk2 (Some b) = None" by (rule hash_search_loop) (use l new(2) in auto)
  then have "getblk_round dev2 blk2 s' = None" using l(2) alone(3) by (simp add: getblk_round_def)
  then have "getblk dev2 blk2 s' = None" by (subst getblk.simps) simp
  with g show ?thesis by blast
qed

text \<open>A marked buffer at the front of the free list is moved to the write queue, but the next \<^verbatim>\<open>getblk\<close> of its block, as by
  \<^verbatim>\<open>flush_buffers\<close>, takes it off the free list again and stores through a null pointer.\<close>

lemma queued_buffer_null:
  assumes ok: "cache_ok s (b # c # F) H" and dirty: "delayed (buffers s b)"
    and new: "\<forall>x \<in> set (H (hash_of blk)). \<not> (device (buffers s x) = dev \<and> blockno (buffers s x) = blk)"
  shows "\<exists>s'. getblk_round dev blk s = Some (Again, s') \<and> getblk (device (buffers s b)) (blockno (buffers s b)) s' = None"
proof -
  let ?d = "device (buffers s b)" and ?k = "blockno (buffers s b)"
  have bl: "b < MAX_BUFFERS" "\<not> busy (buffers s b)" using cache_okD(3)[OF ok, of b] by auto
  have "find (\<lambda>b. device (buffers s b) = dev \<and> blockno (buffers s b) = blk) (H (hash_of blk)) = None" using new by (auto simp: find_None_iff)
  then have f: "hash_search (buffers s) dev blk (hash_queue_buffers s (hash_of blk)) = Some None"
    using hash_search_ok[OF cache_okD(2)[OF ok], of dev blk "hash_of blk"] by simp
  have fl: "free_list s (b # c # F)" by (rule cache_okD(1)[OF ok])
  have hd: "free_buff_list_head s = Some b" "b \<noteq> c" "fprev s b = None" using dll_head[OF fl] fl by (auto simp: dll_def)
  obtain s1 where s1: "delete_from_freelist b s = Some s1" "free_list s1 (c # F)" "free_frame s s1"
    using delete_from_freelist_ok[OF fl, of b] by auto
  have p: "free_list_prev (buffers s1 b) = None"
    using s1(1) hd dll_neighbours(2)[OF fl, of b] by (auto simp: delete_from_freelist_def Let_def set_buf_def split: if_splits)
  let ?s = "append_to_write_queue b s1"
  have e: "bdata (buffers ?s x) = bdata (buffers s x)" "hnext ?s = hnext s" "hprev ?s = hprev s" "hash_queue_buffers ?s = hash_queue_buffers s"
    "free_buff_list_head ?s = Some c" "free_list_prev (buffers ?s b) = None" for x
    using s1(3) p dll_head[OF s1(2)]
    by (auto simp: append_to_write_queue_def Let_def set_buf_def free_frame_def bdata_eq fun_eq_iff split: option.split)
  have "getblk_round dev blk s = Some (Again, ?s)" using f hd(1) s1 dirty by (simp add: getblk_round_def free_frame_def bdata_eq)
  moreover have "getblk ?d ?k ?s = None"
  proof -
    have hl: "hash_lists ?s H" using cache_okD(2)[OF ok] unfolding hash_lists_def e .
    have bh: "b \<in> set (H (hash_of ?k))" using valid_hashed[OF ok bl(1) cache_okD(7)[OF ok bl(1) dirty]] .
    let ?P = "\<lambda>x. device (buffers ?s x) = ?d \<and> blockno (buffers ?s x) = ?k"
    have eb: "device (buffers ?s x) = device (buffers s x)" "blockno (buffers ?s x) = blockno (buffers s x)" "flags (buffers ?s x) = flags (buffers s x)" for x
      using e(1)[of x] by (simp_all add: bdata_eq)
    have "find ?P (H (hash_of ?k)) \<noteq> None" using bh eb by (auto simp: find_None_iff)
    then obtain x where x: "find ?P (H (hash_of ?k)) = Some x" by blast
    then have "x \<in> set (H (hash_of ?k))" "?P x" by (auto simp: find_Some_iff)
    then have "x = b" using cache_okD(5)[OF ok bh] eb by metis
    then have "hash_search (buffers ?s) ?d ?k (hash_queue_buffers ?s (hash_of ?k)) = Some (Some b)" using hash_search_ok[OF hl, of ?d ?k "hash_of ?k"] x by simp
    then have "getblk_round ?d ?k ?s = None" using bl(2) eb(3)[of b] e(5,6) hd(2)
      by (simp add: getblk_round_def delete_from_freelist_def set_buf_def Let_def)
    then show ?thesis by (subst getblk.simps) simp
  qed
  ultimately show ?thesis by blast
qed

text \<open>The tail of the write queue is set for the first buffer only: a third buffer replaces the second.\<close>

lemma write_queue_drops:
  assumes "delayed_write_q_tail s = None" "distinct [a, b, c]"
  defines "s' \<equiv> append_to_write_queue c (append_to_write_queue b (append_to_write_queue a s))"
  shows "delayed_write_q_head s' = Some a" "write_q_next (buffers s' a) = Some c" "write_q_next (buffers s' c) = None"
  using assms(1,2) by (simp_all add: s'_def append_to_write_queue_def Let_def set_buf_def)

section \<open>Witnesses\<close>

text \<open>A device that always succeeds, and a cache over it as it is at boot.\<close>

definition good_read :: "(int \<Rightarrow> u32 \<Rightarrow> u8 list) \<Rightarrow> int \<Rightarrow> u32 \<Rightarrow> int \<times> u8 list" where
  "good_read f d k = (0, f d k)"

definition good_write :: "(int \<Rightarrow> u32 \<Rightarrow> u8 list) \<Rightarrow> int \<Rightarrow> u32 \<Rightarrow> u8 list \<Rightarrow> int \<times> (int \<Rightarrow> u32 \<Rightarrow> u8 list)" where
  "good_write f d k x = (0, \<lambda>d' k'. if d' = d \<and> k' = k then x else f d' k')"

lemma good_device: "device_reads good_read id" "device_writes good_write id"
  by (auto simp: device_reads_def device_writes_def good_read_def good_write_def)

definition boot_cache :: "(int \<Rightarrow> u32 \<Rightarrow> u8 list) cache" where
  "boot_cache = initialize_buffer_cache \<lparr>buffers = (\<lambda>_. \<lparr>blockno = 0, hash_q_next = None, hash_q_prev = None, free_list_next = None,
       free_list_prev = None, write_q_next = None, buff = [], device = 0, flags = 0, io_status = 0\<rparr>),
     hash_queue_buffers = (\<lambda>_. None), free_buff_list_head = None, free_buff_list_tail = None, delayed_write_q_head = None,
     delayed_write_q_tail = None, woken = [], floppy = (\<lambda>_ _. replicate 512 7)\<rparr>"

lemma boot_cache_ok: "cache_ok boot_cache [0..<MAX_BUFFERS] (\<lambda>_. [])" "coherent id boot_cache" "quiet boot_cache"
  "block_data id boot_cache = (\<lambda>_ _. replicate 512 7)"
  unfolding boot_cache_def by (rule initialize_buffer_cache_ok)+ (simp_all only: initialize_buffer_cache_ok(3) cache.simps id_apply)

lemma boot_cache_ready: "getblk_ready boot_cache [0..<MAX_BUFFERS] (\<lambda>_. []) dev blk" "\<not> holds boot_cache dev blk b"
  by (simp_all add: boot_cache_def getblk_ready_def holds_def initialize_buffer_cache_def init_buffer_def MAX_BUFFERS_def upt_conv_Cons)

theorem write_block_correct_witness:
  "\<exists>s' F' H'. write_block 0 33 [1, 2, 3] boot_cache = Some (Inr 1, s') \<and> cache_ok s' F' H' \<and> coherent id s' \<and>
     block_data id s' 0 33 = [1, 2, 3] \<and> block_data id s' 0 34 = replicate 512 7"
  using write_block_correct[OF boot_cache_ok(1,2) boot_cache_ready(1), of 0 33 "[1, 2, 3]"] by (fastforce simp: boot_cache_ok(4))

theorem read_block_correct_witness:
  "\<exists>s'. read_block good_read 0 33 boot_cache = Some (Inr (1, Some (replicate 512 7)), s') \<and> block_data id s' = block_data id boot_cache"
proof -
  have "2 \<le> length [0..<MAX_BUFFERS]" by (simp add: MAX_BUFFERS_def)
  from read_block_correct[OF boot_cache_ok(1,2) boot_cache_ready(1) good_device(1) _ this, of 0 33]
  show ?thesis by (auto simp: boot_cache_ok(4) boot_cache_ready(2) good_read_def)
qed

text \<open>The cache with a first buffer that holds block 0 and is alone on its chain.\<close>

definition one_buffer :: "u8 \<Rightarrow> (int \<Rightarrow> u32 \<Rightarrow> u8 list) cache" where
  "one_buffer fl = set_buf 0 (\<lambda>x. x\<lparr>flags := fl, buff := [1, 2, 3]\<rparr>) (boot_cache\<lparr>hash_queue_buffers := (\<lambda>_. None)(0 := Some 0)\<rparr>)"

lemma one_buffer_ok:
  assumes "bit fl 1" "\<not> bit fl 0"
  shows "cache_ok (one_buffer fl) [0..<MAX_BUFFERS] ((\<lambda>_. [])(0 := [0]))"
proof -
  let ?s = "one_buffer fl" and ?H = "(\<lambda>_. [])(0 := [0]) :: nat \<Rightarrow> nat list"
  note ok = boot_cache_ok(1)
  have b: "fnext ?s = fnext boot_cache" "fprev ?s = fprev boot_cache" "hnext ?s = hnext boot_cache" "hprev ?s = hprev boot_cache"
    "free_buff_list_head ?s = free_buff_list_head boot_cache" "free_buff_list_tail ?s = free_buff_list_tail boot_cache"
    "hash_queue_buffers ?s = (\<lambda>_. None)(0 := Some 0)" by (auto simp: one_buffer_def set_buf_def fun_eq_iff)
  have fl: "flags (buffers ?s c) = (if c = 0 then fl else flags (buffers boot_cache c))" for c by (simp add: one_buffer_def set_buf_def)
  have hn: "hnext boot_cache c = None" "hprev boot_cache c = None" "\<not> valid (buffers boot_cache c)" if "c < MAX_BUFFERS" for c
    using cache_okD(6)[OF ok that] by simp_all
  have M: "0 < MAX_BUFFERS" by (simp add: MAX_BUFFERS_def)
  have b0: "blockno (buffers ?s c) = 0" if "c = 0" for c using that M by (simp add: one_buffer_def set_buf_def boot_cache_def initialize_buffer_cache_def init_buffer_def)
  have "dl_queues (hnext ?s) (hprev ?s) (hash_queue_buffers ?s) ((\<lambda>_. None)(0 := Some 0)) ?H"
    unfolding b using hn[OF M] by (auto simp: dl_queues_def dll_def)
  then have hl: "hash_lists ?s ?H" unfolding hash_lists_def by blast
  have "c \<in> set [0..<MAX_BUFFERS] \<longleftrightarrow> c < MAX_BUFFERS \<and> \<not> busy (buffers ?s c)" for c
    using cache_okD(3)[OF ok, of c] fl[of c] assms(2) M by auto
  moreover have "free_list ?s [0..<MAX_BUFFERS]" using cache_okD(1)[OF ok] unfolding b .
  moreover have "hnext ?s c = None \<and> hprev ?s c = None \<and> \<not> valid (buffers ?s c)" if c: "c < MAX_BUFFERS" "\<And>h. c \<notin> set (?H h)" for c
  proof -
    have "c \<noteq> 0" using c(2)[of 0] by auto
    then show ?thesis using hn[OF c(1)] fl[of c] fun_cong[OF b(3), of c] fun_cong[OF b(4), of c] by simp
  qed
  moreover have "valid (buffers ?s c)" if "c < MAX_BUFFERS" "delayed (buffers ?s c)" for c
    using that cache_okD(7)[OF ok that(1)] assms(1) by (cases "c = 0") (simp_all add: fl)
  ultimately show ?thesis by (intro cache_okI hl) (auto simp: M b0 hash_of_def split: if_splits)
qed

lemma one_buffer_id: "device (buffers (one_buffer fl) 0) = 0" "blockno (buffers (one_buffer fl) 0) = 0" "flags (buffers (one_buffer fl) 0) = fl"
  by (simp_all add: one_buffer_def set_buf_def boot_cache_def initialize_buffer_cache_def init_buffer_def MAX_BUFFERS_def)

lemma buffers_upto: "[0..<MAX_BUFFERS] = 0 # 1 # [2..<MAX_BUFFERS]"
proof -
  have "0 < MAX_BUFFERS" "1 < MAX_BUFFERS" by (simp_all add: MAX_BUFFERS_def)
  then show ?thesis by (simp add: upt_conv_Cons numeral_2_eq_2)
qed



theorem recycled_chain_hangs_witness:
  "\<exists>s'. getblk 0 7 (one_buffer 2) = Some (Got 0, s') \<and> getblk 0 14 s' = None"
proof -
  have "cache_ok (one_buffer 2) (0 # 1 # [2..<MAX_BUFFERS]) ((\<lambda>_. [])(0 := [0]))"
    unfolding buffers_upto[symmetric] by (rule one_buffer_ok) simp_all
  from recycled_chain_hangs[OF this, of 0 7 14 0 0] show ?thesis by (simp add: one_buffer_id hash_of_def BUFF_HASHNUMBER_def)
qed

lemma queued_buffer_null_example:
  "\<exists>s'. getblk_round 0 7 (one_buffer 6) = Some (Again, s') \<and> getblk 0 0 s' = None"
proof -
  have "cache_ok (one_buffer 6) (0 # 1 # [2..<MAX_BUFFERS]) ((\<lambda>_. [])(0 := [0]))"
    unfolding buffers_upto[symmetric] by (rule one_buffer_ok) (simp_all add: bit_numeral_rec)
  from queued_buffer_null[OF this, of 7 0] show ?thesis by (simp add: one_buffer_id hash_of_def BUFF_HASHNUMBER_def)
qed


end
