(* ===== verification/Spec2Isabelle.thy ===== *)
theory Spec2Isabelle
  imports Timers Strtol Datetime Kmalloc Umalloc Fat12 Buffer_Cache
begin

text \<open>
  A verification library for the ATOM kernel (\<^verbatim>\<open>src/base\<close>, \<^verbatim>\<open>src/include\<close>) and its C library (\<^verbatim>\<open>src/lib\<close>).

  \<^bold>\<open>The program.\<close>  ATOM is a small kernel for one x86 processor.  Threads wait on ready queues for the scheduler and on sleep queues
  for locks, events and semaphores; a thread that blocks on a lock lends its priority to the owner.  The clock interrupt counts down
  a queue of timers, and the timer thread runs what has expired and ages the ready threads.  Below the threads are the allocators of
  physical pages and of the kernel heap; above them a FAT12 file system on a floppy disk works through a cache of disk blocks.
  Programs are linked with a C library that has its own heap over \<^verbatim>\<open>brk\<close>, string functions, number conversion and a calendar.

  \<^bold>\<open>Conventions.\<close>  Structures are records, enumerations datatypes, unsigned integers words of their width; signed integers are
  \<open>int\<close> with the conversions written out (\<open>to_s16\<close>, \<open>to_s32\<close>, \<open>c_div\<close>).  A store of structures is a function from
  names or addresses to records.  The option value \<open>None\<close> of an operation means that it has no defined result: it reads or writes
  outside of an object, through a null pointer, or does not return.  Loops over pointers are \<open>partial_function (option)\<close>, so that a
  theorem that gives a result also says that the loop ends; there is no fuel anywhere.  Spin locks and the disabling of interrupts
  are no operations, since a step of the model is not interrupted; a call that blocks is split where it calls the scheduler.

  \<^bold>\<open>Shared ground.\<close>  \<open>Kernel_Prelude\<close>: integers, error codes, bounds.  \<open>Dlist_Heap\<close>: doubly linked lists in a store, with
  the locale \<open>dl_queue_store\<close> for a family of queues over shared links.  \<open>Chains\<close>: singly linked lists of structures by
  address.  \<open>Cluster_Table\<close>: chains of clusters in a table, with the locale \<open>cluster_table\<close>.

  \<^bold>\<open>Threads\<close> (\<^verbatim>\<open>base/lock.c\<close>, \<^verbatim>\<open>base/timer.c\<close>, \<^verbatim>\<open>base/process.c\<close>, \<^verbatim>\<open>base/semaphore.c\<close>).  \<open>Kernel_State\<close> has the
  state \<open>kern\<close> with threads, locks, events and queues, and interprets \<open>dl_queue_store\<close> for the queue macros of
  \<^verbatim>\<open>include/lock.h\<close>.  \<open>Scheduler\<close>: ready queues, \<open>scheduler\<close>, ageing, \<open>wakeup\<close>.  \<open>Locks\<close>: locks, recursive locks,
  events and \<open>lend_priority\<close>, with the kernel invariant \<open>ginv\<close>.  \<open>Timer_Queue\<close>: the list of timers with relative counts.
  \<open>Kernel_Steps\<close>: the step relation \<open>kstep\<close> over any sequence of operations on locks, recursive locks and events, event time-outs,
  ticks, ageing and scheduling; reachable states have consistent queues and owners, no step takes a lock from its owner, every
  operation returns there, and each has its functional description.  Semaphore and timer calls are not steps of \<open>kstep\<close>: what they
  do to the invariant is stated for each call, since a semaphore held by several threads breaks the lists of owned objects; neither is
  \<^verbatim>\<open>suspend\<close>, which breaks the ready queues.  \<open>Semaphores\<close>: the semaphore table and every call on it.
  \<open>Timers\<close>: clock interrupt, timer thread, sleeping; the locale \<open>timeout_client\<close> states what the timer
  thread needs of a handler, and is interpreted for the handlers of the sources, whose effect on threads and queues is part of the
  result (\<open>timers_handled\<close>).  The packet handler of the network code is a parameter that leaves the threads alone (\<open>packet_handler_ok\<close>).

  \<^bold>\<open>Memory\<close> (\<^verbatim>\<open>base/vmmap.c\<close>, \<^verbatim>\<open>lib/malloc.c\<close>).  \<open>Core_Memory\<close>: the list of free physical blocks; allocation and
  release take and give exactly the named pages.  \<open>Heap_Lists\<close>: the block lists that both heaps use.  \<open>Kmalloc\<close> and
  \<open>Umalloc\<close>: blocks handed out are disjoint from everything in use or available, release returns exactly the block; the system
  call behind the user heap is a parameter with its documented behaviour as hypothesis.

  \<^bold>\<open>Files\<close> (\<^verbatim>\<open>base/fat12.c\<close>, \<^verbatim>\<open>base/fs.c\<close>).  \<open>Fat12\<close>: the table of 12-bit entries as an array, allocation, freeing and
  extension of the chains of files, names and time stamps of directory entries.  \<open>Buffer_Cache\<close>: the lists of the cache and the
  refinement of \<open>read_block\<close>, \<open>write_block\<close> and \<open>flush_buffers\<close> to a disk as a function from blocks to contents; the
  floppy requests are a parameter, with their documented behaviour as hypotheses \<open>device_reads\<close> and \<open>device_writes\<close>, which say
  nothing of requests that fail except that other sectors are untouched.

  \<^bold>\<open>C library.\<close>  \<open>C_Strings\<close> (\<^verbatim>\<open>base/string.c\<close>, \<^verbatim>\<open>lib/string.c\<close>): string functions over a byte memory.  \<open>Strtol\<close>
  (\<^verbatim>\<open>lib/strtol.c\<close>): number conversion with its clamping.  \<open>Datetime\<close> (\<^verbatim>\<open>base/timer.c\<close>, \<^verbatim>\<open>lib/datetime.c\<close>): seconds and
  calendar dates.

  \<^bold>\<open>Bounds.\<close>  The capacity constants are those of the sources: 32 ready queues, 30 buffers on 7 hash chains, a table of 9 sectors
  with 3072 entries.  Theorems on \<open>alloc_block12\<close> ask for a volume of at most 3072 clusters, which a floppy of 2880 sectors meets;
  the bound of its search is the one of the code, \<^verbatim>\<open>total_sect / spc\<close>.  A sound table (\<open>fat_sound\<close>) may have the media byte in its first
  entry and bad clusters that no entry links to.
  Theorems on \<open>getblk\<close> ask, in \<open>getblk_ready\<close>, for a buffer that can be granted without sleeping and without the two
  situations that the code mishandles: a marked buffer at the front of the free list and a buffer that is alone on its chain.

  \<^bold>\<open>Defects.\<close>  Where the code does not do what it means to, the model follows the code, the theorem has the exact condition, and
  a separate theorem or lemma shows the behaviour: for instance \<open>malloc_zero_free_hangs\<close>, \<open>recycled_chain_hangs\<close>,
  \<open>queued_buffer_null\<close>, \<open>flush_ignores_failure\<close>, \<open>sem_timeout_then_post_null\<close>, \<open>date_year_boundary_overrun\<close>, \<open>free_empty_file_clears_reserved\<close>.

  \<^bold>\<open>Not modelled.\<close>  Page tables, memory regions and page faults (\<^verbatim>\<open>base/vmmap.c\<close>), process creation, exec and termination
  (\<^verbatim>\<open>base/process.c\<close>, \<^verbatim>\<open>base/pthread.c\<close>): they edit processor structures and stacks by physical address while paging is
  switched off.  Directory blocks and the data transfer of files (\<^verbatim>\<open>base/fat12.c\<close>), the open file table and path lookup
  (\<^verbatim>\<open>base/fs.c\<close>).  The drivers (\<^verbatim>\<open>base/fdc.c\<close>, \<^verbatim>\<open>base/kbd.c\<close>, \<^verbatim>\<open>base/vdisplay.c\<close>, \<^verbatim>\<open>base/nic.c\<close>), the socket layer,
  interrupt entry, start-up, system call dispatch, the shell and the sample programs.  Formatted input and output and floating
  point (\<^verbatim>\<open>src/lib\<close>).  The floppy image tool (\<^verbatim>\<open>src/imgcopy\<close>) and the bundled emulator and assembler (\<^verbatim>\<open>src/bochs\<close>,
  \<^verbatim>\<open>src/nasm\<close>), which are not part of the kernel.
\<close>

end
